(* ===== verification/Prelude.thy ===== *)
theory Prelude
  imports Main "HOL-Library.Word" "HOL-Library.Multiset"
begin

section \<open>Shared vocabulary of the development\<close>

text \<open>
  The types, byte-buffer operations and C library functions that the components share.
  A byte is a HOL \<open>char\<close> (eight bits).  A C string that is only read is a \<open>string\<close>
  without its terminator; a buffer that the code writes is a list of bytes of the
  buffer's size, in which a string ends at the first \<open>NUL\<close>.  \<open>size_t\<close> is a 64-bit
  word; it is used where an expression of the code depends on wrap-around, and \<open>nat\<close>
  is used for sizes that cannot wrap.  \<open>malloc\<close> may fail: an operation that allocates
  takes a predicate that says which of its requests succeed.
\<close>

named_theorems wf_rules \<open>operations that keep a well-formedness invariant\<close>
named_theorems absf \<open>the effect of an operation on the abstraction of the state\<close>

type_synonym byte = char
type_synonym size_t = "64 word"
type_synonym alloc = "nat \<Rightarrow> bool"

abbreviation NUL :: char where
  "NUL \<equiv> CHR 0x00"

text \<open>The \<open>errno\<close> values that the code returns, negated.\<close>

definition ENOENT :: int where "ENOENT = 2"
definition ENOMEM :: int where "ENOMEM = 12"
definition EINVAL :: int where "EINVAL = 22"

lemmas errno_defs = ENOENT_def ENOMEM_def EINVAL_def

subsection \<open>Words\<close>

lemma unat_of_nat_less:
  "n < 2 ^ LENGTH('a::len) \<Longrightarrow> unat (of_nat n :: 'a word) = n"
  by (simp add: unsigned_of_nat take_bit_nat_eq_self)

subsection \<open>Writing a block into a buffer\<close>

text \<open>\<open>memcpy\<close> of \<open>ys\<close> to offset \<open>i\<close> of the buffer \<open>xs\<close>.\<close>

definition write_at :: "'a list \<Rightarrow> nat \<Rightarrow> 'a list \<Rightarrow> 'a list" where
  "write_at xs i ys = take i xs @ ys @ drop (i + length ys) xs"

lemma length_write_at [simp]:
  "i + length ys \<le> length xs \<Longrightarrow> length (write_at xs i ys) = length xs"
  by (simp add: write_at_def)

lemma take_write_at [simp]:
  "i \<le> length xs \<Longrightarrow> take (i + length ys) (write_at xs i ys) = take i xs @ ys"
  by (simp add: write_at_def)

lemma take_write_at_le [simp]:
  "j \<le> i \<Longrightarrow> i \<le> length xs \<Longrightarrow> take j (write_at xs i ys) = take j xs"
  by (simp add: write_at_def min_absorb1)

lemma drop_write_at [simp]:
  "i \<le> length xs \<Longrightarrow> drop (i + length ys) (write_at xs i ys) = drop (i + length ys) xs"
  by (simp add: write_at_def)

lemma write_at_Nil [simp]: "write_at xs i [] = xs"
  by (simp add: write_at_def)

lemma nth_write_at:
  "i + length ys \<le> length xs \<Longrightarrow> k < length xs \<Longrightarrow>
     write_at xs i ys ! k = (if k < i then xs ! k
       else if k < i + length ys then ys ! (k - i) else xs ! k)"
  by (auto simp: write_at_def nth_append)

subsection \<open>Lists of lists\<close>

lemma nth_update: "xs[i := x] ! j = (if i = j \<and> i < length xs then x else xs ! j)"
  by (cases "i < length xs") (auto simp: nth_list_update list_update_beyond)

lemma distinct_concat_nth:
  assumes "\<And>i. i < length xss \<Longrightarrow> distinct (xss ! i)"
    and "\<And>i j. i < length xss \<Longrightarrow> j < length xss \<Longrightarrow> i \<noteq> j \<Longrightarrow> set (xss ! i) \<inter> set (xss ! j) = {}"
  shows "distinct (concat xss)"
  using assms
proof (induction xss)
  case (Cons xs xss)
  have "distinct (concat xss)"
    using Cons.prems(1) [of "Suc i" for i] Cons.prems(2) [of "Suc i" "Suc j" for i j]
    by (intro Cons.IH) auto
  moreover have "set xs \<inter> set ys = {}" if "ys \<in> set xss" for ys
  proof -
    from that obtain j where "j < length xss" "ys = xss ! j" by (auto simp: in_set_conv_nth)
    then show ?thesis using Cons.prems(2) [of 0 "Suc j"] by simp
  qed
  ultimately show ?case using Cons.prems(1) [of 0] by auto
qed simp

lemma in_concat_mapE:
  assumes "x \<in> set (concat (map f ys))"
  obtains i where "i < length ys" "x \<in> set (f (ys ! i))"
  using assms by (auto simp: in_set_conv_nth [of _ ys])

lemma map_of_replace:
  "k \<notin> fst ` set xs \<Longrightarrow> map_of (xs @ (k, v) # ys) = (map_of (xs @ (k, w) # ys))(k \<mapsto> v)"
  by (induction xs) (auto simp: fun_upd_twist simp del: map_of_append)

lemma map_of_remove:
  "distinct (map fst (xs @ (k, w) # ys)) \<Longrightarrow> map_of (xs @ ys) = (map_of (xs @ (k, w) # ys))(k := None)"
  by (induction xs) (auto simp: fun_eq_iff map_of_eq_None_iff simp del: map_of_append)

lemma map_of_snoc:
  "k \<notin> fst ` set xs \<Longrightarrow> map_of (xs @ [(k, v)]) = (map_of xs)(k \<mapsto> v)"
  by (induction xs) (auto simp: fun_upd_twist simp del: map_of_append)

lemma length_concat_update:
  "i < length xss \<Longrightarrow>
     length (concat (xss[i := xs])) + length (xss ! i) = length (concat xss) + length xs"
proof (induction xss arbitrary: i)
  case (Cons ys xss)
  then show ?case by (cases i) auto
qed simp

text \<open>Partitioning a list by a key below \<open>n\<close> keeps its elements.\<close>

lemma mset_partition:
  assumes "\<And>x. x \<in> set xs \<Longrightarrow> g x < (n::nat)"
  shows "mset (concat (map (\<lambda>i. rev (filter (\<lambda>x. g x = i) xs)) [0..<n])) = mset xs"
proof -
  have "mset (concat (map (\<lambda>i. rev (filter (\<lambda>x. g x = i) xs)) [0..<m])) = mset (filter (\<lambda>x. g x < m) xs)" for m
  proof (induction m)
    case (Suc m)
    have "mset (filter (\<lambda>x. g x < Suc m) xs) = mset (filter (\<lambda>x. g x < m) xs) + mset (filter (\<lambda>x. g x = m) xs)"
      by (induction xs) auto
    with Suc show ?case by simp
  qed simp
  moreover have "filter (\<lambda>x. g x < n) xs = xs"
    using assms by (simp add: filter_id_conv)
  ultimately show ?thesis by metis
qed

subsection \<open>Slices\<close>

text \<open>The bytes of \<open>xs\<close> from offset \<open>i\<close> up to offset \<open>j\<close>.\<close>

definition slice :: "nat \<Rightarrow> nat \<Rightarrow> 'a list \<Rightarrow> 'a list" where
  "slice i j xs = take (j - i) (drop i xs)"

lemma length_slice [simp]: "j \<le> length xs \<Longrightarrow> length (slice i j xs) = j - i"
  by (simp add: slice_def)

lemma slice_empty [simp]: "j \<le> i \<Longrightarrow> slice i j xs = []"
  by (simp add: slice_def)

lemma slice_split:
  assumes "i \<le> k" "k \<le> j"
  shows "slice i j xs = slice i k xs @ slice k j xs"
proof -
  have "j - i = (k - i) + (j - k)" and "k = (k - i) + i"
    using assms by auto
  then show ?thesis
    by (metis drop_drop slice_def take_add)
qed

lemma take_slice: "k \<le> j - i \<Longrightarrow> take k (slice i j xs) = slice i (i + k) xs"
  by (simp add: slice_def min_absorb1)

lemma drop_slice: "drop k (slice i j xs) = slice (i + k) j xs"
  by (simp add: slice_def drop_take add.commute)

lemma slice_write_at:
  "i \<le> j \<Longrightarrow> j \<le> length xs \<Longrightarrow>
     slice i (j + length ys) (write_at xs j ys) = slice i j xs @ ys"
  by (simp add: slice_def write_at_def drop_take)

subsection \<open>The C string functions\<close>

text \<open>\<open>strcmp\<close> compares as unsigned bytes; the terminator counts as 0.\<close>

fun strcmp :: "string \<Rightarrow> string \<Rightarrow> int" where
  "strcmp [] [] = 0"
| "strcmp [] (d # ds) = - int (of_char d)"
| "strcmp (c # cs) [] = int (of_char c)"
| "strcmp (c # cs) (d # ds) =
     (if c = d then strcmp cs ds else int (of_char c) - int (of_char d))"

definition cstring :: "string \<Rightarrow> bool" where
  "cstring s \<longleftrightarrow> NUL \<notin> set s"

lemma cstring_Nil [simp]: "cstring []"
  and cstring_Cons [simp]: "cstring (c # s) \<longleftrightarrow> c \<noteq> NUL \<and> cstring s"
  and cstring_append [simp]: "cstring (s @ t) \<longleftrightarrow> cstring s \<and> cstring t"
  by (auto simp: cstring_def)

lemma of_char_eq_0 [simp]: "(of_char c :: nat) = 0 \<longleftrightarrow> c = NUL"
  using of_char_eq_iff [of c NUL] by simp

lemma strcmp_eq_0_iff:
  "cstring s \<Longrightarrow> cstring t \<Longrightarrow> strcmp s t = 0 \<longleftrightarrow> s = t"
  by (induction s t rule: strcmp.induct) auto

end
