(* ===== verification/Comparator.thy ===== *)
theory Comparator
  imports Prelude
begin

section \<open>The contract of a comparison function\<close>

text \<open>
  The heap and the sorting routines take a comparison function with the sign convention
  of \<open>qsort\<close>.  They rely on it being a total preorder on the elements in use; \<open>strcmp\<close>,
  which the program passes as \<open>string_compare\<close> and inside \<open>elem_compare\<close>, is one on strings
  without inner terminators.
\<close>

locale comparator =
  fixes cmp :: "'a \<Rightarrow> 'a \<Rightarrow> int"
    and valid :: "'a \<Rightarrow> bool"
  assumes cmp_total: "valid a \<Longrightarrow> valid b \<Longrightarrow> cmp a b \<le> 0 \<or> cmp b a \<le> 0"
    and cmp_trans: "valid a \<Longrightarrow> valid b \<Longrightarrow> valid c \<Longrightarrow> cmp a b \<le> 0 \<Longrightarrow> cmp b c \<le> 0 \<Longrightarrow> cmp a c \<le> 0"
begin

lemma cmp_refl: "valid a \<Longrightarrow> cmp a a \<le> 0"
  using cmp_total [of a a] by simp

lemma cmp_gt: "valid a \<Longrightarrow> valid b \<Longrightarrow> \<not> cmp a b \<le> 0 \<Longrightarrow> cmp b a \<le> 0"
  using cmp_total [of a b] by simp

end

lemma strcmp_swap: "strcmp s t = - strcmp t s"
  by (induction s t rule: strcmp.induct) auto

lemma strcmp_trans:
  "cstring s \<Longrightarrow> cstring t \<Longrightarrow> cstring u \<Longrightarrow> strcmp s t \<le> 0 \<Longrightarrow> strcmp t u \<le> 0 \<Longrightarrow> strcmp s u \<le> 0"
proof (induction s t arbitrary: u rule: strcmp.induct)
  case 1
  then show ?case by (cases u) auto
next
  case (2 d ds)
  then show ?case by (cases u) auto
next
  case (3 c cs)
  then have "int (of_char c) = 0" by simp
  with 3 show ?case by simp
next
  case (4 c cs d ds)
  show ?case
  proof (cases u)
    case Nil
    with 4 show ?thesis by simp
  next
    case (Cons e es)
    with 4 show ?thesis by (auto split: if_splits)
  qed
qed

interpretation strcmp_order: comparator strcmp cstring
proof unfold_locales
  fix s t u :: string
  show "strcmp s t \<le> 0 \<or> strcmp t s \<le> 0"
    using strcmp_swap [of s t] by linarith
  assume "cstring s" "cstring t" "cstring u" "strcmp s t \<le> 0" "strcmp t u \<le> 0"
  then show "strcmp s u \<le> 0" by (rule strcmp_trans)
qed

end
