(* ===== verification/Prio_Queue.thy ===== *)
theory Prio_Queue
  imports Comparator
begin

section \<open>The contract of a priority queue\<close>

text \<open>
  What a client of the heap relies on: an accepted element joins the contents, and an
  extraction takes out a least one.  From these laws alone follows that draining a queue
  yields its contents in order.
\<close>

fun pq_drain :: "('q \<Rightarrow> ('a \<times> 'q) option option) \<Rightarrow> nat \<Rightarrow> 'q \<Rightarrow> 'a list option" where
  "pq_drain ext 0 q = Some []"
| "pq_drain ext (Suc n) q =
     (case ext q of
        None \<Rightarrow> None
      | Some None \<Rightarrow> Some []
      | Some (Some (x, q')) \<Rightarrow> map_option (Cons x) (pq_drain ext n q'))"

fun pq_fill :: "('q \<Rightarrow> 'a \<Rightarrow> (bool \<times> 'q) option) \<Rightarrow> 'a list \<Rightarrow> 'q \<Rightarrow> 'q option" where
  "pq_fill ins [] q = Some q"
| "pq_fill ins (x # xs) q = (case ins q x of Some (True, q') \<Rightarrow> pq_fill ins xs q' | _ \<Rightarrow> None)"

locale prio_queue = comparator cmp valid
  for cmp :: "'a \<Rightarrow> 'a \<Rightarrow> int" and valid :: "'a \<Rightarrow> bool" +
  fixes invar :: "'q \<Rightarrow> bool"
    and content :: "'q \<Rightarrow> 'a multiset"
    and room :: "'q \<Rightarrow> nat"
    and ins :: "'q \<Rightarrow> 'a \<Rightarrow> (bool \<times> 'q) option"
    and ext :: "'q \<Rightarrow> ('a \<times> 'q) option option"
  assumes ins_law: "invar q \<Longrightarrow> valid x \<Longrightarrow> 0 < room q \<Longrightarrow>
      \<exists>q'. ins q x = Some (True, q') \<and> invar q' \<and> content q' = add_mset x (content q) \<and> Suc (room q') = room q"
    and ext_law: "invar q \<Longrightarrow> content q \<noteq> {#} \<Longrightarrow>
      \<exists>x q'. ext q = Some (Some (x, q')) \<and> invar q' \<and> content q = add_mset x (content q')
        \<and> (\<forall>y \<in># content q. cmp x y \<le> 0)"
    and ext_empty: "invar q \<Longrightarrow> content q = {#} \<Longrightarrow> ext q = Some None"
begin

lemma drain_sorted:
  assumes "invar q" "size (content q) \<le> n"
  shows "\<exists>xs. pq_drain ext n q = Some xs \<and> mset xs = content q \<and> sorted_wrt (\<lambda>x y. cmp x y \<le> 0) xs"
  using assms
proof (induction n arbitrary: q)
  case 0
  then show ?case by simp
next
  case (Suc n)
  show ?case
  proof (cases "content q = {#}")
    case True
    with ext_empty Suc.prems(1) show ?thesis by simp
  next
    case False
    then obtain x q' where q': "ext q = Some (Some (x, q'))" "invar q'" "content q = add_mset x (content q')"
      "\<forall>y \<in># content q. cmp x y \<le> 0"
      using ext_law Suc.prems(1) by blast
    with Suc.IH [of q'] Suc.prems(2) obtain xs where
      xs: "pq_drain ext n q' = Some xs" "mset xs = content q'" "sorted_wrt (\<lambda>x y. cmp x y \<le> 0) xs"
      by auto
    from xs(2) have "set xs = set_mset (content q')" using set_mset_mset by metis
    with q' xs show ?thesis by simp
  qed
qed

lemma fill_content:
  assumes "invar q" "\<forall>x \<in> set xs. valid x" "length xs \<le> room q"
  shows "\<exists>q'. pq_fill ins xs q = Some q' \<and> invar q' \<and> content q' = content q + mset xs"
  using assms
proof (induction xs arbitrary: q)
  case (Cons x xs)
  then obtain q' where "ins q x = Some (True, q')" "invar q'" "content q' = add_mset x (content q)" "Suc (room q') = room q"
    using ins_law [of q x] by auto
  with Cons.IH [of q'] Cons.prems show ?case by simp
qed simp

text \<open>Filling a queue and draining it sorts.\<close>

lemma fill_drain_sorts:
  assumes "invar q" "content q = {#}" "\<forall>x \<in> set xs. valid x" "length xs \<le> room q"
  shows "\<exists>q' ys. pq_fill ins xs q = Some q' \<and> pq_drain ext (length xs) q' = Some ys
    \<and> mset ys = mset xs \<and> sorted_wrt (\<lambda>x y. cmp x y \<le> 0) ys"
proof -
  from fill_content [OF assms(1,3,4)] assms(2) obtain q'
    where "pq_fill ins xs q = Some q'" "invar q'" "content q' = mset xs" by auto
  with drain_sorted [of q' "length xs"] show ?thesis by auto
qed

end

end
