(* ===== verification/Bin_Heap.thy ===== *)
theory Bin_Heap
  imports Prio_Queue
begin

section \<open>The binary heap (heap.c, heap.h)\<close>

text \<open>
  The array holds \<open>alloc\<close> slots of \<open>size\<close> bytes, of which the first \<open>count\<close> are in use.
  Swapping goes through the buffer behind the structure, of \<open>buf_len\<close> bytes; swapping
  elements that do not fit is the result \<open>None\<close>.  The calls of the \<open>update\<close> callback are
  collected in \<open>updates\<close>.  Positions are natural numbers: the code's \<open>int\<close> positions stay
  below the number of elements.
\<close>

record 'a heap =
  alloc :: nat
  size :: nat
  count :: nat
  array :: "'a list"
  compare :: "'a \<Rightarrow> 'a \<Rightarrow> int"
  has_update :: bool
  buf_len :: nat
  updates :: "('a \<times> nat) list"

subsection \<open>Operations\<close>

definition left_child :: "nat \<Rightarrow> nat" where
  "left_child i = 2 * i + 1"

definition right_child :: "nat \<Rightarrow> nat" where
  "right_child i = 2 * i + 2"

definition parent :: "nat \<Rightarrow> nat" where
  "parent i = (if i > 0 then (i - 1) div 2 else 0)"

text \<open>
  The structure is allocated with \<open>sizeof(size)\<close> bytes for the buffer, the size of a
  \<open>size_t\<close>, whatever the size of the elements.
\<close>

definition heap_create ::
    "bool \<Rightarrow> bool \<Rightarrow> nat \<Rightarrow> nat \<Rightarrow> ('a \<Rightarrow> 'a \<Rightarrow> int) option \<Rightarrow> bool \<Rightarrow> 'a list \<Rightarrow> 'a heap option" where
  "heap_create mem_h mem_array n sz cmp upd uninit =
     (case cmp of None \<Rightarrow> None
      | Some f \<Rightarrow>
          if \<not> mem_h then None
          else if \<not> mem_array then None
          else Some \<lparr>alloc = n, size = sz, count = 0, array = uninit, compare = f,
                     has_update = upd, buf_len = 8, updates = []\<rparr>)"

definition heap_empty :: "'a heap \<Rightarrow> bool" where
  "heap_empty h \<longleftrightarrow> count h = 0"

definition heap_top :: "'a heap \<Rightarrow> 'a option" where
  "heap_top h = (if count h \<noteq> 0 then Some (array h ! 0) else None)"

definition heap_len :: "'a heap \<Rightarrow> nat" where
  "heap_len h = count h"

definition heap_index :: "'a heap \<Rightarrow> nat \<Rightarrow> 'a option" where
  "heap_index h i = (if i \<ge> count h then None else Some (array h ! i))"

text \<open>
  Exchange the slots \<open>i\<close> and \<open>j\<close> and tell the callback: it is called with the slot \<open>i\<close> and
  the position \<open>j\<close>, then with the slot \<open>j\<close> and the position \<open>i\<close>.
\<close>

definition heap_swap :: "'a heap \<Rightarrow> nat \<Rightarrow> nat \<Rightarrow> 'a heap option" where
  "heap_swap h i j =
     (if size h \<le> buf_len h then
        let a = (array h)[j := array h ! i, i := array h ! j]
        in Some (h\<lparr>array := a,
                   updates := updates h @ (if has_update h then [(a ! i, j), (a ! j, i)] else [])\<rparr>)
      else None)"

lemma heap_swap_sel:
  "heap_swap h i j = Some h' \<Longrightarrow> count h' = count h \<and> alloc h' = alloc h \<and> compare h' = compare h
     \<and> size h' = size h \<and> buf_len h' = buf_len h \<and> has_update h' = has_update h"
  by (auto simp: heap_swap_def Let_def split: if_splits)

function heapify :: "'a heap \<Rightarrow> nat \<Rightarrow> 'a heap option" where
  "heapify h i =
     (if i < count h then
        let l = left_child i; r = right_child i; a = array h;
            m = (if l < count h \<and> compare h (a ! i) (a ! l) > 0 then l else i);
            m' = (if r < count h \<and> compare h (a ! m) (a ! r) > 0 then r else m)
        in if i \<noteq> m' then (case heap_swap h i m' of None \<Rightarrow> None | Some h' \<Rightarrow> heapify h' m')
           else Some h
      else Some h)"
  by pat_completeness auto
termination
  by (relation "measure (\<lambda>(h, i). count h - i)")
    (auto simp: left_child_def right_child_def dest!: heap_swap_sel split: if_splits)

declare heapify.simps [simp del]

definition heap_extract :: "'a heap \<Rightarrow> (int \<times> 'a option \<times> 'a heap) option" where
  "heap_extract h =
     (if count h = 0 then Some (- ENOENT, None, h)
      else let c = count h - 1;
               h' = h\<lparr>count := c, array := (array h)[0 := array h ! c]\<rparr>
           in map_option (\<lambda>h''. (0, Some (array h ! 0), h'')) (heapify h' 0))"

function heap_update_key :: "'a heap \<Rightarrow> nat \<Rightarrow> 'a heap option" where
  "heap_update_key h i =
     (if i > 0 then
        let p = parent i
        in if compare h (array h ! p) (array h ! i) \<le> 0 then Some h
           else (case heap_swap h i p of None \<Rightarrow> None | Some h' \<Rightarrow> heap_update_key h' p)
      else Some h)"
  by pat_completeness auto
termination
  by (relation "measure (\<lambda>(h, i). i)") (auto simp: parent_def)

declare heap_update_key.simps [simp del]

definition heap_update :: "'a heap \<Rightarrow> nat \<Rightarrow> 'a heap option" where
  "heap_update h pos =
     (case heap_update_key h pos of None \<Rightarrow> None | Some h' \<Rightarrow> heapify h' pos)"

definition heap_insert :: "'a heap \<Rightarrow> 'a \<Rightarrow> (int \<times> 'a heap) option" where
  "heap_insert h x =
     (if count h = alloc h then Some (- ENOMEM, h)
      else let i = count h;
               h' = h\<lparr>array := (array h)[i := x], count := Suc (count h)\<rparr>
           in map_option (\<lambda>h''. (0, h'')) (heap_update_key h' i))"

subsection \<open>Invariant and abstraction\<close>

definition heap_mset :: "'a heap \<Rightarrow> 'a multiset" where
  "heap_mset h = mset (take (count h) (array h))"

text \<open>The edge above position \<open>j\<close> is in order.\<close>

definition edge_ok :: "'a heap \<Rightarrow> nat \<Rightarrow> bool" where
  "edge_ok h j \<longleftrightarrow> compare h (array h ! parent j) (array h ! j) \<le> 0"

definition slots_wf :: "('a \<Rightarrow> 'a \<Rightarrow> int) \<Rightarrow> ('a \<Rightarrow> bool) \<Rightarrow> 'a heap \<Rightarrow> bool" where
  "slots_wf cmp valid h \<longleftrightarrow> compare h = cmp \<and> size h \<le> buf_len h \<and> length (array h) = alloc h
     \<and> count h \<le> alloc h \<and> (\<forall>i < count h. valid (array h ! i))"

definition heap_ordered :: "'a heap \<Rightarrow> bool" where
  "heap_ordered h \<longleftrightarrow> (\<forall>j. 0 < j \<longrightarrow> j < count h \<longrightarrow> edge_ok h j)"

definition heap_wf :: "('a \<Rightarrow> 'a \<Rightarrow> int) \<Rightarrow> ('a \<Rightarrow> bool) \<Rightarrow> 'a heap \<Rightarrow> bool" where
  "heap_wf cmp valid h \<longleftrightarrow> slots_wf cmp valid h \<and> heap_ordered h"

subsection \<open>Lemmas on positions and swaps\<close>

lemma parent_less: "0 < j \<Longrightarrow> parent j < j"
  by (simp add: parent_def)

lemma parent_0 [simp]: "parent 0 = 0"
  by (simp add: parent_def)

lemma parent_iff: "0 < j \<Longrightarrow> parent j = i \<longleftrightarrow> j = left_child i \<or> j = right_child i"
  by (auto simp: parent_def left_child_def right_child_def)

lemma child_less [simp]: "i < left_child i" "i < right_child i" "0 < left_child i" "0 < right_child i"
  by (auto simp: left_child_def right_child_def)

lemma heap_swap_ok:
  assumes "slots_wf cmp valid h" "i < count h" "j < count h"
  obtains h' where "heap_swap h i j = Some h'" "slots_wf cmp valid h'" "count h' = count h"
    "alloc h' = alloc h" "heap_mset h' = heap_mset h"
    "array h' = (array h)[j := array h ! i, i := array h ! j]"
proof -
  from assms(1) obtain h' where h': "heap_swap h i j = Some h'"
    by (auto simp: heap_swap_def slots_wf_def Let_def)
  then have arr: "array h' = (array h)[j := array h ! i, i := array h ! j]"
    by (auto simp: heap_swap_def Let_def split: if_splits)
  note sel = heap_swap_sel [OF h']
  have "slots_wf cmp valid h'"
    using assms sel by (auto simp: slots_wf_def arr nth_list_update)
  moreover have "mset (take (count h) (array h')) = mset (take (count h) (array h))"
    using mset_swap [of i "take (count h) (array h)" j] assms
    by (simp add: arr slots_wf_def take_update_swap)
  ultimately show ?thesis
    using that h' sel arr by (simp add: heap_mset_def)
qed

context comparator
begin

lemma slots_valid: "slots_wf cmp valid h \<Longrightarrow> i < count h \<Longrightarrow> valid (array h ! i)"
  by (simp add: slots_wf_def)

text \<open>
  While an element sinks at \<open>i\<close>, every edge is in order but those below \<open>i\<close>, and the
  children of \<open>i\<close> are in order with its parent.
\<close>

definition sinking :: "'a heap \<Rightarrow> nat \<Rightarrow> bool" where
  "sinking h i \<longleftrightarrow>
     (\<forall>j. 0 < j \<longrightarrow> j < count h \<longrightarrow> parent j \<noteq> i \<longrightarrow> cmp (array h ! parent j) (array h ! j) \<le> 0)
     \<and> (\<forall>j. 0 < j \<longrightarrow> j < count h \<longrightarrow> parent j = i \<longrightarrow> 0 < i \<longrightarrow> cmp (array h ! parent i) (array h ! j) \<le> 0)"

lemma sinking_step:
  assumes h: "slots_wf cmp valid h" "sinking h i"
    and m: "0 < m" "m < count h" "parent m = i" "cmp (array h ! m) (array h ! i) \<le> 0"
    and least: "\<And>j. 0 < j \<Longrightarrow> j < count h \<Longrightarrow> parent j = i \<Longrightarrow> cmp (array h ! m) (array h ! j) \<le> 0"
    and arr: "array h' = (array h)[m := array h ! i, i := array h ! m]" "count h' = count h"
  shows "sinking h' m"
proof -
  have im: "i < m" "i < count h" using parent_less [OF m(1)] m by auto
  have len: "m < length (array h)" "i < length (array h)" using h(1) im m(2) by (auto simp: slots_wf_def)
  have nth: "array h' ! j = (if j = i then array h ! m else if j = m then array h ! i else array h ! j)" for j
    using len im by (auto simp: arr nth_list_update)
  show ?thesis
    unfolding sinking_def
  proof (intro conjI allI impI)
    fix j assume j: "0 < j" "j < count h'" "parent j \<noteq> m"
    show "cmp (array h' ! parent j) (array h' ! j) \<le> 0"
    proof (cases "parent j = i")
      case True
      then show ?thesis
        using least [of j] m im j arr(2) parent_less [OF j(1)] by (auto simp: nth)
    next
      case False
      show ?thesis
      proof (cases "j = i")
        case True
        have "0 < i" using j True by simp
        then have "cmp (array h ! parent i) (array h ! m) \<le> 0"
          using h(2) m by (auto simp: sinking_def)
        then show ?thesis
          using True j parent_less [OF \<open>0 < i\<close>] im by (auto simp: nth)
      next
        case neq: False
        then show ?thesis
          using False j h(2) m arr(2) by (auto simp: nth sinking_def)
      qed
    qed
  next
    fix j assume j: "0 < j" "j < count h'" "parent j = m" "0 < m"
    then have "cmp (array h ! m) (array h ! j) \<le> 0"
      using h(2) im arr(2) by (auto simp: sinking_def)
    then show "cmp (array h' ! parent m) (array h' ! j) \<le> 0"
      using j m(3) parent_less [OF j(1)] im by (auto simp: nth)
  qed
qed

lemma heapify_spec:
  assumes "slots_wf cmp valid h" "sinking h i"
  shows "\<exists>h'. heapify h i = Some h' \<and> heap_wf cmp valid h' \<and> heap_mset h' = heap_mset h
     \<and> count h' = count h \<and> alloc h' = alloc h"
  using assms
proof (induction "count h - i" arbitrary: h i rule: less_induct)
  case less
  let ?a = "array h" and ?l = "left_child i" and ?r = "right_child i"
  let ?m = "if ?l < count h \<and> cmp (?a ! i) (?a ! ?l) > 0 then ?l else i"
  let ?m' = "if ?r < count h \<and> cmp (?a ! ?m) (?a ! ?r) > 0 then ?r else ?m"
  have cmp: "compare h = cmp" using less.prems by (simp add: slots_wf_def)
  show ?case
  proof (cases "i < count h")
    case False
    have "parent j \<noteq> i" if "0 < j" "j < count h" for j
      using parent_less [OF that(1)] that(2) False by simp
    then have "heap_ordered h"
      using less.prems(2) cmp by (simp add: heap_ordered_def edge_ok_def sinking_def)
    with False less.prems(1) show ?thesis
      by (subst heapify.simps) (simp add: heap_wf_def)
  next
    case True
    have vi: "valid (?a ! i)" using slots_valid less.prems(1) True by blast
    have vl: "?l < count h \<Longrightarrow> valid (?a ! ?l)" and vr: "?r < count h \<Longrightarrow> valid (?a ! ?r)"
      using slots_valid less.prems(1) by blast+
    have m1: "valid (?a ! ?m)" "cmp (?a ! ?m) (?a ! i) \<le> 0"
      "?l < count h \<Longrightarrow> cmp (?a ! ?m) (?a ! ?l) \<le> 0"
      using vi vl cmp_gt [OF vi vl] cmp_refl by (auto simp: not_le)
    have m2: "valid (?a ! ?m')" "cmp (?a ! ?m') (?a ! ?m) \<le> 0"
      "?r < count h \<Longrightarrow> cmp (?a ! ?m') (?a ! ?r) \<le> 0"
      using m1(1) vr cmp_gt [OF m1(1) vr] cmp_refl by (auto simp: not_le)
    have least: "cmp (?a ! ?m') (?a ! j) \<le> 0" if "j = i \<or> (j < count h \<and> (j = ?l \<or> j = ?r))" for j
      using that m2(3) cmp_trans [OF m2(1) m1(1) vi m2(2) m1(2)]
        cmp_trans [OF m2(1) m1(1) vl m2(2) m1(3)] by blast
    show ?thesis
    proof (cases "?m' = i")
      case same: True
      have "heap_ordered h"
        unfolding heap_ordered_def edge_ok_def cmp
      proof (intro allI impI)
        fix j assume j: "0 < j" "j < count h"
        then show "cmp (?a ! parent j) (?a ! j) \<le> 0"
          using less.prems(2) least [of j] same parent_iff [OF j(1), of i]
          by (cases "parent j = i") (auto simp: sinking_def)
      qed
      with same True less.prems(1) cmp show ?thesis
        by (subst heapify.simps) (simp add: heap_wf_def Let_def)
    next
      case move: False
      have m: "?m' < count h" "i < ?m'" "0 < ?m'" "parent ?m' = i"
        using move True by (auto simp: parent_iff split: if_splits)
      obtain h' where h': "heap_swap h i ?m' = Some h'" "slots_wf cmp valid h'" "count h' = count h"
        "alloc h' = alloc h" "heap_mset h' = heap_mset h" "array h' = ?a[?m' := ?a ! i, i := ?a ! ?m']"
        by (rule heap_swap_ok [OF less.prems(1) True m(1)])
      have "sinking h' ?m'"
      proof (rule sinking_step [OF less.prems m(3,1,4) _ _ h'(6,3)])
        show "cmp (?a ! ?m') (?a ! i) \<le> 0" by (rule least) simp
        fix j assume "0 < j" "j < count h" "parent j = i"
        then show "cmp (?a ! ?m') (?a ! j) \<le> 0" using parent_iff by (intro least) blast
      qed
      moreover have "count h' - ?m' < count h - i" using h'(3) m True by simp
      ultimately have "\<exists>h''. heapify h' ?m' = Some h'' \<and> heap_wf cmp valid h'' \<and> heap_mset h'' = heap_mset h'
          \<and> count h'' = count h' \<and> alloc h'' = alloc h'"
        using less.hyps [OF _ h'(2)] by blast
      moreover have "heapify h i = heapify h' ?m'"
        using True move h'(1) cmp by (subst heapify.simps) (simp add: Let_def)
      ultimately show ?thesis using h'(3-5) by simp
    qed
  qed
qed

text \<open>
  After the element at \<open>i\<close> changed, the edges at \<open>i\<close> may be out of order; the children of
  \<open>i\<close> are in order with its parent.
\<close>

definition loose :: "'a heap \<Rightarrow> nat \<Rightarrow> bool" where
  "loose h i \<longleftrightarrow>
     (\<forall>j. 0 < j \<longrightarrow> j < count h \<longrightarrow> j \<noteq> i \<longrightarrow> parent j \<noteq> i \<longrightarrow> cmp (array h ! parent j) (array h ! j) \<le> 0)
     \<and> (\<forall>j. 0 < j \<longrightarrow> j < count h \<longrightarrow> parent j = i \<longrightarrow> 0 < i \<longrightarrow> cmp (array h ! parent i) (array h ! j) \<le> 0)"

text \<open>While an element rises at \<open>i\<close>, the edges below \<open>i\<close> are in order as well.\<close>

definition rising :: "'a heap \<Rightarrow> nat \<Rightarrow> bool" where
  "rising h i \<longleftrightarrow> loose h i
     \<and> (\<forall>j. 0 < j \<longrightarrow> j < count h \<longrightarrow> parent j = i \<longrightarrow> cmp (array h ! i) (array h ! j) \<le> 0)"

lemma rising_step:
  assumes h: "slots_wf cmp valid h" "loose h i" "0 < i" "i < count h"
    and gt: "\<not> cmp (array h ! parent i) (array h ! i) \<le> 0"
    and arr: "array h' = (array h)[parent i := array h ! i, i := array h ! parent i]" "count h' = count h"
  shows "rising h' (parent i)"
proof -
  let ?p = "parent i"
  have pi: "?p < i" "?p < count h" using parent_less [OF h(3)] h(4) by auto
  have len: "i < length (array h)" "?p < length (array h)" using h pi by (auto simp: slots_wf_def)
  have nth: "array h' ! j = (if j = i then array h ! ?p else if j = ?p then array h ! i else array h ! j)" for j
    using len pi by (auto simp: arr nth_list_update)
  have v: "valid (array h ! j)" if "j < count h" for j using slots_valid h(1) that by blast
  have le: "cmp (array h ! i) (array h ! ?p) \<le> 0" using cmp_gt [OF v v gt] pi h(4) by simp
  have sib: "cmp (array h ! ?p) (array h ! j) \<le> 0" if "0 < j" "j < count h" "parent j = ?p" "j \<noteq> i" for j
    using h(2) that pi unfolding loose_def by (metis less_irrefl)
  have below: "cmp (array h ! ?p) (array h ! j) \<le> 0" if "0 < j" "j < count h" "parent j = i" for j
    using h(2,3) that by (auto simp: loose_def)
  have above: "cmp (array h ! parent ?p) (array h ! ?p) \<le> 0" if "0 < ?p"
    using h(2) that pi parent_less [OF that] by (auto simp: loose_def)
  have "loose h' ?p"
    unfolding loose_def
  proof (intro conjI allI impI)
    fix j assume j: "0 < j" "j < count h'" "j \<noteq> ?p" "parent j \<noteq> ?p"
    then show "cmp (array h' ! parent j) (array h' ! j) \<le> 0"
      using below [of j] h(2) arr(2) pi parent_less [OF j(1)]
      by (auto simp: nth loose_def)
  next
    fix j assume j: "0 < j" "j < count h'" "parent j = ?p" "0 < ?p"
    have "cmp (array h ! parent ?p) (array h ! j) \<le> 0" if "j \<noteq> i"
      using cmp_trans [OF v v v above [OF j(4)] sib [of j]] that j arr(2) pi parent_less [OF j(4)] by simp
    then show "cmp (array h' ! parent ?p) (array h' ! j) \<le> 0"
      using above [OF j(4)] j pi parent_less [OF j(4)] parent_less [OF j(1)] by (auto simp: nth)
  qed
  moreover have "cmp (array h' ! ?p) (array h' ! j) \<le> 0"
    if j: "0 < j" "j < count h'" "parent j = ?p" for j
    using cmp_trans [OF v v v le sib [of j]] le j arr(2) pi h(4) parent_less [OF j(1)] by (auto simp: nth)
  ultimately show ?thesis by (simp add: rising_def)
qed

lemma rising_ordered:
  assumes "slots_wf cmp valid h" "rising h i" "i = 0 \<or> cmp (array h ! parent i) (array h ! i) \<le> 0"
  shows "heap_ordered h"
proof -
  have "cmp (array h ! parent j) (array h ! j) \<le> 0" if "0 < j" "j < count h" for j
    using assms(2,3) that unfolding rising_def loose_def by (cases "j = i"; cases "parent j = i") auto
  then show ?thesis using assms(1) by (auto simp: heap_ordered_def edge_ok_def slots_wf_def)
qed

lemma heap_update_key_spec:
  assumes "slots_wf cmp valid h" "rising h i" "i < count h"
  shows "\<exists>h'. heap_update_key h i = Some h' \<and> heap_wf cmp valid h' \<and> heap_mset h' = heap_mset h
     \<and> count h' = count h \<and> alloc h' = alloc h"
  using assms
proof (induction i arbitrary: h rule: less_induct)
  case (less i)
  have cmp: "compare h = cmp" using less.prems by (simp add: slots_wf_def)
  show ?case
  proof (cases "i = 0 \<or> cmp (array h ! parent i) (array h ! i) \<le> 0")
    case True
    with rising_ordered [OF less.prems(1,2)] less.prems(1) cmp show ?thesis
      by (subst heap_update_key.simps) (auto simp: heap_wf_def Let_def)
  next
    case False
    then have i: "0 < i" "parent i < i" using parent_less by auto
    obtain h' where h': "heap_swap h i (parent i) = Some h'" "slots_wf cmp valid h'" "count h' = count h"
      "alloc h' = alloc h" "heap_mset h' = heap_mset h"
      "array h' = (array h)[parent i := array h ! i, i := array h ! parent i]"
      using i less.prems by (elim heap_swap_ok [of cmp valid h i "parent i"]) auto
    have "rising h' (parent i)"
      using rising_step [OF less.prems(1) _ i(1) less.prems(3) _ h'(6,3)] less.prems(2) False
      by (simp add: rising_def)
    from less.IH [OF i(2) h'(2) this] h'(3-5) i less.prems(3)
    show ?thesis
      using False h'(1) cmp by (subst heap_update_key.simps) (simp add: Let_def)
  qed
qed

lemma ordered_sinking:
  assumes "slots_wf cmp valid h" "heap_ordered h"
  shows "sinking h i"
proof -
  have edge: "cmp (array h ! parent j) (array h ! j) \<le> 0" if "0 < j" "j < count h" for j
    using assms that by (auto simp: heap_ordered_def edge_ok_def slots_wf_def)
  have "cmp (array h ! parent i) (array h ! j) \<le> 0" if j: "0 < j" "j < count h" "parent j = i" "0 < i" for j
  proof -
    have "i < count h" "parent i < count h"
      using parent_less [OF j(1)] parent_less [OF j(4)] j by auto
    with edge [of i] edge [of j] j assms(1) show ?thesis
      using cmp_trans slots_valid by metis
  qed
  with edge show ?thesis by (auto simp: sinking_def)
qed

lemma ordered_min:
  assumes "slots_wf cmp valid h" "heap_ordered h" "j < count h"
  shows "cmp (array h ! 0) (array h ! j) \<le> 0"
  using assms(3)
proof (induction j rule: less_induct)
  case (less j)
  show ?case
  proof (cases "j = 0")
    case True
    with less.prems show ?thesis using cmp_refl slots_valid [OF assms(1)] by auto
  next
    case False
    then have p: "parent j < j" using parent_less by simp
    have "cmp (array h ! parent j) (array h ! j) \<le> 0"
      using assms(1,2) less.prems False by (auto simp: heap_ordered_def edge_ok_def slots_wf_def)
    with less.IH [OF p] p less.prems show ?thesis
      using cmp_trans slots_valid [OF assms(1)] by (metis gr_zeroI less_trans not_less_zero)
  qed
qed

lemma heap_insert_spec:
  assumes "heap_wf cmp valid h" "valid x" "count h < alloc h"
  shows "\<exists>h'. heap_insert h x = Some (0, h') \<and> heap_wf cmp valid h' \<and> heap_mset h' = add_mset x (heap_mset h)
     \<and> count h' = Suc (count h) \<and> alloc h' = alloc h"
proof -
  let ?i = "count h" and ?h = "h\<lparr>array := (array h)[count h := x], count := Suc (count h)\<rparr>"
  have wf: "slots_wf cmp valid ?h"
    using assms by (auto simp: heap_wf_def slots_wf_def nth_list_update)
  have no_child: "parent j \<noteq> ?i" if "j < Suc ?i" "0 < j" for j using parent_less [OF that(2)] that by simp
  have old: "cmp (array h ! parent j) (array h ! j) \<le> 0" if "0 < j" "j < ?i" for j
    using assms(1) that by (auto simp: heap_wf_def heap_ordered_def edge_ok_def slots_wf_def)
  have "cmp (array ?h ! parent j) (array ?h ! j) \<le> 0" if j: "0 < j" "j < ?i" for j
    using old [OF j] parent_less [OF j(1)] j by simp
  then have rise: "rising ?h ?i"
    using no_child by (auto simp: rising_def loose_def)
  have "heap_mset ?h = add_mset x (heap_mset h)"
    using assms(1,3) by (simp add: heap_mset_def heap_wf_def slots_wf_def take_Suc_conv_app_nth)
  with heap_update_key_spec [OF wf rise] assms(3) show ?thesis
    by (auto simp: heap_insert_def Let_def)
qed

lemma heap_extract_spec:
  assumes "heap_wf cmp valid h" "count h \<noteq> 0"
  shows "\<exists>x h'. heap_extract h = Some (0, Some x, h') \<and> heap_wf cmp valid h'
     \<and> heap_mset h = add_mset x (heap_mset h') \<and> (\<forall>y \<in># heap_mset h. cmp x y \<le> 0)
     \<and> count h = Suc (count h') \<and> alloc h' = alloc h"
proof -
  obtain c where c: "count h = Suc c" using assms(2) not0_implies_Suc by blast
  let ?h = "h\<lparr>count := c, array := (array h)[0 := array h ! c]\<rparr>"
  have h: "slots_wf cmp valid h" "heap_ordered h" using assms by (auto simp: heap_wf_def)
  have wf: "slots_wf cmp valid ?h"
    using h c by (auto simp: slots_wf_def nth_list_update)
  have len: "c < length (array h)" using h c by (simp add: slots_wf_def)
  have sink: "sinking ?h 0"
    using ordered_sinking [OF h, of 0] c by (auto simp: sinking_def)
  have parts: "heap_mset h = add_mset (array h ! 0) (heap_mset ?h)"
  proof (cases "array h")
    case (Cons a as)
    with len show ?thesis
      by (cases c) (auto simp: heap_mset_def c take_Suc_conv_app_nth)
  qed (use len in simp)
  have least: "\<forall>y \<in># heap_mset h. cmp (array h ! 0) y \<le> 0"
    using ordered_min [OF h] h by (auto simp: heap_mset_def in_set_conv_nth slots_wf_def)
  show ?thesis
    using heapify_spec [OF wf sink] parts least c by (auto simp: heap_extract_def Let_def)
qed

lemma heap_update_spec:
  assumes "slots_wf cmp valid h" "loose h i" "i < count h"
  shows "\<exists>h'. heap_update h i = Some h' \<and> heap_wf cmp valid h' \<and> heap_mset h' = heap_mset h
     \<and> count h' = count h \<and> alloc h' = alloc h"
proof (cases "i = 0 \<or> cmp (array h ! parent i) (array h ! i) \<le> 0")
  case True
  then have stay: "heap_update_key h i = Some h"
    using assms(1) by (subst heap_update_key.simps) (auto simp: slots_wf_def Let_def)
  have "sinking h i"
    using assms(2) True by (auto simp: sinking_def loose_def)
  from heapify_spec [OF assms(1) this] stay show ?thesis by (simp add: heap_update_def)
next
  case False
  then have i: "0 < i" "parent i < i" using parent_less by auto
  obtain h' where h': "heap_swap h i (parent i) = Some h'" "slots_wf cmp valid h'" "count h' = count h"
    "alloc h' = alloc h" "heap_mset h' = heap_mset h"
    "array h' = (array h)[parent i := array h ! i, i := array h ! parent i]"
    using i assms by (elim heap_swap_ok [of cmp valid h i "parent i"]) auto
  have rise: "rising h' (parent i)"
    using rising_step [OF assms(1,2) i(1) assms(3) _ h'(6,3)] False by simp
  have "heap_update_key h i = heap_update_key h' (parent i)"
    using assms(1) False h'(1) by (subst heap_update_key.simps) (simp add: slots_wf_def Let_def)
  with heap_update_key_spec [OF h'(2) rise] i assms(3) h'(3-5) obtain h''
    where k: "heap_update_key h i = Some h''" "heap_wf cmp valid h''" "heap_mset h'' = heap_mset h"
      "count h'' = count h" "alloc h'' = alloc h" by auto
  with heapify_spec [of h'' i] ordered_sinking [of h'' i] show ?thesis
    by (auto simp: heap_update_def heap_wf_def)
qed

text \<open>The element at a position of an ordered heap may be replaced: only its own edges are loose.\<close>

lemma replace_loose:
  assumes "heap_wf cmp valid h" "valid x" "i < count h"
  shows "slots_wf cmp valid (h\<lparr>array := (array h)[i := x]\<rparr>)" "loose (h\<lparr>array := (array h)[i := x]\<rparr>) i"
proof -
  have h: "slots_wf cmp valid h" "heap_ordered h" using assms by (auto simp: heap_wf_def)
  show "slots_wf cmp valid (h\<lparr>array := (array h)[i := x]\<rparr>)"
    using h(1) assms(2,3) by (auto simp: slots_wf_def nth_list_update)
  show "loose (h\<lparr>array := (array h)[i := x]\<rparr>) i"
    unfolding loose_def
  proof (intro conjI allI impI)
    fix j assume "0 < j" "j < count (h\<lparr>array := (array h)[i := x]\<rparr>)" "j \<noteq> i" "parent j \<noteq> i"
    with ordered_sinking [OF h, of i] show "cmp (array (h\<lparr>array := (array h)[i := x]\<rparr>) ! parent j)
        (array (h\<lparr>array := (array h)[i := x]\<rparr>) ! j) \<le> 0"
      by (simp add: sinking_def)
  next
    fix j assume j: "0 < j" "j < count (h\<lparr>array := (array h)[i := x]\<rparr>)" "parent j = i" "0 < i"
    moreover have "j \<noteq> i" "parent i \<noteq> i" using parent_less [OF j(1)] parent_less [OF j(4)] j(3) by auto
    ultimately show "cmp (array (h\<lparr>array := (array h)[i := x]\<rparr>) ! parent i)
        (array (h\<lparr>array := (array h)[i := x]\<rparr>) ! j) \<le> 0"
      using ordered_sinking [OF h, of i] by (simp add: sinking_def)
  qed
qed

end

lemma heap_create_wf:
  "heap_create m1 m2 n sz (Some cmp) up uninit = Some h \<Longrightarrow> sz \<le> 8 \<Longrightarrow> length uninit = n \<Longrightarrow>
     heap_wf cmp valid h \<and> heap_mset h = {#} \<and> alloc h = n \<and> count h = 0"
  by (auto simp: heap_create_def heap_wf_def slots_wf_def heap_ordered_def heap_mset_def split: if_splits)

definition heap_push :: "'a heap \<Rightarrow> 'a \<Rightarrow> (bool \<times> 'a heap) option" where
  "heap_push h x = map_option (\<lambda>(r, h'). (r = 0, h')) (heap_insert h x)"

definition heap_pull :: "'a heap \<Rightarrow> ('a \<times> 'a heap) option option" where
  "heap_pull h = map_option (\<lambda>(r, x, h'). map_option (\<lambda>x. (x, h')) x) (heap_extract h)"

sublocale comparator \<subseteq> heap_pq: prio_queue cmp valid "heap_wf cmp valid" heap_mset "\<lambda>h. alloc h - count h"
  heap_push heap_pull
proof
  fix h :: "'a heap" and x
  assume "heap_wf cmp valid h" "valid x" "0 < alloc h - count h"
  then show "\<exists>h'. heap_push h x = Some (True, h') \<and> heap_wf cmp valid h'
      \<and> heap_mset h' = add_mset x (heap_mset h) \<and> Suc (alloc h' - count h') = alloc h - count h"
    using heap_insert_spec [of h x] by (auto simp: heap_push_def)
next
  fix h :: "'a heap"
  assume h: "heap_wf cmp valid h"
  have empty: "heap_mset h = {#} \<longleftrightarrow> count h = 0"
    using h by (auto simp: heap_mset_def heap_wf_def slots_wf_def)
  show "\<exists>x h'. heap_pull h = Some (Some (x, h')) \<and> heap_wf cmp valid h' \<and> heap_mset h = add_mset x (heap_mset h')
      \<and> (\<forall>y \<in># heap_mset h. cmp x y \<le> 0)" if "heap_mset h \<noteq> {#}"
    using heap_extract_spec [OF h] that empty by (fastforce simp: heap_pull_def)
  show "heap_pull h = Some None" if "heap_mset h = {#}"
    using that empty by (simp add: heap_pull_def heap_extract_def)
qed

subsection \<open>Properties\<close>



text \<open>
  \<open>heap_insert\<close> on a full heap returns \<open>-ENOMEM\<close> and changes nothing; otherwise it
  adds the element and keeps the heap ordered.  \<open>heap_extract\<close> on an empty heap returns
  \<open>-ENOENT\<close>; otherwise it removes and returns a least element.
\<close>

theorem heap_insert_extract:
  assumes "heap_wf strcmp cstring h" "cstring x"
  shows "(if count h = alloc h then heap_insert h x = Some (- ENOMEM, h)
      else \<exists>h'. heap_insert h x = Some (0, h') \<and> heap_wf strcmp cstring h'
        \<and> heap_mset h' = add_mset x (heap_mset h))
   \<and> (if count h = 0 then heap_extract h = Some (- ENOENT, None, h)
      else \<exists>y h'. heap_extract h = Some (0, Some y, h') \<and> heap_wf strcmp cstring h'
        \<and> heap_mset h = add_mset y (heap_mset h') \<and> heap_top h = Some y
        \<and> (\<forall>z \<in># heap_mset h. strcmp y z \<le> 0))"
proof -
  have "count h \<le> alloc h" using assms by (simp add: heap_wf_def slots_wf_def)
  moreover have "heap_top h = Some y" if "heap_extract h = Some (0, Some y, h')" for y h'
    using that by (auto simp: heap_extract_def heap_top_def Let_def split: if_splits)
  ultimately show ?thesis
    using strcmp_order.heap_insert_spec [OF assms] strcmp_order.heap_extract_spec [OF assms(1)]
    by (auto simp: heap_insert_def heap_extract_def)
qed

theorem heap_insert_extract_witness:
  "\<exists>h. heap_create True True 0 8 (Some strcmp) False [] = Some h \<and> heap_wf strcmp cstring h
     \<and> heap_insert h ''a'' = Some (- ENOMEM, h)"
proof -
  obtain h where h: "heap_create True True 0 8 (Some strcmp) False [] = Some h"
    by (simp add: heap_create_def)
  from heap_create_wf [OF this] have "heap_wf strcmp cstring h" "alloc h = 0" "count h = 0" by auto
  with heap_insert_extract [of h "''a''"] h show ?thesis by (auto simp: cstring_def)
qed



end
