(* ===== verification/Key_Value.thy ===== *)
theory Key_Value
  imports Prelude
begin

section \<open>The contract of a key-value store\<close>

text \<open>
  Two components of the program map keys to values: the hash table and the flat string
  store.  Their common contract is stated once: each operation acts on the store as on a
  map, except that a store may refuse an update and then keeps its content.  The client's
  lemma is that every sequence of operations is observed as on a map.
\<close>

datatype ('k, 'v) kv_op = KvSet 'k 'v | KvGet 'k | KvDel 'k

datatype 'v kv_obs = ObsSet bool | ObsGet "'v option" | ObsDel

fun kv_run :: "('s \<Rightarrow> 'k \<Rightarrow> 'v option option) \<Rightarrow> ('s \<Rightarrow> 'k \<Rightarrow> 'v \<Rightarrow> (bool \<times> 's) option) \<Rightarrow>
    ('s \<Rightarrow> 'k \<Rightarrow> 's option) \<Rightarrow> 's \<Rightarrow> ('k, 'v) kv_op list \<Rightarrow> ('v kv_obs list \<times> 's) option" where
  "kv_run get upd del s [] = Some ([], s)"
| "kv_run get upd del s (KvSet k v # ops) =
     (case upd s k v of None \<Rightarrow> None
      | Some (ok, s') \<Rightarrow> map_option (\<lambda>(obs, t). (ObsSet ok # obs, t)) (kv_run get upd del s' ops))"
| "kv_run get upd del s (KvGet k # ops) =
     (case get s k of None \<Rightarrow> None
      | Some r \<Rightarrow> map_option (\<lambda>(obs, t). (ObsGet r # obs, t)) (kv_run get upd del s ops))"
| "kv_run get upd del s (KvDel k # ops) =
     (case del s k of None \<Rightarrow> None
      | Some s' \<Rightarrow> map_option (\<lambda>(obs, t). (ObsDel # obs, t)) (kv_run get upd del s' ops))"

text \<open>The abstract specification: which observations a map allows, and the map at the end.\<close>

fun kv_spec :: "('k \<Rightarrow> 'v option) \<Rightarrow> ('k, 'v) kv_op list \<Rightarrow> 'v kv_obs list \<Rightarrow> ('k \<Rightarrow> 'v option) \<Rightarrow> bool" where
  "kv_spec m [] [] m' \<longleftrightarrow> m' = m"
| "kv_spec m (KvSet k v # ops) (ObsSet ok # obs) m' \<longleftrightarrow>
     kv_spec (if ok then m(k \<mapsto> v) else m) ops obs m'"
| "kv_spec m (KvGet k # ops) (ObsGet r # obs) m' \<longleftrightarrow> r = m k \<and> kv_spec m ops obs m'"
| "kv_spec m (KvDel k # ops) (ObsDel # obs) m' \<longleftrightarrow> kv_spec (m(k := None)) ops obs m'"
| "kv_spec m _ _ m' \<longleftrightarrow> False"

fun kv_op_ok :: "('k \<Rightarrow> bool) \<Rightarrow> ('v \<Rightarrow> bool) \<Rightarrow> ('k, 'v) kv_op \<Rightarrow> bool" where
  "kv_op_ok kok vok (KvSet k v) \<longleftrightarrow> kok k \<and> vok v"
| "kv_op_ok kok vok (KvGet k) \<longleftrightarrow> kok k"
| "kv_op_ok kok vok (KvDel k) \<longleftrightarrow> kok k"

locale key_value =
  fixes invar :: "'s \<Rightarrow> bool"
    and lookup :: "'s \<Rightarrow> 'k \<Rightarrow> 'v option"
    and key_ok :: "'k \<Rightarrow> bool"
    and val_ok :: "'v \<Rightarrow> bool"
    and get :: "'s \<Rightarrow> 'k \<Rightarrow> 'v option option"
    and upd :: "'s \<Rightarrow> 'k \<Rightarrow> 'v \<Rightarrow> (bool \<times> 's) option"
    and del :: "'s \<Rightarrow> 'k \<Rightarrow> 's option"
  assumes get_law: "invar s \<Longrightarrow> key_ok k \<Longrightarrow> get s k = Some (lookup s k)"
    and upd_law: "invar s \<Longrightarrow> key_ok k \<Longrightarrow> val_ok v \<Longrightarrow>
      \<exists>ok s'. upd s k v = Some (ok, s') \<and> invar s'
        \<and> lookup s' = (if ok then (lookup s)(k \<mapsto> v) else lookup s)"
    and del_law: "invar s \<Longrightarrow> key_ok k \<Longrightarrow>
      \<exists>s'. del s k = Some s' \<and> invar s' \<and> lookup s' = (lookup s)(k := None)"
begin

lemma run_refines_map:
  assumes "invar s" "list_all (kv_op_ok key_ok val_ok) ops"
  shows "\<exists>obs t. kv_run get upd del s ops = Some (obs, t) \<and> invar t
     \<and> kv_spec (lookup s) ops obs (lookup t)"
  using assms
proof (induction ops arbitrary: s)
  case Nil
  then show ?case by simp
next
  case (Cons op ops)
  have ops: "list_all (kv_op_ok key_ok val_ok) ops" using Cons.prems(2) by simp
  show ?case
  proof (cases op)
    case (KvSet k v)
    with Cons.prems obtain ok s' where s': "upd s k v = Some (ok, s')" "invar s'"
      "lookup s' = (if ok then (lookup s)(k \<mapsto> v) else lookup s)"
      using upd_law [of s k v] by auto
    with Cons.IH [OF s'(2) ops] KvSet show ?thesis by auto
  next
    case (KvGet k)
    with Cons.prems get_law [of s k] Cons.IH [OF Cons.prems(1) ops] show ?thesis by auto
  next
    case (KvDel k)
    with Cons.prems obtain s' where s': "del s k = Some s'" "invar s'"
      "lookup s' = (lookup s)(k := None)"
      using del_law [of s k] by auto
    with Cons.IH [OF s'(2) ops] KvDel show ?thesis by (auto simp: fun_upd_def)
  qed
qed

end

end
