(* ===== verification/Str_Kpairs.thy ===== *)
theory Str_Kpairs
  imports Key_Value
begin

section \<open>The flat string store (str-kpairs.h, str-kpairs.c)\<close>

text \<open>
  Keys and values lie in one byte array, each followed by \<open>NUL\<close>; \<open>last_pos\<close> is the offset of
  the pointer \<open>last\<close>, \<open>end_pos\<close> that of \<open>end\<close>.  Every access is checked against the array:
  one outside it is the result \<open>None\<close>.  The store is shown to satisfy the contract of a
  key-value store for nonempty keys, and to refuse an update exactly when it does not fit.
\<close>

definition STR_KPAIRS_BUFLEN :: nat where "STR_KPAIRS_BUFLEN = 8192"

record str_kpairs =
  kbuf :: "byte list"
  last_pos :: nat
  end_pos :: nat

subsection \<open>Memory\<close>

text \<open>The string at an offset; there is none when no \<open>NUL\<close> follows.\<close>

definition str_at :: "byte list \<Rightarrow> nat \<Rightarrow> string option" where
  "str_at b p = (if NUL \<in> set (drop p b) then Some (takeWhile (\<lambda>c. c \<noteq> NUL) (drop p b)) else None)"

definition poke :: "nat \<Rightarrow> byte list \<Rightarrow> byte list \<Rightarrow> byte list option" where
  "poke p cs b = (if p + length cs \<le> length b then Some (take p b @ cs @ drop (p + length cs) b) else None)"

definition strcpy :: "nat \<Rightarrow> string \<Rightarrow> byte list \<Rightarrow> byte list option" where
  "strcpy p s b = poke p (s @ [NUL]) b"

definition memmove :: "nat \<Rightarrow> nat \<Rightarrow> nat \<Rightarrow> byte list \<Rightarrow> byte list option" where
  "memmove dst src n b = (if src + n \<le> length b then poke dst (take n (drop src b)) b else None)"

subsection \<open>Operations\<close>

definition str_kpairs_init :: "str_kpairs \<Rightarrow> str_kpairs" where
  "str_kpairs_init s = \<lparr>kbuf = (kbuf s)[0 := NUL], last_pos = 0, end_pos = length (kbuf s)\<rparr>"

function get_loop :: "byte list \<Rightarrow> nat \<Rightarrow> string \<Rightarrow> nat \<Rightarrow> nat option option" where
  "get_loop b l key p =
     (if p < l then
        (case str_at b p of None \<Rightarrow> None
         | Some k \<Rightarrow>
             if k = [] then Some None
             else if key = k then Some (Some (p + length k + 1))
             else (case str_at b (p + length k + 1) of None \<Rightarrow> None
                   | Some v \<Rightarrow> get_loop b l key (p + length k + 1 + length v + 1)))
      else Some None)"
  by pat_completeness auto
termination by (relation "measure (\<lambda>(b, l, key, p). l - p)") auto

definition str_kpairs_get :: "str_kpairs \<Rightarrow> string \<Rightarrow> nat option option" where
  "str_kpairs_get s key = get_loop (kbuf s) (last_pos s) key 0"

definition str_kpairs_set :: "str_kpairs \<Rightarrow> string \<Rightarrow> string \<Rightarrow> (int \<times> str_kpairs) option" where
  "str_kpairs_set s key value =
     (case str_kpairs_get s key of None \<Rightarrow> None
      | Some (Some val) \<Rightarrow>
          (case str_at (kbuf s) val of None \<Rightarrow> None
           | Some old \<Rightarrow>
               let len = length value + 1; val_len = length old + 1; next = val + val_len in
               if len = val_len then
                 map_option (\<lambda>b. (0, s\<lparr>kbuf := b\<rparr>)) (strcpy val value (kbuf s))
               else if len > val_len then
                 let delta = len - val_len in
                 if last_pos s + delta > end_pos s then Some (-1, s)
                 else (case memmove (next + delta) next (last_pos s - next) (kbuf s) of None \<Rightarrow> None
                       | Some b \<Rightarrow> map_option (\<lambda>b. (0, s\<lparr>kbuf := b, last_pos := last_pos s + delta\<rparr>)) (strcpy val value b))
               else
                 let delta = val_len - len in
                 (case memmove (next - delta) next (last_pos s - next) (kbuf s) of None \<Rightarrow> None
                  | Some b \<Rightarrow> map_option (\<lambda>b. (0, s\<lparr>kbuf := b, last_pos := last_pos s - delta\<rparr>)) (strcpy val value b)))
      | Some None \<Rightarrow>
          let key_len = length key + 1; val_len = length value + 1; total_len = key_len + val_len in
          if total_len > end_pos s - last_pos s then Some (-1, s)
          else (case strcpy (last_pos s) key (kbuf s) of None \<Rightarrow> None
                | Some b \<Rightarrow> map_option (\<lambda>b. (0, s\<lparr>kbuf := b, last_pos := last_pos s + total_len\<rparr>))
                             (strcpy (last_pos s + key_len) value b)))"

definition str_kpairs_delete :: "str_kpairs \<Rightarrow> string \<Rightarrow> str_kpairs option" where
  "str_kpairs_delete s key =
     (case str_kpairs_get s key of None \<Rightarrow> None
      | Some None \<Rightarrow> Some s
      | Some (Some val) \<Rightarrow>
          (case str_at (kbuf s) val of None \<Rightarrow> None
           | Some old \<Rightarrow>
               let key_len = length key + 1; val_len = length old + 1; total_len = key_len + val_len in
               (case memmove (val - key_len) (val + val_len) (last_pos s - val - val_len) (kbuf s) of None \<Rightarrow> None
                | Some b \<Rightarrow>
                    let l = last_pos s - total_len in
                    Some (s\<lparr>kbuf := (if l = 0 then b[0 := NUL] else b), last_pos := l\<rparr>))))"

subsection \<open>Representation\<close>

text \<open>The bytes of a list of pairs, and the pairs that bytes spell.\<close>

fun flat :: "(string \<times> string) list \<Rightarrow> byte list" where
  "flat [] = []"
| "flat ((k, v) # ps) = k @ NUL # v @ NUL # flat ps"

function pairs_of :: "byte list \<Rightarrow> (string \<times> string) list" where
  "pairs_of b =
     (if b = [] then []
      else let k = takeWhile (\<lambda>c. c \<noteq> NUL) b; r = tl (dropWhile (\<lambda>c. c \<noteq> NUL) b);
               v = takeWhile (\<lambda>c. c \<noteq> NUL) r; r' = tl (dropWhile (\<lambda>c. c \<noteq> NUL) r)
           in (k, v) # pairs_of r')"
  by pat_completeness auto
termination
proof (relation "measure length")
  fix b k v r r' :: "byte list"
  assume b: "b \<noteq> []" "r = tl (dropWhile (\<lambda>c. c \<noteq> NUL) b)" "r' = tl (dropWhile (\<lambda>c. c \<noteq> NUL) r)"
  have "length (tl (dropWhile (\<lambda>c. c \<noteq> NUL) x)) \<le> length x - 1" for x
    using length_dropWhile_le [of "\<lambda>c. c \<noteq> NUL" x] by simp
  from this [of r] this [of b] b show "(r', b) \<in> measure length" by (cases b) auto
qed simp

declare get_loop.simps [simp del] pairs_of.simps [simp del]

definition pairs_ok :: "(string \<times> string) list \<Rightarrow> bool" where
  "pairs_ok ps \<longleftrightarrow> distinct (map fst ps) \<and> (\<forall>(k, v) \<in> set ps. k \<noteq> [] \<and> cstring k \<and> cstring v)"

definition kps_pairs :: "str_kpairs \<Rightarrow> (string \<times> string) list" where
  "kps_pairs s = pairs_of (take (last_pos s) (kbuf s))"

definition kps_wf :: "str_kpairs \<Rightarrow> bool" where
  "kps_wf s \<longleftrightarrow> length (kbuf s) = STR_KPAIRS_BUFLEN \<and> end_pos s = STR_KPAIRS_BUFLEN \<and> last_pos s \<le> STR_KPAIRS_BUFLEN \<and>
     pairs_ok (kps_pairs s) \<and> take (last_pos s) (kbuf s) = flat (kps_pairs s)"

lemma takeWhile_cstring: "cstring k \<Longrightarrow> takeWhile (\<lambda>c. c \<noteq> NUL) (k @ NUL # r) = k"
  by (induction k) auto

lemma dropWhile_cstring: "cstring k \<Longrightarrow> dropWhile (\<lambda>c. c \<noteq> NUL) (k @ NUL # r) = NUL # r"
  by (induction k) auto

lemma pairs_of_flat:
  assumes "\<forall>(k, v) \<in> set ps. cstring k \<and> cstring v"
  shows "pairs_of (flat ps) = ps"
  using assms
proof (induction ps)
  case (Cons p ps)
  then show ?case
    by (cases p) (subst pairs_of.simps, simp add: takeWhile_cstring dropWhile_cstring)
qed (simp add: pairs_of.simps)

lemma str_at_append:
  assumes "cstring k" "p = length a"
  shows "str_at (a @ k @ NUL # r) p = Some k"
  using assms by (simp add: str_at_def takeWhile_cstring)

lemma flat_append: "flat (ps @ qs) = flat ps @ flat qs"
  by (induction ps rule: flat.induct) auto

text \<open>The state represents the pairs \<open>ps\<close>.\<close>

definition kps_rep :: "str_kpairs \<Rightarrow> (string \<times> string) list \<Rightarrow> bool" where
  "kps_rep s ps \<longleftrightarrow> length (kbuf s) = STR_KPAIRS_BUFLEN \<and> end_pos s = STR_KPAIRS_BUFLEN \<and>
     last_pos s = length (flat ps) \<and> last_pos s \<le> STR_KPAIRS_BUFLEN \<and> pairs_ok ps \<and> take (length (flat ps)) (kbuf s) = flat ps"

lemma kps_rep_wf:
  assumes "kps_rep s ps"
  shows "kps_wf s \<and> kps_pairs s = ps"
proof -
  have "pairs_of (flat ps) = ps" using assms by (intro pairs_of_flat) (auto simp: kps_rep_def pairs_ok_def)
  with assms show ?thesis by (simp add: kps_rep_def kps_wf_def kps_pairs_def)
qed

lemma kps_wf_rep:
  assumes "kps_wf s"
  shows "kps_rep s (kps_pairs s)"
proof -
  have "take (last_pos s) (kbuf s) = flat (kps_pairs s)" "last_pos s \<le> length (kbuf s)" using assms by (simp_all add: kps_wf_def)
  then have "length (flat (kps_pairs s)) = last_pos s" by (metis length_take min.absorb2)
  with assms show ?thesis by (simp add: kps_wf_def kps_rep_def)
qed

lemma kps_rep_buf: "kps_rep s ps \<Longrightarrow> \<exists>r. kbuf s = flat ps @ r"
  by (metis append_take_drop_id kps_rep_def)

subsection \<open>Lookup\<close>

lemma get_loop_pairs:
  assumes "pairs_ok (qs)" "key \<noteq> []" "cstring key"
  shows "get_loop (a @ flat qs @ r) (length a + length (flat qs)) key (length a) =
     Some (if key \<in> fst ` set qs
           then Some (length a + length (flat (takeWhile (\<lambda>p. fst p \<noteq> key) qs)) + length key + 1) else None)"
  using assms(1)
proof (induction qs arbitrary: a)
  case Nil
  then show ?case by (simp add: get_loop.simps)
next
  case (Cons q qs)
  obtain k v where q: "q = (k, v)" by (cases q)
  have kv: "k \<noteq> []" "cstring k" "cstring v" "pairs_ok qs" using Cons.prems q by (auto simp: pairs_ok_def)
  let ?a = "a @ k @ [NUL]" and ?b = "a @ k @ NUL # v @ [NUL]"
  have k: "str_at (a @ flat (q # qs) @ r) (length a) = Some k" using kv(2) q by (simp add: str_at_append)
  have "str_at (?a @ v @ NUL # flat qs @ r) (length ?a) = Some v" using kv(3) by (simp only: str_at_append)
  then have v: "str_at (a @ flat (q # qs) @ r) (length a + length k + 1) = Some v" using q by simp
  have "get_loop (?b @ flat qs @ r) (length ?b + length (flat qs)) key (length ?b) =
     Some (if key \<in> fst ` set qs
           then Some (length ?b + length (flat (takeWhile (\<lambda>p. fst p \<noteq> key) qs)) + length key + 1) else None)"
    using Cons.IH [OF kv(4)] .
  then show ?case using k v kv q by (subst get_loop.simps) (auto simp: algebra_simps)
qed

lemma str_kpairs_get_rep:
  assumes "kps_rep s ps" "key \<noteq> []" "cstring key"
  shows "str_kpairs_get s key =
     Some (if key \<in> fst ` set ps then Some (length (flat (takeWhile (\<lambda>p. fst p \<noteq> key) ps)) + length key + 1) else None)"
proof -
  obtain r where "kbuf s = flat ps @ r" using kps_rep_buf [OF assms(1)] by blast
  with get_loop_pairs [of ps key "[]" r] assms show ?thesis by (simp add: str_kpairs_get_def kps_rep_def)
qed

text \<open>A present key splits the pairs, the array and the offsets the code computes.\<close>

lemma kps_split:
  assumes "kps_rep s ps" "cstring key" "key \<in> fst ` set ps"
  obtains as v bs r where "ps = as @ (key, v) # bs" "cstring v" "key \<notin> fst ` set (as @ bs)" "takeWhile (\<lambda>p. fst p \<noteq> key) ps = as"
    "kbuf s = flat as @ key @ NUL # v @ NUL # flat bs @ r"
    "str_at (kbuf s) (length (flat as) + length key + 1) = Some v"
    "last_pos s = length (flat as) + length key + 1 + (length v + 1) + length (flat bs)"
proof -
  obtain as v bs where ps: "ps = as @ (key, v) # bs" using assms(3) by (auto dest!: split_list)
  obtain r where r: "kbuf s = flat ps @ r" using kps_rep_buf [OF assms(1)] by blast
  have ok: "key \<notin> fst ` set (as @ bs)" "cstring v" "last_pos s = length (flat ps)"
    using assms(1) ps by (auto simp: kps_rep_def pairs_ok_def)
  have "\<forall>p \<in> set as. fst p \<noteq> key" using ok(1) by force
  then have "takeWhile (\<lambda>p. fst p \<noteq> key) ps = as" using ps by (simp add: takeWhile_append2)
  moreover have b: "kbuf s = flat as @ key @ NUL # v @ NUL # flat bs @ r" using r ps by (simp add: flat_append)
  moreover have "str_at ((flat as @ key @ [NUL]) @ v @ NUL # flat bs @ r) (length (flat as @ key @ [NUL])) = Some v"
    using ok(2) by (simp only: str_at_append)
  then have "str_at (kbuf s) (length (flat as) + length key + 1) = Some v" using b by simp
  moreover have "last_pos s = length (flat as) + length key + 1 + (length v + 1) + length (flat bs)"
    using ok(3) ps by (simp add: flat_append)
  ultimately show ?thesis using that ps ok(1,2) by blast
qed

text \<open>Moving the tail and then writing in front of it.\<close>

lemma poke_poke:
  assumes "p + length w + length t \<le> length b"
  shows "\<exists>b1 b2. poke (p + length w) t b = Some b1 \<and> poke p w b1 = Some b2 \<and> length b2 = length b \<and>
           take (p + length w + length t) b2 = take p b @ w @ t"
  using assms by (auto simp: poke_def min_absorb2)

definition kps_put :: "string \<Rightarrow> string \<Rightarrow> (string \<times> string) list \<Rightarrow> (string \<times> string) list" where
  "kps_put key value ps =
     (if key \<in> fst ` set ps then map (\<lambda>(k, v). (k, if k = key then value else v)) ps else ps @ [(key, value)])"

lemma kps_put_split:
  assumes "key \<notin> fst ` set (as @ bs)"
  shows "kps_put key value (as @ (key, v) # bs) = as @ (key, value) # bs"
proof -
  have "map (\<lambda>(k, v). (k, if k = key then value else v)) xs = xs" if "key \<notin> fst ` set xs" for xs
    using that by (induction xs) auto
  from this [of as] this [of bs] assms show ?thesis by (simp add: kps_put_def image_Un)
qed

lemma kps_put_ok: "pairs_ok ps \<Longrightarrow> key \<noteq> [] \<Longrightarrow> cstring key \<Longrightarrow> cstring value \<Longrightarrow> pairs_ok (kps_put key value ps)"
  by (auto simp: pairs_ok_def kps_put_def o_def case_prod_beta)

lemma kps_put_map: "map_of (kps_put key value ps) = (map_of ps)(key \<mapsto> value)"
proof (cases "key \<in> fst ` set ps")
  case True
  have "map_of (map (\<lambda>(k, v). (k, if k = key then value else v)) ps) x =
      (if x = key then map_option (\<lambda>_. value) (map_of ps x) else map_of ps x)" for x
    by (induction ps) auto
  moreover obtain v where "map_of ps key = Some v" using True by (cases "map_of ps key") (auto simp: map_of_eq_None_iff)
  ultimately show ?thesis using True by (simp add: kps_put_def fun_eq_iff)
next
  case False
  then have "map_of ps key = None" by (simp add: map_of_eq_None_iff)
  then show ?thesis using False by (auto simp: kps_put_def fun_eq_iff map_add_def split: option.splits)
qed

subsection \<open>Update and removal\<close>

lemma str_kpairs_set_new:
  assumes "kps_rep s ps" "key \<noteq> []" "cstring key" "cstring value" "key \<notin> fst ` set ps"
  shows "if length (flat (kps_put key value ps)) \<le> STR_KPAIRS_BUFLEN
         then \<exists>s'. str_kpairs_set s key value = Some (0, s') \<and> kps_rep s' (kps_put key value ps)
         else str_kpairs_set s key value = Some (-1, s)"
proof -
  let ?n = "length (flat ps)" and ?k = "key @ [NUL]" and ?v = "value @ [NUL]"
  have s: "length (kbuf s) = STR_KPAIRS_BUFLEN" "end_pos s = STR_KPAIRS_BUFLEN" "last_pos s = ?n"
    "take ?n (kbuf s) = flat ps" "?n \<le> STR_KPAIRS_BUFLEN" "pairs_ok ps"
    using assms(1) by (auto simp: kps_rep_def)
  have get: "str_kpairs_get s key = Some None" using str_kpairs_get_rep [OF assms(1-3)] assms(5) by simp
  have ps: "flat (kps_put key value ps) = flat ps @ ?k @ ?v" using assms(5) by (simp add: kps_put_def flat_append)
  have ok: "pairs_ok (kps_put key value ps)" using kps_put_ok s(6) assms(2-4) by blast
  show ?thesis
  proof (cases "?n + length ?k + length ?v \<le> STR_KPAIRS_BUFLEN")
    case True
    define b where "b = take ?n (kbuf s) @ ?k @ drop (?n + length ?k) (kbuf s)"
    have b: "length b = STR_KPAIRS_BUFLEN" "take (?n + length ?k) b = flat ps @ ?k" using True s by (auto simp: b_def)
    define c where "c = take (?n + length ?k) b @ ?v @ drop (?n + length ?k + length ?v) b"
    have "strcpy ?n key (kbuf s) = Some b" "strcpy (?n + length ?k) value b = Some c"
      using True s(1) b(1) by (simp_all add: strcpy_def poke_def b_def c_def)
    then have "str_kpairs_set s key value = Some (0, s\<lparr>kbuf := c, last_pos := ?n + length (?k @ ?v)\<rparr>)"
      using get True s by (simp add: str_kpairs_set_def Let_def)
    moreover have "length c = STR_KPAIRS_BUFLEN" "take (?n + length (?k @ ?v)) c = flat ps @ ?k @ ?v"
      using True b by (auto simp: c_def)
    ultimately show ?thesis using True s ps ok by (simp add: kps_rep_def)
  next
    case False
    then have "STR_KPAIRS_BUFLEN - ?n < Suc (Suc (length key + length value))" by simp
    then have "str_kpairs_set s key value = Some (-1, s)" using get s by (simp add: str_kpairs_set_def)
    with False show ?thesis by (simp add: ps)
  qed
qed

lemma str_kpairs_set_present:
  assumes "kps_rep s ps" "key \<noteq> []" "cstring key" "cstring value" "key \<in> fst ` set ps"
  shows "if length (flat (kps_put key value ps)) \<le> STR_KPAIRS_BUFLEN
         then \<exists>s'. str_kpairs_set s key value = Some (0, s') \<and> kps_rep s' (kps_put key value ps)
         else str_kpairs_set s key value = Some (-1, s)"
proof -
  obtain as v bs r where sp: "ps = as @ (key, v) # bs" "cstring v" "key \<notin> fst ` set (as @ bs)"
      "takeWhile (\<lambda>p. fst p \<noteq> key) ps = as" "kbuf s = flat as @ key @ NUL # v @ NUL # flat bs @ r"
      "str_at (kbuf s) (length (flat as) + length key + 1) = Some v"
      "last_pos s = length (flat as) + length key + 1 + (length v + 1) + length (flat bs)"
    using kps_split [OF assms(1,3,5)] by blast
  define p where "p = length (flat as) + length key + 1"
  let ?w = "value @ [NUL]" and ?t = "flat bs"
  have s: "length (kbuf s) = STR_KPAIRS_BUFLEN" "end_pos s = STR_KPAIRS_BUFLEN" "last_pos s \<le> STR_KPAIRS_BUFLEN" "pairs_ok ps"
    using assms(1) by (auto simp: kps_rep_def)
  have get: "str_kpairs_get s key = Some (Some p)" "str_at (kbuf s) p = Some v" "last_pos s = p + length v + 1 + length ?t"
    using str_kpairs_get_rep [OF assms(1-3)] assms(5) sp by (simp_all add: p_def)
  have put: "kps_put key value ps = as @ (key, value) # bs" using kps_put_split [OF sp(3)] sp(1) by simp
  have flat: "length (flat (kps_put key value ps)) = p + length ?w + length ?t" "flat (kps_put key value ps) = take p (kbuf s) @ ?w @ ?t"
    unfolding put using sp(5) by (simp_all add: flat_append p_def)
  have ok: "pairs_ok (kps_put key value ps)" using kps_put_ok s(4) assms(2-4) by blast
  have t: "take (length ?t) (drop (p + length v + 1) (kbuf s)) = ?t" using sp(5) by (simp add: p_def)
  show ?thesis
  proof (cases "p + length ?w + length ?t \<le> STR_KPAIRS_BUFLEN")
    case True
    then obtain b1 b2 where b: "poke (p + length ?w) ?t (kbuf s) = Some b1" "poke p ?w b1 = Some b2"
        "length b2 = length (kbuf s)" "take (p + length ?w + length ?t) b2 = take p (kbuf s) @ ?w @ ?t"
      using poke_poke [of p ?w ?t "kbuf s"] s(1) by auto
    have "memmove (p + length ?w) (p + length v + 1) (length ?t) (kbuf s) = Some b1"
      using b(1) t get(3) s by (simp add: memmove_def)
    moreover have "b1 = kbuf s" if "length value = length v"
      using b(1) t that append_take_drop_id [of "length ?t" "drop (p + length v + 1) (kbuf s)"]
      by (simp add: poke_def add.commute add.left_commute split: if_splits)
    ultimately have "\<exists>s'. str_kpairs_set s key value = Some (0, s') \<and> kbuf s' = b2 \<and> last_pos s' = p + length ?w + length ?t \<and> end_pos s' = end_pos s"
      using get b(2) True s by (cases "length value = length v") (auto simp: str_kpairs_set_def strcpy_def Let_def)
    then show ?thesis using True flat b s ok by (auto simp: kps_rep_def add.assoc)
  next
    case False
    then have "length v < length value" using get(3) s(3) by simp
    with False show ?thesis using get s flat by (simp add: str_kpairs_set_def Let_def)
  qed
qed

lemmas str_kpairs_set_rep = str_kpairs_set_new str_kpairs_set_present

lemma str_kpairs_delete_rep:
  assumes "kps_rep s ps" "key \<noteq> []" "cstring key"
  shows "\<exists>s'. str_kpairs_delete s key = Some s' \<and> kps_rep s' (filter (\<lambda>p. fst p \<noteq> key) ps)"
proof (cases "key \<in> fst ` set ps")
  case False
  then have "filter (\<lambda>p. fst p \<noteq> key) ps = ps" by (auto simp: filter_id_conv)
  moreover have "str_kpairs_delete s key = Some s"
    using str_kpairs_get_rep [OF assms] False by (simp add: str_kpairs_delete_def)
  ultimately show ?thesis using assms(1) by simp
next
  case True
  obtain as v bs r where sp: "ps = as @ (key, v) # bs" "cstring v" "key \<notin> fst ` set (as @ bs)"
      "takeWhile (\<lambda>p. fst p \<noteq> key) ps = as" "kbuf s = flat as @ key @ NUL # v @ NUL # flat bs @ r"
      "str_at (kbuf s) (length (flat as) + length key + 1) = Some v"
      "last_pos s = length (flat as) + length key + 1 + (length v + 1) + length (flat bs)"
    using kps_split [OF assms(1,3) True] by blast
  let ?p = "length (flat as)" and ?t = "flat bs" and ?n = "length key + 1 + (length v + 1)"
  have s: "length (kbuf s) = STR_KPAIRS_BUFLEN" "end_pos s = STR_KPAIRS_BUFLEN" "last_pos s \<le> STR_KPAIRS_BUFLEN" "pairs_ok ps"
    using assms(1) by (auto simp: kps_rep_def)
  have fp: "filter (\<lambda>p. fst p \<noteq> key) ps = as @ bs"
  proof -
    have "filter (\<lambda>p. fst p \<noteq> key) xs = xs" if "key \<notin> fst ` set xs" for xs :: "(string \<times> string) list"
      using that by (auto simp: filter_id_conv)
    from this [of as] this [of bs] sp(1,3) show ?thesis by (simp add: image_Un)
  qed
  define b where "b = flat as @ ?t @ drop (?p + length ?t) (kbuf s)"
  have "take (length ?t) (drop (?p + ?n) (kbuf s)) = ?t" "take ?p (kbuf s) = flat as" using sp(5) by simp_all
  then have mv: "memmove ?p (?p + ?n) (length ?t) (kbuf s) = Some b" "length b = STR_KPAIRS_BUFLEN"
    using s sp(7) by (simp_all add: memmove_def poke_def b_def)
  let ?s = "s\<lparr>kbuf := (if ?p + length ?t = 0 then b[0 := NUL] else b), last_pos := ?p + length ?t\<rparr>"
  have "str_kpairs_delete s key = Some ?s"
    using str_kpairs_get_rep [OF assms] True sp(4,6,7) mv
    by (cases "flat as = [] \<and> flat bs = []") (auto simp: str_kpairs_delete_def Let_def add.assoc)
  moreover have "kps_rep ?s (as @ bs)"
    using mv(2) s sp(1,7) by (auto simp: kps_rep_def flat_append pairs_ok_def b_def)
  ultimately show ?thesis using fp by auto
qed

subsection \<open>The contract\<close>

text \<open>What a client sees: the string at the returned pointer, and whether an update was refused.\<close>

definition kps_get :: "str_kpairs \<Rightarrow> string \<Rightarrow> string option option" where
  "kps_get s key =
     (case str_kpairs_get s key of None \<Rightarrow> None
      | Some None \<Rightarrow> Some None
      | Some (Some p) \<Rightarrow> map_option Some (str_at (kbuf s) p))"

definition kps_upd :: "str_kpairs \<Rightarrow> string \<Rightarrow> string \<Rightarrow> (bool \<times> str_kpairs) option" where
  "kps_upd s key value = map_option (\<lambda>(r, s'). (r = 0, s')) (str_kpairs_set s key value)"

definition kps_map :: "str_kpairs \<Rightarrow> string \<Rightarrow> string option" where
  "kps_map s = map_of (kps_pairs s)"

definition kps_key :: "string \<Rightarrow> bool" where
  "kps_key k \<longleftrightarrow> k \<noteq> [] \<and> cstring k"

lemma kps_get_rep:
  assumes "kps_rep s ps" "key \<noteq> []" "cstring key"
  shows "kps_get s key = Some (map_of ps key)"
proof (cases "key \<in> fst ` set ps")
  case False
  then have "map_of ps key = None" by (simp add: map_of_eq_None_iff)
  with False show ?thesis using str_kpairs_get_rep [OF assms] by (simp add: kps_get_def)
next
  case True
  obtain as v bs r where sp: "ps = as @ (key, v) # bs" "key \<notin> fst ` set (as @ bs)"
      "takeWhile (\<lambda>p. fst p \<noteq> key) ps = as" "str_at (kbuf s) (length (flat as) + length key + 1) = Some v"
    using kps_split [OF assms(1,3) True] by metis
  then have "map_of as key = None" by (simp add: map_of_eq_None_iff image_Un)
  with sp True show ?thesis
    using str_kpairs_get_rep [OF assms] by (simp add: kps_get_def map_add_def)
qed

lemma map_of_delete: "map_of (filter (\<lambda>p. fst p \<noteq> k) ps) = (map_of ps)(k := None)"
  by (induction ps) (auto simp: fun_eq_iff)

lemma kps_upd_rep:
  assumes "kps_rep s ps" "key \<noteq> []" "cstring key" "cstring value"
  shows "\<exists>ok s'. kps_upd s key value = Some (ok, s') \<and> kps_rep s' (if ok then kps_put key value ps else ps)"
proof (cases "length (flat (kps_put key value ps)) \<le> STR_KPAIRS_BUFLEN")
  case True
  then obtain s' where "str_kpairs_set s key value = Some (0, s')" "kps_rep s' (kps_put key value ps)"
    using str_kpairs_set_rep [OF assms] by (cases "key \<in> fst ` set ps") auto
  then show ?thesis by (auto simp: kps_upd_def)
next
  case False
  then have "str_kpairs_set s key value = Some (-1, s)"
    using str_kpairs_set_rep [OF assms] by (cases "key \<in> fst ` set ps") auto
  then show ?thesis using assms(1) by (auto simp: kps_upd_def)
qed

interpretation kps_kv: key_value kps_wf kps_map kps_key cstring kps_get kps_upd str_kpairs_delete
proof unfold_locales
  fix s k
  assume s: "kps_wf s" and k: "kps_key k"
  note rep = kps_wf_rep [OF s] and key = k [unfolded kps_key_def, THEN conjunct1] k [unfolded kps_key_def, THEN conjunct2]
  show "kps_get s k = Some (kps_map s k)" using kps_get_rep [OF rep key] by (simp add: kps_map_def)
  show "\<exists>s'. str_kpairs_delete s k = Some s' \<and> kps_wf s' \<and> kps_map s' = (kps_map s)(k := None)"
    using str_kpairs_delete_rep [OF rep key] kps_rep_wf map_of_delete by (fastforce simp: kps_map_def)
  fix v
  assume "cstring v"
  then show "\<exists>ok s'. kps_upd s k v = Some (ok, s') \<and> kps_wf s' \<and> kps_map s' = (if ok then (kps_map s)(k \<mapsto> v) else kps_map s)"
    using kps_upd_rep [OF rep key] kps_rep_wf kps_put_map by (fastforce simp: kps_map_def)
qed

lemma str_kpairs_init_rep: "length (kbuf s) = STR_KPAIRS_BUFLEN \<Longrightarrow> kps_rep (str_kpairs_init s) []"
  by (simp add: kps_rep_def str_kpairs_init_def pairs_ok_def)

subsection \<open>Properties\<close>

text \<open>
  C18. A string store behaves as a map: from \<open>str_kpairs_init\<close> on any memory, every sequence of
  set, get and delete with nonempty keys is observed as on a map that starts empty, where a
  refused set changes nothing; no access leaves the array, and the array keeps its layout.
\<close>

theorem str_kpairs_refines_map:
  assumes "length (kbuf s) = STR_KPAIRS_BUFLEN" "list_all (kv_op_ok kps_key cstring) ops"
  shows "\<exists>obs t. kv_run kps_get kps_upd str_kpairs_delete (str_kpairs_init s) ops = Some (obs, t) \<and> kps_wf t \<and>
           kv_spec Map.empty ops obs (kps_map t)"
proof -
  have "kps_wf (str_kpairs_init s)" "kps_map (str_kpairs_init s) = Map.empty"
    using kps_rep_wf [OF str_kpairs_init_rep [OF assms(1)]] by (simp_all add: kps_map_def)
  with kps_kv.run_refines_map [OF _ assms(2)] show ?thesis by metis
qed

definition sample_kps :: str_kpairs where
  "sample_kps = \<lparr>kbuf = replicate STR_KPAIRS_BUFLEN (CHR ''x''), last_pos = 7, end_pos = 0\<rparr>"

theorem str_kpairs_refines_map_witness:
  "\<exists>obs t. kv_run kps_get kps_upd str_kpairs_delete (str_kpairs_init sample_kps)
      [KvSet ''a'' ''xy'', KvSet ''a'' ''z'', KvGet ''a'', KvDel ''a'', KvGet ''b''] = Some (obs, t) \<and> kps_wf t \<and>
      kv_spec Map.empty [KvSet ''a'' ''xy'', KvSet ''a'' ''z'', KvGet ''a'', KvDel ''a'', KvGet ''b''] obs (kps_map t)"
  by (rule str_kpairs_refines_map) (simp_all add: sample_kps_def kps_key_def)

text \<open>
  C36. Capacity and round trip: setting a nonempty key returns 0 exactly when the pairs with the
  new value fit into the 8192 bytes of the array, and then the bytes in use spell those pairs in
  their old order, a new key last, so that reading the bytes back gives the pairs; otherwise it
  returns -1 and the store is as before.
\<close>

theorem str_kpairs_set_exact:
  assumes "kps_wf s" "kps_key key" "cstring value"
  shows "if length (flat (kps_put key value (kps_pairs s))) \<le> STR_KPAIRS_BUFLEN
         then \<exists>s'. str_kpairs_set s key value = Some (0, s') \<and> kps_wf s' \<and>
                take (last_pos s') (kbuf s') = flat (kps_put key value (kps_pairs s)) \<and>
                kps_pairs s' = kps_put key value (kps_pairs s) \<and> kps_get s' key = Some (Some value)
         else str_kpairs_set s key value = Some (-1, s)"
proof -
  have key: "key \<noteq> []" "cstring key" using assms(2) by (auto simp: kps_key_def)
  have post: "kps_wf s' \<and> take (last_pos s') (kbuf s') = flat (kps_put key value (kps_pairs s)) \<and>
      kps_pairs s' = kps_put key value (kps_pairs s) \<and> kps_get s' key = Some (Some value)"
    if "kps_rep s' (kps_put key value (kps_pairs s))" for s'
    using kps_rep_wf [OF that] kps_get_rep [OF that key] that by (simp add: kps_put_map kps_rep_def)
  show ?thesis
    using str_kpairs_set_rep [OF kps_wf_rep [OF assms(1)] key assms(3)] post
    by (cases "key \<in> fst ` set (kps_pairs s)") (auto split: if_splits)
qed

theorem str_kpairs_set_exact_witness:
  "\<exists>s'. str_kpairs_set (str_kpairs_init sample_kps) ''key'' ''value'' = Some (0, s') \<and>
        kps_pairs s' = [(''key'', ''value'')] \<and> kps_get s' ''key'' = Some (Some ''value'')"
proof -
  have s: "kps_wf (str_kpairs_init sample_kps)" "kps_pairs (str_kpairs_init sample_kps) = []"
    using kps_rep_wf [OF str_kpairs_init_rep, of sample_kps] by (simp_all add: sample_kps_def)
  show ?thesis
    using str_kpairs_set_exact [OF s(1), of "''key''" "''value''"] s(2)
    by (auto simp: kps_key_def kps_put_def STR_KPAIRS_BUFLEN_def)
qed

end
