(* ===== verification/Numerals.thy ===== *)
theory Numerals
  imports Prelude
begin

section \<open>Numbers in texts\<close>

text \<open>
  The character classes and the number conversions of the C library that the program uses:
  \<open>isspace\<close>, \<open>isgraph\<close>, \<open>strtoul\<close> for the bases 0 and 2 to 16, and the digits that
  \<open>printf\<close> writes.  The round trip from digits to \<open>strtoul\<close> serves the parsers.
\<close>

definition isspace :: "byte \<Rightarrow> bool" where
  "isspace c \<longleftrightarrow> c \<in> {CHR 0x20, CHR 0x09, CHR 0x0A, CHR 0x0B, CHR 0x0C, CHR 0x0D}"

definition isgraph :: "byte \<Rightarrow> bool" where
  "isgraph c \<longleftrightarrow> (let n = (of_char c :: nat) in 33 \<le> n \<and> n \<le> 126)"

definition digit_val :: "byte \<Rightarrow> nat option" where
  "digit_val c =
     (let n = of_char c in
      if 48 \<le> n \<and> n \<le> 57 then Some (n - 48)
      else if 97 \<le> n \<and> n \<le> 122 then Some (n - 87)
      else if 65 \<le> n \<and> n \<le> 90 then Some (n - 55)
      else None)"

definition is_digit :: "nat \<Rightarrow> byte \<Rightarrow> bool" where
  "is_digit b c \<longleftrightarrow> (case digit_val c of None \<Rightarrow> False | Some d \<Rightarrow> d < b)"

definition value_of :: "nat \<Rightarrow> string \<Rightarrow> nat" where
  "value_of b ds = foldl (\<lambda>v c. v * b + the (digit_val c)) 0 ds"

definition ULONG_MAX :: nat where "ULONG_MAX = 2 ^ 64 - 1"

text \<open>The base that is used and the length of a prefix \<open>0x\<close>.\<close>

fun number_base :: "nat \<Rightarrow> string \<Rightarrow> nat \<times> nat" where
  "number_base b (z # x # h # s) =
     (if (b = 0 \<or> b = 16) \<and> z = CHR ''0'' \<and> (x = CHR ''x'' \<or> x = CHR ''X'') \<and> is_digit 16 h then (16, 2)
      else if b = 0 then (if z = CHR ''0'' then 8 else 10, 0) else (b, 0))"
| "number_base b (z # s) = (if b = 0 then (if z = CHR ''0'' then 8 else 10, 0) else (b, 0))"
| "number_base b [] = (if b = 0 then 10 else b, 0)"

text \<open>The value, the number of characters up to \<open>endptr\<close>, and whether \<open>errno\<close> is set.\<close>

definition strtoul :: "string \<Rightarrow> nat \<Rightarrow> nat \<times> nat \<times> bool" where
  "strtoul s base =
     (let r = dropWhile isspace s;
          signed = (r \<noteq> [] \<and> (hd r = CHR ''-'' \<or> hd r = CHR ''+''));
          neg = (signed \<and> hd r = CHR ''-'');
          u = (if signed then tl r else r);
          (b, k) = number_base base u;
          ds = takeWhile (is_digit b) (drop k u);
          n = length s - length u + k + length ds;
          v = value_of b ds
      in if ds = [] then (0, 0, False)
         else if ULONG_MAX < v then (ULONG_MAX, n, True)
         else ((if neg then (ULONG_MAX + 1 - v) mod (ULONG_MAX + 1) else v), n, False))"

subsection \<open>Printed numbers\<close>

definition digit_char :: "nat \<Rightarrow> byte" where
  "digit_char d = char_of (if d < 10 then 48 + d else 87 + d)"

fun digits :: "nat \<Rightarrow> nat \<Rightarrow> string" where
  "digits b n = (if n < b \<or> b < 2 then [digit_char n] else digits b (n div b) @ [digit_char (n mod b)])"

declare digits.simps [simp del]

abbreviation dec :: "nat \<Rightarrow> string" where
  "dec \<equiv> digits 10"

lemma length_digits: "length (digits b n) \<le> n + 1"
proof (induction b n rule: digits.induct)
  case (1 b n)
  show ?case
  proof (cases "n < b \<or> b < 2")
    case False
    then have "length (digits b (n div b)) \<le> n div b + 1" using 1 by simp
    moreover have "n div b < n" using False by (intro div_less_dividend) auto
    ultimately have "length (digits b (n div b)) \<le> n" by linarith
    then show ?thesis using False by (subst digits.simps) simp
  qed (subst digits.simps; simp)
qed

lemma digits_ne [simp]: "digits b n \<noteq> []"
  by (subst digits.simps) simp

lemma digit_val_char: "d < 16 \<Longrightarrow> digit_val (digit_char d) = Some d"
  by (auto simp: digit_val_def digit_char_def Let_def)

lemma is_digit_char: "d < b \<Longrightarrow> b \<le> 16 \<Longrightarrow> is_digit b (digit_char d)"
  by (simp add: is_digit_def digit_val_char)

lemma digits_are_digits:
  assumes "2 \<le> b" "b \<le> 16"
  shows "\<forall>c \<in> set (digits b n). is_digit b c"
  using assms
proof (induction b n rule: digits.induct)
  case (1 b n)
  then show ?case by (subst digits.simps) (auto simp: is_digit_char)
qed

lemma value_of_digits:
  assumes "2 \<le> b" "b \<le> 16"
  shows "value_of b (digits b n) = n"
  using assms
proof (induction b n rule: digits.induct)
  case (1 b n)
  show ?case
  proof (cases "n < b")
    case True
    with 1(3) show ?thesis by (subst digits.simps) (simp add: value_of_def digit_val_char)
  next
    case False
    with 1 have "value_of b (digits b (n div b)) = n div b" by simp
    moreover have "n mod b < 16" using 1(2,3) mod_less_divisor [of b n] by linarith
    ultimately show ?thesis using False 1(2)
      by (subst digits.simps) (simp add: value_of_def digit_val_char mod_less_divisor)
  qed
qed

lemma is_digit_plain: "is_digit b c \<Longrightarrow> \<not> isspace c \<and> c \<noteq> CHR ''-'' \<and> c \<noteq> CHR ''+''"
  by (auto simp: is_digit_def digit_val_def isspace_def)

lemma is_digit_10_16: "is_digit b c \<Longrightarrow> b \<le> 16 \<Longrightarrow> c \<noteq> CHR ''x'' \<and> c \<noteq> CHR ''X''"
  by (auto simp: is_digit_def digit_val_def)

lemma number_base_plain:
  assumes "s \<noteq> []" "length s \<ge> 2 \<longrightarrow> s ! 1 \<noteq> CHR ''x'' \<and> s ! 1 \<noteq> CHR ''X''" "b \<noteq> 0"
  shows "number_base b s = (b, 0)"
  using assms by (induction b s rule: number_base.induct) auto

text \<open>A printed number is read back, up to the first character that is no digit.\<close>

lemma strtoul_digits:
  assumes "2 \<le> b" "b \<le> 16" "n \<le> ULONG_MAX" "r = [] \<or> \<not> is_digit b (hd r) \<and> hd r \<noteq> CHR ''x'' \<and> hd r \<noteq> CHR ''X''"
  shows "strtoul (digits b n @ r) b = (n, length (digits b n), False)"
proof -
  let ?d = "digits b n"
  have d: "\<forall>c \<in> set ?d. is_digit b c" using digits_are_digits [OF assms(1,2)] .
  obtain c cs where c: "?d = c # cs" by (cases ?d) auto
  then have "\<not> isspace c \<and> c \<noteq> CHR ''-'' \<and> c \<noteq> CHR ''+''" using d is_digit_plain [of b c] by simp
  moreover have "number_base b (?d @ r) = (b, 0)"
  proof (rule number_base_plain)
    show "2 \<le> length (?d @ r) \<longrightarrow> (?d @ r) ! 1 \<noteq> CHR ''x'' \<and> (?d @ r) ! 1 \<noteq> CHR ''X''"
    proof (cases cs)
      case Nil
      with c assms(4) show ?thesis by (cases r) auto
    next
      case (Cons c' cs')
      with c d assms(2) is_digit_10_16 [of b c'] show ?thesis by simp
    qed
  qed (use assms(1) in auto)
  moreover have "takeWhile (is_digit b) (?d @ r) = ?d"
    using d assms(4) by (cases r) (auto simp: takeWhile_append2 takeWhile_tail)
  ultimately show ?thesis using c assms(3) value_of_digits [OF assms(1,2), of n]
    by (simp add: strtoul_def)
qed

text \<open>Base 0 reads a decimal number: only 0 starts with the digit 0.\<close>

lemma digits_hd: "2 \<le> b \<Longrightarrow> b \<le> 16 \<Longrightarrow> 0 < n \<Longrightarrow> hd (digits b n) \<noteq> CHR ''0''"
proof (induction b n rule: digits.induct)
  case (1 b n)
  show ?case
  proof (cases "n < b")
    case True
    then have "digit_val (digit_char n) = Some n" using 1(3) by (simp add: digit_val_char)
    moreover have "digit_val (CHR ''0'') = Some 0" by (simp add: digit_val_def)
    ultimately have "digit_char n \<noteq> CHR ''0''" using 1(4) by (metis less_not_refl option.inject)
    with True show ?thesis by (subst digits.simps) simp
  next
    case False
    with 1(2) have "0 < n div b" by (simp add: div_greater_zero_iff)
    with False 1 show ?thesis by (subst digits.simps) simp
  qed
qed

lemma number_base_dec:
  assumes "r = [] \<or> \<not> is_digit 10 (hd r) \<and> hd r \<noteq> CHR ''x'' \<and> hd r \<noteq> CHR ''X''"
  shows "number_base 0 (dec n @ r) = (if n = 0 then 8 else 10, 0)"
proof (cases "n = 0")
  case True
  have "dec 0 = ''0''" by (simp add: digits.simps digit_char_def char_of_def bit_0)
  with True assms show ?thesis by (cases r rule: list.exhaust; cases "tl r") auto
next
  case False
  then obtain c cs where c: "dec n = c # cs" "c \<noteq> CHR ''0''" using digits_hd [of 10 n] by (cases "dec n") auto
  then show ?thesis using False by (cases "cs @ r" rule: list.exhaust; cases "tl (cs @ r)") auto
qed

lemma strtoul_dec_0:
  assumes "n \<le> ULONG_MAX" "r = [] \<or> \<not> is_digit 10 (hd r) \<and> hd r \<noteq> CHR ''x'' \<and> hd r \<noteq> CHR ''X''"
  shows "strtoul (dec n @ r) 0 = (n, length (dec n), False)"
proof -
  let ?b = "if n = 0 then 8 else (10 :: nat)"
  have d: "\<forall>c \<in> set (dec n). is_digit ?b c" "value_of ?b (dec n) = n"
  proof -
    show "\<forall>c \<in> set (dec n). is_digit ?b c"
      using digits_are_digits [of 10 n] by (cases "n = 0") (auto simp: digits.simps [of 10 0] digit_char_def is_digit_def digit_val_def)
    show "value_of ?b (dec n) = n"
      using value_of_digits [of 10 n] by (cases "n = 0") (simp_all add: digits.simps [of 10 0] digit_char_def value_of_def digit_val_def)
  qed
  have nd: "r = [] \<or> \<not> is_digit ?b (hd r)" using assms(2) by (auto simp: is_digit_def split: option.splits)
  obtain c cs where c: "dec n = c # cs" by (cases "dec n") auto
  then have "\<not> isspace c \<and> c \<noteq> CHR ''-'' \<and> c \<noteq> CHR ''+''" using d(1) is_digit_plain [of ?b c] by simp
  moreover have "takeWhile (is_digit ?b) (dec n @ r) = dec n"
    using d(1) nd by (cases r) (auto simp: takeWhile_append2 takeWhile_tail)
  ultimately show ?thesis using c assms(1) d(2) number_base_dec [OF assms(2), of n]
    by (simp add: strtoul_def split del: if_split)
qed

end
