(* ===== verification/Range_Parse.thy ===== *)
theory Range_Parse
  imports Numerals
begin

section \<open>Bit range descriptions (range.h, range.c)\<close>

text \<open>
  \<open>range_parse\<close> is a state machine over the characters of a text.  Pointers into the text
  are offsets; behind the last character lies the terminating \<open>NUL\<close>.  The array that is
  filled is the list of its first \<open>i\<close> entries.  The parser is total; it is shown to keep
  within the text and the array and to read back what a printer of the syntax writes.
\<close>

datatype range_state =
    Start | Range_start | Range_start_space | Range_end | Range_end_space | Range_desc | Delimiter | Done

record range =
  r_start :: int
  r_end :: int
  r_desc :: nat
  desc_len :: nat

record range_parser =
  state :: range_state
  pos :: nat
  mark :: nat
  entry :: range
  ranges :: "range list"

definition char_at :: "string \<Rightarrow> nat \<Rightarrow> byte" where
  "char_at src p = (if p < length src then src ! p else NUL)"

text \<open>The conversion of an \<open>unsigned long\<close> to \<open>int\<close>.\<close>

definition to_int :: "nat \<Rightarrow> int" where
  "to_int n = (let m = int (n mod 2 ^ 32) in if m < 2 ^ 31 then m else m - 2 ^ 32)"

text \<open>The end of the description without the blanks before \<open>p\<close>.\<close>

fun trim :: "string \<Rightarrow> nat \<Rightarrow> nat \<Rightarrow> nat" where
  "trim src d 0 = 0"
| "trim src d (Suc p) = (if d < Suc p \<and> char_at src p = CHR '' '' then trim src d p else Suc p)"

text \<open>Ending a description at the current character: \<open>None\<close> when the array is full.\<close>

definition end_desc :: "string \<Rightarrow> nat \<Rightarrow> range_parser \<Rightarrow> range_parser option" where
  "end_desc src cap r =
     (let s = trim src (mark r) (pos r);
          e = (entry r)\<lparr>r_desc := mark r, desc_len := s - mark r\<rparr>
      in if length (ranges r) = cap then None
         else Some (r\<lparr>mark := s, entry := e, ranges := ranges r @ [e]\<rparr>))"

definition range_step :: "string \<Rightarrow> nat \<Rightarrow> range_parser \<Rightarrow> range_parser option" where
  "range_step src cap r =
     (let c = char_at src (pos r); number = to_int (fst (strtoul (drop (mark r) src) 10)); next = r\<lparr>pos := pos r + 1\<rparr> in
      if c = CHR '' '' \<or> c = CHR 0x09 \<or> c = CHR 0x0A then
        (if c = CHR 0x0A \<and> state r = Range_desc then map_option (\<lambda>r. r\<lparr>state := Done\<rparr>) (end_desc src cap r)
         else if state r = Range_start then Some (next\<lparr>entry := (entry r)\<lparr>r_start := number\<rparr>, state := Range_start_space\<rparr>)
         else if state r = Range_end then Some (next\<lparr>entry := (entry r)\<lparr>r_end := number\<rparr>, state := Range_end_space\<rparr>)
         else Some next)
      else if c = CHR '','' then
        (if state r \<noteq> Range_desc then None
         else map_option (\<lambda>r. r\<lparr>state := Delimiter, pos := pos r + 1\<rparr>) (end_desc src cap r))
      else if c = NUL then
        (if state r \<noteq> Range_desc \<and> state r \<noteq> Delimiter then None
         else map_option (\<lambda>r. r\<lparr>state := Done\<rparr>) (end_desc src cap r))
      else if is_digit 10 c then
        (if state r = Start \<or> state r = Delimiter then Some (next\<lparr>mark := pos r, state := Range_start\<rparr>)
         else if state r = Range_start_space then Some (next\<lparr>mark := pos r, state := Range_end\<rparr>)
         else if state r = Range_end_space then Some (next\<lparr>mark := pos r, state := Range_desc\<rparr>)
         else Some next)
      else if isgraph c then
        (if state r = Range_end_space then Some (next\<lparr>mark := pos r, state := Range_desc\<rparr>)
         else if state r \<noteq> Range_desc then None
         else Some next)
      else None)"

lemma end_desc_fields:
  "end_desc src cap r = Some r' \<Longrightarrow> pos r' = pos r \<and> state r' = state r"
  by (auto simp: end_desc_def Let_def split: if_splits)

text \<open>A step ends a description, ends the text, or moves on.\<close>

lemma range_step_cases:
  assumes "range_step src cap r = Some r'"
  obtains (finish) r1 where "end_desc src cap r = Some r1" "r' = r1\<lparr>state := Done\<rparr>" "char_at src (pos r) \<in> {NUL, CHR 0x0A}"
  | (delim) r1 where "end_desc src cap r = Some r1" "r' = r1\<lparr>state := Delimiter, pos := pos r1 + 1\<rparr>" "pos r < length src"
  | (move) "pos r' = Suc (pos r)" "mark r' = mark r \<or> mark r' = pos r" "ranges r' = ranges r" "pos r < length src"
      "state r' = state r \<or> state r' \<noteq> Done"
proof -
  define c where "c = char_at src (pos r)"
  have p: "pos r < length src" if "c \<noteq> NUL" using that by (simp add: c_def char_at_def split: if_splits)
  consider "c = CHR 0x0A \<and> state r = Range_desc" | "c = CHR '' '' \<or> c = CHR 0x09 \<or> c = CHR 0x0A \<and> state r \<noteq> Range_desc"
    | "c = CHR '',''" | "c = NUL" | "c \<notin> {CHR 0x0A, CHR '' '', CHR 0x09, CHR '','', NUL}" by blast
  then show ?thesis
  proof cases
    case 1
    with assms show ?thesis by (auto simp: range_step_def Let_def simp flip: c_def intro: finish)
  next
    case 2
    then have "c \<noteq> NUL" by auto
    with 2 assms p show ?thesis by (intro move) (auto simp: range_step_def Let_def simp flip: c_def split: if_splits)
  next
    case 3
    with assms p show ?thesis by (auto simp: range_step_def Let_def simp flip: c_def split: if_splits intro: delim)
  next
    case 4
    with assms show ?thesis by (auto simp: range_step_def Let_def simp flip: c_def split: if_splits intro: finish)
  next
    case 5
    with assms p show ?thesis by (intro move) (auto simp: range_step_def Let_def simp flip: c_def split: if_splits)
  qed
qed

lemma range_step_pos:
  assumes "range_step src cap r = Some r'" "state r' \<noteq> Done"
  shows "pos r' = Suc (pos r) \<and> pos r < length src"
  using assms(1)
proof (cases rule: range_step_cases)
  case (delim r1)
  then show ?thesis using end_desc_fields [of src cap r r1] by simp
qed (use assms(2) in auto)

function range_loop :: "string \<Rightarrow> nat \<Rightarrow> range_parser \<Rightarrow> range_parser option" where
  "range_loop src cap r =
     (case range_step src cap r of None \<Rightarrow> None
      | Some r' \<Rightarrow> if state r' = Done then Some r' else range_loop src cap r')"
  by pat_completeness auto
termination
proof (relation "measure (\<lambda>(src, cap, r). Suc (length src) - pos r)")
  fix src cap r r'
  assume "range_step src cap r = Some r'" "state r' \<noteq> Done"
  then show "((src, cap, r'), (src, cap, r)) \<in> measure (\<lambda>(src, cap, r). Suc (length src) - pos r)"
    using range_step_pos by fastforce
qed simp

declare range_loop.simps [simp del]

text \<open>
  The number of entries with the entries written and the end pointer; the return value -1 is
  the result \<open>None\<close>.  The argument \<open>junk\<close> is what the uninitialised entry holds.
\<close>

definition range_parse :: "range \<Rightarrow> string \<Rightarrow> nat \<Rightarrow> (int \<times> range list \<times> nat) option" where
  "range_parse junk desc cap =
     (case range_loop desc cap \<lparr>state = Start, pos = 0, mark = 0, entry = junk, ranges = []\<rparr> of
        None \<Rightarrow> None
      | Some r \<Rightarrow> Some (int (length (ranges r)), ranges r, pos r))"

subsection \<open>Bounds\<close>

definition range_in :: "string \<Rightarrow> range \<Rightarrow> bool" where
  "range_in src e \<longleftrightarrow> r_desc e + desc_len e \<le> length src"

definition parser_ok :: "string \<Rightarrow> nat \<Rightarrow> range_parser \<Rightarrow> bool" where
  "parser_ok src cap r \<longleftrightarrow> pos r \<le> length src \<and> mark r \<le> pos r \<and> length (ranges r) \<le> cap \<and> list_all (range_in src) (ranges r)"

lemma trim_le: "trim src d p \<le> p"
  by (induction p) auto

lemma trim_ge: "d \<le> p \<Longrightarrow> d \<le> trim src d p"
proof (induction p)
  case (Suc p)
  then show ?case by (cases "d = Suc p") auto
qed simp

lemma end_desc_ok:
  assumes "parser_ok src cap r" "end_desc src cap r = Some r'"
  shows "parser_ok src cap r' \<and> ranges r' \<noteq> []"
  using assms trim_le [of src "mark r" "pos r"] trim_ge [of "mark r" "pos r" src]
  by (auto simp: parser_ok_def end_desc_def range_in_def Let_def split: if_splits)

lemma parser_ok_simps:
  "parser_ok src cap (r\<lparr>state := x\<rparr>) \<longleftrightarrow> parser_ok src cap r"
  "parser_ok src cap (r\<lparr>entry := e\<rparr>) \<longleftrightarrow> parser_ok src cap r"
  by (simp_all add: parser_ok_def)

lemma range_step_ok:
  assumes "parser_ok src cap r" "range_step src cap r = Some r'" "state r \<noteq> Done"
  shows "parser_ok src cap r' \<and>
    (state r' = Done \<longrightarrow> ranges r' \<noteq> [] \<and> char_at src (pos r') \<in> {NUL, CHR 0x0A})"
  using assms(2)
proof (cases rule: range_step_cases)
  case (finish r1)
  then show ?thesis using end_desc_ok [OF assms(1)] end_desc_fields [of src cap r r1] by (auto simp: parser_ok_simps)
next
  case (delim r1)
  then show ?thesis using end_desc_ok [OF assms(1)] end_desc_fields [of src cap r r1] by (auto simp: parser_ok_def)
next
  case move
  then show ?thesis using assms(1,3) by (auto simp: parser_ok_def)
qed

lemma range_loop_ok:
  assumes "parser_ok src cap r" "state r \<noteq> Done" "range_loop src cap r = Some r'"
  shows "parser_ok src cap r' \<and> ranges r' \<noteq> [] \<and> char_at src (pos r') \<in> {NUL, CHR 0x0A}"
  using assms
proof (induction src cap r rule: range_loop.induct)
  case (1 src cap r)
  obtain r1 where r1: "range_step src cap r = Some r1" using 1(4) by (subst (asm) range_loop.simps) (auto split: option.splits)
  note ok = range_step_ok [OF 1(2) r1 1(3)]
  show ?case
  proof (cases "state r1 = Done")
    case True
    with r1 1(4) ok show ?thesis by (subst (asm) range_loop.simps) simp
  next
    case False
    then have "range_loop src cap r1 = Some r'" using r1 1(4) by (subst (asm) range_loop.simps) simp
    with 1(1) [OF r1 False] ok False show ?thesis by blast
  qed
qed

subsection \<open>Reading back\<close>

text \<open>A range as the syntax writes it, and what a client reads from an entry.\<close>

type_synonym range_text = "nat \<times> nat \<times> string"

fun show_range :: "range_text \<Rightarrow> string" where
  "show_range (a, b, d) = dec a @ CHR '' '' # dec b @ CHR '' '' # d"

fun show_ranges :: "range_text list \<Rightarrow> string" where
  "show_ranges [] = []"
| "show_ranges [x] = show_range x"
| "show_ranges (x # y # xs) = show_range x @ '', '' @ show_ranges (y # xs)"

definition range_view :: "string \<Rightarrow> range \<Rightarrow> int \<times> int \<times> string" where
  "range_view src e = (r_start e, r_end e, take (desc_len e) (drop (r_desc e) src))"

fun range_text_ok :: "range_text \<Rightarrow> bool" where
  "range_text_ok (a, b, d) \<longleftrightarrow> a < 2 ^ 31 \<and> b < 2 ^ 31 \<and> d \<noteq> [] \<and> isgraph (hd d) \<and> last d \<noteq> CHR '' '' \<and>
     (\<forall>c \<in> set d. c \<noteq> CHR '','' \<and> (isgraph c \<or> c = CHR '' '' \<or> c = CHR 0x09))"

lemma char_at_drop: "drop p src = c # rest \<Longrightarrow> char_at src p = c"
  by (metis char_at_def drop_all linorder_not_less list.distinct(1) nth_via_drop)

lemma drop_tl: "drop p src = xs @ rest \<Longrightarrow> drop (p + length xs) src = rest"
  by (metis add.commute append_eq_conv_conj drop_drop)

text \<open>Characters that a state passes over.\<close>

definition passes :: "range_state \<Rightarrow> byte \<Rightarrow> bool" where
  "passes st c \<longleftrightarrow> is_digit 10 c \<and> (st = Range_start \<or> st = Range_end) \<or>
     c \<noteq> CHR '','' \<and> st = Range_desc \<and> (isgraph c \<or> c = CHR '' '' \<or> c = CHR 0x09) \<or>
     (c = CHR '' '' \<or> c = CHR 0x09 \<or> c = CHR 0x0A) \<and> (st = Start \<or> st = Delimiter)"

lemma digit_not: "is_digit 10 c \<Longrightarrow> c \<noteq> CHR '' '' \<and> c \<noteq> CHR 0x09 \<and> c \<noteq> CHR 0x0A \<and> c \<noteq> CHR '','' \<and> c \<noteq> NUL"
  by (auto simp: is_digit_def digit_val_def)

lemma graph_not: "isgraph c \<Longrightarrow> c \<noteq> CHR '' '' \<and> c \<noteq> CHR 0x09 \<and> c \<noteq> CHR 0x0A \<and> c \<noteq> NUL"
  by (auto simp: isgraph_def)

lemma range_step_pass:
  assumes "char_at src (pos r) = c" "passes (state r) c"
  shows "range_step src cap r = Some (r\<lparr>pos := Suc (pos r)\<rparr>)" "state r \<noteq> Done"
proof -
  consider "is_digit 10 c" "state r = Range_start \<or> state r = Range_end" | "state r = Range_desc" "c \<noteq> CHR '',''" "isgraph c"
    | "state r = Range_desc" "c = CHR '' '' \<or> c = CHR 0x09"
    | "state r = Start \<or> state r = Delimiter" "c = CHR '' '' \<or> c = CHR 0x09 \<or> c = CHR 0x0A"
    using assms(2) unfolding passes_def by blast
  then have "range_step src cap r = Some (r\<lparr>pos := Suc (pos r)\<rparr>) \<and> state r \<noteq> Done"
  proof cases
    case 1
    with digit_not [OF 1(1)] show ?thesis by (auto simp: range_step_def assms(1))
  next
    case 2
    with graph_not [OF 2(3)] show ?thesis by (simp add: range_step_def assms(1) Let_def)
  qed (auto simp: range_step_def assms(1))
  then show "range_step src cap r = Some (r\<lparr>pos := Suc (pos r)\<rparr>)" "state r \<noteq> Done" by simp_all
qed

lemma range_loop_pass1:
  assumes "drop (pos r) src = c # rest" "passes (state r) c"
  shows "range_loop src cap r = range_loop src cap (r\<lparr>pos := Suc (pos r)\<rparr>)"
proof -
  have c: "char_at src (pos r) = c" using char_at_drop assms(1) by blast
  show ?thesis using range_step_pass(1) [OF c assms(2), of cap] range_step_pass(2) [OF c assms(2)] by (subst range_loop.simps) simp
qed

lemma range_loop_pass:
  assumes "drop (pos r) src = xs @ rest" "list_all (passes (state r)) xs"
  shows "range_loop src cap r = range_loop src cap (r\<lparr>pos := pos r + length xs\<rparr>)"
  using assms
proof (induction xs arbitrary: r)
  case (Cons x xs)
  have "drop (Suc (pos r)) src = xs @ rest" using drop_tl [of "pos r" src "[x]"] Cons.prems(1) by simp
  with Cons.IH [of "r\<lparr>pos := Suc (pos r)\<rparr>"] Cons.prems range_loop_pass1 [of r src x "xs @ rest" cap] show ?case by simp
qed simp

lemma range_loop_step:
  assumes "range_step src cap r = Some r'" "state r' \<noteq> Done"
  shows "range_loop src cap r = range_loop src cap r'"
  using assms by (subst range_loop.simps) simp

lemma to_int_small: "a < 2 ^ 31 \<Longrightarrow> to_int a = int a"
  by (simp add: to_int_def Let_def)

lemma strtoul_dec:
  assumes "a < 2 ^ 31"
  shows "strtoul (dec a @ CHR '' '' # rest) 10 = (a, length (dec a), False)"
  using assms by (intro strtoul_digits) (auto simp: ULONG_MAX_def is_digit_def digit_val_def)

text \<open>A number and the blank behind it.\<close>

lemma range_loop_number:
  assumes "drop (pos r) src = dec a @ CHR '' '' # rest" "a < 2 ^ 31"
    and "(state r = Start \<or> state r = Delimiter) \<and> st = Range_start_space \<and> e = (entry r)\<lparr>r_start := int a\<rparr> \<or>
         state r = Range_start_space \<and> st = Range_end_space \<and> e = (entry r)\<lparr>r_end := int a\<rparr>"
  shows "range_loop src cap r =
    range_loop src cap (r\<lparr>pos := pos r + length (dec a) + 1, mark := pos r, entry := e, state := st\<rparr>)"
proof -
  obtain c cs where c: "dec a = c # cs" by (cases "dec a") auto
  have d: "is_digit 10 c" "\<forall>x \<in> set cs. is_digit 10 x" using digits_are_digits [of 10 a] c by auto
  define st1 where "st1 = (if state r = Range_start_space then Range_end else Range_start)"
  let ?r1 = "r\<lparr>pos := Suc (pos r), mark := pos r, state := st1\<rparr>"
  let ?r2 = "r\<lparr>mark := pos r, state := st1, pos := pos r + length (dec a)\<rparr>"
  let ?r3 = "r\<lparr>pos := pos r + length (dec a) + 1, mark := pos r, entry := e, state := st\<rparr>"
  have dr: "drop (Suc (pos r)) src = cs @ CHR '' '' # rest" "drop (pos r + length (dec a)) src = CHR '' '' # rest"
    using drop_tl [of "pos r" src "[c]"] drop_tl [of "pos r" src "dec a"] assms(1) c by simp_all
  have "char_at src (pos r) = c" using char_at_drop assms(1) c by fastforce
  then have "range_step src cap r = Some ?r1"
    using digit_not [OF d(1)] d(1) assms(3) by (auto simp: range_step_def Let_def st1_def)
  then have "range_loop src cap r = range_loop src cap ?r1" by (intro range_loop_step) (simp_all add: st1_def)
  also have "\<dots> = range_loop src cap ?r2"
    using range_loop_pass [of ?r1 src cs "CHR '' '' # rest" cap] d(2) dr(1) c
    by (simp add: list_all_iff passes_def st1_def split: if_splits)
  also have "\<dots> = range_loop src cap ?r3"
  proof (rule range_loop_step)
    have "char_at src (pos ?r2) = CHR '' ''" using char_at_drop dr(2) by simp
    then show "range_step src cap ?r2 = Some ?r3"
      using assms(3) strtoul_dec [OF assms(2), of rest] assms(1) to_int_small [OF assms(2)]
      by (auto simp: range_step_def Let_def st1_def)
  qed (use assms(3) in auto)
  finally show ?thesis .
qed

text \<open>A range up to the end of its description.\<close>

lemma range_loop_range:
  assumes "drop (pos r) src = show_range (a, b, d) @ rest" "range_text_ok (a, b, d)" "state r = Start \<or> state r = Delimiter"
  shows "\<exists>r'. range_loop src cap r = range_loop src cap r' \<and> state r' = Range_desc \<and> pos r' = mark r' + length d \<and>
     drop (mark r') src = d @ rest \<and> ranges r' = ranges r \<and> r_start (entry r') = int a \<and> r_end (entry r') = int b \<and>
     pos r' = pos r + length (show_range (a, b, d))"
proof -
  have ab: "a < 2 ^ 31" "b < 2 ^ 31" using assms(2) by simp_all
  obtain c cs where d: "d = c # cs" using assms(2) by (cases d) auto
  have c: "isgraph c" "c \<noteq> CHR '',''" "list_all (passes Range_desc) cs"
    using assms(2) d by (auto simp: list_all_iff passes_def)
  let ?r1 = "r\<lparr>pos := pos r + length (dec a) + 1, mark := pos r, entry := (entry r)\<lparr>r_start := int a\<rparr>, state := Range_start_space\<rparr>"
  let ?r2 = "?r1\<lparr>pos := pos ?r1 + length (dec b) + 1, mark := pos ?r1, entry := (entry ?r1)\<lparr>r_end := int b\<rparr>, state := Range_end_space\<rparr>"
  let ?r3 = "?r2\<lparr>pos := Suc (pos ?r2), mark := pos ?r2, state := Range_desc\<rparr>"
  let ?r4 = "?r3\<lparr>pos := pos ?r3 + length cs\<rparr>"
  have d1: "drop (pos ?r1) src = dec b @ CHR '' '' # d @ rest"
    using drop_tl [of "pos r" src "dec a @ '' ''"] assms(1) by simp
  have d2: "drop (pos ?r2) src = d @ rest"
    using drop_tl [of "pos ?r1" src "dec b @ '' ''"] d1 by simp
  have d3: "drop (pos ?r3) src = cs @ rest" using drop_tl [of "pos ?r2" src "[c]"] d2 d by simp
  have "range_loop src cap r = range_loop src cap ?r1" using assms(1,3) ab(1) by (intro range_loop_number) auto
  also have "\<dots> = range_loop src cap ?r2" using d1 ab(2) by (intro range_loop_number) auto
  also have "\<dots> = range_loop src cap ?r3"
  proof (rule range_loop_step)
    have "char_at src (pos ?r2) = c" using char_at_drop d2 d by (metis append_Cons)
    then show "range_step src cap ?r2 = Some ?r3" using c(1,2) graph_not [OF c(1)] by (simp add: range_step_def Let_def)
  qed simp
  also have "\<dots> = range_loop src cap ?r4" using range_loop_pass [of ?r3 src cs rest cap] d3 c(3) by simp
  finally show ?thesis using d2 d by (intro exI [of _ ?r4]) simp
qed

lemma trim_none:
  assumes "drop m src = d @ rest" "d \<noteq> []" "last d \<noteq> CHR '' ''"
  shows "trim src m (m + length d) = m + length d"
proof -
  obtain ds c where d: "d = ds @ [c]" using assms(2) by (cases d rule: rev_cases) auto
  have "drop (m + length ds) src = c # rest" using drop_tl [of m src ds] assms(1) d by simp
  then have "char_at src (m + length ds) = c" by (rule char_at_drop)
  with assms(3) d show ?thesis by simp
qed

definition text_view :: "range_text \<Rightarrow> int \<times> int \<times> string" where
  "text_view x = (case x of (a, b, d) \<Rightarrow> (int a, int b, d))"

text \<open>The end of a range: its entry is appended.\<close>

lemma end_desc_view:
  assumes "range_text_ok (a, b, d)" "pos r = mark r + length d" "drop (mark r) src = d @ rest"
    and "r_start (entry r) = int a" "r_end (entry r) = int b" "length (ranges r) < cap"
  shows "\<exists>r'. end_desc src cap r = Some r' \<and> map (range_view src) (ranges r') = map (range_view src) (ranges r) @ [text_view (a, b, d)] \<and>
     length (ranges r') = Suc (length (ranges r)) \<and> pos r' = pos r \<and> state r' = state r"
  using assms trim_none [OF assms(3)] by (simp add: end_desc_def Let_def range_view_def text_view_def)

lemma range_loop_ranges:
  assumes "xs \<noteq> []" "list_all range_text_ok xs" "drop (pos r) src = show_ranges xs @ rest" "rest = [] \<or> hd rest = CHR 0x0A"
    and "state r = Start \<or> state r = Delimiter" "length (ranges r) + length xs \<le> cap"
  shows "\<exists>r'. range_loop src cap r = Some r' \<and>
     map (range_view src) (ranges r') = map (range_view src) (ranges r) @ map text_view xs \<and> pos r' = pos r + length (show_ranges xs)"
  using assms
proof (induction xs arbitrary: r rule: show_ranges.induct)
  case (2 x)
  obtain a b d where x: "x = (a, b, d)" by (cases x)
  have ok: "range_text_ok (a, b, d)" and cap: "length (ranges r) < cap" using "2.prems"(2,6) x by simp_all
  obtain r1 where r1: "range_loop src cap r = range_loop src cap r1" "state r1 = Range_desc" "pos r1 = mark r1 + length d"
      "drop (mark r1) src = d @ rest" "ranges r1 = ranges r" "r_start (entry r1) = int a" "r_end (entry r1) = int b"
      "pos r1 = pos r + length (show_range x)"
    using range_loop_range [of r src a b d rest cap, OF _ ok "2.prems"(5)] "2.prems"(3) x by auto
  obtain r2 where r2: "end_desc src cap r1 = Some r2" "map (range_view src) (ranges r2) = map (range_view src) (ranges r1) @ [text_view x]"
      "pos r2 = pos r1"
    using end_desc_view [OF ok r1(3,4,6,7)] cap r1(5) unfolding x by metis
  have dr: "drop (pos r1) src = rest" using drop_tl r1(3,4) by simp
  then have "char_at src (pos r1) = NUL \<or> char_at src (pos r1) = CHR 0x0A"
    using "2.prems"(4) char_at_drop [of "pos r1" src] by (cases rest) (auto simp: char_at_def)
  then have "range_step src cap r1 = Some (r2\<lparr>state := Done\<rparr>)" using r1(2) r2(1) by (auto simp: range_step_def)
  then have "range_loop src cap r1 = Some (r2\<lparr>state := Done\<rparr>)" by (subst range_loop.simps) simp
  then show ?case using r1 r2 by simp
next
  case (3 x y xs)
  obtain a b d where x: "x = (a, b, d)" by (cases x)
  have ok: "range_text_ok (a, b, d)" and cap: "length (ranges r) < cap" using "3.prems"(2,6) x by simp_all
  let ?rest = "'', '' @ show_ranges (y # xs) @ rest"
  obtain r1 where r1: "range_loop src cap r = range_loop src cap r1" "state r1 = Range_desc" "pos r1 = mark r1 + length d"
      "drop (mark r1) src = d @ ?rest" "ranges r1 = ranges r" "r_start (entry r1) = int a" "r_end (entry r1) = int b"
      "pos r1 = pos r + length (show_range x)"
    using range_loop_range [of r src a b d ?rest cap, OF _ ok "3.prems"(5)] "3.prems"(3) x by auto
  obtain r2 where r2: "end_desc src cap r1 = Some r2" "map (range_view src) (ranges r2) = map (range_view src) (ranges r1) @ [text_view x]"
      "length (ranges r2) = Suc (length (ranges r1))" "pos r2 = pos r1" "state r2 = state r1"
    using end_desc_view [OF ok r1(3,4,6,7)] cap r1(5) unfolding x by metis
  have dr: "drop (pos r1) src = ?rest" using drop_tl r1(3,4) by simp
  then have "char_at src (pos r1) = CHR '',''" using char_at_drop [of "pos r1" src] by simp
  then have "range_step src cap r1 = Some (r2\<lparr>state := Delimiter, pos := pos r1 + 1\<rparr>)" using r1(2) r2 by (auto simp: range_step_def)
  then have "range_loop src cap r1 = range_loop src cap (r2\<lparr>state := Delimiter, pos := pos r1 + 1\<rparr>)" by (rule range_loop_step) simp
  also have "\<dots> = range_loop src cap (r2\<lparr>state := Delimiter, pos := pos r1 + 2\<rparr>)" (is "_ = range_loop src cap ?r3")
    using range_loop_pass1 [of "r2\<lparr>state := Delimiter, pos := pos r1 + 1\<rparr>" src "CHR '' ''" "show_ranges (y # xs) @ rest" cap]
      drop_tl [of "pos r1" src "'',''"] dr by (simp add: passes_def)
  finally have "range_loop src cap r = range_loop src cap ?r3" using r1(1) by simp
  moreover have "drop (pos ?r3) src = show_ranges (y # xs) @ rest" using drop_tl [of "pos r1" src "'', ''"] dr by simp
  then obtain r' where "range_loop src cap ?r3 = Some r'" "pos r' = pos ?r3 + length (show_ranges (y # xs))"
      "map (range_view src) (ranges r') = map (range_view src) (ranges ?r3) @ map text_view (y # xs)"
    using "3.IH" [of ?r3] "3.prems" r1(5) r2(3) by auto
  ultimately show ?case using r1 r2 by (simp add: x)
qed simp

text \<open>What a client of the parser relies on.\<close>

lemma range_parse_within:
  assumes "range_parse junk src cap = Some (n, es, p)"
  shows "n = int (length es)" "es \<noteq> []" "length es \<le> cap" "list_all (range_in src) es" "p \<le> length src"
    "char_at src p = NUL \<or> char_at src p = CHR 0x0A"
proof -
  let ?r = "\<lparr>state = Start, pos = 0, mark = 0, entry = junk, ranges = []\<rparr>"
  obtain r where l: "range_loop src cap ?r = Some r" using assms unfolding range_parse_def by fastforce
  with assms have r: "n = int (length (ranges r))" "es = ranges r" "p = pos r" by (auto simp: range_parse_def)
  have "parser_ok src cap ?r" "state ?r \<noteq> Done" by (simp_all add: parser_ok_def)
  from range_loop_ok [OF this l]
  have ok: "parser_ok src cap r" "ranges r \<noteq> []" "char_at src (pos r) = NUL \<or> char_at src (pos r) = CHR 0x0A" by simp_all
  then show "n = int (length es)" "es \<noteq> []" "length es \<le> cap" "list_all (range_in src) es" "p \<le> length src"
    "char_at src p = NUL \<or> char_at src p = CHR 0x0A" using r by (simp_all add: parser_ok_def)
qed

lemma range_parse_text:
  assumes "xs \<noteq> []" "list_all range_text_ok xs" "length xs \<le> cap" "rest = [] \<or> hd rest = CHR 0x0A"
    and "set bs \<subseteq> {CHR '' '', CHR 0x09}"
  shows "\<exists>es. range_parse junk (bs @ show_ranges xs @ rest) cap = Some (int (length xs), es, length bs + length (show_ranges xs)) \<and>
     map (range_view (bs @ show_ranges xs @ rest)) es = map text_view xs"
proof -
  let ?r = "\<lparr>state = Start, pos = 0, mark = 0, entry = junk, ranges = []\<rparr>" and ?src = "bs @ show_ranges xs @ rest"
  have "list_all (passes Start) bs" using assms(5) by (auto simp: list_all_iff passes_def)
  then have "range_loop ?src cap ?r = range_loop ?src cap (?r\<lparr>pos := length bs\<rparr>)"
    using range_loop_pass [of ?r ?src bs "show_ranges xs @ rest" cap] by simp
  moreover obtain r where r: "range_loop ?src cap (?r\<lparr>pos := length bs\<rparr>) = Some r"
      "map (range_view ?src) (ranges r) = map text_view xs" "pos r = length bs + length (show_ranges xs)"
    using range_loop_ranges [OF assms(1,2), of "?r\<lparr>pos := length bs\<rparr>" ?src rest cap] assms(3,4) by auto
  moreover have "length (ranges r) = length xs" using r(2) by (metis length_map)
  ultimately show ?thesis by (simp add: range_parse_def)
qed

text \<open>
  A delimiter at the end of the text is not an error: it adds an entry with the bounds of the
  last range whose description is the delimiter itself.
\<close>

lemma end_desc_mark:
  assumes "end_desc src cap r = Some r'" "trim src (mark r) (pos r) = pos r"
  shows "mark r' = pos r" "r_start (entry r') = r_start (entry r)" "r_end (entry r') = r_end (entry r)"
  using assms by (auto simp: end_desc_def Let_def split: if_splits)

lemma range_parse_trailing_delimiter:
  assumes "range_text_ok (a, b, d)" "2 \<le> cap"
  shows "\<exists>es p. range_parse junk (show_range (a, b, d) @ '','') cap = Some (2, es, p) \<and>
     map (range_view (show_range (a, b, d) @ '','')) es = [(int a, int b, d), (int a, int b, '','')]"
proof -
  let ?r = "\<lparr>state = Start, pos = 0, mark = 0, entry = junk, ranges = []\<rparr>"
  define src where "src = show_range (a, b, d) @ '',''"
  have cap: "length (ranges ?r) < cap" using assms(2) by simp
  obtain r1 where r1: "range_loop src cap ?r = range_loop src cap r1" "state r1 = Range_desc" "pos r1 = mark r1 + length d"
      "drop (mark r1) src = d @ '',''" "ranges r1 = []" "r_start (entry r1) = int a" "r_end (entry r1) = int b"
      "pos r1 = length (show_range (a, b, d))"
    using range_loop_range [of ?r src a b d "'',''" cap, OF _ assms(1)] by (auto simp: src_def)
  have tr: "trim src (mark r1) (pos r1) = pos r1" using trim_none [OF r1(4)] assms(1) r1(3) by simp
  obtain r2 where r2: "end_desc src cap r1 = Some r2" "map (range_view src) (ranges r2) = [(int a, int b, d)]"
      "length (ranges r2) = 1" "pos r2 = pos r1"
    using end_desc_view [OF assms(1) r1(3,4,6,7), of cap] cap r1(5) by (auto simp: text_view_def)
  have dr: "drop (pos r1) src = '',''" using drop_tl r1(3,4) by simp
  note m = end_desc_mark [OF r2(1) tr]
  have c: "char_at src (pos r1) = CHR '',''" "char_at src (Suc (pos r1)) = NUL"
    using char_at_drop [OF dr] by (simp, simp add: char_at_def src_def r1(8))
  let ?r3 = "r2\<lparr>state := Delimiter, pos := Suc (pos r1)\<rparr>"
  have "range_step src cap r1 = Some ?r3" using c(1) r1(2) r2(1,4) by (simp add: range_step_def)
  then have "range_loop src cap ?r = range_loop src cap ?r3" using r1(1) range_loop_step [of src cap r1 ?r3] by simp
  moreover have "trim src (pos r1) (Suc (pos r1)) = Suc (pos r1)" using c(1) by simp
  then obtain r4 where "end_desc src cap ?r3 = Some r4" "length (ranges r4) = 2" "pos r4 = Suc (pos r1)"
      "map (range_view src) (ranges r4) = [(int a, int b, d), (int a, int b, '','')]"
    using m r2(2,3) assms(2) r1(6,7) dr by (simp add: end_desc_def Let_def range_view_def)
  moreover from this have "range_loop src cap ?r3 = Some (r4\<lparr>state := Done\<rparr>)" using c(2)
    by (subst range_loop.simps) (simp add: range_step_def)
  ultimately have "\<exists>es p. range_parse junk src cap = Some (2, es, p) \<and> map (range_view src) es = [(int a, int b, d), (int a, int b, '','')]"
    by (simp add: range_parse_def)
  then show ?thesis by (simp only: src_def)
qed

subsection \<open>Properties\<close>

text \<open>
  The range parser is total and stays within bounds: for every text and every capacity it
  either fails or fills between one and \<open>cap\<close> entries, every description lies within the text,
  and the end pointer is at a newline or at the end of the text.
\<close>

theorem range_parse_bounds:
  assumes "range_parse junk src cap = Some (n, es, p)"
  shows "n = int (length es) \<and> 0 < n \<and> length es \<le> cap \<and> list_all (range_in src) es \<and> p \<le> length src \<and>
     (p = length src \<or> src ! p = CHR 0x0A \<or> src ! p = NUL)"
  using range_parse_within [OF assms] by (cases "p < length src") (auto simp: char_at_def)



theorem range_parse_bounds_witness:
  "\<exists>es p. range_parse \<lparr>r_start = 7, r_end = 7, r_desc = 7, desc_len = 7\<rparr> (show_ranges [(1, 0, ''a'')]) 1 = Some (1, es, p) \<and>
     list_all (range_in (show_ranges [(1, 0, ''a'')])) es"
proof -
  let ?r = "\<lparr>state = Start, pos = 0, mark = 0, entry = \<lparr>r_start = 7, r_end = 7, r_desc = 7, desc_len = 7\<rparr>, ranges = []\<rparr>"
  let ?src = "show_ranges [(1, 0, ''a'')]"
  obtain r where "range_loop ?src 1 ?r = Some r" "map (range_view ?src) (ranges r) = [(1, 0, ''a'')]"
    using range_loop_ranges [of "[(1, 0, ''a'')]" ?r ?src "[]" 1]
    by (auto simp: isgraph_def text_view_def simp del: show_ranges.simps)
  then have e: "range_parse (entry ?r) ?src 1 = Some (1, ranges r, pos r)"
    by (auto simp: range_parse_def map_eq_Cons_conv simp del: show_ranges.simps)
  with range_parse_bounds [OF e] show ?thesis by auto
qed

end
