(* ===== verification/Cpuid_Info.thy ===== *)
theory Cpuid_Info
  imports Range_Parse
begin

section \<open>Descriptions of CPUID leaves (cpuid.h, cpuid\_info.c)\<close>

text \<open>
  \<open>cpuid_info_parse\<close> reads a text of blocks, one per leaf, with lines of bit ranges for the
  four registers, into a fixed array of 32 entries.  Pointers into the text are offsets; the
  pointer \<open>s\<close> to the current token is an option.  The ranges of a register are the list of
  the first \<open>count\<close> entries of its array, with offsets into the whole text.
\<close>

datatype status =
    Begin | Cpuid_name | Cpuid_arg0 | Cpuid_arg1 | Brace_open | Reg_name | Reg_assign | Reg_value | Brace_close | Finished

record cpuid_entry =
  e_eax :: int
  e_ecx :: int
  regs :: "range list list"

record cpuid_info =
  info_count :: int
  arr :: "cpuid_entry list"

record cpuid_parser =
  status :: status
  cur :: nat
  tok :: "nat option"
  idx :: nat
  num :: nat
  info :: cpuid_info

text \<open>A step fails with the return value -1, writes outside the array, or goes on.\<close>

datatype 'a outcome = Fail | Overflow | Go 'a

definition NR_ENTRIES :: nat where "NR_ENTRIES = 32"
definition NR_RANGES :: nat where "NR_RANGES = 32"

text \<open>A write to \<open>info->arr[i]\<close>.\<close>

definition put_entry :: "(cpuid_entry \<Rightarrow> cpuid_entry) \<Rightarrow> cpuid_parser \<Rightarrow> cpuid_parser outcome" where
  "put_entry f c =
     (if num c < length (arr (info c))
      then Go (c\<lparr>info := (info c)\<lparr>arr := (arr (info c))[num c := f (arr (info c) ! num c)]\<rparr>\<rparr>)
      else Overflow)"

definition shift_range :: "nat \<Rightarrow> range \<Rightarrow> range" where
  "shift_range n e = e\<lparr>r_desc := n + r_desc e\<rparr>"

text \<open>The end of a token at a blank.\<close>

definition end_token :: "string \<Rightarrow> nat \<Rightarrow> cpuid_parser \<Rightarrow> cpuid_parser outcome" where
  "end_token src s c =
     (if status c = Begin \<or> status c = Brace_close then
        (if take 5 (drop s src) \<noteq> ''cpuid'' then Fail else Go (c\<lparr>status := Cpuid_name\<rparr>))
      else if status c = Cpuid_name then
        (case strtoul (drop s src) 0 of (v, n, err) \<Rightarrow>
           if s + n \<noteq> cur c then Fail
           else put_entry (\<lambda>e. e\<lparr>e_eax := to_int v\<rparr>) (c\<lparr>status := Cpuid_arg0\<rparr>))
      else if status c = Cpuid_arg0 then
        (case strtoul (drop s src) 0 of (v, n, err) \<Rightarrow>
           put_entry (\<lambda>e. e\<lparr>e_ecx := to_int v\<rparr>) (c\<lparr>status := Cpuid_arg1\<rparr>))
      else if status c = Brace_open \<or> status c = Reg_value then
        (if cur c - s \<noteq> 3 \<or> char_at src s \<noteq> CHR ''e'' \<or> char_at src (s + 2) \<noteq> CHR ''x'' \<or>
            char_at src (s + 1) \<notin> set ''abcd'' then Fail
         else Go (c\<lparr>idx := of_char (char_at src (s + 1)) - 97, status := Reg_name\<rparr>))
      else Fail)"

definition cpuid_step :: "range \<Rightarrow> string \<Rightarrow> cpuid_parser \<Rightarrow> cpuid_parser outcome" where
  "cpuid_step junk src c =
     (let ch = char_at src (cur c) in
      if ch = NUL then
        (if status c \<noteq> Begin \<and> status c \<noteq> Brace_close then Fail else Go (c\<lparr>status := Finished\<rparr>))
      else if ch = CHR ''{'' then
        (if status c \<noteq> Cpuid_arg0 \<and> status c \<noteq> Cpuid_arg1 then Fail
         else Go (c\<lparr>tok := None, status := Brace_open, cur := cur c + 1\<rparr>))
      else if ch = CHR ''}'' then
        (if status c \<noteq> Brace_open \<and> status c \<noteq> Reg_value then Fail
         else Go (c\<lparr>tok := None, num := num c + 1, status := Brace_close, cur := cur c + 1\<rparr>))
      else if ch = CHR ''='' then
        (if status c \<noteq> Reg_name then Fail
         else if num c \<ge> length (arr (info c)) then Overflow
         else (case range_parse junk (drop (cur c + 1) src) NR_RANGES of
                 None \<Rightarrow> Fail
               | Some (r, es, endptr) \<Rightarrow>
                   if r \<le> 0 \<or> char_at src (cur c + 1 + endptr) \<noteq> CHR 0x0A then Fail
                   else put_entry (\<lambda>e. e\<lparr>regs := (regs e)[idx c := map (shift_range (cur c + 1)) es]\<rparr>)
                          (c\<lparr>status := Reg_value, tok := None, cur := cur c + 1 + endptr + 1\<rparr>)))
      else if \<not> isspace ch then
        (if tok c = None then
           (if status c = Cpuid_arg1 then Fail else Go (c\<lparr>tok := Some (cur c), cur := cur c + 1\<rparr>))
         else Go (c\<lparr>cur := cur c + 1\<rparr>))
      else
        (case tok c of None \<Rightarrow> Go (c\<lparr>cur := cur c + 1\<rparr>)
         | Some s \<Rightarrow>
             (case end_token src s c of Fail \<Rightarrow> Fail | Overflow \<Rightarrow> Overflow
              | Go c' \<Rightarrow> Go (c'\<lparr>tok := None, cur := cur c' + 1\<rparr>))))"

lemma put_entry_fields:
  "put_entry f c = Go c' \<Longrightarrow> cur c' = cur c \<and> status c' = status c \<and> num c' = num c \<and> idx c' = idx c \<and> tok c' = tok c"
  by (auto simp: put_entry_def split: if_splits)

lemma end_token_fields: "end_token src s c = Go c' \<Longrightarrow> cur c' = cur c \<and> num c' = num c \<and> status c' \<noteq> Finished"
  by (auto simp: end_token_def split: if_splits prod.splits dest!: put_entry_fields)

text \<open>A step that is not the last one moves on within the text.\<close>

lemma cpuid_step_cur:
  assumes "cpuid_step junk src c = Go c'" "status c' \<noteq> Finished"
  shows "cur c < cur c' \<and> cur c < length src"
proof -
  have "char_at src (cur c) \<noteq> NUL" using assms by (auto simp: cpuid_step_def split: if_splits)
  then have "cur c < length src" by (simp add: char_at_def split: if_splits)
  moreover have "cur c < cur c'"
    using assms by (auto simp: cpuid_step_def Let_def split: if_splits option.splits prod.splits outcome.splits
        dest!: put_entry_fields end_token_fields)
  ultimately show ?thesis by simp
qed

function cpuid_loop :: "range \<Rightarrow> string \<Rightarrow> cpuid_parser \<Rightarrow> cpuid_parser outcome" where
  "cpuid_loop junk src c =
     (case cpuid_step junk src c of Fail \<Rightarrow> Fail | Overflow \<Rightarrow> Overflow
      | Go c' \<Rightarrow> if status c' = Finished then Go c' else cpuid_loop junk src c')"
  by pat_completeness auto
termination
proof (relation "measure (\<lambda>(junk, src, c). length src - cur c)")
  fix junk src c c'
  assume "cpuid_step junk src c = Go c'" "status c' \<noteq> Finished"
  from cpuid_step_cur [OF this]
  show "((junk, src, c'), (junk, src, c)) \<in> measure (\<lambda>(junk, src, c). length src - cur c)" by auto
qed simp

declare cpuid_loop.simps [simp del]

definition clear_info :: "cpuid_info \<Rightarrow> cpuid_info" where
  "clear_info i = i\<lparr>info_count := 0, arr := map (\<lambda>e. e\<lparr>regs := replicate 4 []\<rparr>) (arr i)\<rparr>"

definition cpuid_info_parse :: "range \<Rightarrow> string \<Rightarrow> cpuid_info \<Rightarrow> (int \<times> cpuid_info) outcome" where
  "cpuid_info_parse junk src i =
     (case cpuid_loop junk src \<lparr>status = Begin, cur = 0, tok = None, idx = 0, num = 0, info = clear_info i\<rparr> of
        Fail \<Rightarrow> Fail | Overflow \<Rightarrow> Overflow
      | Go c \<Rightarrow> Go (int (num c), (info c)\<lparr>info_count := int (num c)\<rparr>))"

text \<open>\<open>%d\<close>, and the text that \<open>cpuid_info_dump\<close> prints.\<close>

definition show_int :: "int \<Rightarrow> string" where
  "show_int n = (if n < 0 then CHR ''-'' # dec (nat (- n)) else dec (nat n))"

definition dump_range :: "string \<Rightarrow> range \<Rightarrow> string" where
  "dump_range src e = CHR 0x09 # show_int (r_start e) @ '' '' @ show_int (r_end e) @ '' '' @
     takeWhile (\<lambda>c. c \<noteq> NUL) (take (desc_len e) (drop (r_desc e) src)) @ [CHR 0x0A]"

definition dump_reg :: "string \<Rightarrow> nat \<Rightarrow> range list \<Rightarrow> string" where
  "dump_reg src j es =
     (if es \<noteq> [] then ''    e'' @ [char_of (97 + j)] @ ''x:'' @ [CHR 0x0A] else []) @ concat (map (dump_range src) es)"

definition dump_entry :: "string \<Rightarrow> cpuid_entry \<Rightarrow> string" where
  "dump_entry src e = ''cpuid '' @ show_int (e_eax e) @ '' '' @ show_int (e_ecx e) @ [CHR 0x0D, CHR 0x0A] @
     concat (map (\<lambda>j. dump_reg src j (regs e ! j)) [0..<4])"

definition cpuid_info_dump :: "string \<Rightarrow> cpuid_info \<Rightarrow> string" where
  "cpuid_info_dump src i = concat (map (dump_entry src) (take (nat (info_count i)) (arr i)))"

subsection \<open>Bounds\<close>

definition entry_ok :: "string \<Rightarrow> cpuid_entry \<Rightarrow> bool" where
  "entry_ok src e \<longleftrightarrow> length (regs e) = 4 \<and> list_all (\<lambda>es. length es \<le> NR_RANGES \<and> list_all (range_in src) es) (regs e)"

definition cpuid_ok :: "string \<Rightarrow> cpuid_parser \<Rightarrow> bool" where
  "cpuid_ok src c \<longleftrightarrow> length (arr (info c)) = NR_ENTRIES \<and> list_all (entry_ok src) (arr (info c)) \<and>
     num c \<le> NR_ENTRIES \<and> (status c \<notin> {Begin, Brace_close, Cpuid_name, Finished} \<longrightarrow> num c < NR_ENTRIES)"

lemma list_all_update: "list_all P xs \<Longrightarrow> P x \<Longrightarrow> list_all P (xs[i := x])"
  using set_update_subset_insert [of xs i x] by (auto simp: list_all_iff)

lemma put_entry_ok:
  assumes "length (arr (info c)) = NR_ENTRIES" "list_all (entry_ok src) (arr (info c))" "put_entry f c = Go c'"
    and "\<And>e. entry_ok src e \<Longrightarrow> entry_ok src (f e)"
  shows "cpuid_ok src c' \<and> num c < NR_ENTRIES"
proof -
  have n: "num c < length (arr (info c))" using assms(3) by (simp add: put_entry_def split: if_splits)
  then have "entry_ok src (f (arr (info c) ! num c))" using assms(2,4) by (simp add: list_all_length)
  with assms n show ?thesis
    by (auto simp: cpuid_ok_def put_entry_def intro: list_all_update)
qed

lemma end_token_ok:
  assumes "cpuid_ok src c" "end_token src s c = Go c'"
  shows "cpuid_ok src c'"
proof -
  have e: "entry_ok src (e\<lparr>e_eax := v\<rparr>) = entry_ok src e" "entry_ok src (e\<lparr>e_ecx := v\<rparr>) = entry_ok src e" for e v
    by (simp_all add: entry_ok_def)
  have wf: "length (arr (info (c\<lparr>status := st\<rparr>))) = NR_ENTRIES" "list_all (entry_ok src) (arr (info (c\<lparr>status := st\<rparr>)))" for st
    using assms(1) by (simp_all add: cpuid_ok_def)
  have p: "put_entry (\<lambda>e. e\<lparr>e_eax := v\<rparr>) (c\<lparr>status := st\<rparr>) = Go d \<Longrightarrow> cpuid_ok src d"
    "put_entry (\<lambda>e. e\<lparr>e_ecx := v\<rparr>) (c\<lparr>status := st\<rparr>) = Go d \<Longrightarrow> cpuid_ok src d" for v st d
    using put_entry_ok [OF wf] e by blast+
  show ?thesis
    using assms p by (auto simp: end_token_def cpuid_ok_def split: if_splits prod.splits)
qed

lemma shift_range_in: "range_in (drop n src) e \<Longrightarrow> n \<le> length src \<Longrightarrow> range_in src (shift_range n e)"
  by (simp add: range_in_def shift_range_def)

lemma assign_ok:
  assumes "cpuid_ok src c" "range_parse junk (drop (cur c + 1) src) NR_RANGES = Some (r, es, endptr)" "cur c < length src"
    and "put_entry (\<lambda>e. e\<lparr>regs := (regs e)[idx c := map (shift_range (cur c + 1)) es]\<rparr>)
           (c\<lparr>status := Reg_value, tok := None, cur := cur c + 1 + endptr + 1\<rparr>) = Go c'"
  shows "cpuid_ok src c'"
proof -
  note w = range_parse_within [OF assms(2)]
  have new: "length (map (shift_range (cur c + 1)) es) \<le> NR_RANGES \<and> list_all (range_in src) (map (shift_range (cur c + 1)) es)"
    using w(3,4) assms(3) shift_range_in [of "cur c + 1" src] by (auto simp: list_all_iff)
  have "entry_ok src (e\<lparr>regs := (regs e)[idx c := map (shift_range (cur c + 1)) es]\<rparr>)" if "entry_ok src e" for e
    using that new unfolding entry_ok_def by (auto intro: list_all_update)
  then show ?thesis using assms(1) by (intro put_entry_ok [OF _ _ assms(4), THEN conjunct1]) (auto simp: cpuid_ok_def)
qed

lemma cpuid_step_ok:
  assumes "cpuid_ok src c" "cpuid_step junk src c = Go c'"
  shows "cpuid_ok src c'"
proof (cases "char_at src (cur c) = CHR ''=''")
  case True
  then have "cur c < length src" by (simp add: char_at_def split: if_splits)
  moreover obtain r es e where "range_parse junk (drop (cur c + 1) src) NR_RANGES = Some (r, es, e)"
      "put_entry (\<lambda>x. x\<lparr>regs := (regs x)[idx c := map (shift_range (cur c + 1)) es]\<rparr>)
         (c\<lparr>status := Reg_value, tok := None, cur := cur c + 1 + e + 1\<rparr>) = Go c'"
    using assms(2) True by (auto simp: cpuid_step_def Let_def split: if_splits option.splits)
  ultimately show ?thesis using assign_ok [OF assms(1)] by blast
next
  case False
  have token: "cpuid_ok src (d\<lparr>tok := None, cur := n\<rparr>)" if "end_token src s c = Go d" for s d n
    using end_token_ok [OF assms(1) that] by (simp add: cpuid_ok_def)
  from False assms token show ?thesis
    by (auto simp: cpuid_step_def Let_def split: if_splits option.splits outcome.splits) (auto simp: cpuid_ok_def)
qed

lemma cpuid_loop_ok:
  assumes "cpuid_ok src c" "cpuid_loop junk src c = Go c'"
  shows "cpuid_ok src c'"
  using assms
proof (induction junk src c rule: cpuid_loop.induct)
  case (1 junk src c)
  obtain c1 where c1: "cpuid_step junk src c = Go c1"
    using 1(3) by (subst (asm) cpuid_loop.simps) (auto split: outcome.splits)
  show ?case
  proof (cases "status c1 = Finished")
    case True
    with c1 1(3) cpuid_step_ok [OF 1(2) c1] show ?thesis by (subst (asm) cpuid_loop.simps) simp
  next
    case False
    then have "cpuid_loop junk src c1 = Go c'" using c1 1(3) by (subst (asm) cpuid_loop.simps) simp
    with 1(1) [OF c1 False] cpuid_step_ok [OF 1(2) c1] show ?thesis by blast
  qed
qed

subsection \<open>Reading back\<close>

type_synonym block_text = "nat \<times> nat \<times> (nat \<times> range_text list) list"

fun show_reg :: "nat \<times> range_text list \<Rightarrow> string" where
  "show_reg (i, xs) = [CHR 0x09, CHR ''e'', ''abcd'' ! i, CHR ''x''] @ '' ='' @ [CHR 0x09] @ show_ranges xs @ [CHR 0x0A]"

fun show_block :: "block_text \<Rightarrow> string" where
  "show_block (a, c, rs) = ''cpuid '' @ dec a @ '' '' @ dec c @ '' {'' @ [CHR 0x0A] @ concat (map show_reg rs) @ ''}'' @ [CHR 0x0A]"

fun block_ok :: "block_text \<Rightarrow> bool" where
  "block_ok (a, c, rs) \<longleftrightarrow> a < 2 ^ 31 \<and> c < 2 ^ 31 \<and>
     (\<forall>(i, xs) \<in> set rs. i < 4 \<and> xs \<noteq> [] \<and> length xs \<le> NR_RANGES \<and> list_all range_text_ok xs)"

text \<open>What a client reads from an entry, and what a block says; a repeated register counts last.\<close>

definition entry_view :: "string \<Rightarrow> cpuid_entry \<Rightarrow> int \<times> int \<times> (int \<times> int \<times> string) list list" where
  "entry_view src e = (e_eax e, e_ecx e, map (map (range_view src)) (regs e))"

definition put_reg :: "(int \<times> int \<times> string) list list \<Rightarrow> nat \<times> range_text list \<Rightarrow> (int \<times> int \<times> string) list list" where
  "put_reg vs x = vs[fst x := map text_view (snd x)]"

fun block_view :: "block_text \<Rightarrow> int \<times> int \<times> (int \<times> int \<times> string) list list" where
  "block_view (a, c, rs) = (int a, int c, foldl put_reg (replicate 4 []) rs)"

definition word_ch :: "byte \<Rightarrow> bool" where
  "word_ch ch \<longleftrightarrow> ch \<noteq> NUL \<and> ch \<notin> set ''{}='' \<and> \<not> isspace ch"

lemma cpuid_loop_step:
  assumes "cpuid_step junk src c = Go c'" "status c' \<noteq> Finished"
  shows "cpuid_loop junk src c = cpuid_loop junk src c'"
  using assms by (subst cpuid_loop.simps) simp

lemma isspace_not: "isspace ch \<Longrightarrow> ch \<noteq> NUL \<and> ch \<noteq> CHR ''{'' \<and> ch \<noteq> CHR ''}'' \<and> ch \<noteq> CHR ''=''"
  by (auto simp: isspace_def)

lemma cpuid_loop_blank:
  assumes "drop (cur c) src = ch # rest" "isspace ch" "tok c = None" "status c \<noteq> Finished"
  shows "cpuid_loop junk src c = cpuid_loop junk src (c\<lparr>cur := Suc (cur c)\<rparr>)"
proof (rule cpuid_loop_step)
  have "char_at src (cur c) = ch" using char_at_drop assms(1) by blast
  then show "cpuid_step junk src c = Go (c\<lparr>cur := Suc (cur c)\<rparr>)"
    using isspace_not [OF assms(2)] assms(2,3) by (simp add: cpuid_step_def Let_def)
qed (use assms(4) in simp)

lemma cpuid_loop_chars:
  assumes "drop (cur c) src = w @ rest" "list_all word_ch w" "tok c = Some s" "status c \<noteq> Finished"
  shows "cpuid_loop junk src c = cpuid_loop junk src (c\<lparr>cur := cur c + length w\<rparr>)"
  using assms
proof (induction w arbitrary: c)
  case (Cons ch w)
  have "char_at src (cur c) = ch" using char_at_drop Cons.prems(1) by fastforce
  then have "cpuid_step junk src c = Go (c\<lparr>cur := Suc (cur c)\<rparr>)"
    using Cons.prems(2,3) by (simp add: cpuid_step_def Let_def word_ch_def)
  then have "cpuid_loop junk src c = cpuid_loop junk src (c\<lparr>cur := Suc (cur c)\<rparr>)"
    using Cons.prems(4) by (intro cpuid_loop_step) simp_all
  moreover have "drop (Suc (cur c)) src = w @ rest" using drop_tl [of "cur c" src "[ch]"] Cons.prems(1) by simp
  ultimately show ?case using Cons.IH [of "c\<lparr>cur := Suc (cur c)\<rparr>"] Cons.prems by simp
qed simp

text \<open>A word and the blank behind it.\<close>

lemma cpuid_loop_word:
  assumes "drop (cur c) src = w @ ch # rest" "list_all word_ch w" "w \<noteq> []" "isspace ch" "tok c = None"
    and "status c \<noteq> Cpuid_arg1" "status c \<noteq> Finished"
    and "cw = c\<lparr>tok := Some (cur c), cur := cur c + length w\<rparr>"
  shows "end_token src (cur c) cw = Go c' \<Longrightarrow>
       cpuid_loop junk src c = cpuid_loop junk src (c'\<lparr>tok := None, cur := Suc (cur c')\<rparr>)"
    and "end_token src (cur c) cw = Overflow \<Longrightarrow> cpuid_loop junk src c = Overflow"
proof -
  obtain x ws where w: "w = x # ws" using assms(3) by (cases w) auto
  let ?c1 = "c\<lparr>tok := Some (cur c), cur := Suc (cur c)\<rparr>"
  have "char_at src (cur c) = x" using char_at_drop assms(1) w by fastforce
  then have "cpuid_step junk src c = Go ?c1" using assms(2,5,6) w by (simp add: cpuid_step_def Let_def word_ch_def)
  then have "cpuid_loop junk src c = cpuid_loop junk src ?c1" using assms(7) by (intro cpuid_loop_step) simp_all
  also have "\<dots> = cpuid_loop junk src cw"
    using cpuid_loop_chars [of ?c1 src ws "ch # rest" "cur c" junk] drop_tl [of "cur c" src "[x]"] assms w by simp
  finally have e: "cpuid_loop junk src c = cpuid_loop junk src cw" .
  have "char_at src (cur cw) = ch" using char_at_drop drop_tl [OF assms(1)] assms(8) by simp
  then have st: "cpuid_step junk src cw = (case end_token src (cur c) cw of Fail \<Rightarrow> Fail | Overflow \<Rightarrow> Overflow
      | Go c' \<Rightarrow> Go (c'\<lparr>tok := None, cur := cur c' + 1\<rparr>))"
    using isspace_not [OF assms(4)] assms(4,8) by (simp add: cpuid_step_def Let_def)
  show "cpuid_loop junk src c = cpuid_loop junk src (c'\<lparr>tok := None, cur := Suc (cur c')\<rparr>)"
    if "end_token src (cur c) cw = Go c'"
    unfolding e using that st end_token_fields [OF that] by (intro cpuid_loop_step) simp_all
  show "cpuid_loop junk src c = Overflow" if "end_token src (cur c) cw = Overflow"
    unfolding e using that st by (subst cpuid_loop.simps) simp
qed

text \<open>Only the entry \<open>n\<close> of the array changes.\<close>

definition writes :: "nat \<Rightarrow> cpuid_parser \<Rightarrow> cpuid_parser \<Rightarrow> bool" where
  "writes n c c' \<longleftrightarrow> length (arr (info c')) = length (arr (info c)) \<and> (\<forall>k. k \<noteq> n \<longrightarrow> arr (info c') ! k = arr (info c) ! k)"

lemma writes_trans: "writes n c c' \<Longrightarrow> writes n c' c'' \<Longrightarrow> writes n c c''"
  by (simp add: writes_def)

lemma put_entry_writes:
  assumes "num c < length (arr (info c))"
  shows "\<exists>c'. put_entry f c = Go c' \<and> writes (num c) c c' \<and> arr (info c') ! num c = f (arr (info c) ! num c)"
  using assms by (auto simp: put_entry_def writes_def)

lemma reg_char:
  assumes "i < 4"
  shows "''abcd'' ! i \<in> set ''abcd''" "of_char (''abcd'' ! i) - 97 = i" "word_ch (''abcd'' ! i)"
proof -
  have "i = 0 \<or> i = 1 \<or> i = 2 \<or> i = 3" using assms by auto
  then show "''abcd'' ! i \<in> set ''abcd''" "of_char (''abcd'' ! i) - 97 = i" "word_ch (''abcd'' ! i)"
    by (auto simp: word_ch_def isspace_def)
qed

lemma range_view_shift: "range_view src (shift_range n e) = range_view (drop n src) e"
  by (simp add: range_view_def shift_range_def add.commute)

text \<open>The name of a register.\<close>

lemma cpuid_loop_reg_name:
  assumes "drop (cur c) src = [CHR 0x09, CHR ''e'', ''abcd'' ! i, CHR ''x'', CHR '' ''] @ rest" "i < 4" "tok c = None"
    and "status c = Brace_open \<or> status c = Reg_value"
  shows "cpuid_loop junk src c = cpuid_loop junk src (c\<lparr>idx := i, status := Reg_name, cur := cur c + 5\<rparr>)"
proof -
  let ?c1 = "c\<lparr>cur := Suc (cur c)\<rparr>" and ?w = "[CHR ''e'', ''abcd'' ! i, CHR ''x'']"
  let ?cw = "?c1\<lparr>tok := Some (cur ?c1), cur := cur ?c1 + length ?w\<rparr>"
  let ?c2 = "?cw\<lparr>idx := i, status := Reg_name\<rparr>"
  have d1: "drop (cur ?c1) src = ?w @ CHR '' '' # rest" using drop_tl [of "cur c" src "[CHR 0x09]"] assms(1) by simp
  have ch: "char_at src (Suc (cur c)) = CHR ''e''" "char_at src (Suc (cur c) + 1) = ''abcd'' ! i" "char_at src (Suc (cur c) + 2) = CHR ''x''"
    using char_at_drop [of "Suc (cur c)" src] char_at_drop [of "Suc (cur c) + 1" src] char_at_drop [of "Suc (cur c) + 2" src]
      d1 drop_tl [of "cur ?c1" src "[CHR ''e'']"] drop_tl [of "cur ?c1" src "[CHR ''e'', ''abcd'' ! i]"] by simp_all
  have "cpuid_loop junk src c = cpuid_loop junk src ?c1"
    using assms by (intro cpuid_loop_blank) (auto simp: isspace_def)
  also have "\<dots> = cpuid_loop junk src (?c2\<lparr>tok := None, cur := Suc (cur ?c2)\<rparr>)"
  proof (rule cpuid_loop_word(1) [OF d1])
    show "list_all word_ch ?w" using reg_char(3) [OF assms(2)] by (simp add: word_ch_def isspace_def)
    show "end_token src (cur ?c1) ?cw = Go ?c2"
      using assms(4) ch reg_char(1,2) [OF assms(2)] by (auto simp: end_token_def)
  qed (use assms in \<open>auto simp: isspace_def\<close>)
  also have "?c2\<lparr>tok := None, cur := Suc (cur ?c2)\<rparr> = c\<lparr>idx := i, status := Reg_name, cur := cur c + 5\<rparr>"
    using assms(3) by simp
  finally show ?thesis .
qed

text \<open>A line of ranges.\<close>

lemma cpuid_step_assign:
  assumes "char_at src (cur c) = CHR ''=''" "status c = Reg_name" "num c < length (arr (info c))" "p = cur c + 1"
    and "range_parse junk (drop p src) NR_RANGES = Some (r, es, e)" "0 < r" "char_at src (p + e) = CHR 0x0A"
  shows "cpuid_step junk src c =
    put_entry (\<lambda>x. x\<lparr>regs := (regs x)[idx c := map (shift_range p) es]\<rparr>) (c\<lparr>status := Reg_value, tok := None, cur := p + e + 1\<rparr>)"
  using assms by (simp add: cpuid_step_def Let_def)

lemma cpuid_loop_reg:
  assumes "drop (cur c) src = show_reg (i, xs) @ rest" "i < 4" "xs \<noteq> []" "length xs \<le> NR_RANGES" "list_all range_text_ok xs"
    and "tok c = None" "status c = Brace_open \<or> status c = Reg_value" "num c < length (arr (info c))"
    and "entry_view src (arr (info c) ! num c) = (a, b, vs)"
  shows "\<exists>c'. cpuid_loop junk src c = cpuid_loop junk src c' \<and> cur c' = cur c + length (show_reg (i, xs)) \<and> status c' = Reg_value \<and>
     tok c' = None \<and> num c' = num c \<and> writes (num c) c c' \<and> entry_view src (arr (info c') ! num c) = (a, b, put_reg vs (i, xs))"
proof -
  let ?c1 = "c\<lparr>idx := i, status := Reg_name, cur := cur c + 5\<rparr>"
  have e1: "cpuid_loop junk src c = cpuid_loop junk src ?c1" using assms(1,2,6,7) by (intro cpuid_loop_reg_name) auto
  have d: "drop (cur c + 5) src = CHR ''='' # CHR 0x09 # show_ranges xs @ CHR 0x0A # rest"
    "drop (cur c + 6) src = [CHR 0x09] @ show_ranges xs @ CHR 0x0A # rest"
    using drop_tl [of "cur c" src "[CHR 0x09, CHR ''e'', ''abcd'' ! i, CHR ''x'', CHR '' '']"]
      drop_tl [of "cur c" src "[CHR 0x09, CHR ''e'', ''abcd'' ! i, CHR ''x'', CHR '' '', CHR ''='']"] assms(1) by (simp_all add: eval_nat_numeral)
  obtain es where es: "range_parse junk (drop (cur c + 6) src) NR_RANGES = Some (int (length xs), es, 1 + length (show_ranges xs))"
      "map (range_view (drop (cur c + 6) src)) es = map text_view xs"
    using range_parse_text [OF assms(3,5,4), of "CHR 0x0A # rest" "[CHR 0x09]"] d(2) by auto
  let ?f = "\<lambda>e. e\<lparr>regs := (regs e)[i := map (shift_range (cur c + 6)) es]\<rparr>"
  let ?c2 = "?c1\<lparr>status := Reg_value, tok := None, cur := cur c + 6 + (1 + length (show_ranges xs)) + 1\<rparr>"
  obtain c' where c': "put_entry ?f ?c2 = Go c'" "writes (num c) ?c2 c'"
      "arr (info c') ! num c = ?f (arr (info c) ! num c)"
    using put_entry_writes [of ?c2 ?f] assms(8) by auto
  have "char_at src (cur c + 5) = CHR ''=''" "char_at src (cur c + 6 + (1 + length (show_ranges xs))) = CHR 0x0A"
    using char_at_drop [OF d(1)] char_at_drop drop_tl [of "cur c + 6" src "[CHR 0x09] @ show_ranges xs"] d(2) by simp_all
  then have "cpuid_step junk src ?c1 = Go c'"
    using cpuid_step_assign [of src ?c1 "cur c + 6" junk, OF _ _ _ _ es(1)] c'(1) assms(3,8) by simp
  moreover have c'f: "status c' = Reg_value" "tok c' = None" "num c' = num c" "cur c' = cur c + 6 + (1 + length (show_ranges xs)) + 1"
    using put_entry_fields [OF c'(1)] by simp_all
  ultimately have "cpuid_loop junk src c = cpuid_loop junk src c'" using e1 cpuid_loop_step [of junk src ?c1 c'] by simp
  moreover have "entry_view src (arr (info c') ! num c) = (a, b, put_reg vs (i, xs))"
    using assms(9) c'(3) es(2) by (auto simp: entry_view_def put_reg_def map_update range_view_shift o_def)
  moreover have "writes (num c) c c'" using c'(2) by (simp add: writes_def)
  ultimately show ?thesis using c'f by (intro exI [of _ c']) simp
qed

lemma cpuid_loop_regs:
  assumes "drop (cur c) src = concat (map show_reg rs) @ rest"
    and "\<forall>(i, xs) \<in> set rs. i < 4 \<and> xs \<noteq> [] \<and> length xs \<le> NR_RANGES \<and> list_all range_text_ok xs"
    and "tok c = None" "status c = Brace_open \<or> status c = Reg_value" "num c < length (arr (info c))"
    and "entry_view src (arr (info c) ! num c) = (a, b, vs)"
  shows "\<exists>c'. cpuid_loop junk src c = cpuid_loop junk src c' \<and> cur c' = cur c + length (concat (map show_reg rs)) \<and>
     (status c' = Brace_open \<or> status c' = Reg_value) \<and> tok c' = None \<and> num c' = num c \<and> writes (num c) c c' \<and>
     entry_view src (arr (info c') ! num c) = (a, b, foldl put_reg vs rs)"
  using assms
proof (induction rs arbitrary: c vs)
  case Nil
  then show ?case by (intro exI [of _ c]) (simp add: writes_def)
next
  case (Cons r rs)
  obtain i xs where r: "r = (i, xs)" by (cases r)
  have ok: "i < 4" "xs \<noteq> []" "length xs \<le> NR_RANGES" "list_all range_text_ok xs" using Cons.prems(2) r by auto
  have d: "drop (cur c) src = show_reg (i, xs) @ concat (map show_reg rs) @ rest" using Cons.prems(1) r by (simp del: show_reg.simps)
  obtain c1 where c1: "cpuid_loop junk src c = cpuid_loop junk src c1" "cur c1 = cur c + length (show_reg r)" "status c1 = Reg_value"
      "tok c1 = None" "num c1 = num c" "writes (num c) c c1" "entry_view src (arr (info c1) ! num c) = (a, b, put_reg vs r)"
    using cpuid_loop_reg [OF d ok Cons.prems(3-6)] r by blast
  have "drop (cur c1) src = concat (map show_reg rs) @ rest" using drop_tl [OF d] c1(2) r by simp
  moreover have "num c1 < length (arr (info c1))" using c1(5,6) Cons.prems(5) by (simp add: writes_def)
  ultimately obtain c2 where "cpuid_loop junk src c1 = cpuid_loop junk src c2" "cur c2 = cur c1 + length (concat (map show_reg rs))"
      "status c2 = Brace_open \<or> status c2 = Reg_value" "tok c2 = None" "num c2 = num c1" "writes (num c1) c1 c2"
      "entry_view src (arr (info c2) ! num c1) = (a, b, foldl put_reg (put_reg vs r) rs)"
    using Cons.IH [of c1 "put_reg vs r"] Cons.prems(2) c1 by (auto simp del: show_reg.simps)
  with c1 show ?case using writes_trans by (intro exI [of _ c2]) (auto simp del: show_reg.simps)
qed

lemma dec_words: "list_all word_ch (dec n)"
  using digits_are_digits [of 10 n] is_digit_plain by (fastforce simp: list_all_iff word_ch_def is_digit_def digit_val_def)

text \<open>The head of a block up to its brace, for an entry that exists.\<close>

lemma strtoul_blank: "a < 2 ^ 31 \<Longrightarrow> strtoul (dec a @ CHR '' '' # rest) 0 = (a, length (dec a), False)"
  by (intro strtoul_dec_0) (auto simp: ULONG_MAX_def is_digit_def digit_val_def)

lemma cpuid_loop_name:
  assumes "drop (cur c) src = ''cpuid '' @ rest" "tok c = None" "status c = Begin \<or> status c = Brace_close"
  shows "cpuid_loop junk src c = cpuid_loop junk src (c\<lparr>status := Cpuid_name, cur := cur c + 6\<rparr>)"
proof -
  let ?cw = "c\<lparr>tok := Some (cur c), cur := cur c + length ''cpuid''\<rparr>"
  have "cpuid_loop junk src c = cpuid_loop junk src ((?cw\<lparr>status := Cpuid_name\<rparr>)\<lparr>tok := None, cur := Suc (cur (?cw\<lparr>status := Cpuid_name\<rparr>))\<rparr>)"
  proof (rule cpuid_loop_word(1) [of c src "''cpuid''" "CHR '' ''" rest])
    show "end_token src (cur c) ?cw = Go (?cw\<lparr>status := Cpuid_name\<rparr>)" using assms(1,3) by (auto simp: end_token_def)
  qed (use assms in \<open>auto simp: word_ch_def isspace_def\<close>)
  also have "(?cw\<lparr>status := Cpuid_name\<rparr>)\<lparr>tok := None, cur := Suc (cur (?cw\<lparr>status := Cpuid_name\<rparr>))\<rparr> = c\<lparr>status := Cpuid_name, cur := cur c + 6\<rparr>"
    using assms(2) by simp
  finally show ?thesis .
qed

lemma cpuid_loop_arg:
  assumes "drop (cur c) src = dec a @ CHR '' '' # rest" "a < 2 ^ 31" "tok c = None"
    and "status c = Cpuid_name \<and> st = Cpuid_arg0 \<and> f = (\<lambda>e. e\<lparr>e_eax := int a\<rparr>) \<or>
         status c = Cpuid_arg0 \<and> st = Cpuid_arg1 \<and> f = (\<lambda>e. e\<lparr>e_ecx := int a\<rparr>)"
  shows "num c < length (arr (info c)) \<Longrightarrow>
      \<exists>c'. cpuid_loop junk src c = cpuid_loop junk src c' \<and> cur c' = cur c + length (dec a) + 1 \<and> status c' = st \<and> tok c' = None \<and>
        num c' = num c \<and> writes (num c) c c' \<and> arr (info c') ! num c = f (arr (info c) ! num c)"
    and "length (arr (info c)) \<le> num c \<Longrightarrow> cpuid_loop junk src c = Overflow"
proof -
  let ?cw = "c\<lparr>tok := Some (cur c), cur := cur c + length (dec a)\<rparr>"
  have et: "end_token src (cur c) ?cw = put_entry f (?cw\<lparr>status := st\<rparr>)"
    using assms(1,4) strtoul_blank [OF assms(2), of rest] to_int_small [OF assms(2)] by (auto simp: end_token_def)
  note word = cpuid_loop_word [OF assms(1) dec_words digits_ne _ assms(3) _ _ refl]
  have sp: "isspace (CHR '' '')" "status c \<noteq> Cpuid_arg1" "status c \<noteq> Finished" using assms(4) by (auto simp: isspace_def)
  {
    assume n: "num c < length (arr (info c))"
    then obtain d where d: "put_entry f (?cw\<lparr>status := st\<rparr>) = Go d" "writes (num c) (?cw\<lparr>status := st\<rparr>) d"
        "arr (info d) ! num c = f (arr (info c) ! num c)"
      using put_entry_writes [of "?cw\<lparr>status := st\<rparr>" f] by auto
    have f: "cur d = cur c + length (dec a)" "status d = st" "num d = num c" using put_entry_fields [OF d(1)] by simp_all
    show "\<exists>c'. cpuid_loop junk src c = cpuid_loop junk src c' \<and> cur c' = cur c + length (dec a) + 1 \<and> status c' = st \<and> tok c' = None \<and>
        num c' = num c \<and> writes (num c) c c' \<and> arr (info c') ! num c = f (arr (info c) ! num c)"
      using word(1) [OF sp, of d junk] et d f by (intro exI [of _ "d\<lparr>tok := None, cur := Suc (cur d)\<rparr>"]) (simp add: writes_def)
  }
  show "cpuid_loop junk src c = Overflow" if "length (arr (info c)) \<le> num c"
    using word(2) [OF sp] et that by (simp add: put_entry_def)
qed

lemma cpuid_loop_brace:
  assumes "drop (cur c) src = ch # CHR 0x0A # rest" "tok c = None"
    and "ch = CHR ''{'' \<and> status c = Cpuid_arg1 \<and> c' = c\<lparr>status := Brace_open, cur := cur c + 2\<rparr> \<or>
         ch = CHR ''}'' \<and> (status c = Brace_open \<or> status c = Reg_value) \<and>
           c' = c\<lparr>num := num c + 1, status := Brace_close, cur := cur c + 2\<rparr>"
  shows "cpuid_loop junk src c = cpuid_loop junk src c'"
proof -
  let ?c1 = "c'\<lparr>cur := cur c + 1\<rparr>"
  have "char_at src (cur c) = ch" using char_at_drop assms(1) by blast
  then have "cpuid_step junk src c = Go ?c1" using assms(2,3) by (auto simp: cpuid_step_def Let_def)
  then have "cpuid_loop junk src c = cpuid_loop junk src ?c1" using assms(3) by (intro cpuid_loop_step) auto
  also have "\<dots> = cpuid_loop junk src (?c1\<lparr>cur := Suc (cur ?c1)\<rparr>)"
    using assms drop_tl [of "cur c" src "[ch]"] by (intro cpuid_loop_blank) (auto simp: isspace_def)
  also have "?c1\<lparr>cur := Suc (cur ?c1)\<rparr> = c'" using assms(3) by auto
  finally show ?thesis .
qed

text \<open>A whole block; an entry behind the array is an overflow.\<close>

definition fresh_entries :: "string \<Rightarrow> nat \<Rightarrow> cpuid_parser \<Rightarrow> bool" where
  "fresh_entries src n c \<longleftrightarrow> (\<forall>k. n \<le> k \<longrightarrow> k < length (arr (info c)) \<longrightarrow> regs (arr (info c) ! k) = replicate 4 [])"

lemma cpuid_loop_head:
  assumes d: "drop (cur c) src = ''cpuid '' @ dec a @ CHR '' '' # dec b @ CHR '' '' # CHR ''{'' # CHR 0x0A # rest"
    and ab: "a < 2 ^ 31" "b < 2 ^ 31" and c: "tok c = None" "status c = Begin \<or> status c = Brace_close"
  shows "num c < length (arr (info c)) \<Longrightarrow> fresh_entries src (num c) c \<Longrightarrow>
     \<exists>c'. cpuid_loop junk src c = cpuid_loop junk src c' \<and> cur c' = cur c + (length (dec a) + length (dec b) + 10) \<and> status c' = Brace_open \<and>
       tok c' = None \<and> num c' = num c \<and> writes (num c) c c' \<and> entry_view src (arr (info c') ! num c) = (int a, int b, replicate 4 [])"
    and "length (arr (info c)) \<le> num c \<Longrightarrow> cpuid_loop junk src c = Overflow"
proof -
  let ?t2 = "CHR ''{'' # CHR 0x0A # rest" and ?c1 = "c\<lparr>status := Cpuid_name, cur := cur c + 6\<rparr>"
  have l1: "cpuid_loop junk src c = cpuid_loop junk src ?c1" using d c by (intro cpuid_loop_name) auto
  have d1: "drop (cur ?c1) src = dec a @ CHR '' '' # dec b @ CHR '' '' # ?t2"
    using drop_tl [of "cur c" src "''cpuid ''"] d by (simp add: eval_nat_numeral)
  note arg1 = cpuid_loop_arg [OF d1 ab(1), where f = "\<lambda>e. e\<lparr>e_eax := int a\<rparr>" and st = Cpuid_arg0 and junk = junk]
  show "cpuid_loop junk src c = Overflow" if "length (arr (info c)) \<le> num c" using arg1(2) l1 c(1) that by simp
  assume n: "num c < length (arr (info c))" and fr: "fresh_entries src (num c) c"
  obtain c2 where c2: "cpuid_loop junk src ?c1 = cpuid_loop junk src c2" "cur c2 = cur ?c1 + length (dec a) + 1" "status c2 = Cpuid_arg0"
      "tok c2 = None" "num c2 = num c" "writes (num c) ?c1 c2" "arr (info c2) ! num c = (arr (info c) ! num c)\<lparr>e_eax := int a\<rparr>"
    using arg1(1) c(1) n by auto
  have d2: "drop (cur c2) src = dec b @ CHR '' '' # ?t2" using drop_tl [of "cur ?c1" src "dec a @ '' ''"] d1 c2(2) by simp
  have n2: "num c2 < length (arr (info c2))" using c2(5,6) n by (simp add: writes_def)
  obtain c3 where c3: "cpuid_loop junk src c2 = cpuid_loop junk src c3" "cur c3 = cur c2 + length (dec b) + 1" "status c3 = Cpuid_arg1"
      "tok c3 = None" "num c3 = num c2" "writes (num c2) c2 c3" "arr (info c3) ! num c2 = (arr (info c2) ! num c2)\<lparr>e_ecx := int b\<rparr>"
    using cpuid_loop_arg(1) [OF d2 ab(2) c2(4) _ n2, where f = "\<lambda>e. e\<lparr>e_ecx := int b\<rparr>" and st = Cpuid_arg1 and junk = junk] c2(3) by auto
  have d3: "drop (cur c3) src = ?t2" using drop_tl [of "cur c2" src "dec b @ '' ''"] d2 c3(2) by simp
  let ?c4 = "c3\<lparr>status := Brace_open, cur := cur c3 + 2\<rparr>"
  have "cpuid_loop junk src c3 = cpuid_loop junk src ?c4" using c3 d3 by (intro cpuid_loop_brace) auto
  moreover have "entry_view src (arr (info ?c4) ! num c) = (int a, int b, replicate 4 [])"
    using fr n c2 c3 by (simp add: entry_view_def fresh_entries_def)
  moreover have "writes (num c) c ?c4" using c2(5,6) c3(5,6) by (auto simp: writes_def)
  ultimately show "\<exists>c'. cpuid_loop junk src c = cpuid_loop junk src c' \<and> cur c' = cur c + (length (dec a) + length (dec b) + 10) \<and>
       status c' = Brace_open \<and> tok c' = None \<and> num c' = num c \<and> writes (num c) c c' \<and>
       entry_view src (arr (info c') ! num c) = (int a, int b, replicate 4 [])"
    using l1 c2(1,2,5) c3(1,2,4,5) by (intro exI [of _ ?c4]) simp
qed

lemma cpuid_loop_block:
  assumes d: "drop (cur c) src = show_block (a, b, rs) @ rest" and ok: "block_ok (a, b, rs)"
    and c: "tok c = None" "status c = Begin \<or> status c = Brace_close"
  shows "num c < length (arr (info c)) \<Longrightarrow> fresh_entries src (num c) c \<Longrightarrow>
     \<exists>c'. cpuid_loop junk src c = cpuid_loop junk src c' \<and> cur c' = cur c + length (show_block (a, b, rs)) \<and> status c' = Brace_close \<and>
       tok c' = None \<and> num c' = Suc (num c) \<and> writes (num c) c c' \<and> entry_view src (arr (info c') ! num c) = block_view (a, b, rs)"
    and "length (arr (info c)) \<le> num c \<Longrightarrow> cpuid_loop junk src c = Overflow"
proof -
  have ab: "a < 2 ^ 31" "b < 2 ^ 31" and rs: "\<forall>(i, xs) \<in> set rs. i < 4 \<and> xs \<noteq> [] \<and> length xs \<le> NR_RANGES \<and> list_all range_text_ok xs"
    using ok by auto
  let ?t = "concat (map show_reg rs) @ CHR ''}'' # CHR 0x0A # rest"
  let ?h = "''cpuid '' @ dec a @ CHR '' '' # dec b @ CHR '' '' # CHR ''{'' # [CHR 0x0A]"
  have d0: "drop (cur c) src = ''cpuid '' @ dec a @ CHR '' '' # dec b @ CHR '' '' # CHR ''{'' # CHR 0x0A # ?t" using d by simp
  note hd = cpuid_loop_head [OF d0 ab c, where junk = junk]
  show "cpuid_loop junk src c = Overflow" if "length (arr (info c)) \<le> num c" using hd(2) [OF that] .
  assume n: "num c < length (arr (info c))" and fr: "fresh_entries src (num c) c"
  obtain c4 where c4: "cpuid_loop junk src c = cpuid_loop junk src c4" "cur c4 = cur c + (length (dec a) + length (dec b) + 10)"
      "status c4 = Brace_open" "tok c4 = None" "num c4 = num c" "writes (num c) c c4"
      "entry_view src (arr (info c4) ! num c) = (int a, int b, replicate 4 [])"
    using hd(1) [OF n fr] by blast
  have d4: "drop (cur c4) src = ?t" using drop_tl [of "cur c" src ?h] d0 c4(2) by (simp add: eval_nat_numeral)
  have n4: "num c4 < length (arr (info c4))" using c4(5,6) n by (simp add: writes_def)
  obtain c5 where c5: "cpuid_loop junk src c4 = cpuid_loop junk src c5" "cur c5 = cur c4 + length (concat (map show_reg rs))"
      "status c5 = Brace_open \<or> status c5 = Reg_value" "tok c5 = None" "num c5 = num c4" "writes (num c4) c4 c5"
      "entry_view src (arr (info c5) ! num c4) = (int a, int b, foldl put_reg (replicate 4 []) rs)"
    using cpuid_loop_regs [OF d4 rs c4(4) disjI1 [OF c4(3)] n4] c4(5,7) by metis
  have d5: "drop (cur c5) src = CHR ''}'' # CHR 0x0A # rest" using drop_tl [OF d4] c5(2) by simp
  let ?c6 = "c5\<lparr>num := num c5 + 1, status := Brace_close, cur := cur c5 + 2\<rparr>"
  have "cpuid_loop junk src c5 = cpuid_loop junk src ?c6" using c5(3,4) d5 by (intro cpuid_loop_brace) auto
  moreover have "cur ?c6 = cur c + length (show_block (a, b, rs))" using c5(2) c4(2) by simp
  moreover have "writes (num c) c4 ?c6" using c5(6) c4(5) by (simp add: writes_def)
  then have "writes (num c) c ?c6" by (rule writes_trans [OF c4(6)])
  ultimately show "\<exists>c'. cpuid_loop junk src c = cpuid_loop junk src c' \<and> cur c' = cur c + length (show_block (a, b, rs)) \<and> status c' = Brace_close \<and>
       tok c' = None \<and> num c' = Suc (num c) \<and> writes (num c) c c' \<and> entry_view src (arr (info c') ! num c) = block_view (a, b, rs)"
    using c4(1,5) c5(1,4,5,7) by (intro exI [of _ ?c6]) (simp del: show_block.simps)
qed

lemma cpuid_loop_end:
  assumes "drop (cur c) src = []" "status c = Begin \<or> status c = Brace_close"
  shows "cpuid_loop junk src c = Go (c\<lparr>status := Finished\<rparr>)"
  using assms by (subst cpuid_loop.simps) (auto simp: cpuid_step_def char_at_def)

lemma fresh_next: "fresh_entries src (num c) c \<Longrightarrow> writes (num c) c c' \<Longrightarrow> fresh_entries src (Suc (num c)) c'"
  by (auto simp: fresh_entries_def writes_def)

lemma cpuid_loop_blocks:
  assumes "drop (cur c) src = concat (map show_block bs)" "list_all block_ok bs" "tok c = None"
    and "status c = Begin \<or> status c = Brace_close" "fresh_entries src (num c) c" "num c \<le> length (arr (info c))"
  shows "if num c + length bs \<le> length (arr (info c))
    then \<exists>c'. cpuid_loop junk src c = Go c' \<and> num c' = num c + length bs \<and> length (arr (info c')) = length (arr (info c)) \<and>
      (\<forall>k < num c. arr (info c') ! k = arr (info c) ! k) \<and> (\<forall>j < length bs. entry_view src (arr (info c') ! (num c + j)) = block_view (bs ! j))
    else cpuid_loop junk src c = Overflow"
  using assms
proof (induction bs arbitrary: c)
  case Nil
  then show ?case using cpuid_loop_end [of c src junk] by simp
next
  case (Cons x bs)
  obtain a b rs where x: "x = (a, b, rs)" by (cases x)
  have d: "drop (cur c) src = show_block (a, b, rs) @ concat (map show_block bs)" and ok: "block_ok (a, b, rs)"
    using Cons.prems(1,2) x by (simp_all del: show_block.simps)
  note blk = cpuid_loop_block [OF d ok Cons.prems(3,4), where junk = junk]
  show ?case
  proof (cases "num c < length (arr (info c))")
    case False
    then show ?thesis using blk(2) by simp
  next
    case True
    obtain c1 where c1: "cpuid_loop junk src c = cpuid_loop junk src c1" "cur c1 = cur c + length (show_block x)" "status c1 = Brace_close"
        "tok c1 = None" "num c1 = Suc (num c)" "writes (num c) c c1" "entry_view src (arr (info c1) ! num c) = block_view x"
      using blk(1) [OF True Cons.prems(5)] x by blast
    have d1: "drop (cur c1) src = concat (map show_block bs)" using drop_tl [OF d] c1(2) x by simp
    have len: "length (arr (info c1)) = length (arr (info c))" using c1(6) by (simp add: writes_def)
    have IH: "if num c1 + length bs \<le> length (arr (info c1))
      then \<exists>c'. cpuid_loop junk src c1 = Go c' \<and> num c' = num c1 + length bs \<and> length (arr (info c')) = length (arr (info c1)) \<and>
        (\<forall>k < num c1. arr (info c') ! k = arr (info c1) ! k) \<and> (\<forall>j < length bs. entry_view src (arr (info c') ! (num c1 + j)) = block_view (bs ! j))
      else cpuid_loop junk src c1 = Overflow"
      using Cons.IH [of c1] d1 Cons.prems(2,5) c1(3-6) fresh_next True len by simp
    show ?thesis
    proof (cases "num c + length (x # bs) \<le> length (arr (info c))")
      case fits: True
      with IH len c1(5) obtain c' where c': "cpuid_loop junk src c1 = Go c'" "num c' = num c1 + length bs"
          "length (arr (info c')) = length (arr (info c1))" "\<forall>k < num c1. arr (info c') ! k = arr (info c1) ! k"
          "\<forall>j < length bs. entry_view src (arr (info c') ! (num c1 + j)) = block_view (bs ! j)"
        by auto
      have "entry_view src (arr (info c') ! (num c + j)) = block_view ((x # bs) ! j)" if "j < length (x # bs)" for j
      proof (cases j)
        case 0
        then show ?thesis using c'(4) c1(5,7) by simp
      next
        case (Suc i)
        then show ?thesis using c'(5) c1(5) that by simp
      qed
      moreover have "\<forall>k < num c. arr (info c') ! k = arr (info c) ! k" using c'(4) c1(5,6) by (simp add: writes_def)
      ultimately show ?thesis using fits c' c1(1,5) len by (intro if_P [THEN iffD2] exI [of _ c']) auto
    next
      case False
      then show ?thesis using IH len c1(1,5) by simp
    qed
  qed
qed

subsection \<open>Properties\<close>

text \<open>
  C28. Round trip and capacity of the CPUID description parser: the text of any list of blocks
  is parsed into exactly these blocks, each with its leaf, subleaf and the bit ranges of its
  four registers, as long as they are at most 32; with more blocks, the parser writes behind
  the array of 32 entries.
\<close>

theorem cpuid_info_parse_roundtrip:
  assumes "length (arr i) = NR_ENTRIES" "list_all block_ok bs"
  shows "if length bs \<le> NR_ENTRIES
    then \<exists>i'. cpuid_info_parse junk (concat (map show_block bs)) i = Go (int (length bs), i') \<and>
      info_count i' = int (length bs) \<and> map (entry_view (concat (map show_block bs))) (take (length bs) (arr i')) = map block_view bs
    else cpuid_info_parse junk (concat (map show_block bs)) i = Overflow"
proof -
  let ?src = "concat (map show_block bs)"
  let ?c = "\<lparr>status = Begin, cur = 0, tok = None, idx = 0, num = 0, info = clear_info i\<rparr>"
  have len: "length (arr (info ?c)) = NR_ENTRIES" using assms(1) by (simp add: clear_info_def)
  have fr: "fresh_entries ?src (num ?c) ?c" by (simp add: fresh_entries_def clear_info_def)
  note all = cpuid_loop_blocks [of ?c ?src bs junk, OF _ assms(2) _ _ fr, unfolded len]
  show ?thesis
  proof (cases "length bs \<le> NR_ENTRIES")
    case True
    then obtain c where c: "cpuid_loop junk ?src ?c = Go c" "num c = length bs" "length (arr (info c)) = NR_ENTRIES"
        "\<forall>j < length bs. entry_view ?src (arr (info c) ! j) = block_view (bs ! j)"
      using all by auto
    have "map (entry_view ?src) (take (length bs) (arr (info c))) = map block_view bs"
      using c True by (intro nth_equalityI) auto
    then show ?thesis using True c(1,2) by (simp add: cpuid_info_parse_def)
  next
    case False
    then show ?thesis using all by (simp add: cpuid_info_parse_def)
  qed
qed

theorem cpuid_info_parse_roundtrip_witness:
  "\<exists>i'. cpuid_info_parse \<lparr>r_start = 0, r_end = 0, r_desc = 0, desc_len = 0\<rparr>
      (concat (map show_block [(1, 0, [(3, [(0, 0, ''fpu''), (1, 1, ''vme'')])])]))
      \<lparr>info_count = 9, arr = replicate NR_ENTRIES \<lparr>e_eax = 5, e_ecx = 6, regs = [[], [], [], []]\<rparr>\<rparr> = Go (1, i') \<and>
     info_count i' = 1 \<and>
     map (entry_view (concat (map show_block [(1, 0, [(3, [(0, 0, ''fpu''), (1, 1, ''vme'')])])]))) (take 1 (arr i'))
       = [(1, 0, [[], [], [], [(0, 0, ''fpu''), (1, 1, ''vme'')]])]"
proof -
  let ?bs = "[(1, 0, [(3, [(0, 0, ''fpu''), (1, 1, ''vme'')])])] :: block_text list"
  have "list_all block_ok ?bs" by (simp add: NR_RANGES_def isgraph_def)
  moreover have "map block_view ?bs = [(1, 0, [[], [], [], [(0, 0, ''fpu''), (1, 1, ''vme'')]])]"
    by (simp add: put_reg_def text_view_def eval_nat_numeral)
  ultimately show ?thesis
    using cpuid_info_parse_roundtrip [of "\<lparr>info_count = 9, arr = replicate NR_ENTRIES \<lparr>e_eax = 5, e_ecx = 6, regs = [[], [], [], []]\<rparr>\<rparr>" ?bs]
    by (simp add: NR_ENTRIES_def del: show_block.simps block_view.simps)
qed

text \<open>
  Whatever the text is, a description that is accepted has at most 32 entries, each with
  four registers of at most 32 ranges, and every description of a range lies within the text.
\<close>

theorem cpuid_info_parse_bounds:
  assumes "length (arr i) = NR_ENTRIES" "cpuid_info_parse junk src i = Go (n, i')"
  shows "0 \<le> n \<and> n \<le> int NR_ENTRIES \<and> info_count i' = n \<and> length (arr i') = NR_ENTRIES \<and> list_all (entry_ok src) (arr i')"
proof -
  let ?c = "\<lparr>status = Begin, cur = 0, tok = None, idx = 0, num = 0, info = clear_info i\<rparr>"
  have ok: "cpuid_ok src ?c" using assms(1) by (simp add: cpuid_ok_def clear_info_def list_all_iff entry_ok_def)
  obtain c where c: "cpuid_loop junk src ?c = Go c" "n = int (num c)" "i' = (info c)\<lparr>info_count := int (num c)\<rparr>"
    using assms(2) by (cases "cpuid_loop junk src ?c") (auto simp: cpuid_info_parse_def)
  then show ?thesis using cpuid_loop_ok [OF ok c(1)] by (simp add: cpuid_ok_def)
qed

theorem cpuid_info_parse_bounds_witness:
  "\<exists>i'. cpuid_info_parse \<lparr>r_start = 0, r_end = 0, r_desc = 0, desc_len = 0\<rparr> []
      \<lparr>info_count = 9, arr = replicate NR_ENTRIES \<lparr>e_eax = 5, e_ecx = 6, regs = []\<rparr>\<rparr> = Go (0, i') \<and> list_all (entry_ok []) (arr i')"
proof -
  let ?i = "\<lparr>info_count = 9, arr = replicate NR_ENTRIES \<lparr>e_eax = 5, e_ecx = 6, regs = []\<rparr>\<rparr>" and ?j = "\<lparr>r_start = 0, r_end = 0, r_desc = 0, desc_len = 0\<rparr>"
  have "cpuid_info_parse ?j [] ?i = Go (0, (clear_info ?i)\<lparr>info_count := 0\<rparr>)"
    by (simp add: cpuid_info_parse_def cpuid_loop_end)
  with cpuid_info_parse_bounds [OF _ this] show ?thesis by simp
qed

end
