(* ===== verification/Mdio.thy ===== *)
theory Mdio
  imports Numerals "HOL-Library.Word"
begin

section \<open>PHY register access (mdio.c)\<close>

text \<open>
  The command parses a register text \<open>phy.reg[@page][.bit_h:bit_l]\<close> and reads or writes the
  register, or a field of it, through the MII ioctls of the kernel.  The kernel is a parameter:
  a device state with the effect of the two ioctls on it and the C45 address encoding of the
  kernel's header.  The texts for the terminal and the values printed on the standard output
  are part of the result; the diagnostics that go with an error are not.
\<close>

unbundle bit_operations_syntax

record reg_info =
  is_c22 :: bool
  is_write :: bool
  phy :: int
  page :: int
  dev :: int
  reg :: int
  bit_h :: int
  bit_l :: int
  data :: int

subsection \<open>Parsing\<close>

text \<open>The number at the start of \<open>s\<close>, which must end after \<open>n\<close> characters; the return value -1 is \<open>None\<close>.\<close>

definition get_number :: "string \<Rightarrow> nat \<Rightarrow> nat \<Rightarrow> nat \<Rightarrow> nat \<Rightarrow> int option" where
  "get_number s n base mn mx =
     (case strtoul s base of (v, k, err) \<Rightarrow>
        if err then None
        else if k = 0 then None
        else if k \<noteq> n then None
        else if v < mn \<or> mx < v then None
        else Some (int v))"

text \<open>The offset of the first character of a set, or of the end.\<close>

definition str_find :: "byte set \<Rightarrow> string \<Rightarrow> nat" where
  "str_find cs s = length (takeWhile (\<lambda>c. c \<notin> cs) s)"

definition parse_bits :: "string \<Rightarrow> reg_info \<Rightarrow> reg_info option" where
  "parse_bits base ri =
     (let p = str_find {CHR '':''} base in
      case get_number base p 10 0 31 of None \<Rightarrow> None
      | Some h \<Rightarrow>
          if p = length base then Some (ri\<lparr>bit_h := h, bit_l := h\<rparr>)
          else let base' = drop (p + 1) base in
               case get_number base' (length base') 10 0 31 of None \<Rightarrow> None
               | Some l \<Rightarrow> if h < l then Some (ri\<lparr>bit_h := l, bit_l := h\<rparr>) else Some (ri\<lparr>bit_h := h, bit_l := l\<rparr>))"

definition parse_reg :: "string \<Rightarrow> reg_info \<Rightarrow> reg_info option" where
  "parse_reg regstr ri =
     (let p = str_find {CHR ''.''} regstr in
      if p = length regstr then None
      else case get_number regstr p 16 0 0x1f of None \<Rightarrow> None
      | Some ph \<Rightarrow>
          let base = drop (p + 1) regstr; q = str_find {CHR ''@'', CHR ''.''} base in
          case get_number base q 10 0 31 of None \<Rightarrow> None
          | Some rg \<Rightarrow>
              let ri = ri\<lparr>phy := ph, reg := rg\<rparr> in
              if q = length base then Some ri
              else if base ! q = CHR ''@'' then
                (let base' = drop (q + 1) base; r = str_find {CHR ''.''} base' in
                 case get_number base' r 10 0 255 of None \<Rightarrow> None
                 | Some pg \<Rightarrow>
                     if r = length base' then Some (ri\<lparr>page := pg\<rparr>)
                     else parse_bits (drop (r + 1) base') (ri\<lparr>page := pg\<rparr>))
              else parse_bits (drop (q + 1) base) ri)"

definition init_reg_info :: reg_info where
  "init_reg_info = \<lparr>is_c22 = False, is_write = False, phy = 0, page = -1, dev = 0, reg = 0, bit_h = -1, bit_l = -1, data = 0\<rparr>"

definition parse_reg_info :: "string list \<Rightarrow> reg_info option" where
  "parse_reg_info argv =
     (let ri = init_reg_info\<lparr>is_c22 := (argv ! 0 = ''c22'')\<rparr> in
      if argv ! 1 = ''write'' then
        (case get_number (argv ! 4) (length (argv ! 4)) 0 0 0xffff of None \<Rightarrow> None
         | Some d \<Rightarrow> parse_reg (argv ! 3) (ri\<lparr>is_write := True, data := d\<rparr>))
      else parse_reg (argv ! 3) ri)"

subsection \<open>Bits\<close>

definition get_space_index :: "int \<Rightarrow> int \<Rightarrow> int list" where
  "get_space_index hi li =
     (let width = hi - li + 1 in
      if width \<le> 4 then []
      else if width \<le> 8 then [li + 4]
      else if width \<le> 12 then [li + 8, li + 4]
      else [li + 12, 8, 4])"

text \<open>The loop from \<open>hi\<close> down to \<open>li\<close>; \<open>sp\<close> are the positions of blanks still to come.\<close>

fun bin_loop :: "16 word \<Rightarrow> nat \<Rightarrow> int \<Rightarrow> int list \<Rightarrow> string" where
  "bin_loop val 0 i sp = []"
| "bin_loop val (Suc k) i sp =
     (let d = (if bit val (nat i) then CHR ''1'' else CHR ''0'') in
      case sp of [] \<Rightarrow> d # bin_loop val k (i - 1) []
      | x # xs \<Rightarrow> if i = x then d # CHR '' '' # bin_loop val k (i - 1) xs else d # bin_loop val k (i - 1) (x # xs))"

text \<open>The text that is written with its \<open>NUL\<close> into a buffer; \<open>None\<close> when it does not fit.\<close>

definition bin2str :: "nat \<Rightarrow> 16 word \<Rightarrow> int \<Rightarrow> int \<Rightarrow> string option" where
  "bin2str buflen val hi li =
     (let s = bin_loop val (nat (hi - li + 1)) hi (get_space_index hi li) in
      if length s < buflen then Some s else None)"

definition GENMASK :: "nat \<Rightarrow> nat \<Rightarrow> 64 word" where
  "GENMASK h l = (NOT 0 - push_bit l 1 + 1) AND drop_bit (63 - h) (NOT 0)"

subsection \<open>The command\<close>

record 'd kernel =
  alloc_ok :: bool
  socket_ok :: bool
  mii_read :: "'d \<Rightarrow> string \<Rightarrow> 16 word \<Rightarrow> 16 word \<Rightarrow> 16 word option"
  mii_write :: "'d \<Rightarrow> string \<Rightarrow> 16 word \<Rightarrow> 16 word \<Rightarrow> 16 word \<Rightarrow> 'd option"
  phy_id_c45 :: "int \<Rightarrow> int \<Rightarrow> int"

definition IFNAMSIZ :: nat where "IFNAMSIZ = 16"

definition mdio_sock_create :: "'d kernel \<Rightarrow> string \<Rightarrow> string option" where
  "mdio_sock_create k ifname = (if alloc_ok k \<and> socket_ok k then Some ifname else None)"

definition mdio_sock_read :: "'d kernel \<Rightarrow> 'd \<Rightarrow> string \<Rightarrow> int \<Rightarrow> int \<Rightarrow> 16 word option" where
  "mdio_sock_read k d ifname ph rg = mii_read k d (take (IFNAMSIZ - 1) ifname) (word_of_int ph) (word_of_int rg)"

definition mdio_sock_write :: "'d kernel \<Rightarrow> 'd \<Rightarrow> string \<Rightarrow> int \<Rightarrow> int \<Rightarrow> 16 word \<Rightarrow> 'd option" where
  "mdio_sock_write k d ifname ph rg val = mii_write k d (take (IFNAMSIZ - 1) ifname) (word_of_int ph) (word_of_int rg) val"

text \<open>The value of a field write: the field of the read value replaced by the low bits of the data.\<close>

definition field_write :: "16 word \<Rightarrow> int \<Rightarrow> nat \<Rightarrow> nat \<Rightarrow> 16 word" where
  "field_write old v h l =
     (let mask = (ucast (GENMASK h l) :: 16 word);
          shifted = push_bit l (word_of_int v :: 32 word)
      in (old AND NOT mask) OR ucast (shifted AND ucast mask))"

text \<open>\<open>%04x\<close>.\<close>

definition hex4 :: "16 word \<Rightarrow> string" where
  "hex4 w = (let s = digits 16 (unat w) in replicate (4 - length s) (CHR ''0'') @ s)"

text \<open>The return value, the terminal's text, the standard output and the device; \<open>None\<close> when the buffer overflows.\<close>

type_synonym 'd mdio_result = "(int \<times> string \<times> string \<times> 'd) option"

definition mdio_write_reg :: "'d kernel \<Rightarrow> string \<Rightarrow> reg_info \<Rightarrow> 'd \<Rightarrow> 'd mdio_result" where
  "mdio_write_reg k ifname ri d =
     (let ph = (if is_c22 ri then phy ri else phy_id_c45 k (phy ri) (dev ri));
          val = (if bit_h ri \<ge> 0
                 then map_option (\<lambda>old. field_write old (data ri) (nat (bit_h ri)) (nat (bit_l ri))) (mdio_sock_read k d ifname ph (reg ri))
                 else Some (word_of_int (data ri)))
      in case val of None \<Rightarrow> Some (2, [], [], d)
         | Some v \<Rightarrow> (case mdio_sock_write k d ifname ph (reg ri) v of None \<Rightarrow> Some (3, [], [], d) | Some d' \<Rightarrow> Some (0, [], [], d')))"

definition mdio_read_reg :: "'d kernel \<Rightarrow> string \<Rightarrow> reg_info \<Rightarrow> 'd \<Rightarrow> 'd mdio_result" where
  "mdio_read_reg k ifname ri d =
     (let ph = (if is_c22 ri then phy ri else phy_id_c45 k (phy ri) (dev ri)) in
      case mdio_sock_read k d ifname ph (reg ri) of None \<Rightarrow> Some (2, [], [], d)
      | Some v \<Rightarrow>
          let (h, l) = (if bit_h ri \<ge> 0 then (bit_h ri, bit_l ri) else (15, 0));
              part = (if bit_h ri \<ge> 0 then drop_bit (nat (bit_l ri)) (v AND ucast (GENMASK (nat (bit_h ri)) (nat (bit_l ri)))) else v)
          in map_option (\<lambda>s. (0, [], hex4 part @ '' '' @ [CHR 0x22] @ s @ [CHR 0x22, CHR 0x0A], d)) (bin2str 32 v h l))"

definition cmd_mdio :: "'d kernel \<Rightarrow> string list \<Rightarrow> 'd \<Rightarrow> 'd mdio_result" where
  "cmd_mdio k argv d =
     (if length argv < 4 then None
      else if argv ! 1 = ''write'' \<and> length argv \<noteq> 5 then Some (1, ''missing DATA for write'' @ [CHR 0x0D, CHR 0x0A], [], d)
      else case parse_reg_info argv of None \<Rightarrow> Some (1, [], [], d)
      | Some ri \<Rightarrow>
          case mdio_sock_create k (argv ! 2) of None \<Rightarrow> Some (1, ''failed to create socket'' @ [CHR 0x0A], [], d)
          | Some ifname \<Rightarrow>
              case (if page ri \<ge> 0 then mdio_sock_write k d ifname (phy ri) 22 (word_of_int (page ri)) else Some d) of
                None \<Rightarrow> Some (3, [], [], d)
              | Some d' \<Rightarrow> if is_write ri then mdio_write_reg k ifname ri d' else mdio_read_reg k ifname ri d')"

subsection \<open>Fields\<close>

lemma bit_GENMASK:
  assumes "l \<le> h" "h < 64" "i < 64"
  shows "bit (GENMASK h l) i \<longleftrightarrow> l \<le> i \<and> i \<le> h"
proof -
  have "NOT 0 - push_bit l 1 + 1 = (NOT (mask l) :: 64 word)"
    by (simp add: push_bit_eq_mult minus_exp_eq_not_mask)
  then show ?thesis using assms by (auto simp: GENMASK_def bit_simps)
qed

lemma field_write_bits:
  assumes "l \<le> h" "h < 32" "i < 16"
  shows "bit (field_write old v h l) i \<longleftrightarrow> (if l \<le> i \<and> i \<le> h then bit v (i - l) else bit old i)"
proof -
  define m where "m = (ucast (GENMASK h l) :: 16 word)"
  have m: "bit m i \<longleftrightarrow> l \<le> i \<and> i \<le> h" using assms bit_GENMASK [of l h i] by (simp add: m_def bit_simps)
  have "bit (push_bit l (word_of_int v :: 32 word)) i \<longleftrightarrow> l \<le> i \<and> bit v (i - l)"
    using assms(3) by (auto simp: bit_simps)
  with m assms(3) show ?thesis
    by (auto simp: field_write_def Let_def bit_and_iff bit_or_iff bit_not_iff bit_ucast_iff simp flip: m_def)
qed

subsection \<open>The binary text\<close>

lemma bin_loop_digits:
  "filter (\<lambda>c. c \<noteq> CHR '' '') (bin_loop val k i sp) = map (\<lambda>j. if bit val (nat (i - int j)) then CHR ''1'' else CHR ''0'') [0..<k]"
proof (induction val k i sp rule: bin_loop.induct)
  case (2 val k i sp)
  have u: "[0..<Suc k] = 0 # map Suc [0..<k]" by (simp add: upt_conv_Cons map_Suc_upt del: upt_Suc)
  show ?case
  proof (cases sp)
    case Nil
    with 2(1) show ?thesis unfolding u by (simp add: algebra_simps)
  next
    case (Cons x xs)
    with 2(2,3) [OF refl Cons] show ?thesis unfolding u by (cases "i = x") (simp_all add: algebra_simps)
  qed
qed simp

text \<open>A blank is written for every position of the descending list that the loop reaches.\<close>

lemma bin_loop_length:
  assumes "sorted_wrt (>) sp" "\<forall>x \<in> set sp. x \<le> i"
  shows "length (bin_loop val k i sp) = k + length (takeWhile (\<lambda>x. i - int k < x) sp)"
  using assms
proof (induction val k i sp rule: bin_loop.induct)
  case (1 val i sp)
  then show ?case by (cases sp) auto
next
  case (2 val k i sp)
  show ?case
  proof (cases sp)
    case Nil
    with 2(1) show ?thesis by simp
  next
    case (Cons x xs)
    have e: "i - 1 - int k = i - int (Suc k)" by simp
    show ?thesis
    proof (cases "i = x")
      case True
      have "length (bin_loop val k (i - 1) xs) = k + length (takeWhile (\<lambda>x. i - 1 - int k < x) xs)"
        using 2(2) [OF refl Cons True] 2(4,5) Cons True by force
      with True Cons show ?thesis unfolding e by simp
    next
      case False
      have "length (bin_loop val k (i - 1) (x # xs)) = k + length (takeWhile (\<lambda>x. i - 1 - int k < x) (x # xs))"
        using 2(3) [OF refl Cons False] 2(4,5) Cons False by fastforce
      with False Cons show ?thesis unfolding e by simp
    qed
  qed
qed

subsection \<open>Register texts\<close>

definition show_regstr :: "nat \<Rightarrow> nat \<Rightarrow> nat option \<Rightarrow> (nat \<times> nat) option \<Rightarrow> string" where
  "show_regstr ph rg pg bits =
     digits 16 ph @ CHR ''.'' # dec rg @ (case pg of None \<Rightarrow> [] | Some n \<Rightarrow> CHR ''@'' # dec n) @
     (case bits of None \<Rightarrow> [] | Some (h, l) \<Rightarrow> CHR ''.'' # dec h @ CHR '':'' # dec l)"

definition reg_of :: "nat \<Rightarrow> nat \<Rightarrow> nat option \<Rightarrow> (nat \<times> nat) option \<Rightarrow> reg_info \<Rightarrow> reg_info" where
  "reg_of ph rg pg bits ri =
     (case bits of None \<Rightarrow> (\<lambda>ri. ri) | Some (h, l) \<Rightarrow> (\<lambda>ri. ri\<lparr>bit_h := int (max h l), bit_l := int (min h l)\<rparr>))
       ((case pg of None \<Rightarrow> (\<lambda>ri. ri) | Some n \<Rightarrow> (\<lambda>ri. ri\<lparr>page := int n\<rparr>)) (ri\<lparr>phy := int ph, reg := int rg\<rparr>))"

text \<open>A separator ends a number.\<close>

definition ends_number :: "string \<Rightarrow> bool" where
  "ends_number r \<longleftrightarrow> r = [] \<or> hd r \<in> {CHR ''.'', CHR ''@'', CHR '':''}"

lemma separator_no_digit: "c \<in> {CHR ''.'', CHR ''@'', CHR '':''} \<Longrightarrow> \<not> is_digit b c \<and> c \<noteq> CHR ''x'' \<and> c \<noteq> CHR ''X''"
  by (auto simp: is_digit_def digit_val_def)

lemma digits_no_separator:
  assumes "2 \<le> b" "b \<le> 16"
  shows "\<forall>c \<in> set (digits b n). c \<notin> {CHR ''.'', CHR ''@'', CHR '':''}"
proof
  fix c
  assume "c \<in> set (digits b n)"
  then have "is_digit b c" using digits_are_digits [OF assms] by simp
  then show "c \<notin> {CHR ''.'', CHR ''@'', CHR '':''}" using separator_no_digit [of c b] by metis
qed

lemma get_number_digits:
  assumes "2 \<le> b" "b \<le> 16" "n \<le> mx" "mx \<le> ULONG_MAX" "ends_number r" "p = length (digits b n)"
  shows "get_number (digits b n @ r) p b 0 mx = Some (int n)"
proof -
  have "r = [] \<or> \<not> is_digit b (hd r) \<and> hd r \<noteq> CHR ''x'' \<and> hd r \<noteq> CHR ''X''"
    using assms(5) separator_no_digit unfolding ends_number_def by blast
  then have "strtoul (digits b n @ r) b = (n, length (digits b n), False)" using assms(1-4) by (intro strtoul_digits) auto
  then show ?thesis using assms(3,6) by (simp add: get_number_def)
qed

lemma str_find_digits:
  assumes "2 \<le> b" "b \<le> 16" "cs \<subseteq> {CHR ''.'', CHR ''@'', CHR '':''}" "r = [] \<or> hd r \<in> cs"
  shows "str_find cs (digits b n @ r) = length (digits b n)"
proof -
  have "\<forall>c \<in> set (digits b n). c \<notin> cs" using digits_no_separator [OF assms(1,2), of n] subsetD [OF assms(3)] by metis
  then show ?thesis using assms(4) by (cases r) (auto simp: str_find_def takeWhile_append2 takeWhile_tail takeWhile_eq_all_conv [THEN iffD2])
qed

lemma parse_bits_text:
  assumes "h < 32" "l < 32"
  shows "parse_bits (dec h @ CHR '':'' # dec l) ri = Some (ri\<lparr>bit_h := int (max h l), bit_l := int (min h l)\<rparr>)"
proof -
  have "str_find {CHR '':''} (dec h @ CHR '':'' # dec l) = length (dec h)" by (intro str_find_digits) auto
  moreover have "get_number (dec h @ CHR '':'' # dec l) (length (dec h)) 10 0 31 = Some (int h)"
    using assms by (intro get_number_digits) (auto simp: ULONG_MAX_def ends_number_def)
  moreover have "get_number (dec l @ []) (length (dec l)) 10 0 31 = Some (int l)"
    using assms by (intro get_number_digits) (auto simp: ULONG_MAX_def ends_number_def)
  ultimately show ?thesis by (simp add: parse_bits_def Let_def max_def min_def)
qed

lemma parse_reg_text:
  assumes "ph < 32" "rg < 32" "\<forall>n. pg = Some n \<longrightarrow> n < 256" "\<forall>h l. bits = Some (h, l) \<longrightarrow> h < 32 \<and> l < 32"
  shows "parse_reg (show_regstr ph rg pg bits) ri = Some (reg_of ph rg pg bits ri)"
proof -
  define t where "t = (case bits of None \<Rightarrow> [] | Some (h, l) \<Rightarrow> CHR ''.'' # dec h @ CHR '':'' # dec l)"
  define u where "u = (case pg of None \<Rightarrow> [] | Some n \<Rightarrow> CHR ''@'' # dec n) @ t"
  have tx: "show_regstr ph rg pg bits = digits 16 ph @ CHR ''.'' # dec rg @ u" by (simp add: show_regstr_def u_def t_def)
  have t: "t = [] \<or> hd t = CHR ''.''" by (auto simp: t_def split: option.split)
  then have u: "u = [] \<or> hd u \<in> {CHR ''@'', CHR ''.''}" by (auto simp: u_def split: option.split)
  have bits: "(if t = [] then Some ri' else parse_bits (tl t) ri') =
      Some ((case bits of None \<Rightarrow> (\<lambda>ri. ri) | Some (h, l) \<Rightarrow> (\<lambda>ri. ri\<lparr>bit_h := int (max h l), bit_l := int (min h l)\<rparr>)) ri')" for ri'
    using assms(4) parse_bits_text by (auto simp: t_def split: option.split)
  have "str_find {CHR ''.''} (digits 16 ph @ CHR ''.'' # dec rg @ u) = length (digits 16 ph)" by (intro str_find_digits) auto
  moreover have "get_number (digits 16 ph @ CHR ''.'' # dec rg @ u) (length (digits 16 ph)) 16 0 0x1f = Some (int ph)"
    using assms(1) by (intro get_number_digits) (auto simp: ULONG_MAX_def ends_number_def)
  moreover have "str_find {CHR ''@'', CHR ''.''} (dec rg @ u) = length (dec rg)" using u by (intro str_find_digits) auto
  moreover have "get_number (dec rg @ u) (length (dec rg)) 10 0 31 = Some (int rg)"
    using assms(2) u by (intro get_number_digits) (auto simp: ULONG_MAX_def ends_number_def)
  moreover have "str_find {CHR ''.''} (dec n @ t) = length (dec n)" for n using t by (intro str_find_digits) auto
  moreover have "get_number (dec n @ t) (length (dec n)) 10 0 255 = Some (int n)" if "pg = Some n" for n
    using assms(3) that t by (intro get_number_digits) (auto simp: ULONG_MAX_def ends_number_def)
  ultimately show ?thesis
    unfolding tx parse_reg_def reg_of_def using bits t
    by (cases pg; cases t) (auto simp: Let_def u_def drop_Suc)
qed

lemma get_data:
  assumes "v \<le> 0xffff"
  shows "get_number (dec v) (length (dec v)) 0 0 0xffff = Some (int v)"
proof -
  have "strtoul (dec v @ []) 0 = (v, length (dec v), False)" using assms by (intro strtoul_dec_0) (auto simp: ULONG_MAX_def)
  then show ?thesis using assms by (simp add: get_number_def)
qed

subsection \<open>Properties\<close>

text \<open>
  C27. Round trip of the arguments: the words \<open>c22\<close> or \<open>c45\<close>, \<open>read\<close> or \<open>write\<close>, an interface
  name, a text \<open>phy.reg[@page][.h:l]\<close> with the PHY in hexadecimal and all numbers in range,
  and for a write the data, are parsed into exactly these numbers, the larger bit number
  first; what the text does not mention keeps its initial value.
\<close>

theorem parse_reg_info_roundtrip:
  assumes "ph < 32" "rg < 32" "\<forall>n. pg = Some n \<longrightarrow> n < 256" "\<forall>h l. bits = Some (h, l) \<longrightarrow> h < 32 \<and> l < 32" "v \<le> 0xffff"
  shows "parse_reg_info [if c then ''c22'' else ''c45'', ''read'', ifname, show_regstr ph rg pg bits]
      = Some (reg_of ph rg pg bits (init_reg_info\<lparr>is_c22 := c\<rparr>)) \<and>
    parse_reg_info [if c then ''c22'' else ''c45'', ''write'', ifname, show_regstr ph rg pg bits, dec v]
      = Some (reg_of ph rg pg bits (init_reg_info\<lparr>is_c22 := c, is_write := True, data := int v\<rparr>))"
  using get_data [OF assms(5)] parse_reg_text [OF assms(1-4)] by (simp add: parse_reg_info_def Let_def)

theorem parse_reg_info_roundtrip_witness:
  "parse_reg_info [''c22'', ''read'', ''eth0'', show_regstr 31 4 (Some 2) (Some (0, 7))]
     = Some (init_reg_info\<lparr>is_c22 := True, phy := 31, reg := 4, page := 2, bit_h := 7, bit_l := 0\<rparr>)"
  using parse_reg_info_roundtrip [of 31 4 "Some 2" "Some (0, 7)" 0 True "''eth0''"] by (simp add: reg_of_def)

text \<open>
  C37. The binary text of a field: for bits \<open>hi\<close> down to \<open>li\<close> of a register text it consists of
  the bits of the value in that order, with blanks between them, if the field has at most 28
  bits; a wider field, which \<open>parse_reg\<close> accepts, overflows the buffer of 32 bytes.
\<close>

theorem bin2str_exact:
  assumes "0 \<le> li" "li \<le> hi" "hi < 32"
  shows "if hi - li < 28
    then \<exists>s. bin2str 32 val hi li = Some s \<and>
      filter (\<lambda>c. c \<noteq> CHR '' '') s = map (\<lambda>j. if bit val (nat (hi - int j)) then CHR ''1'' else CHR ''0'') [0..<nat (hi - li + 1)]
    else bin2str 32 val hi li = None"
proof -
  let ?k = "nat (hi - li + 1)" and ?sp = "get_space_index hi li"
  have "sorted_wrt (>) ?sp \<and> (\<forall>x \<in> set ?sp. x \<le> hi)" using assms by (auto simp: get_space_index_def Let_def)
  then have len: "length (bin_loop val ?k hi ?sp) = ?k + length (takeWhile (\<lambda>x. hi - int ?k < x) ?sp)"
    using bin_loop_length by blast
  have "length (takeWhile (\<lambda>x. hi - int ?k < x) ?sp) \<le> length ?sp" by (rule length_takeWhile_le)
  moreover have "length ?sp \<le> 3" by (simp add: get_space_index_def Let_def)
  moreover have "length (takeWhile (\<lambda>x. hi - int ?k < x) ?sp) = 3" if "28 \<le> hi - li"
    using that assms by (simp add: get_space_index_def Let_def)
  ultimately have "length (bin_loop val ?k hi ?sp) < 32 \<longleftrightarrow> hi - li < 28" using len assms(2) by (cases "hi - li < 28") auto
  then show ?thesis using bin_loop_digits [of val ?k hi ?sp] by (auto simp: bin2str_def Let_def)
qed

theorem bin2str_exact_witness:
  "\<exists>s. bin2str 32 0xA5 7 4 = Some s \<and> filter (\<lambda>c. c \<noteq> CHR '' '') s = ''1010''"
  using bin2str_exact [of 4 7 "0xA5"] by (simp add: upt_conv_Cons bit_simps)

text \<open>
  C26. Writing a field: on a device whose registers read as they were written, \<open>mdio c22 write\<close>
  with a register text for the bits \<open>h\<close> down to \<open>l\<close> returns 0 and leaves a register whose bits
  \<open>l\<close> to \<open>h\<close> are the low bits of the data and whose other bits are unchanged; all other
  registers are unchanged.
\<close>

definition registers :: "'d kernel \<Rightarrow> string \<Rightarrow> ('d \<Rightarrow> 16 word \<Rightarrow> 16 word \<Rightarrow> 16 word) \<Rightarrow> bool" where
  "registers k ifname rd \<longleftrightarrow>
     (\<forall>d p r. mii_read k d ifname p r = Some (rd d p r)) \<and>
     (\<forall>d p r v. \<exists>d'. mii_write k d ifname p r v = Some d' \<and>
        (\<forall>p' r'. rd d' p' r' = (if p' = p \<and> r' = r then v else rd d p' r')))"

theorem mdio_write_field:
  assumes "registers k (take 15 ifname) rd" "alloc_ok k" "socket_ok k" "ph < 32" "rg < 32" "l \<le> h" "h < 16" "v \<le> 0xffff"
  shows "\<exists>d'. cmd_mdio k [''c22'', ''write'', ifname, show_regstr ph rg None (Some (h, l)), dec v] d = Some (0, [], [], d') \<and>
     (\<forall>i < 16. bit (rd d' (of_nat ph) (of_nat rg)) i \<longleftrightarrow> (if l \<le> i \<and> i \<le> h then bit v (i - l) else bit (rd d (of_nat ph) (of_nat rg)) i)) \<and>
     (\<forall>p r. (p, r) \<noteq> (of_nat ph, of_nat rg) \<longrightarrow> rd d' p r = rd d p r)"
proof -
  let ?ri = "init_reg_info\<lparr>is_c22 := True, is_write := True, data := int v, phy := int ph, reg := int rg, bit_h := int h, bit_l := int l\<rparr>"
  let ?old = "rd d (of_nat ph) (of_nat rg)" and ?n = "field_write (rd d (of_nat ph) (of_nat rg)) (int v) h l"
  have parse: "parse_reg_info [''c22'', ''write'', ifname, show_regstr ph rg None (Some (h, l)), dec v] = Some ?ri"
    using get_data [OF assms(8)] parse_reg_text [of ph rg None "Some (h, l)"] assms(4-7) by (simp add: parse_reg_info_def reg_of_def max_def min_def)
  obtain d' where d': "mii_write k d (take 15 ifname) (of_nat ph) (of_nat rg) ?n = Some d'"
      "\<forall>p' r'. rd d' p' r' = (if p' = of_nat ph \<and> r' = of_nat rg then ?n else rd d p' r')"
    using assms(1) unfolding registers_def by meson
  have "mii_read k d (take 15 ifname) (of_nat ph) (of_nat rg) = Some ?old" using assms(1) by (simp add: registers_def)
  then have "cmd_mdio k [''c22'', ''write'', ifname, show_regstr ph rg None (Some (h, l)), dec v] d = Some (0, [], [], d')"
    using parse d'(1) assms(2,3)
    by (simp add: cmd_mdio_def mdio_sock_create_def mdio_write_reg_def mdio_sock_read_def mdio_sock_write_def init_reg_info_def IFNAMSIZ_def)
  moreover have "bit ?n i \<longleftrightarrow> (if l \<le> i \<and> i \<le> h then bit v (i - l) else bit ?old i)" if "i < 16" for i
    using field_write_bits [of l h i ?old "int v"] that assms(6,7) by (simp add: bit_of_nat_iff_bit)
  ultimately show ?thesis using d'(2) by auto
qed

definition sample_kernel :: "(16 word \<Rightarrow> 16 word \<Rightarrow> 16 word) kernel" where
  "sample_kernel = \<lparr>alloc_ok = True, socket_ok = True, mii_read = \<lambda>d _ p r. Some (d p r),
     mii_write = \<lambda>d _ p r v. Some (\<lambda>p' r'. if p' = p \<and> r' = r then v else d p' r'), phy_id_c45 = \<lambda>p _. p\<rparr>"

theorem mdio_write_field_witness:
  "\<exists>d'. cmd_mdio sample_kernel [''c22'', ''write'', ''eth0'', show_regstr 1 4 None (Some (7, 4)), dec 5] (\<lambda>_ _. 0xffff) = Some (0, [], [], d') \<and>
     \<not> bit (d' 1 4) 5 \<and> bit (d' 1 4) 6 \<and> bit (d' 1 4) 8"
proof -
  have "registers sample_kernel (take 15 ''eth0'') (\<lambda>d. d)" by (simp add: registers_def sample_kernel_def)
  from mdio_write_field [OF this, of 1 4 4 7 5 "\<lambda>_ _. 0xffff"]
  obtain d' where d': "cmd_mdio sample_kernel [''c22'', ''write'', ''eth0'', show_regstr 1 4 None (Some (7, 4)), dec 5] (\<lambda>_ _. 0xffff) = Some (0, [], [], d')"
      "\<forall>i < 16. bit (d' 1 4) i \<longleftrightarrow> (if 4 \<le> i \<and> i \<le> 7 then bit (5 :: nat) (i - 4) else bit (0xffff :: 16 word) i)"
    by (auto simp: sample_kernel_def)
  from d'(2) [rule_format, of 5] d'(2) [rule_format, of 6] d'(2) [rule_format, of 8] d'(1) show ?thesis
    by (intro exI [of _ d']) (simp add: bit_simps)
qed

end
