(* ===== verification/Vec.thy ===== *)
theory Vec
  imports Prelude
begin

section \<open>Growing arrays (vector.h, vector.c)\<close>

text \<open>
  A vector hands out slots of a heap block.  The block is represented by its size in bytes and
  a slot by its offset; sizes are 64-bit words, so their products wrap.  Whether an allocation
  succeeds is an argument.  A write outside a block is the result \<open>None\<close>.
\<close>

record vector =
  valloc :: size_t
  vsize :: size_t
  vcount :: size_t
  array_bytes :: nat

text \<open>The size of the structure, three \<open>size_t\<close> and a pointer.\<close>

definition sizeof_vector :: nat where "sizeof_vector = 32"

text \<open>
  The structure itself is allocated with \<open>size * alloc\<close> bytes: the first field that is written
  is the last one of the structure.
\<close>

definition vector_create :: "bool \<Rightarrow> bool \<Rightarrow> size_t \<Rightarrow> size_t \<Rightarrow> vector option option" where
  "vector_create m1 m2 sz al =
     (if \<not> m1 then Some None
      else if unat (sz * al) < sizeof_vector then None
      else if \<not> m2 then Some None
      else Some (Some \<lparr>valloc = al, vsize = sz, vcount = 0, array_bytes = unat (sz * al)\<rparr>))"

definition vector_push :: "bool \<Rightarrow> vector \<Rightarrow> nat option \<times> vector" where
  "vector_push m v =
     (if vcount v = valloc v \<and> \<not> m then (None, v)
      else let v = (if vcount v = valloc v then v\<lparr>array_bytes := unat (vsize v * valloc v * 2)\<rparr> else v) in
           (Some (unat (vcount v * vsize v)), v\<lparr>vcount := vcount v + 1\<rparr>))"

definition vector_index :: "vector \<Rightarrow> int \<Rightarrow> nat option" where
  "vector_index v i = (if i < 0 \<or> unat (vcount v) \<le> nat i then None else Some (nat i * unat (vsize v)))"

definition vector_len :: "vector \<Rightarrow> size_t" where
  "vector_len v = vcount v"

text \<open>The blocks that \<open>vector_destroy\<close> frees: the array and the structure.\<close>

definition vector_destroy :: "vector option \<Rightarrow> nat list" where
  "vector_destroy v = (case v of None \<Rightarrow> [] | Some v \<Rightarrow> [array_bytes v, sizeof_vector])"

text \<open>A slot lies within the block.\<close>

definition slot_ok :: "vector \<Rightarrow> nat \<Rightarrow> bool" where
  "slot_ok v p \<longleftrightarrow> p + unat (vsize v) \<le> array_bytes v"

fun push_all :: "bool list \<Rightarrow> vector \<Rightarrow> vector" where
  "push_all [] v = v"
| "push_all (m # ms) v = push_all ms (snd (vector_push m v))"

text \<open>The state after \<open>n\<close> pushes.\<close>

definition pushed :: "size_t \<Rightarrow> size_t \<Rightarrow> nat \<Rightarrow> vector" where
  "pushed sz al n =
     \<lparr>valloc = al, vsize = sz, vcount = of_nat n,
       array_bytes = unat sz * unat al * (if unat al < n then 2 else 1)\<rparr>"

lemma unat_eq: "n < 2 ^ 64 \<Longrightarrow> unat (of_nat n :: size_t) = n"
  by (simp add: unsigned_of_nat take_bit_nat_eq_self)

lemma unat_mult_small: "unat a * unat b < 2 ^ 64 \<Longrightarrow> unat (a * b :: size_t) = unat a * unat b"
  by (simp add: unat_word_ariths)

lemma unat_double_small:
  assumes "unat sz * unat al * 2 < 2 ^ 64"
  shows "unat (sz * al * 2 :: size_t) = unat sz * unat al * 2"
proof -
  have "unat (sz * al) = unat sz * unat al" using assms by (intro unat_mult_small) linarith
  then show ?thesis using assms by (subst unat_mult_small) simp_all
qed

lemma vector_create_pushed:
  assumes "sizeof_vector \<le> unat sz * unat al" "unat sz * unat al * 2 < 2 ^ 64"
  shows "vector_create True True sz al = Some (Some (pushed sz al 0))"
proof -
  have "unat (sz * al) = unat sz * unat al" using assms(2) by (intro unat_mult_small) linarith
  with assms(1) show ?thesis by (simp add: vector_create_def pushed_def)
qed

lemma vector_push_pushed:
  assumes "unat sz * unat al * 2 < 2 ^ 64" "Suc n < 2 ^ 64" "unat sz * n < 2 ^ 64"
  shows "vector_push True (pushed sz al n) = (Some (n * unat sz), pushed sz al (Suc n))"
proof -
  have n: "unat (of_nat n :: size_t) = n" using assms(2) by (intro unat_eq) simp
  have "(of_nat n = al) \<longleftrightarrow> n = unat al" using n by (metis unsigned_word_eqI)
  moreover have "unat (of_nat n * sz) = n * unat sz" using n assms(3) unat_mult_small [of "of_nat n" sz] by (simp add: mult.commute)
  ultimately show ?thesis using unat_double_small [OF assms(1)]
    by (auto simp: vector_push_def pushed_def Let_def add.commute)
qed

lemma push_all_pushed:
  assumes "unat sz * unat al * 2 < 2 ^ 64" "n + k < 2 ^ 64" "unat sz * (n + k) < 2 ^ 64"
  shows "push_all (replicate k True) (pushed sz al n) = pushed sz al (n + k)"
  using assms(2,3)
proof (induction k arbitrary: n)
  case (Suc k)
  have "unat sz * n \<le> unat sz * (n + Suc k)" by (intro mult_le_mono2) simp
  then have "vector_push True (pushed sz al n) = (Some (n * unat sz), pushed sz al (Suc n))"
    using Suc.prems by (intro vector_push_pushed [OF assms(1)]) auto
  then show ?case using Suc.IH [of "Suc n"] Suc.prems by simp
qed simp

text \<open>
  Growth of a vector: with all allocations succeeding, the slot that the push number \<open>n\<close>
  (counted from 0) on a vector created for \<open>al\<close> elements of \<open>sz\<close> bytes returns is at \<open>n * sz\<close>, and it
  lies within the array exactly when \<open>n\<close> is less than twice \<open>al\<close>: the array is doubled
  once, at the first overflow, and never again.
\<close>

theorem vector_push_grows_once:
  assumes "sizeof_vector \<le> unat sz * unat al" "unat sz * unat al * 2 < 2 ^ 64" "Suc n < 2 ^ 64" "unat sz * n < 2 ^ 64"
  shows "\<exists>v p w. vector_create True True sz al = Some (Some v) \<and>
     vector_push True (push_all (replicate n True) v) = (Some p, w) \<and> p = n * unat sz \<and> vector_len w = of_nat (Suc n) \<and>
     vector_index w (int n) = Some p \<and> (slot_ok w p \<longleftrightarrow> n < 2 * unat al)"
proof -
  let ?w = "pushed sz al (Suc n)"
  have v: "push_all (replicate n True) (pushed sz al 0) = pushed sz al n"
    using push_all_pushed [of sz al 0 n] assms by simp
  have "0 < unat sz" using assms(1) by (cases "unat sz") (auto simp: sizeof_vector_def)
  then have fits: "n * unat sz + unat sz \<le> unat sz * unat al * c \<longleftrightarrow> n < unat al * c" for c
    by (simp add: Suc_le_eq flip: mult_Suc add.commute [of "unat sz"])
  have "slot_ok ?w (n * unat sz) \<longleftrightarrow> n < 2 * unat al"
  proof (cases "unat al < Suc n")
    case True
    then show ?thesis using fits [of 2] by (simp add: slot_ok_def pushed_def mult.commute)
  next
    case False
    then show ?thesis using fits [of 1] by (simp add: slot_ok_def pushed_def)
  qed
  moreover have "vector_index ?w (int n) = Some (n * unat sz)"
    using unat_eq [OF assms(3)] by (simp add: vector_index_def pushed_def del: of_nat_Suc)
  ultimately show ?thesis
    using vector_create_pushed [OF assms(1,2)] v vector_push_pushed [OF assms(2-4)] by (simp add: vector_len_def) (simp add: pushed_def)
qed

theorem vector_push_grows_once_witness:
  "\<exists>v p w. vector_create True True 8 4 = Some (Some v) \<and> vector_push True (push_all (replicate 8 True) v) = (Some p, w) \<and>
     vector_index w 8 = Some p \<and> \<not> slot_ok w p"
  using vector_push_grows_once [of 8 4 8] by (auto simp: sizeof_vector_def)

end
