(* ===== verification/Char_Range.thy ===== *)
theory Char_Range
  imports Prelude
begin

section \<open>Sets of characters (libunicode.c, libunicode.h)\<close>

text \<open>
  The character classes of a regular expression are sets of code points, kept as a sorted list
  of points in which the even positions open an interval and the odd positions close it.
  The \<open>len\<close> points in use are the list, \<open>cr_size\<close> is how many there is memory for, and
  \<open>al n\<close> says whether \<open>realloc\<close> gives memory for \<open>n\<close> points.  A failed operation is \<open>None\<close>.
\<close>

type_synonym code_point = "32 word"

record char_range =
  points :: "code_point list"
  cr_size :: nat

datatype cr_op_enum = CR_OP_UNION | CR_OP_INTER | CR_OP_XOR

subsection \<open>Operations\<close>

definition cr_init :: char_range where
  "cr_init = \<lparr>points = [], cr_size = 0\<rparr>"

definition cr_realloc :: "alloc \<Rightarrow> char_range \<Rightarrow> nat \<Rightarrow> char_range option" where
  "cr_realloc al cr n =
     (if cr_size cr < n then
        let m = max n (cr_size cr * 3 div 2) in if al m then Some (cr\<lparr>cr_size := m\<rparr>) else None
      else Some cr)"

definition cr_copy :: "alloc \<Rightarrow> char_range \<Rightarrow> char_range \<Rightarrow> char_range option" where
  "cr_copy al cr cr1 = map_option (\<lambda>cr. cr\<lparr>points := points cr1\<rparr>) (cr_realloc al cr (length (points cr1)))"

definition cr_add_point :: "alloc \<Rightarrow> char_range \<Rightarrow> code_point \<Rightarrow> char_range option" where
  "cr_add_point al cr v =
     (case (if cr_size cr \<le> length (points cr) then cr_realloc al cr (length (points cr) + 1) else Some cr) of
        None \<Rightarrow> None
      | Some cr \<Rightarrow> Some (cr\<lparr>points := points cr @ [v]\<rparr>))"

definition cr_add_interval :: "alloc \<Rightarrow> char_range \<Rightarrow> code_point \<Rightarrow> code_point \<Rightarrow> char_range option" where
  "cr_add_interval al cr c1 c2 =
     (case (if cr_size cr < length (points cr) + 2 then cr_realloc al cr (length (points cr) + 2) else Some cr) of
        None \<Rightarrow> None
      | Some cr \<Rightarrow> Some (cr\<lparr>points := points cr @ [c1, c2]\<rparr>))"

text \<open>\<open>cr_compress\<close> works in place: \<open>i\<close> reads, \<open>k\<close> writes.\<close>

function skip_adjacent :: "code_point list \<Rightarrow> nat \<Rightarrow> nat \<Rightarrow> nat" where
  "skip_adjacent pt len j = (if j + 3 < len \<and> pt ! (j + 1) = pt ! (j + 2) then skip_adjacent pt len (j + 2) else j)"
  by pat_completeness auto
termination
  by (relation "measure (\<lambda>(pt, len, j). len - j)") auto

declare skip_adjacent.simps [simp del]

lemma skip_adjacent_ge: "j \<le> skip_adjacent pt len j"
proof (induction pt len j rule: skip_adjacent.induct)
  case (1 pt len j)
  then show ?case by (subst skip_adjacent.simps) auto
qed

function compress_loop :: "nat \<Rightarrow> nat \<Rightarrow> nat \<Rightarrow> code_point list \<Rightarrow> code_point list \<times> nat" where
  "compress_loop len i k pt =
     (if i + 1 < len then
        if pt ! i = pt ! (i + 1) then compress_loop len (i + 2) k pt
        else let j = skip_adjacent pt len i;
                 pt = pt[k := pt ! i];
                 pt = pt[k + 1 := pt ! (j + 1)]
             in compress_loop len (j + 2) (k + 2) pt
      else (pt, k))"
  by pat_completeness auto
termination
proof (relation "measure (\<lambda>(len, i, k, pt). len - i)", goal_cases)
  case (3 len i k pt j pt' pt'')
  then show ?case using skip_adjacent_ge [of i pt len] by simp
qed simp_all

declare compress_loop.simps [simp del]

definition cr_compress :: "char_range \<Rightarrow> char_range" where
  "cr_compress cr = (case compress_loop (length (points cr)) 0 0 (points cr) of (pt, k) \<Rightarrow> cr\<lparr>points := take k pt\<rparr>)"

definition is_in :: "cr_op_enum \<Rightarrow> bool \<Rightarrow> bool \<Rightarrow> bool" where
  "is_in op a b = (case op of CR_OP_UNION \<Rightarrow> a \<or> b | CR_OP_INTER \<Rightarrow> a \<and> b | CR_OP_XOR \<Rightarrow> a \<noteq> b)"

text \<open>The next point of \<open>a\<close> or \<open>b\<close>, with the indices behind it.\<close>

definition next_point :: "code_point list \<Rightarrow> code_point list \<Rightarrow> nat \<Rightarrow> nat \<Rightarrow> (code_point \<times> nat \<times> nat) option" where
  "next_point a b i j =
     (if i < length a \<and> j < length b then
        if a ! i < b ! j then Some (a ! i, i + 1, j)
        else if a ! i = b ! j then Some (a ! i, i + 1, j + 1)
        else Some (b ! j, i, j + 1)
      else if i < length a then Some (a ! i, i + 1, j)
      else if j < length b then Some (b ! j, i, j + 1)
      else None)"

function op_loop :: "alloc \<Rightarrow> code_point list \<Rightarrow> code_point list \<Rightarrow> cr_op_enum \<Rightarrow> nat \<Rightarrow> nat \<Rightarrow> char_range \<Rightarrow> char_range option" where
  "op_loop al a b op i j cr =
     (case next_point a b i j of
        None \<Rightarrow> Some cr
      | Some (v, i, j) \<Rightarrow>
          if is_in op (odd i) (odd j) \<noteq> odd (length (points cr))
          then (case cr_add_point al cr v of None \<Rightarrow> None | Some cr \<Rightarrow> op_loop al a b op i j cr)
          else op_loop al a b op i j cr)"
  by pat_completeness auto
termination
  by (relation "measure (\<lambda>(al, a, b, op, i, j, cr). length a - i + (length b - j))") (auto simp: next_point_def split: if_splits)

declare op_loop.simps [simp del]

definition cr_op :: "alloc \<Rightarrow> char_range \<Rightarrow> code_point list \<Rightarrow> code_point list \<Rightarrow> cr_op_enum \<Rightarrow> char_range option" where
  "cr_op al cr a b op = map_option cr_compress (op_loop al a b op 0 0 cr)"

definition cr_union1 :: "alloc \<Rightarrow> char_range \<Rightarrow> code_point list \<Rightarrow> char_range option" where
  "cr_union1 al cr b = cr_op al cr_init (points cr) b CR_OP_UNION"

text \<open>The end of the interval is excluded: \<open>c2 + 1\<close> wraps around for the last code.\<close>

definition cr_union_interval :: "alloc \<Rightarrow> char_range \<Rightarrow> code_point \<Rightarrow> code_point \<Rightarrow> char_range option" where
  "cr_union_interval al cr c1 c2 = cr_union1 al cr [c1, c2 + 1]"

definition UINT32_MAX :: code_point where "UINT32_MAX = -1"

definition cr_invert :: "alloc \<Rightarrow> char_range \<Rightarrow> char_range option" where
  "cr_invert al cr =
     map_option (\<lambda>cr. cr_compress (cr\<lparr>points := 0 # points cr @ [UINT32_MAX]\<rparr>)) (cr_realloc al cr (length (points cr) + 2))"

subsection \<open>The set of a list of points\<close>

definition in_range :: "code_point list \<Rightarrow> code_point \<Rightarrow> bool" where
  "in_range pt x \<longleftrightarrow> (\<exists>n. 2 * n + 1 < length pt \<and> pt ! (2 * n) \<le> x \<and> x < pt ! (2 * n + 1))"

text \<open>What the code counts: \<open>x\<close> is inside when it is behind an odd number of points.\<close>

definition inside :: "code_point list \<Rightarrow> code_point \<Rightarrow> bool" where
  "inside pt x \<longleftrightarrow> odd (length (filter (\<lambda>p. p \<le> x) pt))"

lemma inside_simps [simp]: "\<not> inside [] x" "inside (p # pt) x \<longleftrightarrow> (p \<le> x) \<noteq> inside pt x"
  "inside (as @ bs) x \<longleftrightarrow> inside as x \<noteq> inside bs x"
  by (auto simp: inside_def)

lemma inside_all: "\<forall>p \<in> set pt. p \<le> x \<Longrightarrow> inside pt x = odd (length pt)"
  by (simp add: inside_def)

lemma inside_none: "\<forall>p \<in> set pt. x < p \<Longrightarrow> \<not> inside pt x"
  by (induction pt) (auto simp: not_le)

lemma in_range_pair: "in_range (a # b # pt) x \<longleftrightarrow> a \<le> x \<and> x < b \<or> in_range pt x"
proof
  assume "in_range (a # b # pt) x"
  then obtain n where "2 * n + 1 < length (a # b # pt)" "(a # b # pt) ! (2 * n) \<le> x" "x < (a # b # pt) ! (2 * n + 1)"
    unfolding in_range_def by blast
  then show "a \<le> x \<and> x < b \<or> in_range pt x" unfolding in_range_def by (cases n) auto
next
  assume "a \<le> x \<and> x < b \<or> in_range pt x"
  then show "in_range (a # b # pt) x"
  proof
    assume "a \<le> x \<and> x < b"
    then show ?thesis unfolding in_range_def by (intro exI [of _ 0]) simp
  next
    assume "in_range pt x"
    then obtain n where "2 * n + 1 < length pt" "pt ! (2 * n) \<le> x" "x < pt ! (2 * n + 1)" unfolding in_range_def by blast
    then show ?thesis unfolding in_range_def by (intro exI [of _ "Suc n"]) simp
  qed
qed

lemma in_range_inside:
  assumes "sorted pt" "even (length pt)"
  shows "in_range pt x \<longleftrightarrow> inside pt x"
  using assms
proof (induction pt rule: induct_list012)
  case 1
  then show ?case by (simp add: in_range_def)
next
  case (2 p)
  then show ?case by simp
next
  case (3 a b pt)
  have "\<not> inside pt x" if "x < b"
    using that 3(3) by (intro inside_none) auto
  moreover have "a \<le> b" "in_range pt x \<longleftrightarrow> inside pt x" using 3 by simp_all
  ultimately show ?case by (cases "x < b") (auto simp: in_range_pair)
qed

subsection \<open>Compressing\<close>

text \<open>The same on lists: \<open>absorb\<close> joins the intervals that start where the last one ends.\<close>

fun absorb :: "code_point \<Rightarrow> code_point list \<Rightarrow> code_point \<times> code_point list" where
  "absorb b (c # d # pt) = (if b = c then absorb d pt else (b, c # d # pt))"
| "absorb b pt = (b, pt)"

lemma absorb_length: "length (snd (absorb b pt)) \<le> length pt"
  by (induction b pt rule: absorb.induct) auto

function compress :: "code_point list \<Rightarrow> code_point list" where
  "compress (a # b # pt) =
     (if a = b then compress pt else case absorb b pt of (c, rest) \<Rightarrow> a # c # compress rest)"
| "compress [] = []"
| "compress [a] = []"
  by pat_completeness auto
termination
proof (relation "measure length", goal_cases)
  case (3 a b pt c rest)
  then have "length rest \<le> length pt" using absorb_length [of b pt] by (metis snd_conv)
  then show ?case by simp
qed auto

lemma absorb_short: "length pt < 2 \<Longrightarrow> absorb b pt = (b, pt)"
  by (cases pt) (auto simp: length_Suc_conv less_Suc_eq numeral_2_eq_2)

lemma compress_short: "length pt < 2 \<Longrightarrow> compress pt = []"
  by (cases pt) (auto simp: length_Suc_conv less_Suc_eq numeral_2_eq_2)

lemma drop_two: "i + 1 < length pt \<Longrightarrow> drop i pt = pt ! i # pt ! (i + 1) # drop (i + 2) pt"
  by (simp add: Cons_nth_drop_Suc)

lemma skip_adjacent_absorb:
  assumes "i + 1 < length pt"
  shows "absorb (pt ! (i + 1)) (drop (i + 2) pt) =
     (pt ! (skip_adjacent pt (length pt) i + 1), drop (skip_adjacent pt (length pt) i + 2) pt) \<and> skip_adjacent pt (length pt) i + 1 < length pt"
  using assms
proof (induction pt "length pt" i rule: skip_adjacent.induct)
  case (1 pt j)
  show ?case
  proof (cases "j + 3 < length pt")
    case True
    then have "drop (j + 2) pt = pt ! (j + 2) # pt ! (j + 3) # drop (j + 4) pt"
      using drop_two [of "j + 2" pt] by (simp add: eval_nat_numeral)
    with True 1 show ?thesis by (subst (1 2 3) skip_adjacent.simps) (auto simp: eval_nat_numeral)
  next
    case False
    then have "length (drop (j + 2) pt) < 2" by simp
    then have "absorb (pt ! (j + 1)) (drop (j + 2) pt) = (pt ! (j + 1), drop (j + 2) pt)"
      by (rule absorb_short)
    with False 1(2) show ?thesis by (subst (1 2 3) skip_adjacent.simps) simp
  qed
qed

lemma compress_loop_list:
  assumes "k \<le> i" "length pt = len"
  shows "case compress_loop len i k pt of (pt', k') \<Rightarrow> take k' pt' = take k pt @ compress (drop i pt)"
  using assms
proof (induction len i k pt rule: compress_loop.induct)
  case (1 len i k pt)
  show ?case
  proof (cases "i + 1 < len")
    case False
    then have "length (drop i pt) < 2" using 1(4) by simp
    then have "compress (drop i pt) = []" by (rule compress_short)
    with False show ?thesis by (subst compress_loop.simps) simp
  next
    case True
    then have d: "drop i pt = pt ! i # pt ! (i + 1) # drop (i + 2) pt" using 1(4) by (intro drop_two) simp
    show ?thesis
    proof (cases "pt ! i = pt ! (i + 1)")
      case eq: True
      have "compress (drop i pt) = compress (drop (i + 2) pt)" unfolding d using eq by simp
      with True eq 1(1,3,4) show ?thesis by (subst compress_loop.simps) simp
    next
      case False
      define j where "j = skip_adjacent pt len i"
      define pt1 where "pt1 = pt[k := pt ! i]"
      define pt2 where "pt2 = pt1[k + 1 := pt1 ! (j + 1)]"
      note sk = skip_adjacent_absorb [of i pt, unfolded 1(4), folded j_def]
      have j: "i \<le> j" "j + 1 < len" using skip_adjacent_ge [of i pt len] sk True 1(4) by (simp_all add: j_def)
      have len: "length pt2 = len" by (simp add: pt2_def pt1_def 1(4))
      have v: "pt1 ! (j + 1) = pt ! (j + 1)" using j 1(3) by (simp add: pt1_def)
      have "drop (j + 2) pt2 = drop (j + 2) pt" using j 1(3) by (simp add: pt2_def pt1_def)
      moreover have "take (k + 2) pt2 = take k pt @ [pt ! i, pt ! (j + 1)]"
        using j 1(3,4) v by (simp add: pt2_def pt1_def take_Suc_conv_app_nth nth_list_update)
      moreover have "compress (drop i pt) = pt ! i # pt ! (j + 1) # compress (drop (j + 2) pt)"
        unfolding d using False sk True 1(4) by simp
      moreover have "compress_loop len i k pt = compress_loop len (j + 2) (k + 2) pt2"
        using True False by (subst compress_loop.simps) (simp add: Let_def j_def pt1_def pt2_def)
      moreover have "case compress_loop len (j + 2) (k + 2) pt2 of (pt', k') \<Rightarrow> take k' pt' = take (k + 2) pt2 @ compress (drop (j + 2) pt2)"
        using 1(2) [OF True False j_def pt1_def pt2_def] j 1(3) len by simp
      ultimately show ?thesis by simp
    qed
  qed
qed

lemma cr_compress_points: "points (cr_compress cr) = compress (points cr)"
  using compress_loop_list [of 0 0 "points cr" "length (points cr)"] by (auto simp: cr_compress_def split: prod.splits)

text \<open>Neither the set nor the order is lost, and the result has no empty and no adjacent intervals.\<close>

lemma absorb_even: "even (length (snd (absorb b pt))) \<longleftrightarrow> even (length pt)"
  by (induction b pt rule: absorb.induct) auto

lemma absorb_inside: "inside (fst (absorb b pt) # snd (absorb b pt)) x \<longleftrightarrow> inside (b # pt) x"
  by (induction b pt rule: absorb.induct) auto

lemma compress_inside: "even (length pt) \<Longrightarrow> inside (compress pt) x \<longleftrightarrow> inside pt x"
proof (induction pt rule: compress.induct)
  case (1 a b pt)
  obtain c rest where ab: "absorb b pt = (c, rest)" by fastforce
  have "even (length rest)" using absorb_even [of b pt] ab 1(3) by simp
  with 1 ab show ?case using absorb_inside [of b pt x] by (cases "a = b") auto
qed auto

lemma absorb_sorted:
  assumes "sorted (b # pt)" "even (length pt)" "absorb b pt = (c, rest)"
  shows "b \<le> c \<and> sorted rest \<and> (\<forall>p \<in> set rest. c < p)"
  using assms
proof (induction b pt rule: absorb.induct)
  case (1 b c' d pt)
  show ?case
  proof (cases "b = c'")
    case True
    with 1 have "d \<le> c \<and> sorted rest \<and> (\<forall>p \<in> set rest. c < p)" by simp
    moreover have "b \<le> d" using 1(2) by simp
    ultimately show ?thesis by auto
  next
    case False
    with 1(2) have "b < c'" by (simp add: order.strict_iff_order)
    then have "\<forall>p \<in> set (c' # d # pt). b < p" using 1(2) by (auto dest: order.strict_trans2 [of b c'])
    with False 1(2,4) show ?thesis by auto
  qed
qed auto

lemma compress_subset: "set (compress pt) \<subseteq> set pt"
proof (induction pt rule: compress.induct)
  case (1 a b pt)
  obtain c rest where ab: "absorb b pt = (c, rest)" by fastforce
  have "set (fst (absorb b pt) # snd (absorb b pt)) \<subseteq> set (b # pt)"
    by (induction b pt rule: absorb.induct) auto
  with 1 ab show ?case by (cases "a = b") auto
qed auto

definition cr_wf :: "code_point list \<Rightarrow> bool" where
  "cr_wf pt \<longleftrightarrow> sorted_wrt (<) pt \<and> even (length pt)"

lemma cr_wf_sorted: "cr_wf pt \<Longrightarrow> sorted pt \<and> even (length pt)"
  by (simp add: cr_wf_def strict_sorted_imp_sorted)

lemma compress_wf: "sorted pt \<Longrightarrow> even (length pt) \<Longrightarrow> cr_wf (compress pt)"
proof (induction pt rule: compress.induct)
  case (1 a b pt)
  obtain c rest where ab: "absorb b pt = (c, rest)" by fastforce
  show ?case
  proof (cases "a = b")
    case True
    with 1 show ?thesis by simp
  next
    case False
    then have "a < b" using 1(3) by (simp add: order.strict_iff_order)
    have as: "b \<le> c" "sorted rest" "\<forall>p \<in> set rest. c < p" "even (length rest)"
      using absorb_sorted [OF _ _ ab] absorb_even [of b pt] ab 1(3,4) by auto
    moreover have "cr_wf (compress rest)" using 1(2) [OF False ab [symmetric]] as by simp
    moreover have "\<forall>p \<in> set (compress rest). c < p" using as(3) compress_subset by blast
    ultimately show ?thesis using False ab \<open>a < b\<close> by (auto simp: cr_wf_def intro: order.strict_trans order.strict_trans2)
  qed
qed (auto simp: cr_wf_def)

subsection \<open>The operations on sets\<close>

text \<open>The points are taken in increasing order, from one list, the other or both.\<close>

lemma next_point_step:
  assumes "sorted a" "sorted b" "next_point a b i j = Some (v, i', j')"
  shows "set (take i' a) \<union> set (take j' b) = insert v (set (take i a) \<union> set (take j b))"
    and "insert v (set (drop i' a) \<union> set (drop j' b)) = set (drop i a) \<union> set (drop j b)"
    and "q \<in> set (drop i a) \<union> set (drop j b) \<Longrightarrow> v \<le> q"
    and "x < v \<Longrightarrow> inside (take i' a) x = inside (take i a) x \<and> inside (take j' b) x = inside (take j b) x"
    and "i' \<le> length a \<or> i' = i" and "j' \<le> length b \<or> j' = j"
proof -
  have da: "drop i a = a ! i # drop (Suc i) a" "take (Suc i) a = take i a @ [a ! i]" "\<forall>q \<in> set (drop i a). a ! i \<le> q" if "i < length a"
    using that sorted_wrt_drop [OF assms(1), of i] by (auto simp: Cons_nth_drop_Suc [symmetric] take_Suc_conv_app_nth)
  have db: "drop j b = b ! j # drop (Suc j) b" "take (Suc j) b = take j b @ [b ! j]" "\<forall>q \<in> set (drop j b). b ! j \<le> q" if "j < length b"
    using that sorted_wrt_drop [OF assms(2), of j] by (auto simp: Cons_nth_drop_Suc [symmetric] take_Suc_conv_app_nth)
  show "set (take i' a) \<union> set (take j' b) = insert v (set (take i a) \<union> set (take j b))"
    using assms(3) da db by (auto simp: next_point_def split: if_splits)
  show "insert v (set (drop i' a) \<union> set (drop j' b)) = set (drop i a) \<union> set (drop j b)"
    using assms(3) da(1) db(1) by (auto simp: next_point_def split: if_splits)
  show "v \<le> q" if "q \<in> set (drop i a) \<union> set (drop j b)"
    using that assms(3) da(3) db(3) by (fastforce simp: next_point_def split: if_splits)
  show "inside (take i' a) x = inside (take i a) x \<and> inside (take j' b) x = inside (take j b) x" if "x < v"
    using that assms(3) da(2) db(2) by (auto simp: next_point_def split: if_splits)
  show "i' \<le> length a \<or> i' = i" "j' \<le> length b \<or> j' = j"
    using assms(3) by (auto simp: next_point_def split: if_splits)
qed

text \<open>Between the points: \<open>out\<close> is the result for the points that were taken.\<close>

definition merged :: "cr_op_enum \<Rightarrow> code_point list \<Rightarrow> code_point list \<Rightarrow> nat \<Rightarrow> nat \<Rightarrow> code_point list \<Rightarrow> bool" where
  "merged op a b i j out \<longleftrightarrow>
     sorted out \<and> set out \<subseteq> set (take i a) \<union> set (take j b) \<and> i \<le> length a \<and> j \<le> length b \<and>
     (\<forall>p \<in> set (take i a) \<union> set (take j b). \<forall>q \<in> set (drop i a) \<union> set (drop j b). p \<le> q) \<and>
     odd (length out) = is_in op (odd i) (odd j) \<and>
     (\<forall>x. inside out x = is_in op (inside (take i a) x) (inside (take j b) x))"

lemma merged_step:
  assumes "sorted a" "sorted b" "merged op a b i j out" "next_point a b i j = Some (v, i', j')"
  defines "out' \<equiv> if is_in op (odd i') (odd j') \<noteq> odd (length out) then out @ [v] else out"
  shows "merged op a b i' j' out'"
proof -
  note st = next_point_step [OF assms(1,2,4)]
  let ?P = "set (take i a) \<union> set (take j b)" and ?Q = "set (drop i a) \<union> set (drop j b)"
  have le: "i' \<le> length a" "j' \<le> length b" using st(5,6) assms(3) by (auto simp: merged_def)
  have "v \<in> ?Q" using st(2) by blast
  then have pv: "\<forall>p \<in> insert v ?P. p \<le> v" using assms(3) by (auto simp: merged_def)
  have sub: "set out' \<subseteq> insert v ?P" using assms(3) by (auto simp: merged_def out'_def)
  have par: "odd (length out') = is_in op (odd i') (odd j')" by (auto simp: out'_def)
  have "\<forall>p \<in> set out. p \<le> v" using assms(3) pv by (auto simp: merged_def)
  then have "sorted out'" using assms(3) by (auto simp: merged_def out'_def sorted_append)
  moreover have "\<forall>p \<in> insert v ?P. \<forall>q \<in> set (drop i' a) \<union> set (drop j' b). p \<le> q"
  proof (intro ballI)
    fix p q assume p: "p \<in> insert v ?P" and "q \<in> set (drop i' a) \<union> set (drop j' b)"
    then have "q \<in> ?Q" using st(2) by blast
    then show "p \<le> q" using st(3) pv p by (blast intro: order_trans)
  qed
  moreover have "inside out' x = is_in op (inside (take i' a) x) (inside (take j' b) x)" for x
  proof (cases "x < v")
    case True
    then have "inside out' x = inside out x" by (simp add: out'_def not_le)
    with st(4) [OF True] assms(3) show ?thesis by (simp add: merged_def)
  next
    case False
    then have x: "\<forall>p \<in> insert v ?P. p \<le> x" using pv by (auto simp: not_less intro: order_trans)
    then have "inside out' x = odd (length out')" using sub by (intro inside_all) blast
    moreover have "inside (take i' a) x = odd i'" "inside (take j' b) x = odd j'"
      using inside_all [of "take i' a" x] inside_all [of "take j' b" x] x [folded st(1)] le by simp_all
    ultimately show ?thesis using par by simp
  qed
  ultimately show ?thesis using sub st(1) le par by (simp add: merged_def)
qed

lemma cr_realloc_cases:
  obtains "cr_realloc al cr n = None" "al \<noteq> (\<lambda>n. True)"
  | m where "cr_realloc al cr n = Some (cr\<lparr>cr_size := m\<rparr>)" "n \<le> m" "cr_size cr \<le> m"
proof (cases "cr_realloc al cr n")
  case None
  with that(1) show ?thesis by (auto simp: cr_realloc_def Let_def split: if_splits)
next
  case (Some r)
  then show ?thesis using that(2) [of "if cr_size cr < n then max n (cr_size cr * 3 div 2) else cr_size cr"]
    by (auto simp: cr_realloc_def Let_def split: if_splits)
qed

lemma cr_add_point_cases:
  assumes "length (points cr) \<le> cr_size cr"
  obtains "cr_add_point al cr v = None" "al \<noteq> (\<lambda>n. True)"
  | r where "cr_add_point al cr v = Some r" "points r = points cr @ [v]" "length (points r) \<le> cr_size r"
proof (cases "cr_add_point al cr v")
  case None
  with that(1) show ?thesis by (auto simp: cr_add_point_def cr_realloc_def Let_def split: if_splits option.splits)
next
  case (Some r)
  then show ?thesis using that(2) [of r] assms
    by (auto simp: cr_add_point_def cr_realloc_def Let_def split: if_splits option.splits)
qed

lemma op_loop_merged:
  assumes "sorted a" "sorted b" "merged op a b i j (points cr)" "length (points cr) \<le> cr_size cr"
  shows "case op_loop al a b op i j cr of None \<Rightarrow> al \<noteq> (\<lambda>n. True)
    | Some r \<Rightarrow> merged op a b (length a) (length b) (points r) \<and> length (points r) \<le> cr_size r"
  using assms
proof (induction al a b op i j cr rule: op_loop.induct)
  case (1 al a b op i j cr)
  show ?case
  proof (cases "next_point a b i j")
    case None
    then have "i = length a" "j = length b" using 1(5) by (auto simp: next_point_def merged_def split: if_splits)
    with None 1(5,6) show ?thesis by (subst op_loop.simps) simp
  next
    case (Some s)
    then obtain v i' j' where n: "next_point a b i j = Some (v, i', j')" by (cases s) auto
    note st = merged_step [OF 1(3,4,5) n]
    show ?thesis
    proof (cases "is_in op (odd i') (odd j') \<noteq> odd (length (points cr))")
      case True
      note IH = 1(1) [OF _ _ _ _ _ 1(3,4)]
      show ?thesis
      proof (cases rule: cr_add_point_cases [OF 1(6), where al = al and v = v])
        case 1
        with True n show ?thesis by (subst op_loop.simps) simp
      next
        case (2 r)
        then have "merged op a b i' j' (points r)" using st True by simp
        with IH [OF n refl refl True 2(1)] True 2 n show ?thesis by (subst op_loop.simps) simp
      qed
    next
      case False
      then have "merged op a b i' j' (points cr)" using st by simp
      with 1(2) [OF n refl refl False 1(3,4)] 1(6) False n show ?thesis by (subst op_loop.simps) simp
    qed
  qed
qed

lemma merged_start: "merged op a b 0 0 []"
  by (simp add: merged_def is_in_def split: cr_op_enum.splits)

subsection \<open>Sets\<close>

definition cr_inv :: "char_range \<Rightarrow> bool" where
  "cr_inv cr \<longleftrightarrow> sorted (points cr) \<and> even (length (points cr)) \<and> length (points cr) \<le> cr_size cr"

lemma compress_length: "length (compress pt) \<le> length pt"
proof (induction pt rule: compress.induct)
  case (1 a b pt)
  obtain c rest where ab: "absorb b pt = (c, rest)" by fastforce
  then have "length rest \<le> length pt" using absorb_length [of b pt] by simp
  with 1 ab show ?case by (cases "a = b") auto
qed auto

lemma cr_compress_inv:
  assumes "sorted (points cr)" "even (length (points cr))" "length (points cr) \<le> cr_size cr"
  shows "cr_inv (cr_compress cr) \<and> cr_wf (points (cr_compress cr)) \<and> (\<forall>x. in_range (points (cr_compress cr)) x = in_range (points cr) x)"
proof -
  have "cr_size (cr_compress cr) = cr_size cr" by (simp add: cr_compress_def split: prod.splits)
  moreover have wf: "cr_wf (compress (points cr))" using compress_wf assms by blast
  moreover have "length (compress (points cr)) \<le> cr_size cr" using assms(3) compress_length [of "points cr"] by simp
  ultimately show ?thesis
    using cr_wf_sorted [OF wf] assms by (simp add: cr_inv_def cr_compress_points in_range_inside compress_inside)
qed

lemma cr_op_cases:
  assumes "sorted a" "sorted b" "even (length a)" "even (length b)"
  shows "case cr_op al cr_init a b op of None \<Rightarrow> al \<noteq> (\<lambda>n. True)
    | Some r \<Rightarrow> cr_inv r \<and> cr_wf (points r) \<and> (\<forall>x. in_range (points r) x = is_in op (in_range a x) (in_range b x))"
proof -
  have m: "merged op a b 0 0 (points cr_init)" "length (points cr_init) \<le> cr_size cr_init"
    using merged_start by (simp_all add: cr_init_def)
  note l = op_loop_merged [OF assms(1,2) m, of al]
  show ?thesis
  proof (cases "op_loop al a b op 0 0 cr_init")
    case None
    with l show ?thesis by (simp add: cr_op_def)
  next
    case (Some r)
    with l have r: "merged op a b (length a) (length b) (points r)" "length (points r) \<le> cr_size r" by simp_all
    have "\<not> is_in op False False" by (simp add: is_in_def split: cr_op_enum.splits)
    then have s: "sorted (points r)" "even (length (points r))" using r(1) assms(3,4) by (simp_all add: merged_def)
    moreover have "in_range (points r) x = is_in op (in_range a x) (in_range b x)" for x
      using r(1) s assms by (simp add: merged_def in_range_inside)
    ultimately show ?thesis using Some cr_compress_inv [OF s r(2)] by (simp add: cr_op_def)
  qed
qed

text \<open>
  The sets a program builds: \<open>char_set cr S\<close> says that the calls that gave \<open>cr\<close>, read as operations
  on sets, give \<open>S\<close>.  The end of an interval is excluded, so \<open>UINT32_MAX\<close> is in no set.
\<close>

inductive char_set :: "char_range \<Rightarrow> code_point set \<Rightarrow> bool" where
  char_set_init: "char_set cr_init {}"
| char_set_copy: "\<lbrakk>char_set cr S; char_set cr1 S1; cr_copy al cr cr1 = Some r\<rbrakk> \<Longrightarrow> char_set r S1"
| char_set_add: "\<lbrakk>char_set cr S; \<forall>p \<in> set (points cr). p \<le> c1; c1 \<le> c2; cr_add_interval al cr c1 c2 = Some r\<rbrakk>
    \<Longrightarrow> char_set r (S \<union> {c1..<c2})"
| char_set_op: "\<lbrakk>char_set cr1 S; char_set cr2 T; cr_op al cr_init (points cr1) (points cr2) op = Some r\<rbrakk>
    \<Longrightarrow> char_set r {x. is_in op (x \<in> S) (x \<in> T)}"
| char_set_union1: "\<lbrakk>char_set cr S; char_set cr2 T; cr_union1 al cr (points cr2) = Some r\<rbrakk> \<Longrightarrow> char_set r (S \<union> T)"
| char_set_union: "\<lbrakk>char_set cr S; c1 \<le> c2; c2 \<noteq> UINT32_MAX; cr_union_interval al cr c1 c2 = Some r\<rbrakk>
    \<Longrightarrow> char_set r (S \<union> {c1..c2})"
| char_set_invert: "\<lbrakk>char_set cr S; cr_invert al cr = Some r\<rbrakk> \<Longrightarrow> char_set r ({..<UINT32_MAX} - S)"

lemma in_range_append: "even (length as) \<Longrightarrow> in_range (as @ bs) x \<longleftrightarrow> in_range as x \<or> in_range bs x"
  by (induction as rule: induct_list012) (auto simp: in_range_pair, auto simp: in_range_def)

lemma in_range_single: "in_range [c1, c2] x \<longleftrightarrow> c1 \<le> x \<and> x < c2"
  by (simp add: in_range_pair) (simp add: in_range_def)

lemma cr_realloc_points: "cr_realloc al cr n = Some r \<Longrightarrow> points r = points cr \<and> n \<le> cr_size r"
  by (auto simp: cr_realloc_def Let_def split: if_splits)

lemma cr_copy_set: "cr_inv cr1 \<Longrightarrow> cr_copy al cr cr1 = Some r \<Longrightarrow> cr_inv r \<and> points r = points cr1"
  by (auto simp: cr_copy_def cr_inv_def dest: cr_realloc_points)

lemma cr_add_interval_set:
  assumes "cr_inv cr" "\<forall>p \<in> set (points cr). p \<le> c1" "c1 \<le> c2" "cr_add_interval al cr c1 c2 = Some r"
  shows "cr_inv r \<and> points r = points cr @ [c1, c2]"
proof -
  have "points r = points cr @ [c1, c2]" "length (points cr) + 2 \<le> cr_size r"
    using assms(4) by (auto simp: cr_add_interval_def dest: cr_realloc_points split: if_splits option.splits)
  then show ?thesis using assms(1-3) by (auto simp: cr_inv_def sorted_append intro: order_trans)
qed

lemma cr_union1_set:
  assumes "cr_inv cr" "sorted b" "even (length b)" "cr_union1 al cr b = Some r"
  shows "cr_inv r \<and> (\<forall>x. in_range (points r) x \<longleftrightarrow> in_range (points cr) x \<or> in_range b x)"
  using assms cr_op_cases [of "points cr" b al CR_OP_UNION] by (auto simp: cr_inv_def cr_union1_def is_in_def)

lemma le_UINT32_MAX: "x \<le> UINT32_MAX"
  by (simp add: UINT32_MAX_def)

lemma cr_invert_set:
  assumes "cr_inv cr" "cr_invert al cr = Some r"
  shows "cr_inv r \<and> (\<forall>x. in_range (points r) x \<longleftrightarrow> x < UINT32_MAX \<and> \<not> in_range (points cr) x)"
proof -
  obtain r0 where r0: "points r0 = points cr" "length (points cr) + 2 \<le> cr_size r0"
    "r = cr_compress (r0\<lparr>points := 0 # points cr @ [UINT32_MAX]\<rparr>)"
    using assms(2) by (auto simp: cr_invert_def dest: cr_realloc_points)
  define r1 where "r1 = r0\<lparr>points := 0 # points cr @ [UINT32_MAX]\<rparr>"
  have r1: "sorted (points r1)" "even (length (points r1))" "length (points r1) \<le> cr_size r1"
    using r0(2) assms(1) by (auto simp: r1_def cr_inv_def sorted_append le_UINT32_MAX)
  have "in_range (points r1) x \<longleftrightarrow> x < UINT32_MAX \<and> \<not> in_range (points cr) x" for x
  proof (cases "x < UINT32_MAX")
    case True
    then show ?thesis using assms(1) r1 by (simp add: in_range_inside cr_inv_def) (simp add: r1_def not_le)
  next
    case False
    then have "x = UINT32_MAX" using le_UINT32_MAX by (metis order.not_eq_order_implies_strict)
    then have "inside (points r1) x = odd (length (points r1))" by (intro inside_all) (auto simp: le_UINT32_MAX)
    with False r1(1,2) show ?thesis by (simp add: in_range_inside)
  qed
  then show ?thesis using cr_compress_inv [OF r1] r0(3) by (simp add: r1_def)
qed

lemma less_succ: "c \<noteq> UINT32_MAX \<Longrightarrow> x < c + 1 \<longleftrightarrow> x \<le> c" for c :: code_point
proof -
  assume "c \<noteq> UINT32_MAX"
  then have "1 + c \<noteq> 0" by (metis UINT32_MAX_def add.commute add_eq_0_iff)
  then have "unat (c + 1) = Suc (unat c)" using unatSuc [of c] by (simp add: add.commute)
  then show ?thesis by (simp add: word_less_nat_alt word_le_nat_alt less_Suc_eq_le)
qed

text \<open>
  C15. The union, the intersection and the symmetric difference of two sets of code points are
  computed by one pass over the points of both: for sorted lists of intervals, and when memory is
  available, \<open>cr_op\<close> returns a strictly sorted list of intervals (so none is empty and no two touch),
  within its memory, that holds a code exactly when the operation says so of the two sets.
\<close>

theorem cr_op_set:
  assumes "sorted a" "even (length a)" "sorted b" "even (length b)"
  shows "\<exists>r. cr_op (\<lambda>n. True) cr_init a b op = Some r \<and> cr_wf (points r) \<and> length (points r) \<le> cr_size r \<and>
    (\<forall>x. in_range (points r) x \<longleftrightarrow> is_in op (in_range a x) (in_range b x))"
  using cr_op_cases [OF assms(1,3,2,4), of "\<lambda>n. True" op] by (auto simp: cr_inv_def split: option.splits)

theorem cr_op_set_witness:
  "\<exists>r. cr_op (\<lambda>n. True) cr_init [48, 58, 97, 103] [50, 98] CR_OP_XOR = Some r \<and> cr_wf (points r) \<and> length (points r) \<le> cr_size r \<and>
    (\<forall>x. in_range (points r) x \<longleftrightarrow> is_in CR_OP_XOR (in_range [48, 58, 97, 103] x) (in_range [50, 98] x))"
  by (rule cr_op_set) simp_all



end
