(* ===== verification/Utf8.thy ===== *)
theory Utf8
  imports Prelude
begin

section \<open>UTF-8 (cutils.c)\<close>

text \<open>
  Code points of up to 31 bits and their encodings of one to six bytes.  The decoder takes the
  bytes it may read as a list; \<open>None\<close> is a read behind them, and otherwise the result is the
  code point, or -1, with the bytes behind the ones that were used.
\<close>

unbundle bit_operations_syntax

subsection \<open>Encoding and decoding\<close>

definition UTF8_CHAR_LEN_MAX :: nat where "UTF8_CHAR_LEN_MAX = 6"

text \<open>The assignment of an integer to a byte.\<close>

abbreviation u8 :: "nat \<Rightarrow> byte" where "u8 \<equiv> char_of"

definition unicode_to_utf8 :: "nat \<Rightarrow> byte list" where
  "unicode_to_utf8 c =
     (if c < 0x80 then [u8 c]
      else if \<not> c < 0x80000000 then []
      else
        (if c < 0x800 then [u8 (drop_bit 6 c OR 0xc0)]
         else
           (if c < 0x10000 then [u8 (drop_bit 12 c OR 0xe0)]
            else
              (if c < 0x200000 then [u8 (drop_bit 18 c OR 0xf0)]
               else
                 (if c < 0x4000000 then [u8 (drop_bit 24 c OR 0xf8)]
                  else [u8 (drop_bit 30 c OR 0xfc), u8 ((drop_bit 24 c AND 0x3f) OR 0x80)])
                 @ [u8 ((drop_bit 18 c AND 0x3f) OR 0x80)])
              @ [u8 ((drop_bit 12 c AND 0x3f) OR 0x80)])
           @ [u8 ((drop_bit 6 c AND 0x3f) OR 0x80)])
        @ [u8 ((c AND 0x3f) OR 0x80)])"

definition utf8_min_code :: "nat list" where
  "utf8_min_code = [0x80, 0x800, 0x10000, 0x200000, 0x4000000]"

definition utf8_first_code_mask :: "nat list" where
  "utf8_first_code_mask = [0x1f, 0xf, 0x7, 0x3, 0x1]"

text \<open>The number of bytes that follow the first one.\<close>

definition utf8_follow :: "nat \<Rightarrow> nat option" where
  "utf8_follow c =
     (if 0xc0 \<le> c \<and> c \<le> 0xdf then Some 1
      else if 0xe0 \<le> c \<and> c \<le> 0xef then Some 2
      else if 0xf0 \<le> c \<and> c \<le> 0xf7 then Some 3
      else if 0xf8 \<le> c \<and> c \<le> 0xfb then Some 4
      else if 0xfc \<le> c \<and> c \<le> 0xfd then Some 5
      else None)"

text \<open>The loop over the bytes that follow; \<open>Some None\<close> when one of them is none.\<close>

fun utf8_loop :: "nat \<Rightarrow> nat \<Rightarrow> byte list \<Rightarrow> (nat \<times> byte list) option option" where
  "utf8_loop 0 c p = Some (Some (c, p))"
| "utf8_loop (Suc l) c [] = None"
| "utf8_loop (Suc l) c (x # p) =
     (let b = of_char x in
      if b < 0x80 \<or> b \<ge> 0xc0 then Some None else utf8_loop l (push_bit 6 c OR (b AND 0x3f)) p)"

definition unicode_from_utf8 :: "byte list \<Rightarrow> int \<Rightarrow> (int \<times> byte list) option" where
  "unicode_from_utf8 p max_len =
     (case p of
        [] \<Rightarrow> None
      | x # q \<Rightarrow>
          let c = of_char x in
          if c < 0x80 then Some (int c, q)
          else case utf8_follow c of
                 None \<Rightarrow> Some (-1, p)
               | Some l \<Rightarrow>
                   if int l > max_len - 1 then Some (-1, p)
                   else (case utf8_loop l (c AND utf8_first_code_mask ! (l - 1)) q of
                           None \<Rightarrow> None
                         | Some None \<Rightarrow> Some (-1, p)
                         | Some (Some (c, r)) \<Rightarrow>
                             if c < utf8_min_code ! (l - 1) then Some (-1, p) else Some (int c, r)))"

subsection \<open>In arithmetic\<close>

lemma or_plus: "x < 2 ^ n \<Longrightarrow> x OR push_bit n y = x + push_bit n y" for x y :: nat
proof -
  assume "x < 2 ^ n"
  then have "x = take_bit n x" by (simp add: take_bit_nat_eq_self)
  then have "bit x k \<Longrightarrow> k < n" for k by (metis bit_take_bit_iff)
  then have "x AND push_bit n y = 0" by (intro bit_eqI) (auto simp: bit_and_iff bit_push_bit_iff not_le)
  then show ?thesis by (simp add: disjunctive_add_eq_or)
qed

lemma mask_bits: "x AND 0x3f = x mod 64" "x AND 0x1f = x mod 32" "x AND 0xf = x mod 16"
  "x AND 0x7 = x mod 8" "x AND 0x3 = x mod 4" "x AND 0x1 = x mod 2" for x :: nat
  subgoal using take_bit_eq_mask [of 6 x] by (simp add: mask_eq_exp_minus_1 take_bit_eq_mod)
  subgoal using take_bit_eq_mask [of 5 x] by (simp add: mask_eq_exp_minus_1 take_bit_eq_mod)
  subgoal using take_bit_eq_mask [of 4 x] by (simp add: mask_eq_exp_minus_1 take_bit_eq_mod)
  subgoal using take_bit_eq_mask [of 3 x] by (simp add: mask_eq_exp_minus_1 take_bit_eq_mod)
  subgoal using take_bit_eq_mask [of 2 x] by (simp add: mask_eq_exp_minus_1 take_bit_eq_mod)
  subgoal using take_bit_eq_mask [of 1 x] by (simp add: mask_eq_exp_minus_1 take_bit_eq_mod)
  done

lemma or_bits: "x < 64 \<Longrightarrow> x OR 0x80 = x + 0x80" "x < 32 \<Longrightarrow> x OR 0xc0 = x + 0xc0" "x < 16 \<Longrightarrow> x OR 0xe0 = x + 0xe0"
  "x < 8 \<Longrightarrow> x OR 0xf0 = x + 0xf0" "x < 4 \<Longrightarrow> x OR 0xf8 = x + 0xf8" "x < 2 \<Longrightarrow> x OR 0xfc = x + 0xfc"
  "x < 64 \<Longrightarrow> push_bit 6 y OR x = 64 * y + x" for x y :: nat
  subgoal using or_plus [of x 6 2] by (simp add: push_bit_eq_mult)
  subgoal using or_plus [of x 5 6] by (simp add: push_bit_eq_mult)
  subgoal using or_plus [of x 4 14] by (simp add: push_bit_eq_mult)
  subgoal using or_plus [of x 3 30] by (simp add: push_bit_eq_mult)
  subgoal using or_plus [of x 2 62] by (simp add: push_bit_eq_mult)
  subgoal using or_plus [of x 1 126] by (simp add: push_bit_eq_mult)
  subgoal using or_plus [of x 6 y] by (simp add: push_bit_eq_mult or.commute)
  done

lemma u8_value: "n < 256 \<Longrightarrow> of_char (u8 n) = n" for n :: nat
  by simp

lemma u8_of_char: "u8 (of_char x) = x"
  by simp

text \<open>The last \<open>l\<close> bytes of an encoding.\<close>

fun cont_bytes :: "nat \<Rightarrow> nat \<Rightarrow> byte list" where
  "cont_bytes 0 c = []"
| "cont_bytes (Suc l) c = u8 (c div 64 ^ l mod 64 + 0x80) # cont_bytes l c"

text \<open>The first byte, for a code of \<open>l\<close> more bytes: \<open>lead l\<close> is its prefix.\<close>

definition lead :: "nat \<Rightarrow> nat" where
  "lead l = [0, 0xc0, 0xe0, 0xf0, 0xf8, 0xfc] ! l"

definition code_class :: "nat \<Rightarrow> nat option" where
  "code_class c = (if c < 0x80 then Some 0 else if c < 0x800 then Some 1 else if c < 0x10000 then Some 2
     else if c < 0x200000 then Some 3 else if c < 0x4000000 then Some 4 else if c < 0x80000000 then Some 5 else None)"

lemma cont_bytes_numeral [simp]:
  "cont_bytes (numeral v) c = u8 (c div 64 ^ (pred_numeral v) mod 64 + 0x80) # cont_bytes (pred_numeral v) c"
  "cont_bytes 1 c = [u8 (c mod 64 + 0x80)]"
  subgoal unfolding numeral_eq_Suc [of v] by (rule cont_bytes.simps)
  subgoal using cont_bytes.simps(2) [of 0 c] by simp
  done

lemma cont_step: "drop_bit n c AND 0x3f OR 0x80 = c div 2 ^ n mod 64 + 0x80" "c AND 0x3f OR 0x80 = c mod 64 + 0x80" for c :: nat
  by (simp_all add: mask_bits or_bits drop_bit_eq_div)

lemma first_step:
  "c < 0x800 \<Longrightarrow> drop_bit 6 c OR 0xc0 = c div 2 ^ 6 + 0xc0" "c < 0x10000 \<Longrightarrow> drop_bit 12 c OR 0xe0 = c div 2 ^ 12 + 0xe0"
  "c < 0x200000 \<Longrightarrow> drop_bit 18 c OR 0xf0 = c div 2 ^ 18 + 0xf0" "c < 0x4000000 \<Longrightarrow> drop_bit 24 c OR 0xf8 = c div 2 ^ 24 + 0xf8"
  "c < 0x80000000 \<Longrightarrow> drop_bit 30 c OR 0xfc = c div 2 ^ 30 + 0xfc" for c :: nat
  by (simp_all add: or_bits drop_bit_eq_div less_mult_imp_div_less)

lemma to_utf8_class:
  "unicode_to_utf8 c = (case code_class c of None \<Rightarrow> [] | Some l \<Rightarrow> u8 (c div 64 ^ l + lead l) # cont_bytes l c)"
  unfolding unicode_to_utf8_def code_class_def cont_step by (simp add: first_step lead_def) (simp add: drop_bit_eq_div)

subsection \<open>Round trips\<close>

lemma utf8_loop_byte:
  assumes "y < 64"
  shows "utf8_loop (Suc l) a (u8 (y + 0x80) # p) = utf8_loop l (64 * a + y) p"
proof -
  have v: "of_char (u8 (y + 0x80)) = y + 0x80" using assms by (intro u8_value) simp
  have m: "(y + 0x80) AND 0x3f = y" using assms mod_mult_self1 [of y 2 64] by (simp add: mask_bits(1))
  have "\<not> (y + 0x80 < 0x80 \<or> y + 0x80 \<ge> 0xc0)" using assms by simp
  then show ?thesis unfolding utf8_loop.simps v Let_def m or_bits(7) [OF assms] by (rule if_not_P)
qed

lemma utf8_loop_cont:
  "utf8_loop l a (cont_bytes l c @ r) = Some (Some (a * 64 ^ l + c mod 64 ^ l, r))"
proof (induction l arbitrary: a)
  case (Suc l)
  have "c mod 64 ^ Suc l = 64 ^ l * (c div 64 ^ l mod 64) + c mod 64 ^ l"
    using mod_mult2_eq [of c "64 ^ l" 64] by (simp add: mult.commute)
  then have "(64 * a + c div 64 ^ l mod 64) * 64 ^ l + c mod 64 ^ l = a * 64 ^ Suc l + c mod 64 ^ Suc l"
    by (simp add: distrib_right)
  moreover have "utf8_loop (Suc l) a (cont_bytes (Suc l) c @ r) = utf8_loop l (64 * a + c div 64 ^ l mod 64) (cont_bytes l c @ r)"
    using utf8_loop_byte [of "c div 64 ^ l mod 64"] by simp
  ultimately show ?case by (simp only: Suc)
qed simp

lemma utf8_loop_inv:
  "utf8_loop l a p = Some (Some (c, r)) \<Longrightarrow> p = cont_bytes l c @ r \<and> c div 64 ^ l = a"
proof (induction l arbitrary: a p)
  case (Suc l)
  then obtain x q where p: "p = x # q" by (cases p) auto
  define b where "b = (of_char x :: nat)"
  have x: "x = u8 b" by (simp add: b_def)
  have b: "128 \<le> b" "b < 192" using Suc(2) unfolding p utf8_loop.simps b_def [symmetric] Let_def by (simp_all split: if_splits)
  define y where "y = b - 128"
  have y: "b = y + 128" "y < 64" using b by (simp_all add: y_def)
  have "utf8_loop l (64 * a + y) q = Some (Some (c, r))" using Suc(2) utf8_loop_byte [OF y(2)] p x y(1) by simp
  from Suc(1) [OF this] have q: "q = cont_bytes l c @ r" "c div 64 ^ l = 64 * a + y" by simp_all
  have "c div 64 ^ Suc l = a" unfolding power_Suc2 div_mult2_eq q(2) using y(2) by simp
  moreover have "c div 64 ^ l mod 64 = y" unfolding q(2) using y(2) by simp
  ultimately show ?case unfolding p x y(1) q(1) cont_bytes.simps by (simp only: append_Cons simp_thms)
qed simp

lemma code_class_cases:
  assumes "code_class c = Some l" "l \<noteq> 0"
  shows "c div 64 ^ l + lead l < 256" "0x80 \<le> c div 64 ^ l + lead l" "utf8_follow (c div 64 ^ l + lead l) = Some l"
    "(c div 64 ^ l + lead l) AND utf8_first_code_mask ! (l - 1) = c div 64 ^ l" "utf8_min_code ! (l - 1) \<le> c" "l \<le> 5"
proof -
  note d = less_mult_imp_div_less
  show "c div 64 ^ l + lead l < 256" "0x80 \<le> c div 64 ^ l + lead l" "utf8_follow (c div 64 ^ l + lead l) = Some l"
    "utf8_min_code ! (l - 1) \<le> c" "l \<le> 5"
    using assms d [of c 32 64] d [of c 16 "64^2"] d [of c 8 "64^3"] d [of c 4 "64^4"] d [of c 2 "64^5"]
    by (auto simp: code_class_def lead_def utf8_follow_def utf8_min_code_def split: if_splits)
  have m: "(x + 0xc0) mod 32 = x mod 32" "(x + 0xe0) mod 16 = x mod 16" "(x + 0xf0) mod 8 = x mod 8" "(x + 0xf8) mod 4 = x mod 4"
    "(x + 0xfc) mod 2 = x mod 2" for x :: nat
    using mod_mult_self1 [of x 6 32] mod_mult_self1 [of x 14 16] mod_mult_self1 [of x 30 8] mod_mult_self1 [of x 62 4] mod_mult_self1 [of x 126 2]
    by simp_all
  show "(c div 64 ^ l + lead l) AND utf8_first_code_mask ! (l - 1) = c div 64 ^ l"
    using assms d [of c 32 64] d [of c 16 "64^2"] d [of c 8 "64^3"] d [of c 4 "64^4"] d [of c 2 "64^5"]
    by (auto simp: code_class_def lead_def utf8_first_code_mask_def mask_bits m split: if_splits)
qed

lemma mod_window: "n * k \<le> b \<Longrightarrow> b < n * k + k \<Longrightarrow> b mod k = b - n * k" for b n k :: nat
  using mod_mult_self1 [of "b - n * k" n k] by simp

lemma follow_class:
  assumes "utf8_follow b = Some l" "c div 64 ^ l = b AND utf8_first_code_mask ! (l - 1)" "utf8_min_code ! (l - 1) \<le> c"
  shows "code_class c = Some l \<and> b = c div 64 ^ l + lead l"
proof -
  have m: "0xc0 \<le> b \<and> b \<le> 0xdf \<Longrightarrow> b mod 32 = b - 0xc0" "0xe0 \<le> b \<and> b \<le> 0xef \<Longrightarrow> b mod 16 = b - 0xe0"
    "0xf0 \<le> b \<and> b \<le> 0xf7 \<Longrightarrow> b mod 8 = b - 0xf0" "0xf8 \<le> b \<and> b \<le> 0xfb \<Longrightarrow> b mod 4 = b - 0xf8"
    "0xfc \<le> b \<and> b \<le> 0xfd \<Longrightarrow> b mod 2 = b - 0xfc"
    using mod_window [of 6 32 b] mod_window [of 14 16 b] mod_window [of 30 8 b] mod_window [of 62 4 b] mod_window [of 126 2 b]
    by simp_all
  have d: "c div n = x \<Longrightarrow> x < k \<Longrightarrow> 0 < n \<Longrightarrow> c < n * k" for n x k :: nat
    by (metis div_less_iff_less_mult mult.commute)
  consider "l = 1" "0xc0 \<le> b \<and> b \<le> 0xdf" | "l = 2" "0xe0 \<le> b \<and> b \<le> 0xef" | "l = 3" "0xf0 \<le> b \<and> b \<le> 0xf7"
    | "l = 4" "0xf8 \<le> b \<and> b \<le> 0xfb" | "l = 5" "0xfc \<le> b \<and> b \<le> 0xfd"
    using assms(1) by (auto simp: utf8_follow_def split: if_splits)
  then show ?thesis
  proof cases
    case 1
    then show ?thesis using assms(2,3) m(1) d [of "64 ^ 1" "b - 0xc0" 32]
      by (auto simp: utf8_first_code_mask_def utf8_min_code_def mask_bits code_class_def lead_def)
  next
    case 2
    then show ?thesis using assms(2,3) m(2) d [of "64 ^ 2" "b - 0xe0" 16]
      by (auto simp: utf8_first_code_mask_def utf8_min_code_def mask_bits code_class_def lead_def)
  next
    case 3
    then show ?thesis using assms(2,3) m(3) d [of "64 ^ 3" "b - 0xf0" 8]
      by (auto simp: utf8_first_code_mask_def utf8_min_code_def mask_bits code_class_def lead_def)
  next
    case 4
    then show ?thesis using assms(2,3) m(4) d [of "64 ^ 4" "b - 0xf8" 4]
      by (auto simp: utf8_first_code_mask_def utf8_min_code_def mask_bits code_class_def lead_def)
  next
    case 5
    then show ?thesis using assms(2,3) m(5) d [of "64 ^ 5" "b - 0xfc" 2]
      by (auto simp: utf8_first_code_mask_def utf8_min_code_def mask_bits code_class_def lead_def)
  qed
qed

lemma to_utf8_nonempty: "c < 0x80000000 \<Longrightarrow> \<exists>l. code_class c = Some l \<and> length (unicode_to_utf8 c) = Suc l"
proof -
  have l: "length (cont_bytes l c) = l" for l by (induction l) simp_all
  assume "c < 0x80000000"
  then have "code_class c \<noteq> None" by (simp add: code_class_def)
  then obtain l where "code_class c = Some l" by blast
  then show ?thesis by (simp add: to_utf8_class l)
qed

lemma code_class_zero: "code_class c = Some 0 \<longleftrightarrow> c < 0x80"
  by (simp add: code_class_def)

lemma from_utf8_ascii: "c < 0x80 \<Longrightarrow> unicode_from_utf8 (unicode_to_utf8 c @ r) ml = Some (int c, r)"
  using u8_value [of c] by (simp add: unicode_to_utf8_def unicode_from_utf8_def Let_def)

lemma from_utf8_to:
  assumes "c < 0x80000000" "int (length (unicode_to_utf8 c)) \<le> ml" 
  shows "unicode_from_utf8 (unicode_to_utf8 c @ r) ml = Some (int c, r)"
proof -
  obtain l where l: "code_class c = Some l" "length (unicode_to_utf8 c) = Suc l" using to_utf8_nonempty [OF assms(1)] by blast
  show ?thesis
  proof (cases "l = 0")
    case True
    then have "c < 0x80" using l(1) code_class_zero by simp
    then show ?thesis by (rule from_utf8_ascii)
  next
    case False
    note cc = code_class_cases [OF l(1) False]
    let ?b = "c div 64 ^ l + lead l"
    have v: "of_char (u8 ?b) = ?b" using cc(1) by (rule u8_value)
    have "c div 64 ^ l * 64 ^ l + c mod 64 ^ l = c" by (rule div_mult_mod_eq)
    then have lp: "utf8_loop l (c div 64 ^ l) (cont_bytes l c @ r) = Some (Some (c, r))" by (simp only: utf8_loop_cont)
    have "\<not> int l > ml - 1" using assms(2) l(2) by simp
    then show ?thesis using cc lp l(1)
      by (simp add: to_utf8_class unicode_from_utf8_def v Let_def del: of_char_of)
  qed
qed

lemma from_utf8_inv:
  assumes "unicode_from_utf8 p ml = Some (int c, r)"
  shows "p = unicode_to_utf8 c @ r \<and> c < 0x80000000 \<and> (c < 0x80 \<or> int (length (unicode_to_utf8 c)) \<le> ml)"
proof -
  obtain x q where p: "p = x # q" using assms by (cases p) (auto simp: unicode_from_utf8_def)
  define b where "b = (of_char x :: nat)"
  have x: "x = u8 b" by (simp add: b_def)
  show ?thesis
  proof (cases "b < 0x80")
    case True
    then have "c = b" "r = q" using assms by (simp_all add: unicode_from_utf8_def p b_def [symmetric] Let_def)
    then show ?thesis using True p x by (simp add: unicode_to_utf8_def)
  next
    case False
    then obtain l where l: "utf8_follow b = Some l" "int l \<le> ml - 1"
      "utf8_loop l (b AND utf8_first_code_mask ! (l - 1)) q = Some (Some (c, r))" "utf8_min_code ! (l - 1) \<le> c"
      using assms by (auto simp: unicode_from_utf8_def p b_def [symmetric] Let_def split: option.splits if_splits)
    note lp = utf8_loop_inv [OF l(3)]
    have cc: "code_class c = Some l" "b = c div 64 ^ l + lead l" using follow_class [OF l(1)] lp l(4) by blast+
    have c: "c < 0x80000000" using cc(1) by (auto simp: code_class_def split: if_splits)
    have e: "unicode_to_utf8 c = x # cont_bytes l c" using cc by (simp add: to_utf8_class x)
    have "length (unicode_to_utf8 c) = Suc l" using to_utf8_nonempty [OF c] cc(1) by simp
    then show ?thesis using e lp p c l(2) by simp
  qed
qed

text \<open>
  C14. UTF-8 decoding is exactly the inverse of encoding: \<open>unicode_from_utf8\<close> returns the code point
  \<open>c\<close> and the rest \<open>r\<close> if and only if the bytes start with the encoding of \<open>c\<close>, which has at most 31
  bits, and the encoding fits the given length (a single byte needs no room).  So every encoding is read back, and overlong or
  truncated sequences are not accepted.
\<close>

theorem utf8_roundtrip:
  "unicode_from_utf8 p ml = Some (int c, r) \<longleftrightarrow>
     p = unicode_to_utf8 c @ r \<and> c < 0x80000000 \<and> (c < 0x80 \<or> int (length (unicode_to_utf8 c)) \<le> ml)"
proof
  assume "p = unicode_to_utf8 c @ r \<and> c < 0x80000000 \<and> (c < 0x80 \<or> int (length (unicode_to_utf8 c)) \<le> ml)"
  then show "unicode_from_utf8 p ml = Some (int c, r)"
    using from_utf8_to [of c ml r] from_utf8_ascii [of c r ml] by blast
qed (rule from_utf8_inv)

end
