(* ===== verification/Rq_Sort.thy ===== *)
theory Rq_Sort
  imports Comparator "HOL-Library.Monad_Syntax"
begin

section \<open>Sorting (cutils.c, rqsort)\<close>

text \<open>
  \<open>rqsort\<close> sorts an array of \<open>nmemb\<close> elements of \<open>size\<close> bytes with the comparison function of the
  caller: quicksort with a three-way partition and a stack of its own, heap sort below a depth
  of 50, and insertion sort for at most six elements.  In the first part an array is the list
  of its elements and a pointer is an index, a distance in units of \<open>size\<close>; an access outside the
  part of the array that is being sorted is the result \<open>None\<close>.  Elements of no bytes, for which the
  routine returns at once, are left out.  The second part shows that the
  exchange routines, which work on bytes and wider units, exchange whole elements.
\<close>

subsection \<open>Access\<close>

definition swap_elems :: "nat \<Rightarrow> nat \<Rightarrow> 'a list \<Rightarrow> 'a list option" where
  "swap_elems i j a = (if i < length a \<and> j < length a then Some (a[i := a ! j, j := a ! i]) else None)"

definition cmp_at :: "('a \<Rightarrow> 'a \<Rightarrow> int) \<Rightarrow> 'a list \<Rightarrow> nat \<Rightarrow> nat \<Rightarrow> int option" where
  "cmp_at cmp a i j = (if i < length a \<and> j < length a then Some (cmp (a ! i) (a ! j)) else None)"

subsection \<open>Heap sort\<close>

text \<open>The greater one of the children \<open>c\<close> and \<open>c + 1\<close>.\<close>

definition greater_child :: "('a \<Rightarrow> 'a \<Rightarrow> int) \<Rightarrow> nat \<Rightarrow> nat \<Rightarrow> 'a list \<Rightarrow> nat option" where
  "greater_child cmp n c a =
     (if c < n - 1 then do { v \<leftarrow> cmp_at cmp a c (c + 1); Some (if v \<le> 0 then c + 1 else c) } else Some c)"

lemma greater_child_cases: "greater_child cmp n c a = Some c' \<Longrightarrow> c' = c \<or> c' = c + 1 \<and> c + 1 < n"
  by (auto simp: greater_child_def split: if_splits bind_splits)

function sift :: "('a \<Rightarrow> 'a \<Rightarrow> int) \<Rightarrow> nat \<Rightarrow> nat \<Rightarrow> 'a list \<Rightarrow> 'a list option" where
  "sift cmp n r a =
     (if r * 2 + 1 < n then
        do { c \<leftarrow> greater_child cmp n (r * 2 + 1) a;
             v \<leftarrow> cmp_at cmp a r c;
             if v > 0 then Some a else do { a \<leftarrow> swap_elems r c a; sift cmp n c a } }
      else Some a)"
  by pat_completeness auto
termination
  by (relation "measure (\<lambda>(cmp, n, r, a). n - r)") (auto dest!: greater_child_cases)

declare sift.simps [simp del]

text \<open>The loop that makes a heap, and the one that takes the greatest element to the end.\<close>

fun heap_build :: "('a \<Rightarrow> 'a \<Rightarrow> int) \<Rightarrow> nat \<Rightarrow> nat \<Rightarrow> 'a list \<Rightarrow> 'a list option" where
  "heap_build cmp n 0 a = Some a"
| "heap_build cmp n (Suc i) a = do { a \<leftarrow> sift cmp n i a; heap_build cmp n i a }"

fun heap_drain :: "('a \<Rightarrow> 'a \<Rightarrow> int) \<Rightarrow> nat \<Rightarrow> 'a list \<Rightarrow> 'a list option" where
  "heap_drain cmp 0 a = Some a"
| "heap_drain cmp (Suc i) a =
     do { a \<leftarrow> swap_elems 0 (Suc i) a; a \<leftarrow> sift cmp (Suc i) 0 a; heap_drain cmp i a }"

definition heapsortx :: "('a \<Rightarrow> 'a \<Rightarrow> int) \<Rightarrow> 'a list \<Rightarrow> 'a list option" where
  "heapsortx cmp a =
     (let n = length a in
      if n > 1 then do { a \<leftarrow> heap_build cmp n (n div 2) a; heap_drain cmp (n - 1) a } else Some a)"

subsection \<open>Heap sort sorts\<close>

definition par :: "nat \<Rightarrow> nat" where "par j = (j - 1) div 2"

lemma par_child: "0 < j \<Longrightarrow> par j = r \<longleftrightarrow> j = 2 * r + 1 \<or> j = 2 * r + 2"
  unfolding par_def by presburger

lemma par_less: "0 < j \<Longrightarrow> par j < j"
  unfolding par_def by presburger

lemma swap_elems_mset: "swap_elems i j a = Some b \<Longrightarrow> mset b = mset a \<and> length b = length a"
  by (auto simp: swap_elems_def mset_swap split: if_splits)

lemma mset_take:
  assumes "mset b = mset a" "\<forall>k \<ge> n. b ! k = a ! k"
  shows "mset (take n b) = mset (take n a) \<and> drop n b = drop n a"
proof -
  have "drop n b = drop n a" using assms(2) mset_eq_length [OF assms(1)] by (intro nth_equalityI) simp_all
  moreover have "mset (take n b) + mset (drop n b) = mset (take n a) + mset (drop n a)"
    using assms(1) by (metis append_take_drop_id mset_append)
  ultimately show ?thesis by simp
qed

lemma mset_set: "mset a = mset b \<Longrightarrow> set a = set b"
  by (rule mset_eq_setD)

context comparator
begin

text \<open>The edges of the heap below \<open>n\<close> whose upper end is at least \<open>i\<close>, except those from \<open>r\<close>.\<close>

definition edges :: "nat \<Rightarrow> nat \<Rightarrow> nat option \<Rightarrow> 'a list \<Rightarrow> bool" where
  "edges i n r a \<longleftrightarrow> (\<forall>j. 0 < j \<and> j < n \<and> i \<le> par j \<and> r \<noteq> Some (par j) \<longrightarrow> cmp (a ! j) (a ! par j) \<le> 0)"

definition above :: "nat \<Rightarrow> nat \<Rightarrow> nat \<Rightarrow> 'a list \<Rightarrow> bool" where
  "above i n r a \<longleftrightarrow> (\<forall>j. 0 < j \<and> j < n \<and> par j = r \<and> 0 < r \<and> i \<le> par r \<longrightarrow> cmp (a ! j) (a ! par r) \<le> 0)"

lemma greater_child_spec:
  assumes "2 * r + 1 < n" "n \<le> length a" "\<forall>x \<in> set a. valid x"
  shows "\<exists>c. greater_child cmp n (r * 2 + 1) a = Some c \<and> par c = r \<and> 0 < c \<and> c < n \<and>
    (\<forall>j. 0 < j \<and> j < n \<and> par j = r \<longrightarrow> cmp (a ! j) (a ! c) \<le> 0)"
proof -
  let ?l = "2 * r + 1" and ?r = "2 * r + 2"
  have v: "j < n \<Longrightarrow> valid (a ! j)" for j using assms(2,3) by simp
  have ch: "0 < j \<and> j < n \<and> par j = r \<longleftrightarrow> j = ?l \<or> j = ?r \<and> ?r < n" for j using par_child [of j r] assms(1) by auto
  have l: "cmp (a ! ?l) (a ! ?l) \<le> 0" using v [of ?l] assms(1) cmp_refl by blast
  show ?thesis
  proof (cases "?r < n")
    case False
    then have "\<not> r * 2 + 1 < n - 1" by simp
    then have "greater_child cmp n (r * 2 + 1) a = Some ?l" by (simp add: greater_child_def)
    moreover have "\<forall>j. 0 < j \<and> j < n \<and> par j = r \<longrightarrow> cmp (a ! j) (a ! ?l) \<le> 0" unfolding ch using l False by blast
    moreover have "0 < ?l \<and> ?l < n \<and> par ?l = r" unfolding ch by simp
    ultimately show ?thesis by (intro exI [of _ ?l]) (simp only: simp_thms)
  next
    case True
    have r: "cmp (a ! ?r) (a ! ?r) \<le> 0" using v [OF True] cmp_refl by blast
    have e: "r * 2 + 1 = ?l" "?l + 1 = ?r" "?l < n - 1" "?l < length a" "?r < length a" using True assms(2) by linarith+
    have g: "greater_child cmp n (r * 2 + 1) a = Some (if cmp (a ! ?l) (a ! ?r) \<le> 0 then ?r else ?l)"
      unfolding greater_child_def cmp_at_def e(1,2) if_P [OF e(3)] using e(4,5) by simp
    show ?thesis
    proof (cases "cmp (a ! ?l) (a ! ?r) \<le> 0")
      case le: True
      then have "\<forall>j. 0 < j \<and> j < n \<and> par j = r \<longrightarrow> cmp (a ! j) (a ! ?r) \<le> 0" unfolding ch using r by blast
      moreover have "0 < ?r \<and> ?r < n \<and> par ?r = r" unfolding ch using True by simp
      moreover have "greater_child cmp n (r * 2 + 1) a = Some ?r" using g le by (simp only: if_True)
      ultimately show ?thesis by (intro exI [of _ ?r]) (simp only: simp_thms)
    next
      case False
      then have "cmp (a ! ?r) (a ! ?l) \<le> 0" using cmp_gt v assms(1) True by blast
      then have "\<forall>j. 0 < j \<and> j < n \<and> par j = r \<longrightarrow> cmp (a ! j) (a ! ?l) \<le> 0" unfolding ch using l by blast
      moreover have "0 < ?l \<and> ?l < n \<and> par ?l = r" unfolding ch by simp
      moreover have "greater_child cmp n (r * 2 + 1) a = Some ?l" using g False by (simp only: if_False)
      ultimately show ?thesis by (intro exI [of _ ?l]) (simp only: simp_thms)
    qed
  qed
qed

lemma sift_step:
  assumes "edges i n (Some r) a" "above i n r a" "\<forall>x \<in> set a. valid x" "n \<le> length a" "0 < c" "c < n" "par c = r"
    and "\<forall>j. 0 < j \<and> j < n \<and> par j = r \<longrightarrow> cmp (a ! j) (a ! c) \<le> 0" and "cmp (a ! r) (a ! c) \<le> 0" "i \<le> r"
  defines "b \<equiv> a[r := a ! c, c := a ! r]"
  shows "edges i n (Some c) b \<and> above i n c b"
proof -
  have rc: "r < c" using par_less [OF assms(5)] assms(7) by simp
  have bc: "b ! c = a ! r" and br: "b ! r = a ! c" and bo: "k \<noteq> c \<Longrightarrow> k \<noteq> r \<Longrightarrow> b ! k = a ! k" for k
    using rc assms(4,6) by (simp_all add: b_def nth_list_update)
  have "cmp (b ! j) (b ! par j) \<le> 0" if j: "0 < j" "j < n" "i \<le> par j" "par j \<noteq> c" for j
  proof -
    consider "par j = r" "j = c" | "par j = r" "j \<noteq> c" | "par j \<noteq> r" "j = r" | "par j \<noteq> r" "j \<noteq> r" "j \<noteq> c" using assms(7) by blast
    then show ?thesis
    proof cases
      case 1 then show ?thesis using assms(9) bc br by simp
    next
      case 2 then have "j \<noteq> r" using par_less [OF j(1)] by simp
      with 2 show ?thesis using assms(8) j br bo by simp
    next
      case 3 then show ?thesis using assms(2,5,6,7) j br bo [of "par j"] par_less [OF j(1)] rc by (auto simp: above_def)
    next
      case 4 then show ?thesis using assms(1) j bo [of j] bo [of "par j"] by (auto simp: edges_def)
    qed
  qed
  then have "edges i n (Some c) b" by (simp add: edges_def)
  moreover have "cmp (b ! j) (b ! par c) \<le> 0" if j: "0 < j" "j < n" "par j = c" for j
  proof -
    have "j \<noteq> c" "j \<noteq> r" using par_less [OF j(1)] j(3) rc by auto
    then show ?thesis using assms(1,7,10) j rc br bo [of j] by (auto simp: edges_def)
  qed
  ultimately show ?thesis by (simp add: above_def)
qed

lemma sift_spec:
  assumes "edges i n (Some r) a" "above i n r a" "\<forall>x \<in> set a. valid x" "n \<le> length a" "i \<le> r"
  shows "\<exists>b. sift cmp n r a = Some b \<and> edges i n None b \<and> mset b = mset a \<and> (\<forall>k \<ge> n. b ! k = a ! k)"
  using assms
proof (induction "n - r" arbitrary: r a rule: less_induct)
  case less
  show ?case
  proof (cases "2 * r + 1 < n")
    case False
    then have "par j \<noteq> r" if "0 < j" "j < n" for j using that par_child [of j r] by auto
    with less(2) have "edges i n None a" by (auto simp: edges_def)
    with False show ?thesis by (subst sift.simps) (simp add: mult.commute)
  next
    case True
    obtain c where c: "greater_child cmp n (r * 2 + 1) a = Some c" "par c = r" "0 < c" "c < n"
      "\<forall>j. 0 < j \<and> j < n \<and> par j = r \<longrightarrow> cmp (a ! j) (a ! c) \<le> 0"
      using greater_child_spec [OF True less(5,4)] by blast
    have rc: "r < c" using par_less [OF c(3)] c(2) by simp
    have v: "valid (a ! r)" "valid (a ! c)" "\<And>j. j < n \<Longrightarrow> valid (a ! j)" using less(4,5) c(4) rc by simp_all
    have ca: "cmp_at cmp a r c = Some (cmp (a ! r) (a ! c))" using less(5) c(4) rc by (simp add: cmp_at_def)
    show ?thesis
    proof (cases "cmp (a ! r) (a ! c) > 0")
      case gt: True
      then have "cmp (a ! c) (a ! r) \<le> 0" using cmp_gt v by auto
      then have "cmp (a ! j) (a ! r) \<le> 0" if "0 < j" "j < n" "par j = r" for j
        using c(5) that cmp_trans [of "a ! j" "a ! c" "a ! r"] v by blast
      with less(2) have "edges i n None a" by (auto simp: edges_def)
      with True gt c(1) ca show ?thesis by (subst sift.simps) (simp add: mult.commute)
    next
      case False
      define b where "b = a[r := a ! c, c := a ! r]"
      have sw: "swap_elems r c a = Some b" using less(5) c(4) rc by (simp add: swap_elems_def b_def)
      have mb: "mset b = mset a" "length b = length a" using swap_elems_mset [OF sw] by simp_all
      have st: "edges i n (Some c) b" "above i n c b"
        using sift_step [OF less(2-5) c(3,4,2,5)] False less(6) by (simp_all add: b_def)
      have "n - c < n - r" using rc c(4) by simp
      from less(1) [OF this st] obtain d where
        d: "sift cmp n c b = Some d" "edges i n None d" "mset d = mset b" "\<forall>k \<ge> n. d ! k = b ! k"
        using less(4-6) mb mset_set [OF mb(1)] rc by auto
      have "\<forall>k \<ge> n. b ! k = a ! k" using c(4) rc by (simp add: b_def)
      moreover have "sift cmp n r a = Some d" using True False c(1) ca sw d(1) by (subst sift.simps) (simp add: mult.commute)
      ultimately show ?thesis using d mb by simp
    qed
  qed
qed

lemma heap_build_spec:
  assumes "edges i n None a" "\<forall>x \<in> set a. valid x" "n \<le> length a"
  shows "\<exists>b. heap_build cmp n i a = Some b \<and> edges 0 n None b \<and> mset b = mset a"
  using assms
proof (induction i arbitrary: a)
  case (Suc i)
  have "edges i n (Some i) a" "above i n i a"
    using Suc(2) par_less [of i] by (auto simp: edges_def above_def le_less Suc_le_eq)
  from sift_spec [OF this Suc(3,4)] obtain b where b: "sift cmp n i a = Some b" "edges i n None b" "mset b = mset a" by blast
  have "length b = length a" using mset_eq_length [OF b(3)] .
  with Suc(1) [OF b(2)] Suc(3,4) mset_set [OF b(3)] b show ?case by simp
qed simp

lemma root_greatest:
  assumes "edges 0 n None a" "\<forall>x \<in> set a. valid x" "n \<le> length a" "j < n"
  shows "cmp (a ! j) (a ! 0) \<le> 0"
  using assms(4)
proof (induction j rule: less_induct)
  case (less j)
  have v: "\<And>k. k < n \<Longrightarrow> valid (a ! k)" using assms(2,3) by simp
  show ?case
  proof (cases "j = 0")
    case True
    then show ?thesis using v less(2) cmp_refl by simp
  next
    case False
    then have p: "par j < j" using par_less by simp
    have "cmp (a ! j) (a ! par j) \<le> 0" using assms(1) False less(2) by (simp add: edges_def)
    then show ?thesis using less(1) [OF p] p less(2) v cmp_trans [of "a ! j" "a ! par j" "a ! 0"] by simp
  qed
qed

abbreviation ordered :: "'a list \<Rightarrow> bool" where
  "ordered \<equiv> sorted_wrt (\<lambda>x y. cmp x y \<le> 0)"

definition below :: "'a list \<Rightarrow> 'a list \<Rightarrow> bool" where
  "below xs ys \<longleftrightarrow> (\<forall>x \<in> set xs. \<forall>y \<in> set ys. cmp x y \<le> 0)"

lemma heap_drain_spec:
  assumes "edges 0 (Suc i) None a" "\<forall>x \<in> set a. valid x" "Suc i \<le> length a"
    and "ordered (drop (Suc i) a)" "below (take (Suc i) a) (drop (Suc i) a)"
  shows "\<exists>b. heap_drain cmp i a = Some b \<and> ordered b \<and> mset b = mset a"
  using assms
proof (induction i arbitrary: a)
  case 0
  then obtain x xs where "a = x # xs" by (cases a) auto
  with 0 show ?case by (auto simp: below_def)
next
  case (Suc i)
  define b where "b = a[0 := a ! Suc i, Suc i := a ! 0]"
  have sw: "swap_elems 0 (Suc i) a = Some b" using Suc(4) by (auto simp: swap_elems_def b_def)
  have mb: "mset b = mset a" "length b = length a" using swap_elems_mset [OF sw] by simp_all
  have "b ! j = a ! j" if "j \<noteq> 0" "j \<noteq> Suc i" for j using that by (simp add: b_def)
  then have e: "edges 0 (Suc i) (Some 0) b" using Suc(2) par_less unfolding edges_def
    by (metis (no_types, lifting) One_nat_def less_SucI less_irrefl option.distinct(1) order.strict_trans)
  have ab: "above 0 (Suc i) 0 b" by (simp add: above_def)
  have vb: "\<forall>x \<in> set b. valid x" using Suc(3) mset_set [OF mb(1)] by simp
  obtain d where d: "sift cmp (Suc i) 0 b = Some d" "edges 0 (Suc i) None d" "mset d = mset b" "\<forall>k \<ge> Suc i. d ! k = b ! k"
    using sift_spec [OF e ab vb] Suc(4) mb(2) by auto
  note tk = mset_take [OF d(3,4)]
  have db: "drop (Suc i) b = a ! 0 # drop (Suc (Suc i)) a"
    using Suc(4) by (simp add: b_def Cons_nth_drop_Suc [symmetric])
  have tb: "set (take (Suc i) b) \<subseteq> set (take (Suc (Suc i)) a)"
  proof
    fix x assume "x \<in> set (take (Suc i) b)"
    then obtain k where k: "k < Suc i" "x = b ! k" using Suc(4) mb by (auto simp: in_set_conv_nth)
    then have "x = a ! (if k = 0 then Suc i else k)" using Suc(4) by (cases a) (simp_all add: b_def nth_list_update)
    then show "x \<in> set (take (Suc (Suc i)) a)" using k(1) Suc(4) nth_mem [of "if k = 0 then Suc i else k" "take (Suc (Suc i)) a"] by (auto split: if_splits)
  qed
  have g: "cmp x (a ! 0) \<le> 0" if "x \<in> set (take (Suc (Suc i)) a)" for x
    using that root_greatest [OF Suc(2,3)] Suc(4) by (auto simp: in_set_conv_nth)
  have a0: "a ! 0 \<in> set (take (Suc (Suc i)) a)" using Suc(4) by (cases a) simp_all
  have "ordered (drop (Suc i) d)" using tk db Suc(5,6) a0 by (simp add: below_def)
  moreover have "below (take (Suc i) d) (drop (Suc i) d)"
    using tk db tb g Suc(6) mset_set [of "take (Suc i) d" "take (Suc i) b"] by (auto simp: below_def)
  moreover have "\<forall>x \<in> set d. valid x" using vb mset_set [OF d(3)] by simp
  moreover have "Suc i \<le> length d" using Suc(4) mb mset_eq_length [OF d(3)] by simp
  ultimately obtain f where "heap_drain cmp i d = Some f" "ordered f" "mset f = mset d" using Suc(1) [OF d(2)] by blast
  then show ?case using sw d mb by simp
qed

lemma heapsortx_sorts:
  assumes "\<forall>x \<in> set a. valid x"
  shows "\<exists>b. heapsortx cmp a = Some b \<and> ordered b \<and> mset b = mset a"
proof (cases "length a > 1")
  case False
  then have "ordered a" by (cases a) simp_all
  with False show ?thesis by (simp add: heapsortx_def)
next
  case True
  have "\<not> length a div 2 \<le> par j" if "0 < j" "j < length a" for j using that unfolding par_def by presburger
  then have "edges (length a div 2) (length a) None a" by (auto simp: edges_def)
  from heap_build_spec [OF this assms] obtain b where
    b: "heap_build cmp (length a) (length a div 2) a = Some b" "edges 0 (length a) None b" "mset b = mset a" by auto
  have l: "length b = length a" using mset_eq_length [OF b(3)] .
  have "Suc (length a - 1) = length a" using True by simp
  then have "\<exists>d. heap_drain cmp (length a - 1) b = Some d \<and> ordered d \<and> mset d = mset b"
    using b(2) l assms mset_set [OF b(3)] by (intro heap_drain_spec) (simp_all add: below_def)
  with b True show ?thesis by (auto simp: heapsortx_def Let_def)
qed

end

subsection \<open>Partition\<close>

definition med3 :: "('a \<Rightarrow> 'a \<Rightarrow> int) \<Rightarrow> 'a list \<Rightarrow> nat \<Rightarrow> nat \<Rightarrow> nat \<Rightarrow> nat option" where
  "med3 cmp s a b c =
     do { ab \<leftarrow> cmp_at cmp s a b;
          bc \<leftarrow> cmp_at cmp s b c;
          if ab < 0 then
            if bc < 0 then Some b else do { ac \<leftarrow> cmp_at cmp s a c; Some (if ac < 0 then c else a) }
          else
            if bc > 0 then Some b else do { ac \<leftarrow> cmp_at cmp s a c; Some (if ac < 0 then a else c) } }"

text \<open>The first inner loop: \<open>i\<close> moves up over the elements that are not greater than the pivot.\<close>

function scan_up :: "('a \<Rightarrow> 'a \<Rightarrow> int) \<Rightarrow> nat \<Rightarrow> nat \<Rightarrow> nat \<Rightarrow> 'a list \<Rightarrow> (nat \<times> nat \<times> 'a list) option" where
  "scan_up cmp pj i lt s =
     (if i < pj then
        do { c \<leftarrow> cmp_at cmp s 0 i;
             if c \<ge> 0 then
               if c = 0 then do { s \<leftarrow> swap_elems lt i s; scan_up cmp pj (i + 1) (lt + 1) s }
               else scan_up cmp pj (i + 1) lt s
             else Some (i, lt, s) }
      else Some (i, lt, s))"
  by pat_completeness auto
termination
  by (relation "measure (\<lambda>(cmp, pj, i, lt, s). pj - i)") auto

text \<open>The second one: \<open>pj\<close> moves down over the elements that are not smaller.\<close>

function scan_down :: "('a \<Rightarrow> 'a \<Rightarrow> int) \<Rightarrow> nat \<Rightarrow> nat \<Rightarrow> nat \<Rightarrow> 'a list \<Rightarrow> (nat \<times> nat \<times> 'a list) option" where
  "scan_down cmp i pj gt s =
     (if i < pj - 1 then
        do { c \<leftarrow> cmp_at cmp s 0 (pj - 1);
             if c \<le> 0 then
               if c = 0 then do { s \<leftarrow> swap_elems (gt - 1) (pj - 1) s; scan_down cmp i (pj - 1) (gt - 1) s }
               else scan_down cmp i (pj - 1) gt s
             else Some (pj - 1, gt, s) }
      else Some (pj - 1, gt, s))"
  by pat_completeness auto
termination
  by (relation "measure (\<lambda>(cmp, i, pj, gt, s). pj)") auto

declare scan_up.simps [simp del] scan_down.simps [simp del]

lemma scan_up_ge: "scan_up cmp pj i lt s = Some (i', lt', s') \<Longrightarrow> i \<le> i'"
proof (induction "pj - i" arbitrary: i lt s)
  case 0
  then show ?case using scan_up.simps [of cmp pj i lt s] by simp
next
  case (Suc k)
  have "k = pj - Suc i" using Suc(2) by simp
  note IH = Suc(1) [OF this]
  from Suc(3) show ?case by (subst (asm) scan_up.simps) (auto split: if_splits bind_splits dest!: IH)
qed

lemma scan_down_le: "scan_down cmp i pj gt s = Some (pj', gt', s') \<Longrightarrow> pj' \<le> pj - 1"
proof (induction pj arbitrary: gt s rule: less_induct)
  case (less pj)
  have IH: "scan_down cmp i (pj - Suc 0) gt s = Some (pj', gt', s') \<Longrightarrow> i < pj - Suc 0 \<Longrightarrow> pj' \<le> pj - Suc 0" for gt s
    using less(1) [of "pj - Suc 0" gt s] by simp
  from less(2) show ?case by (subst (asm) scan_down.simps) (auto split: if_splits bind_splits dest!: IH)
qed

function part_loop :: "('a \<Rightarrow> 'a \<Rightarrow> int) \<Rightarrow> nat \<Rightarrow> nat \<Rightarrow> nat \<Rightarrow> nat \<Rightarrow> 'a list \<Rightarrow> (nat \<times> nat \<times> nat \<times> 'a list) option" where
  "part_loop cmp i lt pj gt s =
     do { (i, lt, s) \<leftarrow> scan_up cmp pj i lt s;
          (pj, gt, s) \<leftarrow> scan_down cmp i pj gt s;
          if i \<ge> pj then Some (i, lt, gt, s)
          else do { s \<leftarrow> swap_elems i pj s; part_loop cmp (i + 1) lt pj gt s } }"
  by pat_completeness auto
termination
  by (relation "measure (\<lambda>(cmp, i, lt, pj, gt, s). pj - i)") (auto dest!: scan_up_ge scan_down_le)

declare part_loop.simps [simp del]

text \<open>The exchange of two blocks of \<open>k\<close> elements.\<close>

fun swap_block :: "nat \<Rightarrow> nat \<Rightarrow> nat \<Rightarrow> 'a list \<Rightarrow> 'a list option" where
  "swap_block i j 0 s = Some s"
| "swap_block i j (Suc k) s = do { s \<leftarrow> swap_elems i j s; swap_block (i + 1) (j + 1) k s }"

text \<open>
  One round of the quicksort: the elements smaller than the pivot are in front of the first
  returned index, the greater ones start at the second.
\<close>

definition partition3 :: "('a \<Rightarrow> 'a \<Rightarrow> int) \<Rightarrow> 'a list \<Rightarrow> (nat \<times> nat \<times> 'a list) option" where
  "partition3 cmp s =
     (let n = length s; m4 = n div 4 in
      do { m \<leftarrow> med3 cmp s m4 (2 * m4) (3 * m4);
           s \<leftarrow> swap_elems 0 m s;
           (i, lt, gt, s) \<leftarrow> part_loop cmp 1 1 n n s;
           let span = min lt (i - lt);
           s \<leftarrow> swap_block 0 (i - span) span s;
           let span = min (n - gt) (gt - i);
           s \<leftarrow> swap_block i (n - span) span s;
           Some (i - lt, n - (gt - i), s) })"

subsection \<open>Insertion sort\<close>

fun insert_down :: "('a \<Rightarrow> 'a \<Rightarrow> int) \<Rightarrow> nat \<Rightarrow> 'a list \<Rightarrow> 'a list option" where
  "insert_down cmp 0 s = Some s"
| "insert_down cmp (Suc j) s =
     do { c \<leftarrow> cmp_at cmp s j (Suc j);
          if c > 0 then do { s \<leftarrow> swap_elems (Suc j) j s; insert_down cmp j s } else Some s }"

text \<open>The outer loop, over the \<open>k\<close> elements from \<open>pi\<close> on.\<close>

fun insert_all :: "('a \<Rightarrow> 'a \<Rightarrow> int) \<Rightarrow> nat \<Rightarrow> nat \<Rightarrow> 'a list \<Rightarrow> 'a list option" where
  "insert_all cmp 0 pi s = Some s"
| "insert_all cmp (Suc k) pi s = do { s \<leftarrow> insert_down cmp pi s; insert_all cmp k (pi + 1) s }"

definition insertion_sort :: "('a \<Rightarrow> 'a \<Rightarrow> int) \<Rightarrow> 'a list \<Rightarrow> 'a list option" where
  "insertion_sort cmp s = insert_all cmp (length s - 1) 1 s"

subsection \<open>Quicksort\<close>

text \<open>A routine that gets a pointer to \<open>n\<close> elements of the array works on that segment.\<close>

definition segment :: "nat \<Rightarrow> nat \<Rightarrow> 'a list \<Rightarrow> 'a list" where
  "segment b n a = take n (drop b a)"

definition put_segment :: "nat \<Rightarrow> 'a list \<Rightarrow> 'a list \<Rightarrow> 'a list" where
  "put_segment b s a = take b a @ s @ drop (b + length s) a"

definition RQ_STACK :: nat where "RQ_STACK = 50"

record frame =
  base :: nat
  count :: nat
  depth :: nat

definition push_frame :: "frame \<Rightarrow> frame list \<Rightarrow> frame list option" where
  "push_frame f st = (if length st < RQ_STACK then Some (f # st) else None)"

text \<open>
  Both loops in one: the segment in work is \<open>f\<close>, the other ones are on the stack.
\<close>

partial_function (option) rq_loop :: "('a \<Rightarrow> 'a \<Rightarrow> int) \<Rightarrow> frame \<Rightarrow> frame list \<Rightarrow> 'a list \<Rightarrow> 'a list option" where
  "rq_loop cmp f st a =
     (let b = base f; n = count f; d = depth f + 1; s = segment b n a in
      if n > 6 \<and> d \<le> 50 then
        do { (lt, gt, s) \<leftarrow> partition3 cmp s;
             let a = put_segment b s a;
             let lo = \<lparr>base = b, count = lt, depth = d\<rparr>;
             let hi = \<lparr>base = b + gt, count = n - gt, depth = d\<rparr>;
             if lt > n - gt then do { st \<leftarrow> push_frame lo st; rq_loop cmp hi st a }
             else do { st \<leftarrow> push_frame hi st; rq_loop cmp lo st a } }
      else
        do { s \<leftarrow> (if n > 6 then heapsortx cmp s else insertion_sort cmp s);
             let a = put_segment b s a;
             case st of [] \<Rightarrow> Some a | f # st \<Rightarrow> rq_loop cmp f st a })"

definition rqsort :: "('a \<Rightarrow> 'a \<Rightarrow> int) \<Rightarrow> 'a list \<Rightarrow> 'a list option" where
  "rqsort cmp a =
     (if length a < 2 then Some a else rq_loop cmp \<lparr>base = 0, count = length a, depth = 0\<rparr> [] a)"

subsection \<open>The partition is one\<close>

lemma swap_block_blocks:
  assumes "length B = k" "length D = k"
  shows "swap_block (length A) (length A + k + length C) k (A @ B @ C @ D @ E) = Some (A @ D @ C @ B @ E)"
  using assms
proof (induction k arbitrary: A B C D)
  case (Suc k)
  then obtain b B' d D' where b: "B = b # B'" "D = d # D'" by (metis length_Suc_conv)
  have "swap_elems (length A) (length A + Suc k + length C) (A @ B @ C @ D @ E) = Some ((A @ [d]) @ B' @ (C @ [b]) @ D' @ E)"
    using Suc(2,3) by (simp add: b swap_elems_def nth_append list_update_append)
  with Suc(1) [of B' D' "A @ [d]" "C @ [b]"] Suc(2,3) show ?case by (simp add: b)
qed simp

lemma swap_block_ends:
  "\<exists>xs' ys'. swap_block (length A) (length A + length xs + length ys - min (length xs) (length ys)) (min (length xs) (length ys)) (A @ xs @ ys @ E) =
     Some (A @ ys' @ xs' @ E) \<and> mset xs' = mset xs \<and> mset ys' = mset ys"
proof (cases "length xs \<le> length ys")
  case True
  define Y1 Y2 where "Y1 = take (length ys - length xs) ys" and "Y2 = drop (length ys - length xs) ys"
  have y: "ys = Y1 @ Y2" "length Y2 = length xs" "length Y1 = length ys - length xs" using True by (simp_all add: Y1_def Y2_def)
  have i: "length A + length xs + length ys - length xs = length A + length xs + length Y1" using y(3) True by simp
  show ?thesis unfolding min_absorb1 [OF True] i
    by (rule exI [of _ xs], rule exI [of _ "Y2 @ Y1"]) (use swap_block_blocks [OF refl y(2), of A Y1 E] y(1) in simp)
next
  case False
  define X1 X2 where "X1 = take (length ys) xs" and "X2 = drop (length ys) xs"
  have x: "xs = X1 @ X2" "length X1 = length ys" "length X2 = length xs - length ys" using False by (simp_all add: X1_def X2_def)
  have i: "length A + length xs + length ys - length ys = length A + length ys + length X2" using x(3) False by simp
  have m: "min (length xs) (length ys) = length ys" using False by simp
  show ?thesis unfolding m i
    by (rule exI [of _ "X2 @ X1"], rule exI [of _ ys]) (use swap_block_blocks [OF x(2) refl, of A X2 E] x(1) in simp)
qed

text \<open>\<open>rqsort\<close> relies on the sign of the comparison changing with the order of the arguments.\<close>

locale sign_comparator = comparator +
  assumes cmp_sign: "valid a \<Longrightarrow> valid b \<Longrightarrow> cmp a b < 0 \<longleftrightarrow> 0 < cmp b a"
begin

lemma cmp_self: "valid a \<Longrightarrow> cmp a a = 0"
  using cmp_sign [of a a] by linarith

lemma cmp_ge: "valid a \<Longrightarrow> valid b \<Longrightarrow> 0 \<le> cmp a b \<longleftrightarrow> cmp b a \<le> 0"
  using cmp_sign [of a b] by linarith

text \<open>The four parts of the array: equal to the pivot, smaller, (unknown,) greater, equal.\<close>

definition parts :: "'a \<Rightarrow> nat \<Rightarrow> nat \<Rightarrow> nat \<Rightarrow> nat \<Rightarrow> 'a list \<Rightarrow> bool" where
  "parts p lt i pj gt s \<longleftrightarrow> 0 < lt \<and> lt \<le> i \<and> i \<le> pj \<and> pj \<le> gt \<and> gt \<le> length s \<and> s ! 0 = p \<and>
     (\<forall>k < lt. cmp p (s ! k) = 0) \<and> (\<forall>k. lt \<le> k \<and> k < i \<longrightarrow> cmp p (s ! k) > 0) \<and>
     (\<forall>k. pj \<le> k \<and> k < gt \<longrightarrow> cmp p (s ! k) < 0) \<and> (\<forall>k. gt \<le> k \<and> k < length s \<longrightarrow> cmp p (s ! k) = 0)"

lemma partsD:
  assumes "parts p lt i pj gt s"
  shows "0 < lt" "lt \<le> i" "i \<le> pj" "pj \<le> gt" "gt \<le> length s" "s ! 0 = p"
    "k < lt \<Longrightarrow> cmp p (s ! k) = 0" "lt \<le> k \<Longrightarrow> k < i \<Longrightarrow> cmp p (s ! k) > 0"
    "pj \<le> k \<Longrightarrow> k < gt \<Longrightarrow> cmp p (s ! k) < 0" "gt \<le> k \<Longrightarrow> k < length s \<Longrightarrow> cmp p (s ! k) = 0"
  using assms unfolding parts_def by blast+

lemma parts_up:
  assumes "parts p lt i pj gt s" "i < pj" "cmp p (s ! i) = 0"
  shows "parts p (Suc lt) (Suc i) pj gt (s[lt := s ! i, i := s ! lt])"
proof -
  note P = partsD [OF assms(1)]
  have n: "s[lt := s ! i, i := s ! lt] ! k = (if k = i then s ! lt else if k = lt then s ! i else s ! k)" for k
    using P(2-5) assms(2) by (simp add: nth_list_update)
  have "cmp p (s ! k) = 0" if "k < Suc lt" "k \<noteq> lt" for k using that P(7) [of k] by simp
  moreover have "cmp p (s ! lt) = 0" if "lt = i" using that assms(3) by simp
  moreover have "0 < cmp p (s ! k)" if "Suc lt \<le> k" "k < Suc i" "k \<noteq> i" for k using that P(8) [of k] by simp
  moreover have "0 < cmp p (s ! lt)" if "lt < i" using that P(8) [of lt] by simp
  ultimately show ?thesis unfolding parts_def n length_list_update using P assms(2,3) by auto
qed

lemma parts_up2:
  assumes "parts p lt i pj gt s" "i < pj" "cmp p (s ! i) > 0"
  shows "parts p lt (Suc i) pj gt s"
  using assms unfolding parts_def less_Suc_eq by auto

lemma parts_down:
  assumes "parts p lt i (Suc j) (Suc g) s" "i < j" "cmp p (s ! j) = 0"
  shows "parts p lt i j g (s[g := s ! j, j := s ! g])"
proof -
  note P = partsD [OF assms(1)]
  have n: "s[g := s ! j, j := s ! g] ! k = (if k = j then s ! g else if k = g then s ! j else s ! k)" for k
    using P(2-5) assms(2) by (simp add: nth_list_update)
  have "cmp p (s ! k) = 0" if "g \<le> k" "k < length s" "k \<noteq> g" for k using that P(10) [of k] by simp
  moreover have "cmp p (s ! k) < 0" if "j \<le> k" "k < g" "k \<noteq> j" for k using that P(9) [of k] by simp
  moreover have "cmp p (s ! g) < 0" if "j < g" using that P(9) [of g] by simp
  ultimately show ?thesis unfolding parts_def n length_list_update using P assms(2,3) by auto
qed

lemma parts_down2:
  assumes "parts p lt i (Suc j) gt s" "i \<le> j" "cmp p (s ! j) < 0"
  shows "parts p lt i j gt s"
proof -
  note P = partsD [OF assms(1)]
  have "cmp p (s ! k) < 0" if "j \<le> k" "k < gt" for k using that P(9) [of k] assms(3) by (cases "k = j") simp_all
  with P assms(2) show ?thesis unfolding parts_def by simp
qed

lemma parts_swap:
  assumes "parts p lt i (Suc j) gt s" "i < j" "cmp p (s ! j) > 0" "cmp p (s ! i) < 0"
  shows "parts p lt (Suc i) j gt (s[i := s ! j, j := s ! i])"
proof -
  note P = partsD [OF assms(1)]
  have n: "s[i := s ! j, j := s ! i] ! k = (if k = j then s ! i else if k = i then s ! j else s ! k)" for k
    using P(2-5) assms(2) by (simp add: nth_list_update)
  have "cmp p (s ! k) < 0" if "j \<le> k" "k < gt" "k \<noteq> j" for k using that P(9) [of k] by simp
  moreover have "cmp p (s ! k) > 0" if "lt \<le> k" "k < Suc i" "k \<noteq> i" for k using that P(8) [of k] by simp
  ultimately show ?thesis unfolding parts_def n length_list_update using P assms(2-4) by auto
qed

lemma scan_up_spec:
  assumes "parts p lt i pj gt s"
  shows "\<exists>i' lt' s'. scan_up cmp pj i lt s = Some (i', lt', s') \<and> parts p lt' i' pj gt s' \<and> mset s' = mset s \<and>
    (i' < pj \<longrightarrow> cmp p (s' ! i') < 0)"
  using assms
proof (induction "pj - i" arbitrary: i lt s)
  case 0
  then show ?case by (subst scan_up.simps) simp
next
  case (Suc k)
  then have k: "k = pj - Suc i" "i < pj" by simp_all
  note P = partsD [OF Suc(3)]
  have ca: "cmp_at cmp s 0 i = Some (cmp p (s ! i))" using P(1-6) k(2) by (auto simp: cmp_at_def)
  consider "cmp p (s ! i) = 0" | "cmp p (s ! i) > 0" | "cmp p (s ! i) < 0" by linarith
  then show ?case
  proof cases
    case 1
    define t where "t = s[lt := s ! i, i := s ! lt]"
    have sw: "swap_elems lt i s = Some t" using P(2-5) k(2) by (simp add: swap_elems_def t_def)
    from Suc(1) [OF k(1) parts_up [OF Suc(3) k(2) 1], folded t_def] swap_elems_mset [OF sw]
    show ?thesis using ca sw 1 k(2) by (subst scan_up.simps) simp
  next
    case 2
    from Suc(1) [OF k(1) parts_up2 [OF Suc(3) k(2) 2]]
    show ?thesis using ca 2 k(2) by (subst scan_up.simps) simp
  next
    case 3
    then show ?thesis using ca k(2) Suc(3) by (subst scan_up.simps) simp
  qed
qed

lemma scan_down_spec:
  assumes "parts p lt i pj gt s" "i < pj \<longrightarrow> cmp p (s ! i) < 0"
  shows "\<exists>pj' gt' s'. scan_down cmp i pj gt s = Some (pj', gt', s') \<and> mset s' = mset s \<and>
    (if pj' \<le> i then parts p lt i i gt' s'
     else parts p lt i (Suc pj') gt' s' \<and> cmp p (s' ! pj') > 0 \<and> cmp p (s' ! i) < 0)"
  using assms
proof (induction pj arbitrary: gt s)
  case 0
  then show ?case by (subst scan_down.simps) (auto simp: parts_def)
next
  case (Suc j)
  note P = partsD [OF Suc(2)]
  show ?case
  proof (cases "i < j")
    case False
    then have "i = j \<or> i = Suc j" using P(3) by auto
    then have "parts p lt i i gt s"
    proof
      assume "i = j"
      then show ?thesis using parts_down2 [OF Suc(2)] Suc(3) by simp
    qed (use Suc(2) in simp)
    with False show ?thesis by (subst scan_down.simps) simp
  next
    case True
    have ca: "cmp_at cmp s 0 j = Some (cmp p (s ! j))" using P(1-6) True by (auto simp: cmp_at_def)
    have ig: "cmp p (s ! i) < 0" using Suc(3) True by simp
    consider "cmp p (s ! j) = 0" | "cmp p (s ! j) > 0" | "cmp p (s ! j) < 0" by linarith
    then show ?thesis
    proof cases
      case 1
      obtain g where g: "gt = Suc g" using P(4) by (cases gt) simp_all
      define t where "t = s[g := s ! j, j := s ! g]"
      have sw: "swap_elems g j s = Some t" using P(2-5) True g by (simp add: swap_elems_def t_def)
      have "cmp p (t ! i) < 0" using ig True P(3,4) g by (simp add: t_def)
      with Suc(1) [OF parts_down [OF Suc(2) [unfolded g] True 1], folded t_def] swap_elems_mset [OF sw]
      show ?thesis using ca sw 1 True g by (subst scan_down.simps) simp
    next
      case 2
      then show ?thesis using ca True Suc(2) ig by (subst scan_down.simps) simp
    next
      case 3
      from Suc(1) [OF parts_down2 [OF Suc(2) less_imp_le [OF True] 3]] ig
      show ?thesis using ca True 3 by (subst scan_down.simps) simp
    qed
  qed
qed

lemma part_loop_spec:
  assumes "parts p lt i pj gt s"
  shows "\<exists>i' lt' gt' s'. part_loop cmp i lt pj gt s = Some (i', lt', gt', s') \<and> mset s' = mset s \<and> parts p lt' i' i' gt' s'"
  using assms
proof (induction "pj - i" arbitrary: i lt pj gt s rule: less_induct)
  case less
  obtain i1 lt1 s1 where u: "scan_up cmp pj i lt s = Some (i1, lt1, s1)" "parts p lt1 i1 pj gt s1" "mset s1 = mset s"
    "i1 < pj \<longrightarrow> cmp p (s1 ! i1) < 0" using scan_up_spec [OF less(2)] by blast
  obtain pj1 gt1 s2 where d: "scan_down cmp i1 pj gt s1 = Some (pj1, gt1, s2)" "mset s2 = mset s1"
    "if pj1 \<le> i1 then parts p lt1 i1 i1 gt1 s2
     else parts p lt1 i1 (Suc pj1) gt1 s2 \<and> cmp p (s2 ! pj1) > 0 \<and> cmp p (s2 ! i1) < 0"
    using scan_down_spec [OF u(2,4)] by blast
  show ?case
  proof (cases "pj1 \<le> i1")
    case True
    with u d show ?thesis by (subst part_loop.simps) simp
  next
    case False
    then have g: "parts p lt1 i1 (Suc pj1) gt1 s2" "cmp p (s2 ! pj1) > 0" "cmp p (s2 ! i1) < 0" "i1 < pj1" using d(3) by simp_all
    define t where "t = s2[i1 := s2 ! pj1, pj1 := s2 ! i1]"
    have sw: "swap_elems i1 pj1 s2 = Some t" using partsD(3-5) [OF g(1)] g(4) by (simp add: swap_elems_def t_def)
    have "i \<le> i1" "pj1 \<le> pj - 1" using scan_up_ge [OF u(1)] scan_down_le [OF d(1)] by simp_all
    then have "pj1 - Suc i1 < pj - i" using g(4) by simp
    from less(1) [OF this parts_swap [OF g(1,4,2,3), folded t_def]] swap_elems_mset [OF sw]
    show ?thesis using u d False sw by (subst part_loop.simps) simp
  qed
qed

lemma med3_range:
  assumes "a < length s" "b < length s" "c < length s"
  shows "\<exists>m. med3 cmp s a b c = Some m \<and> m < length s"
  using assms by (simp add: med3_def cmp_at_def)

lemma parts_lists:
  assumes "parts p lt i i gt s"
  obtains E1 L G E2 where "s = E1 @ L @ G @ E2" "length E1 = lt" "length L = i - lt" "length G = gt - i" "length E2 = length s - gt"
    "\<forall>x \<in> set E1 \<union> set E2. cmp p x = 0" "\<forall>x \<in> set L. cmp p x > 0" "\<forall>x \<in> set G. cmp p x < 0"
proof -
  note P = partsD [OF assms]
  define E1 L G E2 where d: "E1 = take lt s" "L = take (i - lt) (drop lt s)" "G = take (gt - i) (drop i s)" "E2 = drop gt s"
  have "L @ G @ E2 = drop lt s"
    using P(2-5) by (simp add: d) (metis (no_types, opaque_lifting) append_take_drop_id drop_drop le_add_diff_inverse2)
  then have "s = E1 @ L @ G @ E2" by (simp add: d(1))
  moreover have "\<forall>x \<in> set E1 \<union> set E2. cmp p x = 0" "\<forall>x \<in> set L. cmp p x > 0" "\<forall>x \<in> set G. cmp p x < 0"
    using P by (auto simp: d in_set_conv_nth)
  moreover have "length E1 = lt" "length L = i - lt" "length G = gt - i" "length E2 = length s - gt" using P(2-5) by (simp_all add: d)
  ultimately show thesis using that by blast
qed

lemma partition3_spec:
  assumes "6 < length s" "\<forall>x \<in> set s. valid x"
  shows "\<exists>p L M G. partition3 cmp s = Some (length L, length L + length M, L @ M @ G) \<and> mset (L @ M @ G) = mset s \<and> M \<noteq> [] \<and> valid p \<and>
    (\<forall>x \<in> set L. cmp p x > 0) \<and> (\<forall>x \<in> set M. cmp p x = 0) \<and> (\<forall>x \<in> set G. cmp p x < 0)"
proof -
  define n where "n = length s"
  have "4 * (n div 4) \<le> n" "6 < n" using assms(1) by (simp_all add: n_def)
  then have "n div 4 < length s" "2 * (n div 4) < length s" "3 * (n div 4) < length s" unfolding n_def [symmetric] by linarith+
  then obtain m where m: "med3 cmp s (n div 4) (2 * (n div 4)) (3 * (n div 4)) = Some m" "m < n"
    using med3_range [of "n div 4" s "2 * (n div 4)" "3 * (n div 4)"] n_def by blast
  define s0 where "s0 = s[0 := s ! m, m := s ! 0]"
  have sw: "swap_elems 0 m s = Some s0" using m(2) by (auto simp: swap_elems_def s0_def n_def)
  have m0: "mset s0 = mset s" "length s0 = n" using swap_elems_mset [OF sw] by (simp_all add: n_def)
  define p where "p = s0 ! 0"
  have v: "valid p" using assms mset_set [OF m0(1)] m0(2) unfolding p_def n_def by (metis gr_implies_not0 gr_zeroI nth_mem)
  have "parts p 1 1 n n s0" using m0(2) assms(1) cmp_self [OF v] by (simp add: parts_def p_def n_def)
  from part_loop_spec [OF this] obtain i lt gt t where
    t: "part_loop cmp 1 1 n n s0 = Some (i, lt, gt, t)" "mset t = mset s0" "parts p lt i i gt t" by blast
  have lt: "length t = n" using mset_eq_length [OF t(2)] m0 by simp
  obtain E1 L G E2 where l: "t = E1 @ L @ G @ E2" "length E1 = lt" "length L = i - lt" "length G = gt - i" "length E2 = n - gt"
    "\<forall>x \<in> set E1 \<union> set E2. cmp p x = 0" "\<forall>x \<in> set L. cmp p x > 0" "\<forall>x \<in> set G. cmp p x < 0"
    using parts_lists [OF t(3)] lt by metis
  note P = partsD [OF t(3)]
  obtain E1' L' where b1: "swap_block 0 (i - min lt (i - lt)) (min lt (i - lt)) t = Some (L' @ E1' @ G @ E2)" "mset E1' = mset E1" "mset L' = mset L"
    using swap_block_ends [of "[]" E1 L "G @ E2"] l P(2) by auto
  have i: "length L' + length E1' = i" "length (L' @ E1') = i"
    using mset_eq_length [OF b1(2)] mset_eq_length [OF b1(3)] l(2,3) P(2) by simp_all
  have mc: "min (n - gt) (gt - i) = min (gt - i) (n - gt)" "i + (gt - i) + (n - gt) = n" using P(3-5) lt by simp_all
  obtain G' E2' where b2: "swap_block i (n - min (n - gt) (gt - i)) (min (n - gt) (gt - i)) (L' @ E1' @ G @ E2) = Some (L' @ E1' @ E2' @ G')"
    "mset G' = mset G" "mset E2' = mset E2"
    using swap_block_ends [of "L' @ E1'" G E2 "[]"] l(4,5) i mc by auto
  have le: "length L' = i - lt" "length E1' + length E2' = lt + (n - gt)" "E1' \<noteq> []"
    using mset_eq_length [OF b1(3)] mset_eq_length [OF b1(2)] mset_eq_length [OF b2(3)] l P(1) by auto
  have "partition3 cmp s = Some (i - lt, n - (gt - i), L' @ E1' @ E2' @ G')"
    using m(1) sw t(1) b1(1) b2(1) by (simp add: partition3_def Let_def n_def [symmetric])
  moreover have "n - (gt - i) = length L' + length (E1' @ E2')" using le P(2-5) lt by simp
  moreover have "mset (L' @ (E1' @ E2') @ G') = mset t" unfolding l(1) using b1(2,3) b2(2,3) by (simp add: ac_simps)
  moreover have "set L' = set L" "set (E1' @ E2') = set E1 \<union> set E2" "set G' = set G"
    using mset_set [OF b1(2)] mset_set [OF b1(3)] mset_set [OF b2(2)] mset_set [OF b2(3)] by simp_all
  ultimately have "partition3 cmp s = Some (length L', length L' + length (E1' @ E2'), L' @ (E1' @ E2') @ G')"
    "mset (L' @ (E1' @ E2') @ G') = mset s" "E1' @ E2' \<noteq> []" "\<forall>x \<in> set L'. cmp p x > 0" "\<forall>x \<in> set (E1' @ E2'). cmp p x = 0"
    "\<forall>x \<in> set G'. cmp p x < 0"
    using l(6-8) le t(2) m0(1) by simp_all
  with v show ?thesis by blast
qed

lemma ordered_snoc:
  assumes "ordered (take (Suc j) s)" "Suc j < length s" "cmp (s ! j) (s ! Suc j) \<le> 0" "\<forall>x \<in> set s. valid x"
  shows "ordered (take (Suc (Suc j)) s)"
proof -
  have t: "take (Suc j) s = take j s @ [s ! j]" using assms(2) by (simp add: take_Suc_conv_app_nth)
  have "cmp x (s ! Suc j) \<le> 0" if "x \<in> set (take j s)" for x
  proof -
    have "cmp x (s ! j) \<le> 0" using assms(1) that unfolding t by (simp add: sorted_wrt_append)
    then show ?thesis using cmp_trans [of x "s ! j" "s ! Suc j"] assms(2-4) in_set_takeD [OF that] by simp
  qed
  then show ?thesis using assms(1-3) unfolding take_Suc_conv_app_nth [OF assms(2)] t by (auto simp: sorted_wrt_append)
qed

lemma insert_down_spec:
  assumes "ordered (take j s)" "j < length s" "\<forall>x \<in> set s. valid x"
  shows "\<exists>t. insert_down cmp j s = Some t \<and> ordered (take (Suc j) t) \<and> mset t = mset s \<and> (\<forall>k \<ge> Suc j. t ! k = s ! k)"
  using assms
proof (induction j arbitrary: s)
  case 0
  then show ?case by (cases s) simp_all
next
  case (Suc j)
  have ca: "cmp_at cmp s j (Suc j) = Some (cmp (s ! j) (s ! Suc j))" using Suc(3) by (simp add: cmp_at_def)
  show ?case
  proof (cases "cmp (s ! j) (s ! Suc j) > 0")
    case False
    with ordered_snoc [OF Suc(2,3) _ Suc(4)] ca show ?thesis by simp
  next
    case True
    define t where "t = s[Suc j := s ! j, j := s ! Suc j]"
    have sw: "swap_elems (Suc j) j s = Some t" using Suc(3) by (simp add: swap_elems_def t_def)
    have mt: "mset t = mset s" "length t = length s" using swap_elems_mset [OF sw] by simp_all
    have tj: "take (Suc j) s = take j s @ [s ! j]" using Suc(3) by (simp add: take_Suc_conv_app_nth)
    have o: "ordered (take j t)" "\<forall>x \<in> set (take j s). cmp x (s ! j) \<le> 0"
      using Suc(2) unfolding tj by (simp_all add: t_def sorted_wrt_append)
    obtain u where u: "insert_down cmp j t = Some u" "ordered (take (Suc j) u)" "mset u = mset t" "\<forall>k \<ge> Suc j. u ! k = t ! k"
      using Suc(1) [OF o(1)] Suc(3,4) mt mset_set [OF mt(1)] by auto
    have "take (Suc j) t = take j s @ [s ! Suc j]" using Suc(3) by (simp add: t_def take_Suc_conv_app_nth)
    moreover have "set (take (Suc j) u) = set (take (Suc j) t)" using mset_take [OF u(3,4)] by (intro mset_set) simp
    ultimately have "set (take (Suc j) u) = insert (s ! Suc j) (set (take j s))" by simp
    moreover have "cmp (s ! Suc j) (s ! j) \<le> 0" using True cmp_gt [of "s ! j" "s ! Suc j"] Suc(3,4) by simp
    ultimately have "\<forall>x \<in> set (take (Suc j) u). cmp x (u ! Suc j) \<le> 0" using o(2) u(4) Suc(3) by (simp add: t_def)
    moreover have "Suc j < length u" using Suc(3) mt mset_eq_length [OF u(3)] by simp
    ultimately have "ordered (take (Suc (Suc j)) u)" using u(2) by (simp add: take_Suc_conv_app_nth [of "Suc j"] sorted_wrt_append)
    moreover have "\<forall>k \<ge> Suc (Suc j). u ! k = s ! k" using u(4) by (simp add: t_def)
    ultimately show ?thesis using u mt ca sw True by simp
  qed
qed

lemma insert_all_spec:
  assumes "ordered (take i s)" "i + k = length s" "\<forall>x \<in> set s. valid x"
  shows "\<exists>t. insert_all cmp k i s = Some t \<and> ordered t \<and> mset t = mset s"
  using assms
proof (induction k arbitrary: i s)
  case (Suc k)
  obtain t where t: "insert_down cmp i s = Some t" "ordered (take (Suc i) t)" "mset t = mset s"
    using insert_down_spec [OF Suc(2) _ Suc(4)] Suc(3) by auto
  have "Suc i + k = length t" using Suc(3) mset_eq_length [OF t(3)] by simp
  with Suc(1) [OF t(2)] Suc(4) mset_set [OF t(3)] t show ?case by simp
qed simp

lemma insertion_sorts:
  assumes "\<forall>x \<in> set s. valid x"
  shows "\<exists>t. insertion_sort cmp s = Some t \<and> ordered t \<and> mset t = mset s"
proof (cases s)
  case (Cons x xs)
  then show ?thesis using insert_all_spec [of 1 s "length s - 1"] assms by (simp add: insertion_sort_def)
qed (simp add: insertion_sort_def)

end

subsection \<open>Quicksort sorts\<close>

definition covers :: "frame \<Rightarrow> nat \<Rightarrow> bool" where
  "covers f k \<longleftrightarrow> base f \<le> k \<and> k < base f + count f"

text \<open>The frames lie in the array and do not overlap.\<close>

definition frames_ok :: "nat \<Rightarrow> frame list \<Rightarrow> bool" where
  "frames_ok n fs \<longleftrightarrow> (\<forall>f \<in> set fs. base f + count f \<le> n) \<and> sorted_wrt (\<lambda>f g. \<forall>k. \<not> (covers f k \<and> covers g k)) fs"

text \<open>A frame is not deeper in the stack than its depth: this bounds the stack.\<close>

fun stack_ok :: "frame list \<Rightarrow> bool" where
  "stack_ok [] \<longleftrightarrow> True"
| "stack_ok (f # st) \<longleftrightarrow> length st \<le> depth f \<and> stack_ok st"

lemma put_segment_nth:
  assumes "b + length t \<le> length a" "k < length a"
  shows "put_segment b t a ! k = (if b \<le> k \<and> k < b + length t then t ! (k - b) else a ! k)"
  using assms by (auto simp: put_segment_def nth_append)

lemma put_segment_mset:
  assumes "b + n \<le> length a" "mset t = mset (segment b n a)"
  shows "mset (put_segment b t a) = mset a"
proof -
  have "length t = n" using assms mset_eq_length [OF assms(2)] by (simp add: segment_def)
  then have "mset (put_segment b t a) = mset (take b a @ segment b n a @ drop (b + n) a)" using assms(2) by (simp add: put_segment_def)
  also have "take b a @ segment b n a @ drop (b + n) a = a"
    unfolding segment_def by (metis add.commute append_take_drop_id drop_drop)
  finally show ?thesis .
qed

context sign_comparator
begin

text \<open>Two elements are in order, or a frame is still to be sorted that has both.\<close>

definition sorted_but :: "frame list \<Rightarrow> 'a list \<Rightarrow> bool" where
  "sorted_but fs a \<longleftrightarrow> (\<forall>i j. i < j \<and> j < length a \<longrightarrow> cmp (a ! i) (a ! j) \<le> 0 \<or> (\<exists>f \<in> set fs. covers f i \<and> covers f j))"

lemma sorted_but_replace:
  assumes "sorted_but (f # st) a" "frames_ok (length a) (f # st)" "mset t = mset (segment (base f) (count f) a)"
    and sub: "\<And>g k. g \<in> set fs \<Longrightarrow> covers g k \<Longrightarrow> covers f k"
    and srt: "\<And>i j. i < j \<Longrightarrow> j < count f \<Longrightarrow> cmp (t ! i) (t ! j) \<le> 0 \<or> (\<exists>g \<in> set fs. covers g (base f + i) \<and> covers g (base f + j))"
  shows "sorted_but (fs @ st) (put_segment (base f) t a)"
proof -
  have r: "base f + count f \<le> length a" and dj: "g \<in> set st \<Longrightarrow> \<not> (covers f k \<and> covers g k)" for g k
    using assms(2) by (auto simp: frames_ok_def)
  have lt: "length t = count f" using mset_eq_length [OF assms(3)] r by (simp add: segment_def)
  let ?b = "put_segment (base f) t a"
  have nth: "?b ! k = (if covers f k then t ! (k - base f) else a ! k)" if "k < length a" for k
    using put_segment_nth [of "base f" t a k] that r lt by (simp add: covers_def)
  have lb: "length ?b = length a" using r lt by (simp add: put_segment_def)
  have el: "\<exists>k'. covers f k' \<and> ?b ! k = a ! k'" if "covers f k" for k
  proof -
    have "k - base f < length t" using that lt by (auto simp: covers_def)
    then have "t ! (k - base f) \<in> set (segment (base f) (count f) a)" using mset_set [OF assms(3)] nth_mem [of "k - base f" t] by simp
    then obtain m where "m < count f" "t ! (k - base f) = a ! (base f + m)" using r by (auto simp: segment_def in_set_conv_nth)
    then show ?thesis using nth [of k] that r by (intro exI [of _ "base f + m"]) (simp add: covers_def)
  qed
  have main: "cmp (?b ! i) (?b ! j) \<le> 0 \<or> (\<exists>g \<in> set (fs @ st). covers g i \<and> covers g j)" if ij: "i < j" "j < length a" for i j
  proof -
    have old: "cmp (a ! i') (a ! j') \<le> 0 \<or> (\<exists>g \<in> set st. covers g i' \<and> covers g j')"
      if "i' < j'" "j' < length a" "\<not> (covers f i' \<and> covers f j')" for i' j'
      using assms(1) that by (auto simp: sorted_but_def)
    consider "covers f i" "covers f j" | "covers f i" "\<not> covers f j" | "\<not> covers f i" "covers f j" | "\<not> covers f i" "\<not> covers f j" by blast
    then show ?thesis
    proof cases
      case 1
      then have "i - base f < j - base f" "j - base f < count f" "base f + (i - base f) = i" "base f + (j - base f) = j"
        using ij by (auto simp: covers_def)
      with srt [of "i - base f" "j - base f"] 1 nth ij show ?thesis by auto
    next
      case 2
      obtain k where k: "covers f k" "?b ! i = a ! k" using el [OF 2(1)] by blast
      then have "k < j" using 2 ij by (auto simp: covers_def)
      with old [of k j] 2 k dj nth ij show ?thesis by auto
    next
      case 3
      obtain k where k: "covers f k" "?b ! j = a ! k" using el [OF 3(2)] by blast
      then have "i < k" "k < length a" using 3 ij r by (auto simp: covers_def)
      with old [of i k] 3 k dj nth ij show ?thesis by auto
    next
      case 4
      with old [of i j] nth ij show ?thesis by auto
    qed
  qed
  then show ?thesis unfolding sorted_but_def lb by blast
qed

lemma partition_ordered:
  assumes "valid p" "\<forall>x \<in> set (L @ M @ G). valid x" "\<forall>x \<in> set L. cmp p x > 0" "\<forall>x \<in> set M. cmp p x = 0" "\<forall>x \<in> set G. cmp p x < 0"
    and "i < j" "j < length (L @ M @ G)" "length L \<le> j" "i < length L + length M"
  shows "cmp ((L @ M @ G) ! i) ((L @ M @ G) ! j) \<le> 0"
proof -
  let ?t = "L @ M @ G"
  have v: "valid (?t ! i)" "valid (?t ! j)" using assms(2,6,7) nth_mem [of i ?t] nth_mem [of j ?t] by (simp_all del: nth_append)
  have "?t ! i \<in> set L \<union> set M" using assms(6,7,9) by (auto simp: nth_append)
  then have "0 \<le> cmp p (?t ! i)" using assms(3,4) by fastforce
  then have a: "cmp (?t ! i) p \<le> 0" using cmp_ge v(1) assms(1) by blast
  have "?t ! j \<in> set M \<union> set G" using assms(7,8) by (auto simp: nth_append)
  then have "cmp p (?t ! j) \<le> 0" using assms(4,5) by fastforce
  with a show ?thesis using cmp_trans v assms(1) by blast
qed

lemma segment_valid: "\<forall>x \<in> set a. valid x \<Longrightarrow> \<forall>x \<in> set (segment b n a). valid x"
  by (auto simp: segment_def dest: in_set_takeD in_set_dropD)

definition work :: "frame list \<Rightarrow> nat" where
  "work fs = sum_list (map (\<lambda>f. 2 * count f + 1) fs)"

text \<open>A sorted segment replaces the old one, and the frame is done.\<close>

lemma frame_done:
  assumes "sorted_but (f # st) a" "frames_ok (length a) (f # st)" "ordered t" "mset t = mset (segment (base f) (count f) a)"
  shows "sorted_but st (put_segment (base f) t a) \<and> mset (put_segment (base f) t a) = mset a"
proof -
  have r: "base f + count f \<le> length a" using assms(2) by (simp add: frames_ok_def)
  have "length t = count f" using mset_eq_length [OF assms(4)] r by (simp add: segment_def)
  then show ?thesis using sorted_but_replace [OF assms(1,2,4), of "[]"] assms(3) put_segment_mset [OF r assms(4)]
    by (simp add: sorted_wrt_iff_nth_less)
qed

text \<open>A partitioned one leaves two frames.\<close>

lemma frame_split:
  fixes d :: nat
  assumes "sorted_but (f # st) a" "frames_ok (length a) (f # st)" "mset (L @ M @ G) = mset (segment (base f) (count f) a)" "M \<noteq> []"
    and "valid p" "\<forall>x \<in> set a. valid x" "\<forall>x \<in> set L. cmp p x > 0" "\<forall>x \<in> set M. cmp p x = 0" "\<forall>x \<in> set G. cmp p x < 0"
  defines "n \<equiv> count f" and "b \<equiv> put_segment (base f) (L @ M @ G) a"
    and "lo \<equiv> \<lparr>base = base f, count = length L, depth = d\<rparr>"
    and "hi \<equiv> \<lparr>base = base f + (length L + length M), count = count f - (length L + length M), depth = d\<rparr>"
  shows "sorted_but (lo # hi # st) b \<and> sorted_but (hi # lo # st) b" "mset b = mset a"
    "frames_ok (length b) (lo # hi # st)" "frames_ok (length b) (hi # lo # st)" "work (lo # hi # st) < work (f # st)" "work (hi # lo # st) < work (f # st)"
proof -
  let ?t = "L @ M @ G"
  have r: "base f + n \<le> length a" using assms(2) by (simp add: frames_ok_def n_def)
  have lt: "length ?t = n" using mset_eq_length [OF assms(3)] r by (simp add: segment_def n_def)
  have vt: "\<forall>x \<in> set ?t. valid x" using mset_set [OF assms(3)] segment_valid [OF assms(6)] by blast
  show mb: "mset b = mset a" using put_segment_mset assms(3) r unfolding b_def n_def by blast
  have lb: "length b = length a" using mset_eq_length [OF mb] .
  have sub: "covers f k" if "g \<in> set [lo, hi]" "covers g k" for g k
    using that lt by (auto simp: covers_def lo_def hi_def n_def)
  have "sorted_but ([lo, hi] @ st) b" unfolding b_def
  proof (rule sorted_but_replace [OF assms(1-3) sub])
    fix i j assume ij: "i < j" "j < count f"
    show "cmp (?t ! i) (?t ! j) \<le> 0 \<or> (\<exists>g \<in> set [lo, hi]. covers g (base f + i) \<and> covers g (base f + j))"
    proof (cases "length L \<le> j \<and> i < length L + length M")
      case True
      then show ?thesis using partition_ordered [OF assms(5) vt assms(7-9) ij(1)] ij(2) lt by (simp add: n_def)
    next
      case False
      then show ?thesis using ij by (auto simp: covers_def lo_def hi_def)
    qed
  qed assumption
  then show "sorted_but (lo # hi # st) b \<and> sorted_but (hi # lo # st) b" by (auto simp: sorted_but_def)
  have dj: "\<not> (covers f k \<and> covers g k)" if "g \<in> set st" for g k using assms(2) that by (auto simp: frames_ok_def)
  have "\<not> (covers lo k \<and> covers hi k)" for k by (auto simp: covers_def lo_def hi_def)
  moreover have "\<not> (covers h k \<and> covers g k)" if "h \<in> set [lo, hi]" "g \<in> set st" for h g k using dj sub that by blast
  moreover have "base lo + count lo \<le> length a" "base hi + count hi \<le> length a" using lt r by (auto simp: lo_def hi_def n_def)
  ultimately show "frames_ok (length b) (lo # hi # st)" "frames_ok (length b) (hi # lo # st)"
    using assms(2) unfolding frames_ok_def lb by auto
  have "0 < length M" "count f = length L + length M + length G" using assms(4) lt by (simp_all add: n_def)
  then show "work (lo # hi # st) < work (f # st)" "work (hi # lo # st) < work (f # st)"
    by (simp_all add: work_def lo_def hi_def del: length_greater_0_conv)
qed

lemma rq_loop_sorts:
  assumes "sorted_but (f # st) a" "frames_ok (length a) (f # st)" "stack_ok (f # st)" "\<forall>x \<in> set a. valid x"
  shows "\<exists>b. rq_loop cmp f st a = Some b \<and> ordered b \<and> mset b = mset a"
  using assms
proof (induction "work (f # st)" arbitrary: f st a rule: less_induct)
  case less
  let ?s = "segment (base f) (count f) a"
  have r: "base f + count f \<le> length a" using less(3) by (simp add: frames_ok_def)
  have ls: "length ?s = count f" using r by (simp add: segment_def)
  note vs = segment_valid [OF less(5)]
  show ?case
  proof (cases "count f > 6 \<and> depth f + 1 \<le> 50")
    case True
    obtain p L M G where p: "partition3 cmp ?s = Some (length L, length L + length M, L @ M @ G)" "mset (L @ M @ G) = mset ?s" "M \<noteq> []" "valid p"
      "\<forall>x \<in> set L. cmp p x > 0" "\<forall>x \<in> set M. cmp p x = 0" "\<forall>x \<in> set G. cmp p x < 0"
      using partition3_spec [of ?s, OF _ vs] ls True by auto
    define b where "b = put_segment (base f) (L @ M @ G) a"
    define lo where "lo = \<lparr>base = base f, count = length L, depth = depth f + 1\<rparr>"
    define hi where "hi = \<lparr>base = base f + (length L + length M), count = count f - (length L + length M), depth = depth f + 1\<rparr>"
    note pre = less(2,3) p(2,3,4) less(5) p(5-7)
    note sp = frame_split(1) [where d = "depth f + 1", OF pre, folded b_def lo_def hi_def] frame_split(2) [OF pre, folded b_def]
      frame_split(3-6) [where d = "depth f + 1", OF pre, folded b_def lo_def hi_def]
    have vb: "\<forall>x \<in> set b. valid x" using mset_set [OF sp(2)] less(5) by simp
    have "length st \<le> depth f" "stack_ok st" using less(4) by simp_all
    then have so: "stack_ok (lo # hi # st)" "stack_ok (hi # lo # st)" "push_frame lo st = Some (lo # st)" "push_frame hi st = Some (hi # st)"
      using True by (simp_all add: lo_def hi_def push_frame_def RQ_STACK_def)
    have u: "rq_loop cmp f st a = (if length L > count f - (length L + length M) then rq_loop cmp hi (lo # st) b else rq_loop cmp lo (hi # st) b)"
      using True p(1) so(3,4) by (subst rq_loop.simps) (simp add: Let_def b_def lo_def hi_def)
    show ?thesis
      using less(1) [OF sp(6) _ sp(4) so(2) vb] less(1) [OF sp(5) _ sp(3) so(1) vb] sp(1,2) u by auto
  next
    case False
    obtain t where t: "(if count f > 6 then heapsortx cmp ?s else insertion_sort cmp ?s) = Some t" "ordered t" "mset t = mset ?s"
      using heapsortx_sorts [of ?s, OF vs] insertion_sorts [of ?s, OF vs] by (cases "count f > 6") auto
    define b where "b = put_segment (base f) t a"
    have d: "sorted_but st b" "mset b = mset a" using frame_done [OF less(2,3) t(2,3)] by (simp_all add: b_def)
    have u: "rq_loop cmp f st a = (case st of [] \<Rightarrow> Some b | f # st \<Rightarrow> rq_loop cmp f st b)"
      using False t(1) unfolding b_def by (subst rq_loop.simps) (auto simp: Let_def)
    show ?thesis
    proof (cases st)
      case Nil
      then have "ordered b" using d(1) by (simp add: sorted_but_def sorted_wrt_iff_nth_less)
      with Nil u d show ?thesis by simp
    next
      case (Cons g st')
      have "work (g # st') < work (f # st)" using Cons by (simp add: work_def)
      moreover have "frames_ok (length b) (g # st')" using less(3) Cons mset_eq_length [OF d(2)] by (simp add: frames_ok_def)
      moreover have "\<forall>x \<in> set b. valid x" using mset_set [OF d(2)] less(5) by simp
      ultimately show ?thesis using less(1) [of g st' b] d less(4) Cons u by auto
    qed
  qed
qed

lemma rqsort_ordered:
  assumes "\<forall>x \<in> set a. valid x"
  shows "\<exists>b. rqsort cmp a = Some b \<and> ordered b \<and> mset b = mset a"
proof (cases "length a < 2")
  case True
  then have "ordered a" by (cases a) (auto simp: length_Suc_conv less_Suc_eq numeral_2_eq_2)
  with True show ?thesis by (simp add: rqsort_def)
next
  case False
  let ?f = "\<lparr>base = 0, count = length a, depth = 0\<rparr>"
  have "sorted_but [?f] a" "frames_ok (length a) [?f]" "stack_ok [?f]" by (auto simp: sorted_but_def frames_ok_def covers_def)
  from rq_loop_sorts [OF this assms] False show ?thesis by (simp add: rqsort_def)
qed

end

interpretation strcmp_sign: sign_comparator strcmp cstring
  by unfold_locales (use strcmp_swap in \<open>metis neg_0_less_iff_less neg_less_0_iff_less\<close>)

text \<open>
  C13. \<open>rqsort\<close> sorts: for a comparison function that orders the elements and changes its sign with the
  order of its arguments, the routine returns, without an access outside the segment
  in work and without overflow of its stack of 50 frames, and the array is then a permutation of
  the old one in ascending order, for arrays of every length.
\<close>

theorem rqsort_sorts:
  assumes "sign_comparator cmp valid" "\<forall>x \<in> set a. valid x"
  shows "\<exists>b. rqsort cmp a = Some b \<and> mset b = mset a \<and> sorted_wrt (\<lambda>x y. cmp x y \<le> 0) b"
  using sign_comparator.rqsort_ordered [OF assms] by blast

theorem rqsort_sorts_witness:
  "\<exists>b. rqsort strcmp [''show'', ''quit'', ''list'', ''exit''] = Some b \<and> mset b = mset [''show'', ''quit'', ''list'', ''exit''] \<and>
    sorted_wrt (\<lambda>x y. strcmp x y \<le> 0) b"
  by (rule rqsort_sorts [OF strcmp_sign.sign_comparator_axioms]) (simp add: cstring_def)

subsection \<open>Exchanging elements in memory\<close>

unbundle bit_operations_syntax

text \<open>Exchange of the units of \<open>u\<close> bytes at the offsets \<open>a\<close> and \<open>b\<close>: read the first, overwrite it, overwrite the second.\<close>

definition exchange_unit :: "nat \<Rightarrow> nat \<Rightarrow> nat \<Rightarrow> byte list \<Rightarrow> byte list option" where
  "exchange_unit u a b m =
     (if a + u \<le> length m \<and> b + u \<le> length m then
        let t = take u (drop a m);
            m = write_at m a (take u (drop b m))
        in Some (write_at m b t)
      else None)"

fun exchange_units :: "nat \<Rightarrow> nat \<Rightarrow> nat \<Rightarrow> nat \<Rightarrow> byte list \<Rightarrow> byte list option" where
  "exchange_units u 0 a b m = Some m"
| "exchange_units u (Suc k) a b m = do { m \<leftarrow> exchange_unit u a b m; exchange_units u k (a + u) (b + u) m }"

datatype exchange_f = Exchange_bytes | Exchange_one_byte | Exchange_int16s | Exchange_one_int16 | Exchange_int32s | Exchange_one_int32
  | Exchange_int64s | Exchange_one_int64 | Exchange_int128s | Exchange_one_int128

fun run_exchange :: "exchange_f \<Rightarrow> nat \<Rightarrow> nat \<Rightarrow> nat \<Rightarrow> byte list \<Rightarrow> byte list option" where
  "run_exchange Exchange_bytes a b sz m = exchange_units 1 sz a b m"
| "run_exchange Exchange_one_byte a b sz m = exchange_unit 1 a b m"
| "run_exchange Exchange_int16s a b sz m = exchange_units 2 (sz div 2) a b m"
| "run_exchange Exchange_one_int16 a b sz m = exchange_unit 2 a b m"
| "run_exchange Exchange_int32s a b sz m = exchange_units 4 (sz div 4) a b m"
| "run_exchange Exchange_one_int32 a b sz m = exchange_unit 4 a b m"
| "run_exchange Exchange_int64s a b sz m = exchange_units 8 (sz div 8) a b m"
| "run_exchange Exchange_one_int64 a b sz m = exchange_unit 8 a b m"
| "run_exchange Exchange_int128s a b sz m = exchange_units 16 (sz div 16) a b m"
| "run_exchange Exchange_one_int128 a b sz m = exchange_unit 16 a b m"

definition exchange_func :: "nat \<Rightarrow> nat \<Rightarrow> exchange_f" where
  "exchange_func addr sz =
     (let r = (addr OR sz) AND 15 in
      if r = 0 then (if sz = 16 then Exchange_one_int128 else Exchange_int128s)
      else if r = 8 then (if sz = 8 then Exchange_one_int64 else Exchange_int64s)
      else if r = 4 \<or> r = 12 then (if sz = 4 then Exchange_one_int32 else Exchange_int32s)
      else if r = 2 \<or> r = 6 \<or> r = 10 \<or> r = 14 then (if sz = 2 then Exchange_one_int16 else Exchange_int16s)
      else (if sz = 1 then Exchange_one_byte else Exchange_bytes))"

lemma exchange_unit_blocks:
  assumes "length B = u" "length D = u"
  shows "exchange_unit u (length A) (length A + u + length C) (A @ B @ C @ D @ E) = Some (A @ D @ C @ B @ E)"
    and "exchange_unit u (length A + u + length C) (length A) (A @ B @ C @ D @ E) = Some (A @ D @ C @ B @ E)"
  using assms by (simp_all add: exchange_unit_def write_at_def Let_def)

lemma exchange_unit_same: "a + u \<le> length m \<Longrightarrow> exchange_unit u a a m = Some m"
proof -
  assume a: "a + u \<le> length m"
  then have l: "length (take u (drop a m)) = u" by simp
  have "take a m @ take u (drop a m) @ drop (a + u) m = m" by (metis add.commute append_take_drop_id drop_drop)
  then have w: "write_at m a (take u (drop a m)) = m" by (simp only: write_at_def l)
  then show ?thesis using a by (simp add: exchange_unit_def w)
qed

lemma exchange_units_same: "a + k * u \<le> length m \<Longrightarrow> exchange_units u k a a m = Some m"
  by (induction k arbitrary: a) (simp_all add: exchange_unit_same add.assoc)

lemma exchange_units_blocks:
  assumes "length B = k * u" "length D = k * u"
  shows "exchange_units u k (length A) (length A + k * u + length C) (A @ B @ C @ D @ E) = Some (A @ D @ C @ B @ E)"
  using assms
proof (induction k arbitrary: A B C D)
  case (Suc k)
  define b B' d D' where d: "b = take u B" "B' = drop u B" "d = take u D" "D' = drop u D"
  have b: "B = b @ B'" "D = d @ D'" "length b = u" "length d = u" "length B' = k * u" "length D' = k * u"
    using Suc(2,3) by (simp_all add: d)
  show ?case using exchange_unit_blocks(1) [OF b(3,4), of A "B' @ C" "D' @ E"] Suc(1) [OF b(5,6), of "A @ d" "C @ b"] b
    by (simp add: ac_simps)
qed simp

lemma exchange_units_blocks_rev:
  assumes "length B = k * u" "length D = k * u"
  shows "exchange_units u k (length A + k * u + length C) (length A) (A @ B @ C @ D @ E) = Some (A @ D @ C @ B @ E)"
  using assms
proof (induction k arbitrary: A B C D)
  case (Suc k)
  define b B' d D' where d: "b = take u B" "B' = drop u B" "d = take u D" "D' = drop u D"
  have b: "B = b @ B'" "D = d @ D'" "length b = u" "length d = u" "length B' = k * u" "length D' = k * u"
    using Suc(2,3) by (simp_all add: d)
  show ?case using exchange_unit_blocks(2) [OF b(3,4), of A "B' @ C" "D' @ E"] Suc(1) [OF b(5,6), of "A @ d" "C @ b"] b
    by (simp add: ac_simps)
qed simp

lemma low_bits:
  fixes addr sz :: nat
  assumes "(addr OR sz) AND 15 = r" "k \<le> 4" "take_bit k r = 0"
  shows "2 ^ k dvd sz"
proof -
  have m: "mask 4 = (15 :: nat)" by (simp add: mask_eq_exp_minus_1)
  have "r = take_bit 4 (addr OR sz)" unfolding take_bit_eq_mask m by (rule assms(1) [symmetric])
  then have "take_bit k r = take_bit k (addr OR sz)" using assms(2) by (simp only: take_bit_take_bit min_absorb1)
  then have "take_bit k addr OR take_bit k sz = 0" unfolding take_bit_or [symmetric] using assms(3) by (simp only:)
  then have "take_bit k sz = 0" by (simp add: or_eq_0_iff)
  then show ?thesis by (simp add: take_bit_eq_0_iff)
qed

text \<open>The routine for elements of \<open>sz\<close> bytes, given \<open>n\<close> bytes, exchanges \<open>n\<close> bytes in whole units.\<close>

lemma exchange_func_units:
  assumes "\<And>k. k \<le> 4 \<Longrightarrow> 2 ^ k dvd sz \<Longrightarrow> 2 ^ k dvd n" "sz \<in> {1, 2, 4, 8, 16} \<Longrightarrow> n = sz"
  shows "\<exists>u k. k * u = n \<and> run_exchange (exchange_func addr sz) a b n m = exchange_units u k a b m"
proof -
  have one: "exchange_unit u a b m = exchange_units u 1 a b m" for u by (cases "exchange_unit u a b m") simp_all
  define r where "r = (addr OR sz) AND 15"
  note lb = low_bits [OF r_def [symmetric]]
  have fn: "exchange_func addr sz = (if r = 0 then (if sz = 16 then Exchange_one_int128 else Exchange_int128s)
      else if r = 8 then (if sz = 8 then Exchange_one_int64 else Exchange_int64s)
      else if r = 4 \<or> r = 12 then (if sz = 4 then Exchange_one_int32 else Exchange_int32s)
      else if r = 2 \<or> r = 6 \<or> r = 10 \<or> r = 14 then (if sz = 2 then Exchange_one_int16 else Exchange_int16s)
      else (if sz = 1 then Exchange_one_byte else Exchange_bytes))"
    unfolding exchange_func_def Let_def r_def ..
  have units: ?thesis if "u dvd n" "run_exchange (exchange_func addr sz) a b n m = exchange_units u (n div u) a b m" for u
    using that by (metis dvd_div_mult_self)
  consider "r = 0" | "r = 8" | "r = 4 \<or> r = 12" | "r = 2 \<or> r = 6 \<or> r = 10 \<or> r = 14"
    | "r \<notin> {0, 8, 4, 12, 2, 6, 10, 14}" by auto
  then show ?thesis
  proof cases
    case 1
    then have d: "16 dvd n" using lb [of 4] assms(1) [of 4] by (auto simp: take_bit_eq_mod)
    have "exchange_func addr sz = (if sz = 16 then Exchange_one_int128 else Exchange_int128s)" using fn 1 by auto
    then show ?thesis using assms(2) one [of 16] by (intro units [OF d]) (cases "sz = 16", simp_all)
  next
    case 2
    then have d: "8 dvd n" using lb [of 3] assms(1) [of 3] by (auto simp: take_bit_eq_mod)
    have "exchange_func addr sz = (if sz = 8 then Exchange_one_int64 else Exchange_int64s)" using fn 2 by auto
    then show ?thesis using assms(2) one [of 8] by (intro units [OF d]) (cases "sz = 8", simp_all)
  next
    case 3
    then have d: "4 dvd n" using lb [of 2] assms(1) [of 2] by (auto simp: take_bit_eq_mod)
    have "exchange_func addr sz = (if sz = 4 then Exchange_one_int32 else Exchange_int32s)" using fn 3 by auto
    then show ?thesis using assms(2) one [of 4] by (intro units [OF d]) (cases "sz = 4", simp_all)
  next
    case 4
    then have d: "2 dvd n" using lb [of 1] assms(1) [of 1] by (auto simp: take_bit_eq_mod)
    have "exchange_func addr sz = (if sz = 2 then Exchange_one_int16 else Exchange_int16s)" using fn 4 by auto
    then show ?thesis using assms(2) one [of 2] by (intro units [OF d]) (cases "sz = 2", simp_all)
  next
    case 5
    then have "exchange_func addr sz = (if sz = 1 then Exchange_one_byte else Exchange_bytes)" using fn by auto
    then show ?thesis using assms(2) one [of 1] by (intro units [of 1]) (simp, cases "sz = 1", simp_all)
  qed
qed

lemma concat_blocks:
  assumes "\<forall>e \<in> set es. length e = sz"
  shows "length (concat es) = length es * sz"
  using assms by (induction es) auto

lemma or_128_dvd: "k \<le> 4 \<Longrightarrow> 2 ^ k dvd sz OR 128 \<Longrightarrow> 2 ^ k dvd sz" for sz :: nat
  by (simp add: take_bit_eq_0_iff [symmetric] take_bit_or or_eq_0_iff)

lemma or_128_large: "sz OR 128 \<notin> {1, 2, 4, 8, 16}" for sz :: nat
proof -
  have "bit (sz OR 128) 7" using bit_iff_odd [of "128 :: nat" 7] by (simp add: bit_or_iff)
  moreover have "\<not> bit x 7" if "x \<in> {1, 2, 4, 8, 16}" for x :: nat using that by (auto simp: bit_iff_odd)
  ultimately show ?thesis by blast
qed

lemma split_blocks:
  assumes "i + k \<le> j" "j + k \<le> length es"
  obtains A B C D E where "es = A @ B @ C @ D @ E" "length A = i" "length B = k" "length C = j - i - k" "length D = k"
proof -
  have "es = take i es @ take k (drop i es) @ take (j - i - k) (drop (i + k) es) @ take k (drop j es) @ drop (j + k) es"
  proof -
    have "drop j es = take k (drop j es) @ drop (j + k) es" by (metis add.commute append_take_drop_id drop_drop)
    moreover have "drop (i + k) es = take (j - i - k) (drop (i + k) es) @ drop j es"
      using assms(1) by (metis append_take_drop_id diff_diff_left drop_drop le_add_diff_inverse2)
    moreover have "drop i es = take k (drop i es) @ drop (i + k) es" by (metis add.commute append_take_drop_id drop_drop)
    ultimately show ?thesis by (metis append_take_drop_id)
  qed
  then show thesis by (rule that) (use assms in simp_all)
qed

lemma exchange_elems:
  assumes "\<forall>e \<in> set es. length e = sz" "i + k \<le> j" "j + k \<le> length es" "q * u = k * sz"
  shows "exchange_units u q (i * sz) (j * sz) (concat es) = map_option concat (swap_block i j k es) \<and>
    exchange_units u q (j * sz) (i * sz) (concat es) = map_option concat (swap_block i j k es)"
proof -
  obtain A B C D E where s: "es = A @ B @ C @ D @ E" "length A = i" "length B = k" "length C = j - i - k" "length D = k"
    using split_blocks [OF assms(2,3)] by blast
  have l: "length (concat X) = length X * sz" if "set X \<subseteq> set es" for X using that assms(1) by (intro concat_blocks) auto
  have lb: "length (concat B) = q * u" "length (concat D) = q * u" "length (concat A) = i * sz" "length (concat C) = (j - i - k) * sz"
    using l [of A] l [of B] l [of C] l [of D] s assms(4) by auto
  have j2: "j = length A + k + length C" using assms(2) s by simp
  have "j * sz = (i + k + length C) * sz" using j2 s(2) by (simp only:)
  then have j1: "j * sz = length (concat A) + q * u + length (concat C)" unfolding distrib_right lb(3,4) assms(4) s(4) .
  have "swap_block i j k es = Some (A @ D @ C @ B @ E)" using swap_block_blocks [OF s(3,5), of A C E] s(1,2) j2 by (simp only:)
  moreover have "concat es = concat A @ concat B @ concat C @ concat D @ concat E" by (simp add: s(1))
  ultimately show ?thesis
    using exchange_units_blocks [OF lb(1,2), of "concat A" "concat C" "concat E"]
      exchange_units_blocks_rev [OF lb(1,2), of "concat A" "concat C" "concat E"] j1 lb(3) by simp
qed

lemma swap_elems_block: "i < j \<Longrightarrow> swap_elems i j es = swap_block i j 1 es"
  by (cases "swap_elems i j es") simp_all

lemma swap_elems_sym: "swap_elems i j es = swap_elems j i es"
  by (cases "i = j") (simp_all add: swap_elems_def list_update_swap)

text \<open>
  C17. The exchange routines, which \<open>rqsort\<close> selects by the alignment of the array and the size of the elements and which move one, two,
  four, eight or sixteen bytes at a time, exchange whole elements in the memory of the array: a call
  for two elements acts as the exchange of the elements, and a call for two separate blocks of \<open>k\<close> elements, with
  the routine selected for \<open>size | 128\<close>, as the exchange of the blocks.
\<close>

theorem exchange_refines:
  assumes "\<forall>e \<in> set es. length e = sz" "i < length es" "j < length es"
  shows "run_exchange (exchange_func addr sz) (i * sz) (j * sz) sz (concat es) = map_option concat (swap_elems i j es) \<and>
    (i + k \<le> j \<and> j + k \<le> length es \<longrightarrow>
       run_exchange (exchange_func addr (sz OR 128)) (i * sz) (j * sz) (k * sz) (concat es) = map_option concat (swap_block i j k es))"
proof (intro conjI impI)
  obtain u q where u: "q * u = sz" "run_exchange (exchange_func addr sz) (i * sz) (j * sz) sz (concat es) = exchange_units u q (i * sz) (j * sz) (concat es)"
    using exchange_func_units [of sz sz addr "i * sz" "j * sz" "concat es"] by blast
  consider "i < j" | "i = j" | "j < i" by linarith
  then show "run_exchange (exchange_func addr sz) (i * sz) (j * sz) sz (concat es) = map_option concat (swap_elems i j es)"
  proof cases
    case 1
    with exchange_elems [OF assms(1), of i 1 j q u] assms(3) u show ?thesis by (simp add: swap_elems_block del: swap_block.simps)
  next
    case 2
    have "i * sz + q * u \<le> length (concat es)" using concat_blocks [OF assms(1)] assms(2) u(1) mult_le_mono1 [of "Suc i" "length es" sz] by simp
    with 2 u exchange_units_same show ?thesis using assms(2) by (simp add: swap_elems_def)
  next
    case 3
    with exchange_elems [OF assms(1), of j 1 i q u] assms(2) u show ?thesis
      by (simp add: swap_elems_sym [of i] swap_elems_block del: swap_block.simps)
  qed
next
  assume k: "i + k \<le> j \<and> j + k \<le> length es"
  have "2 ^ b dvd sz OR 128 \<Longrightarrow> 2 ^ b dvd k * sz" if "b \<le> 4" for b using or_128_dvd [OF that] by (intro dvd_mult) blast
  then obtain u q where u: "q * u = k * sz" "run_exchange (exchange_func addr (sz OR 128)) (i * sz) (j * sz) (k * sz) (concat es) =
      exchange_units u q (i * sz) (j * sz) (concat es)"
    using exchange_func_units [of "sz OR 128" "k * sz" addr "i * sz" "j * sz" "concat es"] or_128_large [of sz] by blast
  with exchange_elems [OF assms(1), of i k j q u] k
  show "run_exchange (exchange_func addr (sz OR 128)) (i * sz) (j * sz) (k * sz) (concat es) = map_option concat (swap_block i j k es)" by simp
qed

theorem exchange_refines_witness:
  "(0 + 1 \<le> (2 :: nat) \<and> 2 + 1 \<le> length [''abcd'', ''efgh'', ''ijkl'']) \<and>
    run_exchange (exchange_func 8 4) (0 * 4) (2 * 4) 4 (concat [''abcd'', ''efgh'', ''ijkl'']) = map_option concat (swap_elems 0 2 [''abcd'', ''efgh'', ''ijkl'']) \<and>
    run_exchange (exchange_func 8 (4 OR 128)) (0 * 4) (2 * 4) (1 * 4) (concat [''abcd'', ''efgh'', ''ijkl'']) = map_option concat (swap_block 0 2 1 [''abcd'', ''efgh'', ''ijkl''])"
proof -
  have h: "\<forall>e \<in> set [''abcd'', ''efgh'', ''ijkl'']. length e = 4" "0 < length [''abcd'', ''efgh'', ''ijkl'']" "2 < length [''abcd'', ''efgh'', ''ijkl'']" by simp_all
  have k: "0 + 1 \<le> (2 :: nat) \<and> 2 + 1 \<le> length [''abcd'', ''efgh'', ''ijkl'']" by simp
  note t = exchange_refines [OF h, of 8 1]
  show ?thesis by (intro conjI conjunct1 [OF k] conjunct2 [OF k] conjunct1 [OF t] mp [OF conjunct2 [OF t] k])
qed

end
