(* ===== verification/Dyn_Buf.thy ===== *)
theory Dyn_Buf
  imports Prelude "HOL-Library.Monad_Syntax"
begin

section \<open>Strings and growing buffers (cutils.c, cutils.h)\<close>

text \<open>
  A buffer has a block of memory, of which the first \<open>used\<close> bytes are its content; the length of the
  block is \<open>allocated_size\<close>.  Its \<open>n\<close>-th request for memory succeeds when \<open>al n\<close> does; a failure is
  remembered in \<open>err\<close>.  New memory is filled with \<open>NUL\<close>, where the source leaves it undefined.
  \<open>None\<close> is an access outside the block.  Numbers are stored with the low byte first.
\<close>

unbundle bit_operations_syntax

subsection \<open>Strings\<close>

text \<open>
  \<open>pstrcpy\<close> copies \<open>str\<close> to the offset \<open>q\<close> of \<open>buf\<close>, at most \<open>buf_size - 1\<close> characters of it; the loop
  has \<open>room\<close> characters left.
\<close>

fun pstrcpy_loop :: "byte list \<Rightarrow> nat \<Rightarrow> nat \<Rightarrow> string \<Rightarrow> byte list" where
  "pstrcpy_loop buf q room [] = buf[q := NUL]"
| "pstrcpy_loop buf q 0 (c # str) = buf[q := NUL]"
| "pstrcpy_loop buf q (Suc room) (c # str) = pstrcpy_loop (buf[q := c]) (q + 1) room str"

definition pstrcpy :: "byte list \<Rightarrow> nat \<Rightarrow> int \<Rightarrow> string \<Rightarrow> byte list option" where
  "pstrcpy buf q buf_size str =
     (if buf_size \<le> 0 then Some buf
      else if q + min (length str) (nat buf_size - 1) < length buf then Some (pstrcpy_loop buf q (nat buf_size - 1) str)
      else None)"

definition pstrcat :: "byte list \<Rightarrow> int \<Rightarrow> string \<Rightarrow> byte list option" where
  "pstrcat buf buf_size s =
     (if NUL \<notin> set buf then None
      else let len = length (takeWhile (\<lambda>c. c \<noteq> NUL) buf) in
           if int len < buf_size then pstrcpy buf len (buf_size - int len) s else Some buf)"

text \<open>The rest of \<open>str\<close> behind the prefix \<open>val\<close>.\<close>

fun strstart :: "string \<Rightarrow> string \<Rightarrow> string option" where
  "strstart str [] = Some str"
| "strstart [] (q # val) = None"
| "strstart (p # str) (q # val) = (if p \<noteq> q then None else strstart str val)"

definition has_suffix :: "string \<Rightarrow> string \<Rightarrow> bool" where
  "has_suffix str suffix \<longleftrightarrow> length suffix \<le> length str \<and> drop (length str - length suffix) str = suffix"

lemma pstrcpy_loop_spec:
  assumes "q + min (length str) room < length buf"
  shows "pstrcpy_loop buf q room str = write_at buf q (take room str @ [NUL])"
  using assms
proof (induction buf q room str rule: pstrcpy_loop.induct)
  case (3 buf q room c str)
  then have "pstrcpy_loop (buf[q := c]) (q + 1) room str = write_at (buf[q := c]) (q + 1) (take room str @ [NUL])" by simp
  also have "\<dots> = write_at buf q (c # take room str @ [NUL])"
    using 3(2) by (simp add: write_at_def take_Suc_conv_app_nth)
  finally show ?case by simp
qed (simp_all add: write_at_def upd_conv_take_nth_drop)

text \<open>The copy is truncated to the size of the buffer and always terminated.\<close>

lemma pstrcpy_spec:
  assumes "0 < n" "n \<le> length buf" "cstring str"
  shows "\<exists>b. pstrcpy buf 0 (int n) str = Some b \<and> takeWhile (\<lambda>c. c \<noteq> NUL) b = take (n - 1) str \<and> length b = length buf"
proof -
  have l: "0 + min (length str) (n - 1) < length buf" using assms by auto
  have "c \<noteq> NUL" if "c \<in> set (take (n - 1) str)" for c using assms(3) that in_set_takeD by (fastforce simp: cstring_def)
  then have tw: "takeWhile (\<lambda>c. c \<noteq> NUL) (take (n - 1) str @ NUL # w) = take (n - 1) str" for w by simp
  have "pstrcpy buf 0 (int n) str = Some (write_at buf 0 (take (n - 1) str @ [NUL]))"
    using l assms(1) pstrcpy_loop_spec [OF l] by (simp add: pstrcpy_def)
  moreover have "length (take (n - 1) str @ [NUL]) \<le> length buf" using l by simp
  ultimately show ?thesis using tw by (intro exI [of _ "write_at buf 0 (take (n - 1) str @ [NUL])"]) (simp add: write_at_def)
qed

lemma strstart_iff: "strstart str val = Some r \<longleftrightarrow> str = val @ r"
  by (induction str val rule: strstart.induct) auto

lemma has_suffix_iff: "has_suffix str suffix \<longleftrightarrow> (\<exists>p. str = p @ suffix)"
  by (auto simp: has_suffix_def) (metis append_take_drop_id)

subsection \<open>Numbers in memory\<close>

definition put_u16 :: "nat \<Rightarrow> byte list" where
  "put_u16 v = [char_of v, char_of (drop_bit 8 v)]"

definition put_u32 :: "nat \<Rightarrow> byte list" where
  "put_u32 v = [char_of v, char_of (drop_bit 8 v), char_of (drop_bit 16 v), char_of (drop_bit 24 v)]"

definition get_u8 :: "byte list \<Rightarrow> nat \<Rightarrow> nat option" where
  "get_u8 b i = (if i < length b then Some (of_char (b ! i)) else None)"

definition get_u16 :: "byte list \<Rightarrow> nat \<Rightarrow> nat option" where
  "get_u16 b i = do { x \<leftarrow> get_u8 b i; y \<leftarrow> get_u8 b (i + 1); Some (x + 256 * y) }"

definition get_u32 :: "byte list \<Rightarrow> nat \<Rightarrow> nat option" where
  "get_u32 b i = do { x \<leftarrow> get_u16 b i; y \<leftarrow> get_u16 b (i + 2); Some (x + 65536 * y) }"

lemma length_put [simp]: "length (put_u16 v) = 2" "length (put_u32 v) = 4"
  by (simp_all add: put_u16_def put_u32_def)

lemma get_u8_at: "get_u8 (as @ c # bs) (length as) = Some (of_char c)"
  by (simp add: get_u8_def)

lemma get_u16_put: "v < 65536 \<Longrightarrow> get_u16 (as @ put_u16 v @ bs) (length as) = Some v"
  using get_u8_at [of as] get_u8_at [of "as @ [char_of v]"]
  by (simp add: get_u16_def put_u16_def drop_bit_eq_div mod_less_eq_dividend) 

lemma put_u32_halves: "put_u32 v = put_u16 (v mod 65536) @ put_u16 (v div 65536)"
proof -
  have a: "v mod 65536 mod 256 = v mod 256" using mod_mod_cancel [of 256 65536 v] by simp
  have "v mod 65536 div 256 = v div 256 mod 256" using mod_mult2_eq [of v 256 256] by simp
  then have b: "v mod 65536 div 256 mod 256 = v div 256 mod 256" by simp
  have c: "v div 65536 div 256 = v div 16777216" using div_mult2_eq [of v 65536 256] by simp
  show ?thesis unfolding put_u32_def put_u16_def drop_bit_eq_div
    using char_of_mod_256 [of "v mod 65536"] char_of_mod_256 [of v] char_of_mod_256 [of "v mod 65536 div 256"] char_of_mod_256 [of "v div 256"] a b c
    by simp
qed

lemma get_u32_put: "v < 4294967296 \<Longrightarrow> get_u32 (as @ put_u32 v @ bs) (length as) = Some v"
  using get_u16_put [of "v mod 65536" as "put_u16 (v div 65536) @ bs"] get_u16_put [of "v div 65536" "as @ put_u16 (v mod 65536)" bs]
  by (simp add: get_u32_def put_u32_halves)

subsection \<open>Growing buffers\<close>

record dyn_buf =
  mem :: "byte list"
  used :: nat
  err :: bool
  tries :: nat

definition dbuf_init :: dyn_buf where
  "dbuf_init = \<lparr>mem = [], used = 0, err = False, tries = 0\<rparr>"

definition content :: "dyn_buf \<Rightarrow> byte list" where
  "content s = take (used s) (mem s)"

text \<open>The returned flag says whether the operation succeeded.\<close>

definition dbuf_realloc :: "alloc \<Rightarrow> dyn_buf \<Rightarrow> nat \<Rightarrow> bool \<times> dyn_buf" where
  "dbuf_realloc al s new_size =
     (if new_size > length (mem s) then
        if err s then (False, s)
        else
          let sz = length (mem s) * 3 div 2;
              new_size = (if sz > new_size then sz else new_size)
          in if al (tries s)
             then (True, s\<lparr>mem := mem s @ replicate (new_size - length (mem s)) NUL, tries := tries s + 1\<rparr>)
             else (False, s\<lparr>err := True, tries := tries s + 1\<rparr>)
      else (True, s))"

definition dbuf_write :: "alloc \<Rightarrow> dyn_buf \<Rightarrow> nat \<Rightarrow> byte list \<Rightarrow> bool \<times> dyn_buf" where
  "dbuf_write al s offset data =
     (case dbuf_realloc al s (offset + length data) of
        (False, s) \<Rightarrow> (False, s)
      | (True, s) \<Rightarrow> (True, s\<lparr>mem := write_at (mem s) offset data, used := max (used s) (offset + length data)\<rparr>))"

definition dbuf_put :: "alloc \<Rightarrow> dyn_buf \<Rightarrow> byte list \<Rightarrow> bool \<times> dyn_buf" where
  "dbuf_put al s data =
     (case (if used s + length data > length (mem s) then dbuf_realloc al s (used s + length data) else (True, s)) of
        (False, s) \<Rightarrow> (False, s)
      | (True, s) \<Rightarrow> (True, s\<lparr>mem := write_at (mem s) (used s) data, used := used s + length data\<rparr>))"

text \<open>The bytes that are copied may reach behind the content: only the block bounds them.\<close>

definition dbuf_put_self :: "alloc \<Rightarrow> dyn_buf \<Rightarrow> nat \<Rightarrow> nat \<Rightarrow> (bool \<times> dyn_buf) option" where
  "dbuf_put_self al s offset len =
     (case (if used s + len > length (mem s) then dbuf_realloc al s (used s + len) else (True, s)) of
        (False, s) \<Rightarrow> Some (False, s)
      | (True, s) \<Rightarrow>
          if offset + len \<le> length (mem s)
          then Some (True, s\<lparr>mem := write_at (mem s) (used s) (slice offset (offset + len) (mem s)), used := used s + len\<rparr>)
          else None)"

definition dbuf_putc :: "alloc \<Rightarrow> dyn_buf \<Rightarrow> nat \<Rightarrow> bool \<times> dyn_buf" where
  "dbuf_putc al s c = dbuf_put al s [char_of c]"

definition dbuf_putstr :: "alloc \<Rightarrow> dyn_buf \<Rightarrow> string \<Rightarrow> bool \<times> dyn_buf" where
  "dbuf_putstr al s str = dbuf_put al s str"

definition dbuf_put_u16 :: "alloc \<Rightarrow> dyn_buf \<Rightarrow> nat \<Rightarrow> bool \<times> dyn_buf" where
  "dbuf_put_u16 al s v = dbuf_put al s (put_u16 v)"

definition dbuf_put_u32 :: "alloc \<Rightarrow> dyn_buf \<Rightarrow> nat \<Rightarrow> bool \<times> dyn_buf" where
  "dbuf_put_u32 al s v = dbuf_put al s (put_u32 v)"

text \<open>\<open>dbuf_printf\<close>, given the formatted text: a long one is printed into the buffer with its terminator.\<close>

definition dbuf_printf :: "alloc \<Rightarrow> dyn_buf \<Rightarrow> string \<Rightarrow> bool \<times> dyn_buf" where
  "dbuf_printf al s text' =
     (if length text' < 128 then dbuf_put al s text'
      else case dbuf_realloc al s (used s + length text' + 1) of
             (False, s) \<Rightarrow> (False, s)
           | (True, s) \<Rightarrow> (True, s\<lparr>mem := write_at (mem s) (used s) (text' @ [NUL]), used := used s + length text'\<rparr>))"

definition dbuf_error :: "dyn_buf \<Rightarrow> bool" where "dbuf_error s = err s"

definition dbuf_set_error :: "dyn_buf \<Rightarrow> dyn_buf" where "dbuf_set_error s = s\<lparr>err := True\<rparr>"

text \<open>\<open>dbuf_insert\<close> of libregexp.c: make room for \<open>len\<close> bytes at \<open>pos\<close>; what stands there is moved up.\<close>

definition dbuf_insert :: "alloc \<Rightarrow> dyn_buf \<Rightarrow> nat \<Rightarrow> nat \<Rightarrow> bool \<times> dyn_buf" where
  "dbuf_insert al s pos len =
     (case dbuf_realloc al s (used s + len) of
        (False, s) \<Rightarrow> (False, s)
      | (True, s) \<Rightarrow> (True, s\<lparr>mem := write_at (mem s) (pos + len) (slice pos (used s) (mem s)), used := used s + len\<rparr>))"

text \<open>A store to the memory of the buffer.\<close>

definition dbuf_poke :: "dyn_buf \<Rightarrow> nat \<Rightarrow> byte list \<Rightarrow> dyn_buf option" where
  "dbuf_poke s pos data = (if pos + length data \<le> length (mem s) then Some (s\<lparr>mem := write_at (mem s) pos data\<rparr>) else None)"

subsection \<open>The content\<close>

definition dbuf_ok :: "dyn_buf \<Rightarrow> bool" where
  "dbuf_ok s \<longleftrightarrow> used s \<le> length (mem s) \<and> \<not> err s"

lemma length_content [simp]: "used s \<le> length (mem s) \<Longrightarrow> length (content s) = used s"
  by (simp add: content_def)

lemma dbuf_init_ok [simp]: "dbuf_ok dbuf_init" "content dbuf_init = []" "used dbuf_init = 0"
  by (simp_all add: dbuf_ok_def dbuf_init_def content_def)

text \<open>A request that is granted keeps the content and makes the room; one that is refused is remembered.\<close>

lemma dbuf_realloc_cases:
  assumes "dbuf_realloc al s n = (b, s')" "used s \<le> length (mem s)"
  shows "used s' = used s" "content s' = content s" "used s' \<le> length (mem s')"
    and "if b then n \<le> length (mem s') \<and> err s' = err s else err s'"
    and "al = (\<lambda>_. True) \<Longrightarrow> \<not> err s \<Longrightarrow> b"
  using assms by (auto simp: dbuf_realloc_def content_def Let_def split: if_splits)

lemma content_write: "p + length ys \<le> length xs \<Longrightarrow> take (p + length ys) (write_at xs p ys) = take p xs @ ys"
  by (simp add: write_at_def)

text \<open>A byte string is put at the end, or nothing changes and the error is remembered.\<close>

lemma dbuf_put_cases:
  assumes "dbuf_put al s data = (b, s')" "used s \<le> length (mem s)"
  shows "used s' \<le> length (mem s')" "if b then content s' = content s @ data \<and> err s' = err s else content s' = content s \<and> err s'"
    and "al = (\<lambda>_. True) \<Longrightarrow> \<not> err s \<Longrightarrow> b"
proof -
  obtain b1 s1 where r: "(if used s + length data > length (mem s) then dbuf_realloc al s (used s + length data) else (True, s)) = (b1, s1)"
    by fastforce
  have s1: "used s1 = used s" "content s1 = content s" "used s1 \<le> length (mem s1)"
      "if b1 then used s + length data \<le> length (mem s1) \<and> err s1 = err s else err s1" "al = (\<lambda>_. True) \<Longrightarrow> \<not> err s \<Longrightarrow> b1"
    using r assms(2) dbuf_realloc_cases [OF _ assms(2)] by (auto split: if_splits)
  have s': "b = b1" "s' = (if b1 then s1\<lparr>mem := write_at (mem s1) (used s1) data, used := used s1 + length data\<rparr> else s1)"
    using assms(1) r by (auto simp: dbuf_put_def split: bool.splits)
  show "used s' \<le> length (mem s')" using s1 s' by (cases b1) simp_all
  show "if b then content s' = content s @ data \<and> err s' = err s else content s' = content s \<and> err s'"
    using s1 s' by (cases b1) (simp_all add: content_def)
  show "al = (\<lambda>_. True) \<Longrightarrow> \<not> err s \<Longrightarrow> b" using s1 s' by simp
qed

lemma dbuf_put_ok:
  assumes "dbuf_ok s"
  shows "dbuf_ok (snd (dbuf_put (\<lambda>_. True) s data))" "content (snd (dbuf_put (\<lambda>_. True) s data)) = content s @ data"
    "used (snd (dbuf_put (\<lambda>_. True) s data)) = used s + length data"
proof -
  obtain b s' where p: "dbuf_put (\<lambda>_. True) s data = (b, s')" by fastforce
  note c = dbuf_put_cases [OF p]
  have "used s' \<le> length (mem s')" "content s' = content s @ data" "\<not> err s'"
    using c assms by (auto simp: dbuf_ok_def)
  moreover have "used s' = used s + length data"
    using calculation assms length_content [of s] length_content [of s'] by (simp add: dbuf_ok_def)
  ultimately show "dbuf_ok (snd (dbuf_put (\<lambda>_. True) s data))" "content (snd (dbuf_put (\<lambda>_. True) s data)) = content s @ data"
    "used (snd (dbuf_put (\<lambda>_. True) s data)) = used s + length data"
    by (simp_all add: p dbuf_ok_def)
qed

text \<open>Bytes that are written into the room made by \<open>dbuf_insert\<close> stand between what was before and what was behind.\<close>

lemma dbuf_insert_poke:
  assumes "dbuf_ok s" "pos \<le> used s" "length data = len"
  shows "\<exists>s1 s2. dbuf_insert (\<lambda>_. True) s pos len = (True, s1) \<and> used s1 = used s + len \<and> dbuf_ok s1
     \<and> dbuf_poke s1 pos data = Some s2 \<and> dbuf_ok s2 \<and> content s2 = take pos (content s) @ data @ drop pos (content s)"
proof -
  obtain b r where r: "dbuf_realloc (\<lambda>_. True) s (used s + len) = (b, r)" by fastforce
  have rr: "b" "used r = used s" "content r = content s" "used s + len \<le> length (mem r)" "\<not> err r"
    using dbuf_realloc_cases [OF r] assms(1) by (auto simp: dbuf_ok_def)
  let ?sl = "slice pos (used s) (mem r)"
  define m1 where "m1 = write_at (mem r) (pos + len) ?sl"
  define m2 where "m2 = write_at m1 pos data"
  have sl: "length ?sl = used s - pos" using rr(4) by simp
  have l1: "length m1 = length (mem r)" unfolding m1_def using rr(4) assms(2) sl by (intro length_write_at) simp
  have l2: "length m2 = length (mem r)" unfolding m2_def using rr(4) assms(2,3) l1 by (subst length_write_at) simp_all
  have "m1 = (take (pos + len) (mem r) @ ?sl) @ drop (pos + len + length ?sl) (mem r)" by (simp add: m1_def write_at_def)
  then have "drop (pos + len) m1 = ?sl @ drop (pos + len + length ?sl) (mem r)" "take pos m1 = take pos (mem r)"
    using rr(4) assms(2) by (simp_all add: min_absorb1)
  then have "m2 = (take pos (mem r) @ data @ ?sl) @ drop (pos + len + length ?sl) (mem r)"
    unfolding m2_def write_at_def assms(3) by simp
  moreover have "length (take pos (mem r) @ data @ ?sl) = used s + len" using rr(4) assms(2,3) sl by simp
  ultimately have "take (used s + len) m2 = take pos (mem r) @ data @ ?sl" by (metis append_eq_conv_conj)
  moreover have "take pos (mem r) = take pos (content s)" "?sl = drop pos (content s)"
    unfolding rr(3) [symmetric] using rr(2) assms(2) by (simp_all add: content_def slice_def drop_take min_absorb1)
  ultimately have c: "take (used s + len) m2 = take pos (content s) @ data @ drop pos (content s)" by simp
  let ?s1 = "r\<lparr>mem := m1, used := used s + len\<rparr>" and ?s2 = "r\<lparr>mem := m2, used := used s + len\<rparr>"
  have "dbuf_insert (\<lambda>_. True) s pos len = (True, ?s1)" using r rr(1,2) by (simp add: dbuf_insert_def m1_def)
  moreover have "dbuf_poke ?s1 pos data = Some ?s2" using l1 rr(4) assms(2,3) by (simp add: dbuf_poke_def m2_def)
  moreover have "dbuf_ok ?s1" "dbuf_ok ?s2" using l1 l2 rr(4,5) by (simp_all add: dbuf_ok_def)
  moreover have "content ?s2 = take pos (content s) @ data @ drop pos (content s)" using c by (simp add: content_def)
  ultimately show ?thesis by (intro exI [of _ ?s1] exI [of _ ?s2]) simp
qed

lemma dbuf_poke_ok:
  assumes "dbuf_ok s" "pos + length data \<le> used s"
  shows "\<exists>s'. dbuf_poke s pos data = Some s' \<and> dbuf_ok s' \<and> used s' = used s \<and> content s' = write_at (content s) pos data"
proof -
  let ?s' = "s\<lparr>mem := write_at (mem s) pos data\<rparr>"
  have u: "used s \<le> length (mem s)" using assms(1) by (simp add: dbuf_ok_def)
  have "content ?s' = take pos (mem s) @ data @ take (used s - (pos + length data)) (drop (pos + length data) (mem s))"
    using assms(2) u by (simp add: content_def write_at_def take_append)
  also have "\<dots> = write_at (content s) pos data"
    using assms(2) u by (simp add: content_def write_at_def drop_take min_absorb1)
  finally show ?thesis using assms u by (intro exI [of _ ?s']) (simp add: dbuf_poke_def dbuf_ok_def)
qed

lemma dbuf_put_self_ok:
  assumes "dbuf_ok s" "pos + len \<le> used s"
  shows "\<exists>s' b. dbuf_put_self (\<lambda>_. True) s pos len = Some (b, s') \<and> dbuf_ok s' \<and> used s' = used s + len
     \<and> content s' = content s @ take len (drop pos (content s))"
proof -
  obtain b r where r: "(if used s + len > length (mem s) then dbuf_realloc (\<lambda>_. True) s (used s + len) else (True, s)) = (b, r)" by fastforce
  have rr: "b" "used r = used s" "content r = content s" "used s + len \<le> length (mem r)" "\<not> err r"
    using r dbuf_realloc_cases [of "\<lambda>_. True" s "used s + len" b r] assms(1) by (auto simp: dbuf_ok_def split: if_splits)
  let ?sl = "slice pos (pos + len) (mem r)"
  let ?s' = "r\<lparr>mem := write_at (mem r) (used r) ?sl, used := used r + len\<rparr>"
  have sl: "?sl = take len (drop pos (content s))" "length ?sl = len"
    unfolding rr(3) [symmetric] using assms(2) rr(2,4) by (simp_all add: slice_def content_def drop_take min_absorb1)
  have "dbuf_put_self (\<lambda>_. True) s pos len = Some (True, ?s')"
    using r rr(1,2,4) assms(2) by (simp add: dbuf_put_self_def)
  moreover have "dbuf_ok ?s'" using rr(2,4,5) sl(2) by (simp add: dbuf_ok_def)
  moreover have "content ?s' = content r @ ?sl"
    using content_write [of "used r" ?sl "mem r"] rr(2,4) sl(2) by (simp add: content_def)
  ultimately show ?thesis using rr(2,3) sl(1) by (intro exI [of _ ?s'] exI [of _ True]) simp
qed

end
