(* ===== verification/Re_Exec.thy ===== *)
theory Re_Exec
  imports Dyn_Buf
begin

section \<open>Executing a regular expression (libregexp.c, libregexp-opcode.h)\<close>

text \<open>
  A compiled expression is a string of bytes: a header, then instructions.  The backtracking
  machine runs them on a text of code units (bytes, or 16-bit units, which \<open>cbuf_type\<close> tells).  A pointer
  into the byte code or the text is an index, and a read outside them, a jump before the start, an access outside the stack
  of numbers, a failed assertion and an unknown instruction are the result \<open>None\<close>.  The memory for the stack of saved states
  may be refused; the \<open>n\<close>-th request is granted when \<open>state_alloc n\<close> holds.  \<open>lre_case_conv\<close>, the case conversion of libunicode.c that
  is used for characters beyond ASCII, is a parameter.
\<close>

subsection \<open>Instructions\<close>

datatype reop = REOP_invalid | REOP_char | REOP_char32 | REOP_dot | REOP_any | REOP_line_start | REOP_line_end | REOP_goto
  | REOP_split_goto_first | REOP_split_next_first | REOP_match | REOP_save_start | REOP_save_end | REOP_save_reset | REOP_loop
  | REOP_push_i32 | REOP_drop | REOP_word_boundary | REOP_not_word_boundary | REOP_back_reference | REOP_backward_back_reference
  | REOP_range | REOP_range32 | REOP_lookahead | REOP_negative_lookahead | REOP_push_char_pos | REOP_bne_char_pos | REOP_prev
  | REOP_simple_greedy_quant

definition reops :: "reop list" where
  "reops = [REOP_invalid, REOP_char, REOP_char32, REOP_dot, REOP_any, REOP_line_start, REOP_line_end, REOP_goto,
     REOP_split_goto_first, REOP_split_next_first, REOP_match, REOP_save_start, REOP_save_end, REOP_save_reset, REOP_loop,
     REOP_push_i32, REOP_drop, REOP_word_boundary, REOP_not_word_boundary, REOP_back_reference, REOP_backward_back_reference,
     REOP_range, REOP_range32, REOP_lookahead, REOP_negative_lookahead, REOP_push_char_pos, REOP_bne_char_pos, REOP_prev,
     REOP_simple_greedy_quant]"

definition REOP_COUNT :: nat where "REOP_COUNT = 29"

text \<open>The size of an instruction, without the ranges behind \<open>REOP_range\<close> and \<open>REOP_range32\<close>.\<close>

definition reopcode_info :: "nat list" where
  "reopcode_info = [1, 3, 5, 1, 1, 1, 1, 5, 5, 5, 1, 2, 2, 3, 5, 5, 1, 1, 1, 2, 2, 3, 3, 5, 5, 1, 5, 1, 17]"

fun opcode :: "reop \<Rightarrow> nat" where
  "opcode REOP_invalid = 0" | "opcode REOP_char = 1" | "opcode REOP_char32 = 2" | "opcode REOP_dot = 3" | "opcode REOP_any = 4"
| "opcode REOP_line_start = 5" | "opcode REOP_line_end = 6" | "opcode REOP_goto = 7" | "opcode REOP_split_goto_first = 8"
| "opcode REOP_split_next_first = 9" | "opcode REOP_match = 10" | "opcode REOP_save_start = 11" | "opcode REOP_save_end = 12"
| "opcode REOP_save_reset = 13" | "opcode REOP_loop = 14" | "opcode REOP_push_i32 = 15" | "opcode REOP_drop = 16"
| "opcode REOP_word_boundary = 17" | "opcode REOP_not_word_boundary = 18" | "opcode REOP_back_reference = 19"
| "opcode REOP_backward_back_reference = 20" | "opcode REOP_range = 21" | "opcode REOP_range32 = 22" | "opcode REOP_lookahead = 23"
| "opcode REOP_negative_lookahead = 24" | "opcode REOP_push_char_pos = 25" | "opcode REOP_bne_char_pos = 26" | "opcode REOP_prev = 27"
| "opcode REOP_simple_greedy_quant = 28"

definition get_op :: "byte list \<Rightarrow> nat \<Rightarrow> reop option" where
  "get_op bc pc = do { v \<leftarrow> get_u8 bc pc; if v < REOP_COUNT then Some (reops ! v) else None }"

lemma reops_opcode: "opcode r < REOP_COUNT \<and> reops ! opcode r = r"
  by (cases r) (simp_all add: reops_def REOP_COUNT_def)

definition RE_HEADER_FLAGS :: nat where "RE_HEADER_FLAGS = 0"
definition RE_HEADER_CAPTURE_COUNT :: nat where "RE_HEADER_CAPTURE_COUNT = 1"
definition RE_HEADER_STACK_SIZE :: nat where "RE_HEADER_STACK_SIZE = 2"
definition RE_HEADER_LEN :: nat where "RE_HEADER_LEN = 7"

text \<open>The flags are the bits 0 to 5 and 7.\<close>

definition LRE_FLAG_IGNORECASE :: nat where "LRE_FLAG_IGNORECASE = 1"
definition LRE_FLAG_MULTILINE :: nat where "LRE_FLAG_MULTILINE = 2"
definition LRE_FLAG_DOTALL :: nat where "LRE_FLAG_DOTALL = 3"
definition LRE_FLAG_UTF16 :: nat where "LRE_FLAG_UTF16 = 4"
definition LRE_FLAG_STICKY :: nat where "LRE_FLAG_STICKY = 5"
definition LRE_FLAG_NAMED_GROUPS :: nat where "LRE_FLAG_NAMED_GROUPS = 7"

lemmas header_defs = RE_HEADER_FLAGS_def RE_HEADER_CAPTURE_COUNT_def RE_HEADER_STACK_SIZE_def RE_HEADER_LEN_def
lemmas flag_defs = LRE_FLAG_IGNORECASE_def LRE_FLAG_MULTILINE_def LRE_FLAG_DOTALL_def LRE_FLAG_UTF16_def LRE_FLAG_STICKY_def LRE_FLAG_NAMED_GROUPS_def

definition INT32_MAX :: nat where "INT32_MAX = 2147483647"

text \<open>\<open>pc + (int)val\<close>.\<close>

definition jump :: "nat \<Rightarrow> nat \<Rightarrow> nat option" where
  "jump pc val =
     (let t = int pc + (if val < 2 ^ 31 then int val else int val - 2 ^ 32) in if t < 0 then None else Some (nat t))"

subsection \<open>Characters\<close>

definition CP_LS :: nat where "CP_LS = 0x2028"
definition CP_PS :: nat where "CP_PS = 0x2029"

definition is_line_terminator :: "nat \<Rightarrow> bool" where
  "is_line_terminator c \<longleftrightarrow> c = 10 \<or> c = 13 \<or> c = CP_LS \<or> c = CP_PS"

definition is_word_char :: "nat \<Rightarrow> bool" where
  "is_word_char c \<longleftrightarrow> (48 \<le> c \<and> c \<le> 57) \<or> (97 \<le> c \<and> c \<le> 122) \<or> (65 \<le> c \<and> c \<le> 90) \<or> c = 95"

type_synonym case_conv = "nat \<Rightarrow> nat \<Rightarrow> nat list"

definition lre_canonicalize :: "case_conv \<Rightarrow> nat \<Rightarrow> bool \<Rightarrow> nat" where
  "lre_canonicalize lre_case_conv c is_utf16 =
     (if is_utf16 then
        if c < 128 then (if 65 \<le> c \<and> c \<le> 90 then c - 65 + 97 else c)
        else hd (lre_case_conv c 2)
      else
        if c < 128 then (if 97 \<le> c \<and> c \<le> 122 then c - 97 + 65 else c)
        else let res = lre_case_conv c 0 in if length res = 1 \<and> hd res \<ge> 128 then hd res else c)"

definition high_surrogate :: "nat \<Rightarrow> bool" where "high_surrogate c \<longleftrightarrow> 0xd800 \<le> c \<and> c < 0xdc00"
definition low_surrogate :: "nat \<Rightarrow> bool" where "low_surrogate c \<longleftrightarrow> 0xdc00 \<le> c \<and> c < 0xe000"

definition from_surrogates :: "nat \<Rightarrow> nat \<Rightarrow> nat" where
  "from_surrogates hi lo = (push_bit 10 (hi AND 0x3ff) OR (lo AND 0x3ff)) + 0x10000"

definition unit_at :: "nat list \<Rightarrow> nat \<Rightarrow> nat option" where
  "unit_at t p = (if p < length t then Some (t ! p) else None)"

text \<open>The macros take the text, the type of its units, the pointer and the bound of the reads.\<close>

definition GET_CHAR :: "nat list \<Rightarrow> nat \<Rightarrow> nat \<Rightarrow> nat \<Rightarrow> (nat \<times> nat) option" where
  "GET_CHAR t ty p p_end =
     do { c \<leftarrow> unit_at t p;
          if ty \<noteq> 0 \<and> high_surrogate c \<and> ty = 2 \<and> p + 1 < p_end then
            do { c1 \<leftarrow> unit_at t (p + 1);
                 Some (if low_surrogate c1 then (from_surrogates c c1, p + 2) else (c, p + 1)) }
          else Some (c, p + 1) }"

definition PEEK_CHAR :: "nat list \<Rightarrow> nat \<Rightarrow> nat \<Rightarrow> nat \<Rightarrow> nat option" where
  "PEEK_CHAR t ty p p_end =
     do { c \<leftarrow> unit_at t p;
          if ty \<noteq> 0 \<and> high_surrogate c \<and> ty = 2 \<and> p + 1 < p_end then
            do { c1 \<leftarrow> unit_at t (p + 1); Some (if low_surrogate c1 then from_surrogates c c1 else c) }
          else Some c }"

definition PEEK_PREV_CHAR :: "nat list \<Rightarrow> nat \<Rightarrow> nat \<Rightarrow> nat \<Rightarrow> nat option" where
  "PEEK_PREV_CHAR t ty p p_start =
     (if p = 0 then None else
      do { c \<leftarrow> unit_at t (p - 1);
           if ty \<noteq> 0 \<and> low_surrogate c \<and> ty = 2 \<and> p \<ge> p_start + 2 then
             do { c1 \<leftarrow> unit_at t (p - 2); Some (if high_surrogate c1 then from_surrogates c1 c else c) }
           else Some c })"

definition GET_PREV_CHAR :: "nat list \<Rightarrow> nat \<Rightarrow> nat \<Rightarrow> nat \<Rightarrow> (nat \<times> nat) option" where
  "GET_PREV_CHAR t ty p p_start =
     (if p = 0 then None else
      do { c \<leftarrow> unit_at t (p - 1);
           if ty \<noteq> 0 \<and> low_surrogate c \<and> ty = 2 \<and> p - 1 > p_start then
             do { c1 \<leftarrow> unit_at t (p - 2);
                  Some (if high_surrogate c1 then (from_surrogates c1 c, p - 2) else (c, p - 1)) }
           else Some (c, p - 1) })"

definition PREV_CHAR :: "nat list \<Rightarrow> nat \<Rightarrow> nat \<Rightarrow> nat \<Rightarrow> nat option" where
  "PREV_CHAR t ty p p_start =
     (if p = 0 then None
      else if ty = 2 then
        do { c \<leftarrow> unit_at t (p - 1);
             if low_surrogate c \<and> p - 1 > p_start then
               do { c \<leftarrow> unit_at t (p - 2); Some (if high_surrogate c then p - 2 else p - 1) }
             else Some (p - 1) }
      else Some (p - 1))"

subsection \<open>The machine\<close>

datatype re_state_type = RE_EXEC_STATE_SPLIT | RE_EXEC_STATE_LOOKAHEAD | RE_EXEC_STATE_NEGATIVE_LOOKAHEAD | RE_EXEC_STATE_GREEDY_QUANT

text \<open>A number of the stack is as wide as a pointer; \<open>addr\<close> is the address of the text.\<close>

type_synonym stack_int = "64 word"

record re_state =
  s_type :: re_state_type
  s_stack :: "stack_int list"
  s_count :: nat
  s_cptr :: nat
  s_pc :: nat
  s_capture :: "nat option list"

record re_context =
  bc :: "byte list"
  cbuf :: "nat list"
  cbuf_type :: nat
  capture_count :: nat
  stack_size_max :: nat
  multi_line :: bool
  ignore_case :: bool
  is_utf16 :: bool
  cbuf_addr :: stack_int
  lre_conv :: case_conv
  state_alloc :: alloc

text \<open>
  The local variables and the parts of the context that change: the numbers are an array, of which
  \<open>stack_len\<close> are in use; the last saved state is the first of the list.
\<close>

record re_machine =
  pc :: nat
  cptr :: nat
  capture :: "nat option list"
  stack :: "stack_int list"
  stack_len :: nat
  states :: "re_state list"
  state_stack_size :: nat
  state_tries :: nat

definition cbuf_end :: "re_context \<Rightarrow> nat" where "cbuf_end s = length (cbuf s)"

definition get_char :: "re_context \<Rightarrow> nat \<Rightarrow> nat \<Rightarrow> (nat \<times> nat) option" where
  "get_char s p p_end = GET_CHAR (cbuf s) (cbuf_type s) p p_end"

definition get_prev_char :: "re_context \<Rightarrow> nat \<Rightarrow> nat \<Rightarrow> (nat \<times> nat) option" where
  "get_prev_char s p p_start = GET_PREV_CHAR (cbuf s) (cbuf_type s) p p_start"

definition canon :: "re_context \<Rightarrow> nat \<Rightarrow> nat" where
  "canon s c = (if ignore_case s then lre_canonicalize (lre_conv s) c (is_utf16 s) else c)"

text \<open>The address of a position of the text.\<close>

definition ptr_value :: "re_context \<Rightarrow> nat \<Rightarrow> stack_int" where
  "ptr_value s p = cbuf_addr s + of_nat (if cbuf_type s = 0 then p else 2 * p)"

text \<open>The returned flag is false when there is no memory for the state.\<close>

definition push_state :: "re_context \<Rightarrow> nat \<Rightarrow> nat \<Rightarrow> re_state_type \<Rightarrow> nat \<Rightarrow> re_machine \<Rightarrow> bool \<times> re_machine" where
  "push_state s pc' cptr' ty n m =
     (let grow = length (states m) + 1 > state_stack_size m;
          m1 = (if grow then m\<lparr>state_stack_size := max 8 (state_stack_size m * 3 div 2), state_tries := state_tries m + 1\<rparr> else m)
      in if grow \<and> \<not> state_alloc s (state_tries m) then (False, m\<lparr>state_tries := state_tries m + 1\<rparr>)
         else (True, m1\<lparr>states := \<lparr>s_type = ty, s_stack = take (stack_len m) (stack m), s_count = n, s_cptr = cptr', s_pc = pc',
                                   s_capture = take (2 * capture_count s) (capture m)\<rparr> # states m\<rparr>))"

text \<open>What an instruction does: the machine goes on, or the attempt fails or succeeds, or memory is missing, or the
  atom of a simple quantifier has to be run (its address, the bounds of the count).\<close>

datatype re_outcome = Next re_machine | No_match re_machine | Match re_machine | No_memory re_machine | Quant nat nat nat re_machine

text \<open>The binary search of \<open>REOP_range\<close> and \<open>REOP_range32\<close>; \<open>rd\<close> reads a bound of \<open>w\<close> bytes.\<close>

function range_search :: "(nat \<Rightarrow> nat option) \<Rightarrow> nat \<Rightarrow> nat \<Rightarrow> nat \<Rightarrow> nat \<Rightarrow> bool option" where
  "range_search rd w c idx_min idx_max =
     (if idx_min \<le> idx_max then
        let idx = (idx_min + idx_max) div 2 in
        do { low \<leftarrow> rd (idx * (2 * w));
             high \<leftarrow> rd (idx * (2 * w) + w);
             if c < low then (if idx = 0 then None else range_search rd w c idx_min (idx - 1))
             else if c > high then range_search rd w c (idx + 1) idx_max
             else Some True }
      else Some False)"
  by pat_completeness auto
termination
  by (relation "measure (\<lambda>(rd, w, c, i, j). Suc j - i)") auto

declare range_search.simps [simp del]

definition range_match :: "(nat \<Rightarrow> nat option) \<Rightarrow> nat \<Rightarrow> nat \<Rightarrow> nat \<Rightarrow> bool option" where
  "range_match rd w n c =
     do { low \<leftarrow> rd 0;
          if c < low then Some False
          else if n = 0 then None
          else do { high \<leftarrow> rd ((n - 1) * (2 * w) + w);
                    if w = 2 \<and> c \<ge> 0xffff \<and> high = 0xffff then Some True
                    else if c > high then Some False
                    else range_search rd w c 0 (n - 1) } }"

text \<open>The loops of the back references: the new position, or \<open>Some None\<close> when the texts differ.\<close>

lemma GET_CHAR_next: "GET_CHAR t ty p e = Some (c, q) \<Longrightarrow> p < q"
  by (auto simp: GET_CHAR_def split: bind_splits if_splits)

lemma GET_PREV_CHAR_prev: "GET_PREV_CHAR t ty p e = Some (c, q) \<Longrightarrow> q < p"
  by (auto simp: GET_PREV_CHAR_def split: bind_splits if_splits)

function back_ref :: "re_context \<Rightarrow> nat \<Rightarrow> nat \<Rightarrow> nat \<Rightarrow> nat option option" where
  "back_ref s cptr1 cptr1_end p =
     (if cptr1 < cptr1_end then
        if p \<ge> cbuf_end s then Some None
        else do { (c1, cptr1) \<leftarrow> get_char s cptr1 cptr1_end;
                  (c2, p) \<leftarrow> get_char s p (cbuf_end s);
                  if canon s c1 \<noteq> canon s c2 then Some None else back_ref s cptr1 cptr1_end p }
      else Some (Some p))"
  by pat_completeness auto
termination
  by (relation "measure (\<lambda>(s, q, e, p). e - q)") (auto simp: get_char_def dest!: GET_CHAR_next)

function backward_ref :: "re_context \<Rightarrow> nat \<Rightarrow> nat \<Rightarrow> nat \<Rightarrow> nat option option" where
  "backward_ref s cptr1 cptr1_start p =
     (if cptr1 > cptr1_start then
        if p = 0 then Some None
        else do { (c1, cptr1) \<leftarrow> get_prev_char s cptr1 cptr1_start;
                  (c2, p) \<leftarrow> get_prev_char s p 0;
                  if canon s c1 \<noteq> canon s c2 then Some None else backward_ref s cptr1 cptr1_start p }
      else Some (Some p))"
  by pat_completeness auto
termination
  by (relation "measure (\<lambda>(s, q, e, p). q)") (auto simp: get_prev_char_def dest!: GET_PREV_CHAR_prev)

declare back_ref.simps [simp del] backward_ref.simps [simp del]

subsection \<open>One instruction\<close>

definition test_char :: "re_context \<Rightarrow> nat \<Rightarrow> re_machine \<Rightarrow> re_outcome option" where
  "test_char s val m =
     (if cptr m \<ge> cbuf_end s then Some (No_match m)
      else do { (c, p) \<leftarrow> get_char s (cptr m) (cbuf_end s);
                Some (if val \<noteq> canon s c then No_match m else Next (m\<lparr>cptr := p\<rparr>)) })"

definition op_save :: "re_context \<Rightarrow> nat \<Rightarrow> re_machine \<Rightarrow> re_outcome option" where
  "op_save s k m =
     do { val \<leftarrow> get_u8 (bc s) (pc m);
          if val < capture_count s \<and> 2 * val + k < length (capture m)
          then Some (Next (m\<lparr>pc := pc m + 1, capture := (capture m)[2 * val + k := Some (cptr m)]\<rparr>)) else None }"

definition op_save_reset :: "re_context \<Rightarrow> re_machine \<Rightarrow> re_outcome option" where
  "op_save_reset s m =
     do { val \<leftarrow> get_u8 (bc s) (pc m);
          val2 \<leftarrow> get_u8 (bc s) (pc m + 1);
          if val2 < capture_count s
          then Some (Next (m\<lparr>pc := pc m + 2, capture := fold (\<lambda>i cs. cs[i := None]) [2 * val..<2 * val2 + 2] (capture m)\<rparr>)) else None }"

definition op_word_boundary :: "re_context \<Rightarrow> bool \<Rightarrow> re_machine \<Rightarrow> re_outcome option" where
  "op_word_boundary s neg m =
     do { v1 \<leftarrow> (if cptr m = 0 then Some False else map_option is_word_char (PEEK_PREV_CHAR (cbuf s) (cbuf_type s) (cptr m) 0));
          v2 \<leftarrow> (if cptr m \<ge> cbuf_end s then Some False else map_option is_word_char (PEEK_CHAR (cbuf s) (cbuf_type s) (cptr m) (cbuf_end s)));
          Some (if (v1 \<noteq> v2) = neg then No_match m else Next m) }"

definition op_back_reference :: "re_context \<Rightarrow> bool \<Rightarrow> re_machine \<Rightarrow> re_outcome option" where
  "op_back_reference s backward m =
     do { val \<leftarrow> get_u8 (bc s) (pc m);
          let m = m\<lparr>pc := pc m + 1\<rparr>;
          if val \<ge> capture_count s then Some (No_match m)
          else if length (capture m) \<le> 2 * val + 1 then None
          else (case (capture m ! (2 * val), capture m ! (2 * val + 1)) of
                  (Some b, Some e) \<Rightarrow>
                    do { r \<leftarrow> (if backward then backward_ref s e b (cptr m) else back_ref s b e (cptr m));
                         Some (case r of None \<Rightarrow> No_match m | Some p \<Rightarrow> Next (m\<lparr>cptr := p\<rparr>)) }
                | _ \<Rightarrow> Some (Next m)) }"

definition op_range :: "re_context \<Rightarrow> (byte list \<Rightarrow> nat \<Rightarrow> nat option) \<Rightarrow> nat \<Rightarrow> re_machine \<Rightarrow> re_outcome option" where
  "op_range s get w m =
     do { n \<leftarrow> get_u16 (bc s) (pc m);
          let p = pc m + 2;
          if cptr m \<ge> cbuf_end s then Some (No_match m)
          else do { (c, q) \<leftarrow> get_char s (cptr m) (cbuf_end s);
                    r \<leftarrow> range_match (\<lambda>i. get (bc s) (p + i)) w n (canon s c);
                    Some (if r then Next (m\<lparr>pc := p + 2 * w * n, cptr := q\<rparr>) else No_match m) } }"

definition op_push_state :: "re_context \<Rightarrow> nat \<Rightarrow> re_state_type \<Rightarrow> nat \<Rightarrow> re_machine \<Rightarrow> re_outcome option" where
  "op_push_state s pc1 ty pc' m =
     (case push_state s pc1 (cptr m) ty 0 m of
        (True, m) \<Rightarrow> Some (Next (m\<lparr>pc := pc'\<rparr>))
      | (False, m) \<Rightarrow> Some (No_memory m))"

definition push_int :: "re_context \<Rightarrow> stack_int \<Rightarrow> re_machine \<Rightarrow> re_outcome option" where
  "push_int s v m =
     (if stack_len m < length (stack m) then Some (Next (m\<lparr>stack := (stack m)[stack_len m := v], stack_len := stack_len m + 1\<rparr>)) else None)"

definition exec_op :: "re_context \<Rightarrow> re_machine \<Rightarrow> re_outcome option" where
  "exec_op s m0 =
     do { op \<leftarrow> get_op (bc s) (pc m0);
          let m = m0\<lparr>pc := pc m0 + 1\<rparr>;
          let val32 = get_u32 (bc s) (pc m);
          (case op of
             REOP_match \<Rightarrow> Some (Match m)
           | REOP_char32 \<Rightarrow> do { val \<leftarrow> val32; test_char s val (m\<lparr>pc := pc m + 4\<rparr>) }
           | REOP_char \<Rightarrow> do { val \<leftarrow> get_u16 (bc s) (pc m); test_char s val (m\<lparr>pc := pc m + 2\<rparr>) }
           | REOP_split_goto_first \<Rightarrow>
               do { val \<leftarrow> val32; t \<leftarrow> jump (pc m + 4) val; op_push_state s (pc m + 4) RE_EXEC_STATE_SPLIT t m }
           | REOP_split_next_first \<Rightarrow>
               do { val \<leftarrow> val32; t \<leftarrow> jump (pc m + 4) val; op_push_state s t RE_EXEC_STATE_SPLIT (pc m + 4) m }
           | REOP_lookahead \<Rightarrow>
               do { val \<leftarrow> val32; t \<leftarrow> jump (pc m + 4) val; op_push_state s t RE_EXEC_STATE_LOOKAHEAD (pc m + 4) m }
           | REOP_negative_lookahead \<Rightarrow>
               do { val \<leftarrow> val32; t \<leftarrow> jump (pc m + 4) val; op_push_state s t RE_EXEC_STATE_NEGATIVE_LOOKAHEAD (pc m + 4) m }
           | REOP_goto \<Rightarrow> do { val \<leftarrow> val32; t \<leftarrow> jump (pc m + 4) val; Some (Next (m\<lparr>pc := t\<rparr>)) }
           | REOP_line_start \<Rightarrow>
               if cptr m = 0 then Some (Next m)
               else if \<not> multi_line s then Some (No_match m)
               else do { c \<leftarrow> PEEK_PREV_CHAR (cbuf s) (cbuf_type s) (cptr m) 0; Some (if is_line_terminator c then Next m else No_match m) }
           | REOP_line_end \<Rightarrow>
               if cptr m = cbuf_end s then Some (Next m)
               else if \<not> multi_line s then Some (No_match m)
               else do { c \<leftarrow> PEEK_CHAR (cbuf s) (cbuf_type s) (cptr m) (cbuf_end s); Some (if is_line_terminator c then Next m else No_match m) }
           | REOP_dot \<Rightarrow>
               if cptr m = cbuf_end s then Some (No_match m)
               else do { (c, p) \<leftarrow> get_char s (cptr m) (cbuf_end s); Some (if is_line_terminator c then No_match m else Next (m\<lparr>cptr := p\<rparr>)) }
           | REOP_any \<Rightarrow>
               if cptr m = cbuf_end s then Some (No_match m)
               else do { (c, p) \<leftarrow> get_char s (cptr m) (cbuf_end s); Some (Next (m\<lparr>cptr := p\<rparr>)) }
           | REOP_save_start \<Rightarrow> op_save s 0 m
           | REOP_save_end \<Rightarrow> op_save s 1 m
           | REOP_save_reset \<Rightarrow> op_save_reset s m
           | REOP_push_i32 \<Rightarrow> do { val \<leftarrow> val32; push_int s (of_nat val) (m\<lparr>pc := pc m + 4\<rparr>) }
           | REOP_drop \<Rightarrow> if stack_len m = 0 then None else Some (Next (m\<lparr>stack_len := stack_len m - 1\<rparr>))
           | REOP_loop \<Rightarrow>
               do { val \<leftarrow> val32;
                    if stack_len m = 0 \<or> length (stack m) < stack_len m then None
                    else let v = stack m ! (stack_len m - 1) - 1;
                             m = m\<lparr>pc := pc m + 4, stack := (stack m)[stack_len m - 1 := v]\<rparr>
                         in if v \<noteq> 0 then do { t \<leftarrow> jump (pc m) val; Some (Next (m\<lparr>pc := t\<rparr>)) } else Some (Next m) }
           | REOP_push_char_pos \<Rightarrow> push_int s (ptr_value s (cptr m)) m
           | REOP_bne_char_pos \<Rightarrow>
               do { val \<leftarrow> val32;
                    if stack_len m = 0 \<or> length (stack m) < stack_len m then None
                    else let m = m\<lparr>pc := pc m + 4, stack_len := stack_len m - 1\<rparr>
                         in if stack m ! stack_len m \<noteq> ptr_value s (cptr m) then do { t \<leftarrow> jump (pc m) val; Some (Next (m\<lparr>pc := t\<rparr>)) }
                            else Some (Next m) }
           | REOP_word_boundary \<Rightarrow> op_word_boundary s False m
           | REOP_not_word_boundary \<Rightarrow> op_word_boundary s True m
           | REOP_back_reference \<Rightarrow> op_back_reference s False m
           | REOP_backward_back_reference \<Rightarrow> op_back_reference s True m
           | REOP_range \<Rightarrow> op_range s get_u16 2 m
           | REOP_range32 \<Rightarrow> op_range s get_u32 4 m
           | REOP_prev \<Rightarrow>
               if cptr m = 0 then Some (No_match m)
               else do { p \<leftarrow> PREV_CHAR (cbuf s) (cbuf_type s) (cptr m) 0; Some (Next (m\<lparr>cptr := p\<rparr>)) }
           | REOP_simple_greedy_quant \<Rightarrow>
               do { next_pos \<leftarrow> val32;
                    quant_min \<leftarrow> get_u32 (bc s) (pc m + 4);
                    quant_max \<leftarrow> get_u32 (bc s) (pc m + 8);
                    t \<leftarrow> jump (pc m + 16) next_pos;
                    Some (Quant (pc m + 16) quant_min quant_max (m\<lparr>pc := t\<rparr>)) }
           | REOP_invalid \<Rightarrow> None) }"

subsection \<open>Backtracking\<close>

fun prev_chars :: "re_context \<Rightarrow> nat \<Rightarrow> nat \<Rightarrow> nat option" where
  "prev_chars s 0 p = Some p"
| "prev_chars s (Suc n) p = do { p \<leftarrow> PREV_CHAR (cbuf s) (cbuf_type s) p 0; prev_chars s n p }"

text \<open>The label \<open>pop_state1\<close>, and with the captures \<open>pop_state\<close>.\<close>

definition pop_state1 :: "re_state \<Rightarrow> re_machine \<Rightarrow> re_machine" where
  "pop_state1 rs m = m\<lparr>pc := s_pc rs, cptr := s_cptr rs, stack := write_at (stack m) 0 (s_stack rs), stack_len := length (s_stack rs)\<rparr>"

definition pop_state :: "re_context \<Rightarrow> re_state \<Rightarrow> re_machine \<Rightarrow> re_machine" where
  "pop_state s rs m = (pop_state1 rs m)\<lparr>capture := write_at (capture m) 0 (s_capture rs)\<rparr>"

text \<open>The loop at the label \<open>recurse\<close>: either a saved state goes on (\<open>Inr\<close>), or none is left and \<open>ret\<close> is the result.\<close>

fun recurse :: "re_context \<Rightarrow> bool \<Rightarrow> re_state list \<Rightarrow> re_machine \<Rightarrow> (bool + re_machine) option" where
  "recurse s ret [] m = Some (Inl ret)"
| "recurse s ret (rs # rest) m =
     (case s_type rs of
        RE_EXEC_STATE_SPLIT \<Rightarrow>
          if \<not> ret then Some (Inr ((pop_state s rs m)\<lparr>states := rest\<rparr>)) else recurse s ret rest m
      | RE_EXEC_STATE_GREEDY_QUANT \<Rightarrow>
          if \<not> ret then
            do { char_count \<leftarrow> get_u32 (bc s) (s_pc rs + 12);
                 p \<leftarrow> prev_chars s char_count (s_cptr rs);
                 val \<leftarrow> get_u32 (bc s) (s_pc rs);
                 t \<leftarrow> jump (s_pc rs + 16) val;
                 let rs' = rs\<lparr>s_cptr := p, s_count := s_count rs - 1\<rparr>;
                 Some (Inr ((pop_state s rs m)\<lparr>pc := t, cptr := p, states := (if s_count rs' = 0 then rest else rs' # rest)\<rparr>)) }
          else recurse s ret rest m
      | RE_EXEC_STATE_LOOKAHEAD \<Rightarrow>
          if ret then Some (Inr ((pop_state1 rs m)\<lparr>states := rest\<rparr>)) else recurse s False rest m
      | RE_EXEC_STATE_NEGATIVE_LOOKAHEAD \<Rightarrow>
          if \<not> ret then Some (Inr ((pop_state s rs m)\<lparr>states := rest\<rparr>)) else recurse s False rest m)"

subsection \<open>Running\<close>

text \<open>
  An expression may need more steps than any bound (or never end), so a run has fuel.  The results of the
  recursive call are a position, no match, or an error.
\<close>

datatype re_result = Re_match nat | Re_no_match | Re_error

datatype 'a run = Out_of_fuel | Re_crash | Finished 'a

fun lre_exec_backtrack :: "nat \<Rightarrow> re_context \<Rightarrow> bool \<Rightarrow> re_machine \<Rightarrow> (re_result \<times> re_machine) run"
and quant_loop :: "nat \<Rightarrow> re_context \<Rightarrow> nat \<Rightarrow> nat \<Rightarrow> nat \<Rightarrow> re_machine \<Rightarrow> (nat option \<times> re_machine) run" where
  "lre_exec_backtrack 0 s no_recurse m = Out_of_fuel"
| "lre_exec_backtrack (Suc k) s no_recurse m =
     (case exec_op s m of
        None \<Rightarrow> Re_crash
      | Some (Next m) \<Rightarrow> lre_exec_backtrack k s no_recurse m
      | Some (No_memory m) \<Rightarrow> Finished (Re_error, m)
      | Some (Match m) \<Rightarrow>
          if no_recurse then Finished (Re_match (cptr m), m)
          else (case recurse s True (states m) m of
                  None \<Rightarrow> Re_crash
                | Some (Inl ret) \<Rightarrow> Finished (if ret then Re_match (cptr m) else Re_no_match, m\<lparr>states := []\<rparr>)
                | Some (Inr m) \<Rightarrow> lre_exec_backtrack k s no_recurse m)
      | Some (No_match m) \<Rightarrow>
          if no_recurse then Finished (Re_no_match, m)
          else (case recurse s False (states m) m of
                  None \<Rightarrow> Re_crash
                | Some (Inl ret) \<Rightarrow> Finished (if ret then Re_match (cptr m) else Re_no_match, m\<lparr>states := []\<rparr>)
                | Some (Inr m) \<Rightarrow> lre_exec_backtrack k s no_recurse m)
      | Some (Quant pc1 quant_min quant_max m) \<Rightarrow>
          (case quant_loop k s pc1 quant_max 0 m of
             Out_of_fuel \<Rightarrow> Out_of_fuel
           | Re_crash \<Rightarrow> Re_crash
           | Finished (None, m) \<Rightarrow> Finished (Re_error, m)
           | Finished (Some q, m) \<Rightarrow>
               if q < quant_min then
                 (if no_recurse then Finished (Re_no_match, m)
                  else (case recurse s False (states m) m of
                          None \<Rightarrow> Re_crash
                        | Some (Inl ret) \<Rightarrow> Finished (if ret then Re_match (cptr m) else Re_no_match, m\<lparr>states := []\<rparr>)
                        | Some (Inr m) \<Rightarrow> lre_exec_backtrack k s no_recurse m))
               else if q > quant_min then
                 (case push_state s (pc1 - 16) (cptr m) RE_EXEC_STATE_GREEDY_QUANT (q - quant_min) m of
                    (True, m) \<Rightarrow> lre_exec_backtrack k s no_recurse m
                  | (False, m) \<Rightarrow> Finished (Re_error, m))
               else lre_exec_backtrack k s no_recurse m))"
| "quant_loop 0 s pc1 quant_max q m = Out_of_fuel"
| "quant_loop (Suc k) s pc1 quant_max q m =
     (case lre_exec_backtrack k s True (m\<lparr>pc := pc1\<rparr>) of
        Out_of_fuel \<Rightarrow> Out_of_fuel
      | Re_crash \<Rightarrow> Re_crash
      | Finished (Re_error, m') \<Rightarrow> Finished (None, m')
      | Finished (Re_no_match, m') \<Rightarrow> Finished (Some q, m'\<lparr>pc := pc m, cptr := cptr m, stack_len := stack_len m\<rparr>)
      | Finished (Re_match p, m') \<Rightarrow>
          let m2 = m'\<lparr>pc := pc m, cptr := p, stack_len := stack_len m\<rparr> in
          if q + 1 \<ge> quant_max \<and> quant_max \<noteq> INT32_MAX then Finished (Some (q + 1), m2)
          else quant_loop k s pc1 quant_max (q + 1) m2)"

text \<open>
  \<open>lre_exec\<close>: the result 1, 0 or -1, with the captures.  \<open>old\<close> is what the array of captures and \<open>junk\<close> what the array of numbers hold before.
\<close>

definition lre_exec ::
    "nat \<Rightarrow> case_conv \<Rightarrow> alloc \<Rightarrow> stack_int \<Rightarrow> stack_int list \<Rightarrow> nat option list \<Rightarrow> byte list \<Rightarrow> nat list \<Rightarrow> nat \<Rightarrow> nat
       \<Rightarrow> (int \<times> nat option list) run" where
  "lre_exec k cv mem_al a junk old bc_buf text' cindex ty =
     (case (get_u8 bc_buf RE_HEADER_FLAGS, get_u8 bc_buf RE_HEADER_CAPTURE_COUNT, get_u8 bc_buf RE_HEADER_STACK_SIZE) of
        (Some re_flags, Some captures, Some sz) \<Rightarrow>
          if length old < 2 * captures \<or> length junk \<noteq> sz then Re_crash
          else
            let utf16 = bit re_flags LRE_FLAG_UTF16;
                s = \<lparr>bc = bc_buf, cbuf = text', cbuf_type = (if ty = 1 \<and> utf16 then 2 else ty), capture_count = captures, stack_size_max = sz,
                     multi_line = bit re_flags LRE_FLAG_MULTILINE, ignore_case = bit re_flags LRE_FLAG_IGNORECASE, is_utf16 = utf16,
                     cbuf_addr = a, lre_conv = cv, state_alloc = mem_al\<rparr>;
                m = \<lparr>pc = RE_HEADER_LEN, cptr = cindex, capture = write_at old 0 (replicate (2 * captures) None), stack = junk, stack_len = 0,
                     states = [], state_stack_size = 0, state_tries = 0\<rparr>
            in (case lre_exec_backtrack k s False m of
                  Out_of_fuel \<Rightarrow> Out_of_fuel
                | Re_crash \<Rightarrow> Re_crash
                | Finished (r, m) \<Rightarrow> Finished (case r of Re_match p \<Rightarrow> 1 | Re_no_match \<Rightarrow> 0 | Re_error \<Rightarrow> -1, capture m))
      | _ \<Rightarrow> Re_crash)"

definition lre_get_capture_count :: "byte list \<Rightarrow> nat option" where
  "lre_get_capture_count bc_buf = get_u8 bc_buf RE_HEADER_CAPTURE_COUNT"

definition lre_get_flags :: "byte list \<Rightarrow> nat option" where
  "lre_get_flags bc_buf = get_u8 bc_buf RE_HEADER_FLAGS"

text \<open>\<open>Some None\<close> is the null pointer, a number the offset of the names.\<close>

definition lre_get_groupnames :: "byte list \<Rightarrow> nat option option" where
  "lre_get_groupnames bc_buf =
     do { f \<leftarrow> lre_get_flags bc_buf;
          if \<not> bit f LRE_FLAG_NAMED_GROUPS then Some None
          else do { n \<leftarrow> get_u32 bc_buf 3; Some (Some (7 + n)) } }"

end
