(* ===== verification/Re_Lex.thy ===== *)
theory Re_Lex
  imports Re_Exec Char_Range Utf8
begin

section \<open>The lexical parts of a regular expression (libregexp.c, libregexp.h)\<close>

text \<open>
  The pattern is a text of bytes with a terminator behind it.  A pointer \<open>p\<close> into the pattern is the part of the pattern that is
  left: the empty list is the pointer to the terminator, which is \<open>buf_end\<close>.  A function of the
  parser gives its result and the new state, or a failure (the \<open>-1\<close> of the source, with the state that holds the message),
  or a fault: a read behind the terminator, or outside the byte code.  The Unicode data of libunicode.c is a parameter.
\<close>

subsection \<open>The state of the parser\<close>

definition CAPTURE_COUNT_MAX :: nat where "CAPTURE_COUNT_MAX = 255"
definition STACK_SIZE_MAX :: nat where "STACK_SIZE_MAX = 255"
definition TMP_BUF_SIZE :: nat where "TMP_BUF_SIZE = 128"

text \<open>Unicode data: case conversion, identifiers, and the tables of scripts, categories and properties; these give a set, an
  unknown name (\<open>Some None\<close>), or no memory.\<close>

record unicode_data =
  case_conv_of :: case_conv
  lre_is_id_start :: "nat \<Rightarrow> bool"
  lre_is_id_continue :: "nat \<Rightarrow> bool"
  unicode_script :: "string \<Rightarrow> bool \<Rightarrow> char_range option option"
  unicode_general_category :: "string \<Rightarrow> char_range option option"
  unicode_prop :: "string \<Rightarrow> char_range option option"

text \<open>What does not change while a pattern is parsed, with the memory for the byte code, the names and the sets.\<close>

record re_env =
  buf_start :: "byte list"
  re_flags :: nat
  code_alloc :: alloc
  names_alloc :: alloc
  set_alloc :: alloc
  unicode :: unicode_data

definition utf16_mode :: "re_env \<Rightarrow> bool" where "utf16_mode e = bit (re_flags e) LRE_FLAG_UTF16"
definition fold_case :: "re_env \<Rightarrow> bool" where "fold_case e = bit (re_flags e) LRE_FLAG_IGNORECASE"
definition dotall :: "re_env \<Rightarrow> bool" where "dotall e = bit (re_flags e) LRE_FLAG_DOTALL"

text \<open>\<open>total_capture_count\<close> and \<open>has_named_captures\<close> are \<open>None\<close> as long as they are not known; \<open>tmp_buf\<close> is the union \<open>u\<close>.\<close>

record re_parse =
  byte_code :: dyn_buf
  buf_ptr :: "byte list"
  captures :: nat
  total_capture_count :: "nat option"
  has_named_captures :: "bool option"
  group_names :: dyn_buf
  tmp_buf :: "byte list"

datatype 'a parse = Done 'a re_parse | Failed re_parse | Fault | No_fuel

definition and_then :: "'a parse \<Rightarrow> ('a \<Rightarrow> re_parse \<Rightarrow> 'b parse) \<Rightarrow> 'b parse" where
  "and_then r f = (case r of Done a s \<Rightarrow> f a s | Failed s \<Rightarrow> Failed s | Fault \<Rightarrow> Fault | No_fuel \<Rightarrow> No_fuel)"

lemma and_then_simps [simp]:
  "and_then (Done a s) f = f a s" "and_then (Failed s) f = Failed s" "and_then Fault f = Fault" "and_then No_fuel f = No_fuel"
  by (simp_all add: and_then_def)

text \<open>The result of an access that may be outside.\<close>

definition reading :: "'x option \<Rightarrow> ('x \<Rightarrow> 'a parse) \<Rightarrow> 'a parse" where
  "reading r f = (case r of None \<Rightarrow> Fault | Some x \<Rightarrow> f x)"

lemma reading_simps [simp]: "reading None f = Fault" "reading (Some x) f = f x"
  by (simp_all add: reading_def)

definition set_message :: "string \<Rightarrow> re_parse \<Rightarrow> re_parse" where
  "set_message msg s = s\<lparr>tmp_buf := write_at (tmp_buf s) 0 (take (TMP_BUF_SIZE - 1) msg @ [NUL])\<rparr>"

definition re_parse_error :: "string \<Rightarrow> re_parse \<Rightarrow> 'a parse" where
  "re_parse_error msg s = Failed (set_message msg s)"

definition re_parse_out_of_memory :: "re_parse \<Rightarrow> 'a parse" where
  "re_parse_out_of_memory s = re_parse_error ''out of memory'' s"

text \<open>\<open>*p\<close> and \<open>p[k]\<close>.\<close>

definition ch :: "byte list \<Rightarrow> char" where
  "ch p = (case p of [] \<Rightarrow> NUL | c # _ \<Rightarrow> c)"

definition at :: "byte list \<Rightarrow> nat \<Rightarrow> char option" where
  "at p k = (if k \<le> length p then Some (ch (drop k p)) else None)"

lemma ch_simps [simp]: "ch [] = NUL" "ch (c # p) = c"
  by (simp_all add: ch_def)

subsection \<open>Numbers and escapes\<close>

definition is_digit :: "char \<Rightarrow> bool" where
  "is_digit c \<longleftrightarrow> of_char c \<ge> (48 :: nat) \<and> of_char c \<le> (57 :: nat)"

definition digit_value :: "char \<Rightarrow> nat" where "digit_value c = of_char c - 48"

text \<open>\<open>parse_digits\<close>: the number, or \<open>None\<close> for an overflow, and the rest.\<close>

fun parse_digits_loop :: "bool \<Rightarrow> nat \<Rightarrow> byte list \<Rightarrow> (nat \<times> byte list) option" where
  "parse_digits_loop allow_overflow v [] = Some (v, [])"
| "parse_digits_loop allow_overflow v (c # p) =
     (if \<not> is_digit c then Some (v, c # p)
      else let v = v * 10 + digit_value c in
           if v \<ge> INT32_MAX then (if allow_overflow then parse_digits_loop allow_overflow INT32_MAX p else None)
           else parse_digits_loop allow_overflow v p)"

definition parse_digits :: "byte list \<Rightarrow> bool \<Rightarrow> (nat \<times> byte list) option" where
  "parse_digits p allow_overflow = parse_digits_loop allow_overflow 0 p"

definition re_parse_expect :: "byte list \<Rightarrow> char \<Rightarrow> re_parse \<Rightarrow> byte list parse" where
  "re_parse_expect p c s =
     (if ch p \<noteq> c then re_parse_error (''expecting '' @ [CHR 0x27, c, CHR 0x27]) s else Done (tl p) s)"

definition from_hex :: "char \<Rightarrow> nat option" where
  "from_hex c =
     (let n = of_char c :: nat in
      if 48 \<le> n \<and> n \<le> 57 then Some (n - 48)
      else if 65 \<le> n \<and> n \<le> 70 then Some (n - 65 + 10)
      else if 97 \<le> n \<and> n \<le> 102 then Some (n - 97 + 10)
      else None)"

text \<open>A recognized escape with what follows it, the result \<open>-1\<close>, the result \<open>-2\<close>.\<close>

datatype escape = Escape nat "byte list" | Malformed | Unknown_escape

fun escape_braces :: "nat \<Rightarrow> byte list \<Rightarrow> escape" where
  "escape_braces c [] = Malformed"
| "escape_braces c (x # p) =
     (case from_hex x of
        None \<Rightarrow> Malformed
      | Some h \<Rightarrow>
          let c = push_bit 4 c OR h in
          if c > 0x10FFFF then Malformed
          else if ch p = CHR 0x7D then Escape c (tl p)
          else escape_braces c p)"

fun escape_hex :: "nat \<Rightarrow> nat \<Rightarrow> byte list \<Rightarrow> (nat \<times> byte list) option" where
  "escape_hex 0 c p = Some (c, p)"
| "escape_hex (Suc n) c [] = None"
| "escape_hex (Suc n) c (x # p) = (case from_hex x of None \<Rightarrow> None | Some h \<Rightarrow> escape_hex n (push_bit 4 c OR h) p)"

definition escape_unicode :: "char \<Rightarrow> byte list \<Rightarrow> nat \<Rightarrow> escape" where
  "escape_unicode x p allow_utf16 =
     (if ch p = CHR ''{'' \<and> allow_utf16 \<noteq> 0 then escape_braces 0 (tl p)
      else case escape_hex (if x = CHR ''x'' then 2 else 4) 0 p of
             None \<Rightarrow> Malformed
           | Some (c, p) \<Rightarrow>
               if high_surrogate c \<and> allow_utf16 = 2 \<and> ch p = CHR 0x5C \<and> ch (tl p) = CHR ''u'' then
                 (case escape_hex 4 0 (drop 2 p) of
                    Some (c1, q) \<Rightarrow> if low_surrogate c1 then Escape (from_surrogates c c1) q else Escape c p
                  | None \<Rightarrow> Escape c p)
               else Escape c p)"

definition is_octal :: "char \<Rightarrow> bool" where
  "is_octal c \<longleftrightarrow> of_char c \<ge> (48 :: nat) \<and> of_char c \<le> (55 :: nat)"

definition escape_octal :: "nat \<Rightarrow> byte list \<Rightarrow> nat \<Rightarrow> escape" where
  "escape_octal c p allow_utf16 =
     (if allow_utf16 = 2 then (if c \<noteq> 0 \<or> is_digit (ch p) then Malformed else Escape c p)
      else if \<not> is_octal (ch p) then Escape c p
      else let c = push_bit 3 c OR digit_value (ch p); p = tl p in
           if c \<ge> 32 \<or> \<not> is_octal (ch p) then Escape c p
           else Escape (push_bit 3 c OR digit_value (ch p)) (tl p))"

definition lre_parse_escape :: "byte list \<Rightarrow> nat \<Rightarrow> escape" where
  "lre_parse_escape p allow_utf16 =
     (let c = ch p; p = tl p in
      if c = CHR ''b'' then Escape 8 p
      else if c = CHR ''f'' then Escape 12 p
      else if c = CHR ''n'' then Escape 10 p
      else if c = CHR ''r'' then Escape 13 p
      else if c = CHR ''t'' then Escape 9 p
      else if c = CHR ''v'' then Escape 11 p
      else if c = CHR ''x'' \<or> c = CHR ''u'' then escape_unicode c p allow_utf16
      else if is_octal c then escape_octal (digit_value c) p allow_utf16
      else Unknown_escape)"

subsection \<open>Rests of the pattern get shorter\<close>

lemma escape_braces_shorter: "escape_braces c p = Escape d q \<Longrightarrow> length q < length p"
proof (induction c p rule: escape_braces.induct)
  case (2 c x p)
  from 2(2) have "length q \<le> length (tl p) \<or> length q < length p"
    using 2(1) by (auto simp: Let_def split: option.splits if_splits)
  then show ?case by auto
qed simp

lemma escape_hex_shorter: "escape_hex n c p = Some (d, q) \<Longrightarrow> length q + n = length p"
  by (induction n c p rule: escape_hex.induct) (auto split: option.splits)

lemma escape_unicode_shorter: "escape_unicode x p u = Escape d q \<Longrightarrow> length q < length p"
  by (auto simp: escape_unicode_def split: if_splits option.splits prod.splits
      dest!: escape_braces_shorter escape_hex_shorter)

lemma escape_octal_shorter: "escape_octal c p u = Escape d q \<Longrightarrow> length q \<le> length p"
  by (auto simp: escape_octal_def Let_def split: if_splits)

lemma if_eqE: "(if b then x else y) = z \<Longrightarrow> (x = z \<Longrightarrow> P) \<Longrightarrow> (y = z \<Longrightarrow> P) \<Longrightarrow> P"
  by (simp split: if_splits)

lemma lre_parse_escape_shorter:
  assumes "lre_parse_escape p u = Escape d q"
  shows "length q < length p"
proof (cases p)
  case (Cons c p')
  from assms have "length q \<le> length p'"
    unfolding Cons lre_parse_escape_def Let_def ch_simps list.sel
    by (elim if_eqE) (simp_all add: escape_unicode_shorter [THEN less_imp_le] escape_octal_shorter)
  with Cons show ?thesis by simp
qed (use assms in \<open>simp add: lre_parse_escape_def is_octal_def\<close>)

subsection \<open>Names of groups\<close>

definition lre_id_start_table_ascii :: "nat list" where
  "lre_id_start_table_ascii = [0x00000000, 0x00000010, 0x87FFFFFE, 0x07FFFFFE]"

definition lre_id_continue_table_ascii :: "nat list" where
  "lre_id_continue_table_ascii = [0x00000000, 0x03FF0010, 0x87FFFFFE, 0x07FFFFFE]"

definition lre_js_is_ident_first :: "re_env \<Rightarrow> nat \<Rightarrow> bool" where
  "lre_js_is_ident_first e c =
     (if c < 128 then bit (lre_id_start_table_ascii ! drop_bit 5 c) (c AND 31) else lre_is_id_start (unicode e) c)"

definition lre_js_is_ident_next :: "re_env \<Rightarrow> nat \<Rightarrow> bool" where
  "lre_js_is_ident_next e c =
     (if c < 128 then bit (lre_id_continue_table_ascii ! drop_bit 5 c) (c AND 31)
      else lre_is_id_continue (unicode e) c \<or> c = 0x200C \<or> c = 0x200D)"

lemma NUL_no_ident: "\<not> lre_js_is_ident_first e 0" "\<not> lre_js_is_ident_next e 0"
  by (simp_all add: lre_js_is_ident_first_def lre_js_is_ident_next_def lre_id_start_table_ascii_def lre_id_continue_table_ascii_def)

text \<open>\<open>unicode_from_utf8(p, UTF8_CHAR_LEN_MAX, &p)\<close>; the terminator can be read, too.\<close>

definition from_utf8 :: "byte list \<Rightarrow> (int \<times> byte list) option" where
  "from_utf8 p = map_option (\<lambda>(c, r). (c, butlast r)) (unicode_from_utf8 (p @ [NUL]) (int UTF8_CHAR_LEN_MAX))"

text \<open>A character of a name and the rest, \<open>Some None\<close> when it is malformed.\<close>

definition group_char :: "re_env \<Rightarrow> byte list \<Rightarrow> (nat \<times> byte list) option option" where
  "group_char e p =
     (if ch p = CHR 0x5C then
        if ch (tl p) \<noteq> CHR ''u'' then Some None
        else (case lre_parse_escape (tl p) (if utf16_mode e then 2 else 0) of Escape c p \<Rightarrow> Some (Some (c, p)) | _ \<Rightarrow> Some None)
      else if of_char (ch p) \<ge> (128 :: nat) then
        map_option (\<lambda>(c, r). if c < 0 then None else Some (nat c, r)) (from_utf8 p)
      else Some (Some (of_char (ch p), tl p)))"

lemma utf8_loop_shorter: "utf8_loop l c p = Some (Some (d, r)) \<Longrightarrow> length r + l = length p"
  by (induction l c p rule: utf8_loop.induct) (auto simp: Let_def split: if_splits)

lemma from_utf8_shorter: "from_utf8 p = Some (c, r) \<Longrightarrow> 0 \<le> c \<Longrightarrow> p \<noteq> [] \<Longrightarrow> length r < length p"
  by (cases p) (auto simp: from_utf8_def unicode_from_utf8_def Let_def split: if_splits option.splits dest!: utf8_loop_shorter)

lemma group_char_shorter:
  assumes "group_char e p = Some (Some (c, r))"
  shows "p = [] \<and> c = 0 \<or> length r < length p"
  using assms from_utf8_shorter [of p]
  by (cases p) (auto simp: group_char_def split: if_splits escape.splits dest!: lre_parse_escape_shorter)

text \<open>The loop of \<open>re_parse_group_name\<close>: the buffer, and the number of bytes in it with the rest, or the failure.\<close>

function group_name_loop :: "re_env \<Rightarrow> nat \<Rightarrow> byte list \<Rightarrow> nat \<Rightarrow> byte list \<Rightarrow> (byte list \<times> (nat \<times> byte list) option) option" where
  "group_name_loop e buf_size buf q p =
     (if ch p = CHR ''>'' then Some (buf, Some (q, p))
      else case group_char e p of
             None \<Rightarrow> None
           | Some None \<Rightarrow> Some (buf, None)
           | Some (Some (c, p')) \<Rightarrow>
               if c > 0x10FFFF \<or> \<not> (if q = 0 then lre_js_is_ident_first e c else lre_js_is_ident_next e c)
                  \<or> q + UTF8_CHAR_LEN_MAX + 1 > buf_size
               then Some (buf, None)
               else let bytes = (if c < 128 then [char_of c] else unicode_to_utf8 c)
                    in group_name_loop e buf_size (write_at buf q bytes) (q + length bytes) p')"
  by pat_completeness auto
termination
  by (relation "measure (\<lambda>(e, n, buf, q, p). length p)")
    (auto dest!: group_char_shorter simp: NUL_no_ident split: if_splits)

declare group_name_loop.simps [simp del]

definition re_parse_group_name :: "re_env \<Rightarrow> byte list \<Rightarrow> nat \<Rightarrow> byte list \<Rightarrow> (byte list \<times> byte list option) option" where
  "re_parse_group_name e buf buf_size p =
     (case group_name_loop e buf_size buf 0 p of
        None \<Rightarrow> None
      | Some (buf, None) \<Rightarrow> Some (buf, None)
      | Some (buf, Some (q, p)) \<Rightarrow> if q = 0 then Some (buf, None) else Some (buf[q := NUL], Some (tl p)))"

definition cstr :: "byte list \<Rightarrow> string" where
  "cstr buf = takeWhile (\<lambda>c. c \<noteq> NUL) buf"

lemma group_name_loop_shorter:
  "group_name_loop e n buf q p = Some (b, Some (q', r)) \<Longrightarrow> length r \<le> length p \<and> ch r = CHR ''>''"
proof (induction e n buf q p rule: group_name_loop.induct)
  case (1 e n buf q p)
  show ?case
  proof (cases "ch p = CHR ''>''")
    case True
    with 1(2) show ?thesis by (simp add: group_name_loop.simps [of e n buf q p])
  next
    case False
    with 1(2) obtain c p' where g: "group_char e p = Some (Some (c, p'))"
        and c: "\<not> (c > 0x10FFFF \<or> \<not> (if q = 0 then lre_js_is_ident_first e c else lre_js_is_ident_next e c) \<or> q + UTF8_CHAR_LEN_MAX + 1 > n)"
      by (auto simp: group_name_loop.simps [of e n buf q p] split: option.splits if_splits)
    have "length r \<le> length p' \<and> ch r = CHR ''>''"
      using 1(1) [OF False g refl refl c refl] 1(2) False g c by (simp add: group_name_loop.simps [of e n buf q p] Let_def split: if_splits)
    moreover have "length p' \<le> length p" using group_char_shorter [OF g] c by (auto simp: NUL_no_ident split: if_splits)
    ultimately show ?thesis by simp
  qed
qed

lemma re_parse_group_name_shorter: "re_parse_group_name e b n p = Some (b', Some r) \<Longrightarrow> length r < length p"
proof -
  assume "re_parse_group_name e b n p = Some (b', Some r)"
  then obtain b1 q r1 where "group_name_loop e n b 0 p = Some (b1, Some (q, r1))" "r = tl r1"
    by (auto simp: re_parse_group_name_def split: option.splits if_splits)
  with group_name_loop_shorter [OF this(1)] show ?thesis by (cases r1) auto
qed

subsection \<open>Counting the groups\<close>

fun skip_class :: "byte list \<Rightarrow> byte list" where
  "skip_class [] = []"
| "skip_class (c # p) = (if c = CHR 0x5D then c # p else if c = CHR 0x5C then skip_class (tl p) else skip_class p)"

lemma skip_class_shorter: "length (skip_class p) \<le> length p"
  by (induction p rule: skip_class.induct) auto

text \<open>
  The loop of \<open>re_parse_captures\<close>: the index of the group with the name (if one is asked for and found), the index it has come to,
  and whether there are named groups.
\<close>

function captures_loop :: "re_env \<Rightarrow> string option \<Rightarrow> byte list \<Rightarrow> nat \<Rightarrow> bool \<Rightarrow> (nat option \<times> nat \<times> bool) option" where
  "captures_loop e capture_name p capture_index named =
     (if p = [] then Some (None, capture_index, named)
      else if ch p = CHR ''('' then
        if ch (drop 1 p) = CHR ''?'' then
          if ch (drop 2 p) = CHR ''<'' \<and> ch (drop 3 p) \<noteq> CHR ''='' \<and> ch (drop 3 p) \<noteq> CHR ''!'' then
            (case (case capture_name of
                     None \<Rightarrow> Some (False, p)
                   | Some nm \<Rightarrow> (case re_parse_group_name e (replicate TMP_BUF_SIZE NUL) TMP_BUF_SIZE (drop 3 p) of
                                   None \<Rightarrow> None
                                 | Some (name, None) \<Rightarrow> Some (False, drop 3 p)
                                 | Some (name, Some p) \<Rightarrow> Some (strcmp (cstr name) nm = 0, p))) of
               None \<Rightarrow> None
             | Some (True, p) \<Rightarrow> Some (Some capture_index, capture_index, True)
             | Some (False, p') \<Rightarrow>
                 if capture_index + 1 \<ge> CAPTURE_COUNT_MAX then Some (None, capture_index + 1, True)
                 else captures_loop e capture_name (drop 1 p') (capture_index + 1) True)
          else captures_loop e capture_name (drop 1 p) capture_index named
        else if capture_index + 1 \<ge> CAPTURE_COUNT_MAX then Some (None, capture_index + 1, named)
        else captures_loop e capture_name (drop 1 p) (capture_index + 1) named
      else if ch p = CHR 0x5C then captures_loop e capture_name (drop 2 p) capture_index named
      else if ch p = CHR ''['' then
        captures_loop e capture_name (drop 1 (skip_class (drop (1 + (if ch p = CHR 0x5D then 1 else 0)) p))) capture_index named
      else captures_loop e capture_name (drop 1 p) capture_index named)"
  by pat_completeness auto
termination
proof (relation "measure (\<lambda>(e, nm, p, i, named). length p)", goal_cases)
  case (2 e nm p i named b f p')
  then have "length p' \<le> length p"
    by (auto split: option.splits dest!: re_parse_group_name_shorter)
  with 2 show ?case by (cases p) (auto simp: Suc_le_eq)
next
  case (6 e nm p i named)
  then show ?case using skip_class_shorter [of "drop 1 p"] by (cases p) auto
qed auto

declare captures_loop.simps [simp del]

definition re_parse_captures :: "re_env \<Rightarrow> string option \<Rightarrow> (nat option \<times> nat \<times> bool) option" where
  "re_parse_captures e capture_name = captures_loop e capture_name (buf_start e) 1 False"

definition re_count_captures :: "re_env \<Rightarrow> re_parse \<Rightarrow> nat parse" where
  "re_count_captures e s =
     (case total_capture_count s of
        Some n \<Rightarrow> Done n s
      | None \<Rightarrow> reading (re_parse_captures e None) (\<lambda>(_, n, named).
                  Done n (s\<lparr>total_capture_count := Some n, has_named_captures := Some named\<rparr>)))"

definition re_has_named_captures :: "re_env \<Rightarrow> re_parse \<Rightarrow> bool parse" where
  "re_has_named_captures e s =
     (case has_named_captures s of
        Some b \<Rightarrow> Done b s
      | None \<Rightarrow> and_then (re_count_captures e s) (\<lambda>_ s. Done (has_named_captures s = Some True) s))"

text \<open>\<open>find_group_name\<close>: the names stand one behind the other, each with its terminator.\<close>

function find_name :: "string \<Rightarrow> nat \<Rightarrow> byte list \<Rightarrow> nat option option" where
  "find_name name capture_index names =
     (if names = [] then Some None
      else if NUL \<notin> set names then None
      else if cstr names = name then Some (Some capture_index)
      else find_name name (capture_index + 1) (drop (length (cstr names) + 1) names))"
  by pat_completeness auto
termination
  by (relation "measure (\<lambda>(name, i, names). length names)") auto

declare find_name.simps [simp del]

definition find_group_name :: "re_parse \<Rightarrow> string \<Rightarrow> nat option option" where
  "find_group_name s name = find_name name 1 (content (group_names s))"

end
