(* ===== verification/Re_Class.thy ===== *)
theory Re_Class
  imports Re_Lex
begin

section \<open>Character classes and the emission of byte code (libregexp.c)\<close>

text \<open>
  The functions that put instructions behind the byte code ignore a failed allocation, as the source does: the buffer remembers
  it.  An atom of a class is a code point or, when it is at least \<open>CLASS_RANGE_BASE\<close>, a set.
\<close>

subsection \<open>Emission\<close>

definition u32 :: "int \<Rightarrow> nat" where "u32 x = nat (x mod 2 ^ 32)"

definition emit :: "re_env \<Rightarrow> byte list \<Rightarrow> re_parse \<Rightarrow> re_parse" where
  "emit e data s = s\<lparr>byte_code := snd (dbuf_put (code_alloc e) (byte_code s) data)\<rparr>"

definition here :: "re_parse \<Rightarrow> nat" where "here s = used (byte_code s)"

definition op_byte :: "reop \<Rightarrow> byte" where "op_byte op = char_of (opcode op)"

definition re_emit_op :: "re_env \<Rightarrow> reop \<Rightarrow> re_parse \<Rightarrow> re_parse" where
  "re_emit_op e op s = emit e [op_byte op] s"

text \<open>These two give the offset of the number, too.\<close>

definition re_emit_op_u32 :: "re_env \<Rightarrow> reop \<Rightarrow> nat \<Rightarrow> re_parse \<Rightarrow> nat \<times> re_parse" where
  "re_emit_op_u32 e op val s = (let s = re_emit_op e op s in (here s, emit e (put_u32 val) s))"

definition re_emit_goto :: "re_env \<Rightarrow> reop \<Rightarrow> nat \<Rightarrow> re_parse \<Rightarrow> nat \<times> re_parse" where
  "re_emit_goto e op val s = (let s = re_emit_op e op s in (here s, emit e (put_u32 (u32 (int val - int (here s + 4)))) s))"

definition re_emit_op_u8 :: "re_env \<Rightarrow> reop \<Rightarrow> nat \<Rightarrow> re_parse \<Rightarrow> re_parse" where
  "re_emit_op_u8 e op val s = emit e [char_of val] (re_emit_op e op s)"

definition re_emit_op_u16 :: "re_env \<Rightarrow> reop \<Rightarrow> nat \<Rightarrow> re_parse \<Rightarrow> re_parse" where
  "re_emit_op_u16 e op val s = emit e (put_u16 val) (re_emit_op e op s)"

subsection \<open>Predefined classes\<close>

definition char_range_d :: "nat list" where "char_range_d = [1, 0x0030, 0x0039 + 1]"

definition char_range_s :: "nat list" where
  "char_range_s = [10, 0x0009, 0x000D + 1, 0x0020, 0x0020 + 1, 0x00A0, 0x00A0 + 1, 0x1680, 0x1680 + 1, 0x2000, 0x200A + 1,
     0x2028, 0x2029 + 1, 0x202F, 0x202F + 1, 0x205F, 0x205F + 1, 0x3000, 0x3000 + 1, 0xFEFF, 0xFEFF + 1]"

definition char_range_w :: "nat list" where
  "char_range_w = [4, 0x0030, 0x0039 + 1, 0x0041, 0x005A + 1, 0x005F, 0x005F + 1, 0x0061, 0x007A + 1]"

definition char_range_table :: "nat list list" where
  "char_range_table = [char_range_d, char_range_s, char_range_w]"

fun space_loop :: "nat \<Rightarrow> nat list \<Rightarrow> bool" where
  "space_loop c (low # high # t) = (if c < low then False else if c < high then True else space_loop c t)"
| "space_loop c t = False"

definition lre_is_space :: "nat \<Rightarrow> bool" where
  "lre_is_space c = space_loop c (tl char_range_s)"

definition CLASS_RANGE_BASE :: nat where "CLASS_RANGE_BASE = 0x40000000"

datatype char_range_enum = CHAR_RANGE_d | CHAR_RANGE_D | CHAR_RANGE_s | CHAR_RANGE_S | CHAR_RANGE_w | CHAR_RANGE_W

fun range_index :: "char_range_enum \<Rightarrow> nat" where
  "range_index CHAR_RANGE_d = 0" | "range_index CHAR_RANGE_D = 1" | "range_index CHAR_RANGE_s = 2"
| "range_index CHAR_RANGE_S = 3" | "range_index CHAR_RANGE_w = 4" | "range_index CHAR_RANGE_W = 5"

fun add_points :: "alloc \<Rightarrow> char_range \<Rightarrow> nat list \<Rightarrow> char_range option" where
  "add_points al cr [] = Some cr"
| "add_points al cr (v # vs) = do { cr \<leftarrow> cr_add_point al cr (of_nat v); add_points al cr vs }"

definition cr_init_char_range :: "re_env \<Rightarrow> char_range_enum \<Rightarrow> char_range option" where
  "cr_init_char_range e c =
     (let c_pt = char_range_table ! drop_bit 1 (range_index c) in
      do { cr \<leftarrow> add_points (set_alloc e) cr_init (take (2 * hd c_pt) (tl c_pt));
           if odd (range_index c) then cr_invert (set_alloc e) cr else Some cr })"

definition cr_canonicalize :: "alloc \<Rightarrow> char_range \<Rightarrow> char_range option" where
  "cr_canonicalize al cr =
     do { a \<leftarrow> cr_op al cr_init (points cr) [97, 122 + 1] CR_OP_INTER;
          cr_union1 al cr (map (\<lambda>p. p + (65 - 97)) (points a)) }"

subsection \<open>Atoms\<close>

definition is_unicode_char :: "char \<Rightarrow> bool" where
  "is_unicode_char x \<longleftrightarrow>
     (let c = of_char x :: nat in (48 \<le> c \<and> c \<le> 57) \<or> (65 \<le> c \<and> c \<le> 90) \<or> (97 \<le> c \<and> c \<le> 122) \<or> c = 95)"

text \<open>The set that a property names; \<open>Some (Inl msg)\<close> is an unknown one, \<open>None\<close> is no memory.\<close>

definition unicode_property :: "unicode_data \<Rightarrow> string \<Rightarrow> string \<Rightarrow> (string + char_range) option" where
  "unicode_property u name value =
     (if name = ''Script'' \<or> name = ''sc'' \<or> name = ''Script_Extensions'' \<or> name = ''scx'' then
        map_option (\<lambda>r. case r of None \<Rightarrow> Inl ''unknown unicode script'' | Some cr \<Rightarrow> Inr cr)
          (unicode_script u value (name = ''Script_Extensions'' \<or> name = ''scx''))
      else if name = ''General_Category'' \<or> name = ''gc'' then
        map_option (\<lambda>r. case r of None \<Rightarrow> Inl ''unknown unicode general category'' | Some cr \<Rightarrow> Inr cr)
          (unicode_general_category u value)
      else if value = [] then
        do { r \<leftarrow> unicode_general_category u name;
             (case r of
                Some cr \<Rightarrow> Some (Inr cr)
              | None \<Rightarrow> map_option (\<lambda>r. case r of None \<Rightarrow> Inl ''unknown unicode property name'' | Some cr \<Rightarrow> Inr cr) (unicode_prop u name)) }
      else Some (Inl ''unknown unicode property name''))"

definition parse_unicode_property :: "re_env \<Rightarrow> byte list \<Rightarrow> bool \<Rightarrow> re_parse \<Rightarrow> (char_range \<times> byte list) parse" where
  "parse_unicode_property e p is_inv s =
     (if ch p \<noteq> CHR ''{'' then re_parse_error (''expecting '' @ [CHR 0x27, CHR ''{'', CHR 0x27] @ '' after '' @ [CHR 0x5C, CHR ''p'']) s
      else
        let name = takeWhile is_unicode_char (tl p); p = dropWhile is_unicode_char (tl p) in
        if length name \<ge> 64 then re_parse_error ''unknown unicode property name'' s
        else
          let value = (if ch p = CHR ''='' then takeWhile is_unicode_char (tl p) else []);
              p = (if ch p = CHR ''='' then dropWhile is_unicode_char (tl p) else p)
          in if length value \<ge> 64 then re_parse_error ''unknown unicode property value'' s
             else if ch p \<noteq> CHR 0x7D then re_parse_error (''expecting '' @ [CHR 0x27, CHR 0x7D, CHR 0x27]) s
             else (case unicode_property (unicode e) name value of
                     None \<Rightarrow> re_parse_out_of_memory s
                   | Some (Inl msg) \<Rightarrow> re_parse_error msg s
                   | Some (Inr cr) \<Rightarrow>
                       if is_inv then (case cr_invert (set_alloc e) cr of None \<Rightarrow> Failed s | Some cr \<Rightarrow> Done (cr, tl p) s)
                       else Done (cr, tl p) s))"

text \<open>The label \<open>normal_char\<close> of \<open>get_class_atom\<close>.\<close>

definition normal_char :: "re_env \<Rightarrow> byte list \<Rightarrow> re_parse \<Rightarrow> (nat \<times> char_range option \<times> byte list) parse" where
  "normal_char e p s =
     (if of_char (ch p) \<ge> (128 :: nat) then
        reading (from_utf8 p) (\<lambda>(c, p).
          if (c < 0 \<or> c > 0xffff) \<and> \<not> utf16_mode e then re_parse_error ''malformed unicode char'' s
          else if c < 0 then Failed s
          else Done (nat c, None, p) s)
      else Done (of_char (ch p), None, tl p) s)"

definition class_letter :: "char \<Rightarrow> char_range_enum option" where
  "class_letter c =
     (if c = CHR ''d'' then Some CHAR_RANGE_d else if c = CHR ''D'' then Some CHAR_RANGE_D
      else if c = CHR ''s'' then Some CHAR_RANGE_s else if c = CHR ''S'' then Some CHAR_RANGE_S
      else if c = CHR ''w'' then Some CHAR_RANGE_w else if c = CHR ''W'' then Some CHAR_RANGE_W else None)"

definition is_letter :: "char \<Rightarrow> bool" where
  "is_letter x \<longleftrightarrow> (let c = of_char x :: nat in (97 \<le> c \<and> c \<le> 122) \<or> (65 \<le> c \<and> c \<le> 90))"

definition get_class_atom :: "re_env \<Rightarrow> byte list \<Rightarrow> bool \<Rightarrow> re_parse \<Rightarrow> (nat \<times> char_range option \<times> byte list) parse" where
  "get_class_atom e p inclass s =
     (if ch p = CHR 0x5C then
        let p = tl p; c = ch p; bad = ''invalid escape sequence in regular expression'' in
        if p = [] then re_parse_error ''unexpected end'' s
        else (case class_letter c of
                Some k \<Rightarrow> (case cr_init_char_range e k of None \<Rightarrow> Failed s | Some cr \<Rightarrow> Done (CLASS_RANGE_BASE, Some cr, tl p) s)
              | None \<Rightarrow>
                  if c = CHR ''c'' then
                    let d = ch (tl p) in
                    if is_letter d \<or> (is_digit d \<or> d = CHR ''_'') \<and> inclass \<and> \<not> utf16_mode e
                    then Done (of_char d AND 0x1f, None, drop 2 p) s
                    else if utf16_mode e then re_parse_error bad s
                    else Done (0x5C, None, p) s
                  else if (c = CHR ''p'' \<or> c = CHR ''P'') \<and> utf16_mode e then
                    and_then (parse_unicode_property e (tl p) (c = CHR ''P'') s) (\<lambda>(cr, p) s. Done (CLASS_RANGE_BASE, Some cr, p) s)
                  else (case lre_parse_escape p (if utf16_mode e then 2 else 0) of
                          Escape v q \<Rightarrow> Done (v, None, q) s
                        | r \<Rightarrow> if r = Unknown_escape \<and> c \<noteq> NUL \<and> c \<in> set (''^$'' @ [CHR 0x5C] @ ''.*+?()[]{}|/'') then normal_char e p s
                               else if utf16_mode e then re_parse_error bad s
                               else normal_char e p s))
      else if p = [] then re_parse_error ''unexpected end'' s
      else normal_char e p s)"

subsection \<open>Ranges\<close>

fun emit_points16 :: "re_env \<Rightarrow> code_point list \<Rightarrow> re_parse \<Rightarrow> re_parse" where
  "emit_points16 e (a # b # pt) s =
     (let high = b - 1 in
      emit_points16 e pt (emit e (put_u16 (if high = UINT32_MAX - 1 then 0xffff else unat high)) (emit e (put_u16 (unat a)) s)))"
| "emit_points16 e pt s = s"

fun emit_points32 :: "re_env \<Rightarrow> code_point list \<Rightarrow> re_parse \<Rightarrow> re_parse" where
  "emit_points32 e (a # b # pt) s = emit_points32 e pt (emit e (put_u32 (unat (b - 1))) (emit e (put_u32 (unat a)) s))"
| "emit_points32 e pt s = s"

definition re_emit_range :: "re_env \<Rightarrow> char_range \<Rightarrow> re_parse \<Rightarrow> unit parse" where
  "re_emit_range e cr s =
     (let pt = points cr; len = length pt div 2 in
      if len \<ge> 65535 then re_parse_error ''too many ranges'' s
      else if len = 0 then Done () (snd (re_emit_op_u32 e REOP_char32 (u32 (-1)) s))
      else
        let high = (if last pt = UINT32_MAX then pt ! (length pt - 2) else last pt) in
        if high \<le> 0xffff then Done () (emit_points16 e pt (re_emit_op_u16 e REOP_range len s))
        else Done () (emit_points32 e pt (re_emit_op_u16 e REOP_range32 len s)))"

subsection \<open>Classes in brackets\<close>

lemma dropWhile_le: "length (dropWhile P p) \<le> length p"
  by (induction p) auto

lemma parse_unicode_property_shorter:
  assumes "parse_unicode_property e p i s = Done (cr, q) s'"
  shows "length q < length p"
proof -
  let ?p1 = "dropWhile is_unicode_char (tl p)"
  let ?p2 = "if ch ?p1 = CHR ''='' then dropWhile is_unicode_char (tl ?p1) else ?p1"
  have "ch p = CHR ''{''" "q = tl ?p2"
    using assms unfolding parse_unicode_property_def Let_def re_parse_error_def re_parse_out_of_memory_def
    by (simp_all split: if_splits option.splits sum.splits)
  moreover have "length ?p1 \<le> length (tl p)" "length ?p2 \<le> length ?p1"
    using dropWhile_le [of is_unicode_char "tl p"] dropWhile_le [of is_unicode_char "tl ?p1"] by auto
  ultimately show ?thesis by (cases p) auto
qed

lemma normal_char_shorter: "normal_char e p s = Done (c, cr, q) s' \<Longrightarrow> p \<noteq> [] \<Longrightarrow> length q < length p"
  using from_utf8_shorter [of p]
  by (cases p) (auto simp: normal_char_def re_parse_error_def reading_def split: if_splits option.splits)

text \<open>The rest behind the result of a parser is at most \<open>n\<close> long.\<close>

definition within :: "nat \<Rightarrow> (nat \<times> char_range option \<times> byte list) parse \<Rightarrow> bool" where
  "within n r \<longleftrightarrow> (\<forall>c cr q s. r = Done (c, cr, q) s \<longrightarrow> length q \<le> n)"

lemma withinI:
  "length q \<le> n \<Longrightarrow> within n (Done (c, cr, q) s)" "within n (Failed s)" "within n (re_parse_error msg s)"
  "within n x \<Longrightarrow> within n y \<Longrightarrow> within n (if b then x else y)"
  "within n x \<Longrightarrow> (\<And>a. within n (f a)) \<Longrightarrow> within n (case oa of None \<Rightarrow> x | Some a \<Rightarrow> f a)"
  by (auto simp: within_def re_parse_error_def split: if_splits option.splits)

lemma within_escape:
  assumes "length p \<le> n" "within n x" "within n y"
  shows "within n (case lre_parse_escape p u of Escape v q \<Rightarrow> Done (v, None, q) s | Malformed \<Rightarrow> x | Unknown_escape \<Rightarrow> y)"
  using assms lre_parse_escape_shorter [of p u] by (fastforce simp: within_def split: escape.splits)

lemma within_property:
  "length p \<le> n \<Longrightarrow> within n (and_then (parse_unicode_property e p i s) (\<lambda>(cr, p) s. Done (c, Some cr, p) s))"
  by (auto simp: within_def and_then_def split: parse.splits dest!: parse_unicode_property_shorter)

lemma within_normal: "p \<noteq> [] \<Longrightarrow> length p \<le> n \<Longrightarrow> within n (normal_char e p s)"
  unfolding within_def using normal_char_shorter [of e p s] by fastforce

lemma get_class_atom_shorter:
  assumes "get_class_atom e p b s = Done (c, cr, q) s'"
  shows "length q < length p"
proof (cases "ch p = CHR 0x5C \<and> tl p \<noteq> []")
  case True
  then obtain x p' where p: "p = CHR 0x5C # x # p'" by (cases p; cases "tl p") auto
  have "within (length (x # p')) (get_class_atom e p b s)"
    unfolding p get_class_atom_def Let_def ch_simps list.sel simp_thms if_True
    by (intro withinI within_escape within_property within_normal) simp_all
  with assms p show ?thesis by (simp add: within_def)
next
  case False
  with assms show ?thesis
    by (auto simp: get_class_atom_def re_parse_error_def Let_def split: if_splits dest!: normal_char_shorter)
qed

text \<open>The label \<open>class_atom\<close>: the atom is added to the set.\<close>

definition add_atom :: "alloc \<Rightarrow> char_range \<Rightarrow> nat \<Rightarrow> char_range option \<Rightarrow> char_range option option" where
  "add_atom al cr c1 cr1 =
     (if c1 \<ge> CLASS_RANGE_BASE then (case cr1 of None \<Rightarrow> None | Some a \<Rightarrow> Some (cr_union1 al cr (points a)))
      else Some (cr_union_interval al cr (of_nat c1) (of_nat c1)))"

function class_loop :: "re_env \<Rightarrow> char_range \<Rightarrow> byte list \<Rightarrow> re_parse \<Rightarrow> (char_range \<times> byte list) parse" where
  "class_loop e cr p s =
     (if ch p = CHR 0x5D then Done (cr, p) s
      else case get_class_atom e p True s of
             Failed s \<Rightarrow> Failed s
           | Fault \<Rightarrow> Fault
           | No_fuel \<Rightarrow> No_fuel
           | Done (c1, cr1, p1) s \<Rightarrow>
               let dash = (ch p1 = CHR ''-'' \<and> ch (tl p1) \<noteq> CHR 0x5D) in
               if dash \<and> c1 < CLASS_RANGE_BASE then
                 (case get_class_atom e (tl p1) True s of
                    Failed s \<Rightarrow> Failed s
                  | Fault \<Rightarrow> Fault
                  | No_fuel \<Rightarrow> No_fuel
                  | Done (c2, cr2, p2) s \<Rightarrow>
                      if c2 \<ge> CLASS_RANGE_BASE then
                        if cr2 = None then Fault
                        else if utf16_mode e then re_parse_error ''invalid class range'' s
                        else (case cr_union_interval (set_alloc e) cr (of_nat c1) (of_nat c1) of
                                None \<Rightarrow> re_parse_out_of_memory s
                              | Some cr \<Rightarrow> class_loop e cr p1 s)
                      else if c2 < c1 then re_parse_error ''invalid class range'' s
                      else (case cr_union_interval (set_alloc e) cr (of_nat c1) (of_nat c2) of
                              None \<Rightarrow> re_parse_out_of_memory s
                            | Some cr \<Rightarrow> class_loop e cr p2 s))
               else if dash \<and> utf16_mode e then (if cr1 = None then Fault else re_parse_error ''invalid class range'' s)
               else (case add_atom (set_alloc e) cr c1 cr1 of
                       None \<Rightarrow> Fault
                     | Some None \<Rightarrow> re_parse_out_of_memory s
                     | Some (Some cr) \<Rightarrow> class_loop e cr p1 s))"
  by pat_completeness auto
termination
proof (relation "measure (\<lambda>(e, cr, p, s). length p)", goal_cases)
  case (3 e cr p s x s1 c1 y cr1 p1 dash x2 s2 c2 y2 cr2 p2 cr')
  then show ?case using get_class_atom_shorter [of e p True s c1 cr1 p1 s1] get_class_atom_shorter [of e "tl p1" True s1 c2 cr2 p2 s2] by simp
qed (auto dest!: get_class_atom_shorter)

declare class_loop.simps [simp del]

text \<open>\<open>p\<close> is at the opening bracket.\<close>

definition re_parse_char_class :: "re_env \<Rightarrow> byte list \<Rightarrow> re_parse \<Rightarrow> byte list parse" where
  "re_parse_char_class e p s =
     (let invert = (ch (tl p) = CHR ''^'');
          p = (if invert then tl (tl p) else tl p)
      in and_then (class_loop e cr_init p s) (\<lambda>(cr, p) s.
           case (if fold_case e then cr_canonicalize (set_alloc e) cr else Some cr) of
             None \<Rightarrow> re_parse_out_of_memory s
           | Some cr \<Rightarrow>
               (case (if invert then cr_invert (set_alloc e) cr else Some cr) of
                  None \<Rightarrow> re_parse_out_of_memory s
                | Some cr \<Rightarrow> and_then (re_emit_range e cr s) (\<lambda>_ s. Done (tl p) s))))"

lemma class_loop_step:
  assumes "class_loop e cr p s = Done (cr', q) s'" "ch p \<noteq> CHR 0x5D"
  shows "\<exists>cr2 p2 s2. class_loop e cr2 p2 s2 = Done (cr', q) s' \<and> length p2 < length p"
proof -
  from assms obtain c1 cr1 p1 s1 where g: "get_class_atom e p True s = Done (c1, cr1, p1) s1"
    by (auto simp: class_loop.simps [of e cr p s] split: parse.splits)
  show ?thesis
  proof (cases "(ch p1 = CHR ''-'' \<and> ch (tl p1) \<noteq> CHR 0x5D) \<and> c1 < CLASS_RANGE_BASE")
    case True
    with assms g obtain c2 cr2 p2 s2 where h: "get_class_atom e (tl p1) True s1 = Done (c2, cr2, p2) s2"
      by (auto simp: class_loop.simps [of e cr p s] split: parse.splits)
    have "length p1 < length p" "length p2 < length p"
      using get_class_atom_shorter [OF g] get_class_atom_shorter [OF h] by simp_all
    with assms g h True show ?thesis
      by (auto simp: class_loop.simps [of e cr p s] re_parse_error_def re_parse_out_of_memory_def split: if_splits option.splits)
  next
    case False
    with assms g get_class_atom_shorter [OF g] show ?thesis
      by (auto simp: class_loop.simps [of e cr p s] re_parse_error_def re_parse_out_of_memory_def Let_def simp del: not_less split: if_splits option.splits)
  qed
qed

lemma class_loop_shorter: "class_loop e cr p s = Done (cr', q) s' \<Longrightarrow> length q \<le> length p \<and> ch q = CHR 0x5D"
proof (induction "length p" arbitrary: cr p s rule: less_induct)
  case less
  show ?case
  proof (cases "ch p = CHR 0x5D")
    case True
    with less.prems show ?thesis by (simp add: class_loop.simps [of e cr p s])
  next
    case False
    with class_loop_step [OF less.prems] less.hyps show ?thesis by (metis less_imp_le less_le_trans not_le)
  qed
qed

lemma re_parse_char_class_shorter: "re_parse_char_class e p s = Done q s' \<Longrightarrow> p \<noteq> [] \<Longrightarrow> length q < length p"
  by (cases p) (auto simp: re_parse_char_class_def Let_def and_then_def re_parse_out_of_memory_def re_parse_error_def
    split: if_splits parse.splits option.splits prod.splits dest!: class_loop_shorter)

end
