(* ===== verification/Re_Compile.thy ===== *)
theory Re_Compile
  imports Re_Class
begin

section \<open>Compiling a regular expression (libregexp.c)\<close>

text \<open>
  \<open>re_parse_term\<close> takes the function that parses a disjunction as an argument, and \<open>re_parse_disjunction\<close> ties the knot.
  The loops over the terms and the alternatives and the nesting have fuel; a lemma below shows that the length of the pattern is enough.
  The sizes of the byte code are natural numbers, where the source has \<open>int\<close>.
\<close>

subsection \<open>Analyses of byte code\<close>

text \<open>The instruction at \<open>pos\<close> and its length with the ranges.\<close>

definition op_len :: "byte list \<Rightarrow> nat \<Rightarrow> (reop \<times> nat) option" where
  "op_len bc_buf pos =
     do { op \<leftarrow> get_op bc_buf pos;
          let len = reopcode_info ! opcode op;
          if op = REOP_range then do { val \<leftarrow> get_u16 bc_buf (pos + 1); Some (op, len + val * 4) }
          else if op = REOP_range32 then do { val \<leftarrow> get_u16 bc_buf (pos + 1); Some (op, len + val * 8) }
          else Some (op, len) }"

lemma reopcode_info_pos: "0 < reopcode_info ! opcode op"
  by (cases op) (simp_all add: reopcode_info_def)

lemma op_len_pos: "op_len b pos = Some (op, len) \<Longrightarrow> 0 < len"
  using reopcode_info_pos [of op] by (auto simp: op_len_def Let_def split: bind_splits if_splits)

definition is_simple_char :: "reop \<Rightarrow> bool" where
  "is_simple_char op \<longleftrightarrow> op \<in> {REOP_range, REOP_range32, REOP_char, REOP_char32, REOP_dot, REOP_any}"

text \<open>\<open>re_check_advance\<close>: \<open>ret\<close> is \<open>None\<close> as long as it is not known; \<open>capture_bitmap\<close> has an entry per group.\<close>

definition mark_capture :: "nat \<Rightarrow> nat \<Rightarrow> nat list \<Rightarrow> nat list option" where
  "mark_capture v val bm = (if val < length bm then Some (bm[val := bm ! val OR v]) else None)"

definition advance_step :: "byte list \<Rightarrow> nat \<Rightarrow> reop \<Rightarrow> int option \<times> bool \<times> nat list \<Rightarrow> (int option \<times> bool \<times> nat list) option" where
  "advance_step bc_buf pos op st =
     (case st of (ret, has_back_reference, bm) \<Rightarrow>
        if is_simple_char op then Some (if ret = None then Some 1 else ret, has_back_reference, bm)
        else if op \<in> {REOP_line_start, REOP_line_end, REOP_push_i32, REOP_push_char_pos, REOP_drop, REOP_word_boundary, REOP_not_word_boundary, REOP_prev}
        then Some st
        else if op = REOP_save_start \<or> op = REOP_save_end then
          do { val \<leftarrow> get_u8 bc_buf (pos + 1); bm \<leftarrow> mark_capture 1 val bm; Some (ret, has_back_reference, bm) }
        else if op = REOP_save_reset then
          do { val \<leftarrow> get_u8 bc_buf (pos + 1); last' \<leftarrow> get_u8 bc_buf (pos + 2);
               bm \<leftarrow> fold (\<lambda>i r. Option.bind r (mark_capture 1 i)) [val..<last'] (Some bm);
               Some (ret, has_back_reference, bm) }
        else if op = REOP_back_reference \<or> op = REOP_backward_back_reference then
          do { val \<leftarrow> get_u8 bc_buf (pos + 1); bm \<leftarrow> mark_capture 2 val bm; Some (ret, True, bm) }
        else Some (if ret = None then Some 0 else ret, has_back_reference, bm))"

function advance_loop :: "byte list \<Rightarrow> nat \<Rightarrow> int option \<times> bool \<times> nat list \<Rightarrow> (int option \<times> bool \<times> nat list) option" where
  "advance_loop bc_buf pos st =
     (if pos < length bc_buf then
        (case op_len bc_buf pos of
           None \<Rightarrow> None
         | Some (op, len) \<Rightarrow> (case advance_step bc_buf pos op st of None \<Rightarrow> None | Some st \<Rightarrow> advance_loop bc_buf (pos + len) st))
      else Some st)"
  by pat_completeness auto
termination
  by (relation "measure (\<lambda>(b, pos, st). length b - pos)") (auto dest!: op_len_pos)

declare advance_loop.simps [simp del]

definition re_check_advance :: "byte list \<Rightarrow> int option" where
  "re_check_advance bc_buf =
     map_option (\<lambda>(ret, has_back_reference, bm).
         if has_back_reference \<and> 3 \<in> set bm then -1 else case ret of None \<Rightarrow> 0 | Some r \<Rightarrow> r)
       (advance_loop bc_buf 0 (None, False, replicate CAPTURE_COUNT_MAX 0))"

text \<open>\<open>re_is_simple_quantifier\<close>: the number of characters, or \<open>Some None\<close> for the result \<open>-1\<close>.\<close>

function simple_loop :: "byte list \<Rightarrow> nat \<Rightarrow> nat \<Rightarrow> nat option option" where
  "simple_loop bc_buf pos chars =
     (if pos < length bc_buf then
        (case op_len bc_buf pos of
           None \<Rightarrow> None
         | Some (op, len) \<Rightarrow>
             if is_simple_char op then simple_loop bc_buf (pos + len) (chars + 1)
             else if op \<in> {REOP_line_start, REOP_line_end, REOP_word_boundary, REOP_not_word_boundary} then simple_loop bc_buf (pos + len) chars
             else Some None)
      else Some (Some chars))"
  by pat_completeness auto
termination
  by (relation "measure (\<lambda>(b, pos, n). length b - pos)") (auto dest!: op_len_pos)

declare simple_loop.simps [simp del]

definition re_is_simple_quantifier :: "byte list \<Rightarrow> nat option option" where
  "re_is_simple_quantifier bc_buf = simple_loop bc_buf 0 0"

text \<open>\<open>compute_stack_size\<close>: \<open>Some None\<close> is the result \<open>-1\<close>, \<open>None\<close> a failed assertion.\<close>

function stack_loop :: "byte list \<Rightarrow> nat \<Rightarrow> nat \<Rightarrow> nat \<Rightarrow> nat option option" where
  "stack_loop bc_buf pos sz sz_max =
     (if pos < length bc_buf then
        (case op_len bc_buf pos of
           None \<Rightarrow> None
         | Some (op, len) \<Rightarrow>
             if length bc_buf < pos + reopcode_info ! opcode op then None
             else if op = REOP_push_i32 \<or> op = REOP_push_char_pos then
               if sz + 1 > sz_max \<and> sz + 1 > STACK_SIZE_MAX then Some None
               else stack_loop bc_buf (pos + len) (sz + 1) (max sz_max (sz + 1))
             else if op = REOP_drop \<or> op = REOP_bne_char_pos then
               if sz = 0 then None else stack_loop bc_buf (pos + len) (sz - 1) sz_max
             else stack_loop bc_buf (pos + len) sz sz_max)
      else Some (Some sz_max))"
  by pat_completeness auto
termination
  by (relation "measure (\<lambda>(b, pos, n, m). length b - pos)") (auto dest!: op_len_pos)

declare stack_loop.simps [simp del]

definition compute_stack_size :: "byte list \<Rightarrow> nat option option" where
  "compute_stack_size bc_buf = stack_loop (drop RE_HEADER_LEN bc_buf) 0 0 0"

subsection \<open>Changes of the byte code\<close>

definition code_from :: "nat \<Rightarrow> re_parse \<Rightarrow> byte list" where
  "code_from start s = drop start (content (byte_code s))"

text \<open>\<open>dbuf_insert\<close> and its error path, and the stores to the byte code.\<close>

definition insert_code :: "re_env \<Rightarrow> nat \<Rightarrow> nat \<Rightarrow> re_parse \<Rightarrow> unit parse" where
  "insert_code e pos len s =
     (case dbuf_insert (code_alloc e) (byte_code s) pos len of
        (True, b) \<Rightarrow> Done () (s\<lparr>byte_code := b\<rparr>)
      | (False, b) \<Rightarrow> re_parse_out_of_memory (s\<lparr>byte_code := b\<rparr>))"

definition poke :: "nat \<Rightarrow> byte list \<Rightarrow> re_parse \<Rightarrow> unit parse" where
  "poke pos data s = reading (dbuf_poke (byte_code s) pos data) (\<lambda>b. Done () (s\<lparr>byte_code := b\<rparr>))"

text \<open>Put instructions in front of the code at \<open>pos\<close>.\<close>

definition prepend :: "re_env \<Rightarrow> nat \<Rightarrow> byte list \<Rightarrow> re_parse \<Rightarrow> unit parse" where
  "prepend e pos data s = and_then (insert_code e pos (length data) s) (\<lambda>_ s. poke pos data s)"

text \<open>\<open>dbuf_put_self\<close>; its result is ignored.\<close>

definition copy_code :: "re_env \<Rightarrow> nat \<Rightarrow> nat \<Rightarrow> re_parse \<Rightarrow> unit parse" where
  "copy_code e pos len s = reading (dbuf_put_self (code_alloc e) (byte_code s) pos len) (\<lambda>(_, b). Done () (s\<lparr>byte_code := b\<rparr>))"

subsection \<open>Quantifiers\<close>

definition split_first :: "bool \<Rightarrow> reop" where
  "split_first greedy = (if greedy then REOP_split_next_first else REOP_split_goto_first)"

definition split_last :: "bool \<Rightarrow> reop" where
  "split_last greedy = (if greedy then REOP_split_goto_first else REOP_split_next_first)"

text \<open>The minimum is 0.\<close>

definition quantify_from_zero :: "re_env \<Rightarrow> nat \<Rightarrow> nat \<Rightarrow> nat \<Rightarrow> bool \<Rightarrow> bool \<Rightarrow> re_parse \<Rightarrow> unit parse" where
  "quantify_from_zero e start len quant_max greedy check s =
     (if quant_max = 0 then Done () (s\<lparr>byte_code := (byte_code s)\<lparr>used := start\<rparr>\<rparr>)
      else if quant_max = 1 then prepend e start (op_byte (split_first greedy) # put_u32 len) s
      else if quant_max = INT32_MAX then
        and_then (prepend e start (op_byte (split_first greedy) # put_u32 (len + 5 + of_bool check) @ (if check then [op_byte REOP_push_char_pos] else [])) s)
          (\<lambda>_ s. Done () (snd (re_emit_goto e (if check then REOP_bne_char_pos else REOP_goto) start s)))
      else
        and_then (prepend e start (op_byte REOP_push_i32 # put_u32 quant_max @ op_byte (split_first greedy) # put_u32 (len + 5)) s)
          (\<lambda>_ s. Done () (re_emit_op e REOP_drop (snd (re_emit_goto e REOP_loop (start + 5) s)))))"

text \<open>The rest behind the first \<open>quant_min\<close> copies, which begin at \<open>start\<close>.\<close>

definition quantify_rest :: "re_env \<Rightarrow> nat \<Rightarrow> nat \<Rightarrow> nat \<Rightarrow> nat \<Rightarrow> bool \<Rightarrow> bool \<Rightarrow> re_parse \<Rightarrow> unit parse" where
  "quantify_rest e start len quant_min quant_max greedy check s =
     (if quant_max = INT32_MAX then
        let pos = here s;
            s = snd (re_emit_op_u32 e (split_first greedy) (len + 5 + of_bool check) s);
            s = (if check then re_emit_op e REOP_push_char_pos s else s)
        in and_then (copy_code e start len s)
             (\<lambda>_ s. Done () (snd (re_emit_goto e (if check then REOP_bne_char_pos else REOP_goto) pos s)))
      else if quant_max > quant_min then
        let s = snd (re_emit_op_u32 e REOP_push_i32 (quant_max - quant_min) s);
            pos = here s;
            s = snd (re_emit_op_u32 e (split_first greedy) (len + 5) s)
        in and_then (copy_code e start len s)
             (\<lambda>_ s. Done () (re_emit_op e REOP_drop (snd (re_emit_goto e REOP_loop pos s))))
      else Done () s)"

definition quantify_general :: "re_env \<Rightarrow> nat \<Rightarrow> nat \<Rightarrow> nat \<Rightarrow> nat \<Rightarrow> bool \<Rightarrow> bool \<Rightarrow> re_parse \<Rightarrow> unit parse" where
  "quantify_general e start last_captures quant_min quant_max greedy check s =
     (let len = here s - start in
      if quant_min = 0 then
        if last_captures \<noteq> captures s then
          and_then (prepend e start [op_byte REOP_save_reset, char_of last_captures, char_of (captures s - 1)] s)
            (\<lambda>_ s. quantify_from_zero e (start + 3) len quant_max greedy check s)
        else quantify_from_zero e start len quant_max greedy check s
      else if quant_min = 1 \<and> quant_max = INT32_MAX \<and> \<not> check then Done () (snd (re_emit_goto e (split_last greedy) start s))
      else if quant_min = 1 then quantify_rest e start len quant_min quant_max greedy check s
      else
        and_then (prepend e start (op_byte REOP_push_i32 # put_u32 quant_min) s)
          (\<lambda>_ s. quantify_rest e (start + 5) len quant_min quant_max greedy check
                   (re_emit_op e REOP_drop (snd (re_emit_goto e REOP_loop (start + 5) s)))))"

text \<open>The instructions of a quantifier for the atom at \<open>start\<close>.\<close>

definition quantify :: "re_env \<Rightarrow> nat \<Rightarrow> nat \<Rightarrow> nat \<Rightarrow> nat \<Rightarrow> bool \<Rightarrow> re_parse \<Rightarrow> unit parse" where
  "quantify e start last_captures quant_min quant_max greedy s =
     (if \<not> greedy then quantify_general e start last_captures quant_min quant_max greedy False s
      else if dbuf_error (byte_code s) then re_parse_out_of_memory s
      else
        reading (if quant_max > 0 then re_is_simple_quantifier (code_from start s) else Some None) (\<lambda>simple.
          case simple of
            Some (Suc n) \<Rightarrow>
              let s = re_emit_op e REOP_match s in
              and_then (insert_code e start 17 s) (\<lambda>_ s.
                poke start (op_byte REOP_simple_greedy_quant # put_u32 (here s - start - 17) @ put_u32 quant_min @ put_u32 quant_max @ put_u32 (Suc n)) s)
          | _ \<Rightarrow>
              reading (re_check_advance (code_from start s)) (\<lambda>advance.
                quantify_general e start last_captures quant_min quant_max greedy (advance = 0) s)))"

text \<open>
  The text of a quantifier: \<open>None\<close> when there is none, else the bounds and what follows.
  \<open>parse_digits\<close> with overflow allowed always gives a number.
\<close>

definition parse_braces :: "re_env \<Rightarrow> byte list \<Rightarrow> re_parse \<Rightarrow> (nat \<times> nat \<times> byte list) option parse" where
  "parse_braces e p s =
     (if \<not> is_digit (ch (tl p)) then
        if utf16_mode e then re_parse_error ''invalid repetition count'' s else Done None s
      else
        reading (parse_digits (tl p) True) (\<lambda>(quant_min, p).
          and_then
            (if ch p = CHR '','' then
               if is_digit (ch (tl p)) then
                 reading (parse_digits (tl p) True) (\<lambda>(quant_max, p).
                   if quant_max < quant_min then re_parse_error ''invalid repetition count'' s else Done (quant_max, p) s)
               else Done (INT32_MAX, tl p) s
             else Done (quant_min, p) s)
            (\<lambda>(quant_max, p) s.
               if ch p \<noteq> CHR 0x7D \<and> \<not> utf16_mode e then Done None s
               else and_then (re_parse_expect p (CHR 0x7D) s) (\<lambda>p s. Done (Some (quant_min, quant_max, p)) s))))"

definition parse_bounds :: "re_env \<Rightarrow> byte list \<Rightarrow> re_parse \<Rightarrow> (nat \<times> nat \<times> byte list) option parse" where
  "parse_bounds e p s =
     (if ch p = CHR ''*'' then Done (Some (0, INT32_MAX, tl p)) s
      else if ch p = CHR ''+'' then Done (Some (1, INT32_MAX, tl p)) s
      else if ch p = CHR ''?'' then Done (Some (0, 1, tl p)) s
      else if ch p = CHR ''{'' then parse_braces e p s
      else Done None s)"

definition re_parse_quantifier :: "re_env \<Rightarrow> nat \<Rightarrow> nat \<Rightarrow> byte list \<Rightarrow> re_parse \<Rightarrow> unit parse" where
  "re_parse_quantifier e start last_captures p s =
     and_then (parse_bounds e p s) (\<lambda>r s.
       case r of
         None \<Rightarrow> Done () (s\<lparr>buf_ptr := p\<rparr>)
       | Some (quant_min, quant_max, p) \<Rightarrow>
           let greedy = (ch p \<noteq> CHR ''?''); p = (if greedy then p else tl p) in
           and_then (quantify e start last_captures quant_min quant_max greedy s) (\<lambda>_ s. Done () (s\<lparr>buf_ptr := p\<rparr>)))"

subsection \<open>Atoms\<close>

text \<open>The result of an atom: its start and the groups before it, when it may be repeated, and what follows it.\<close>

type_synonym atom = "(nat \<times> nat) option \<times> byte list"

definition emit_prev :: "re_env \<Rightarrow> bool \<Rightarrow> re_parse \<Rightarrow> re_parse" where
  "emit_prev e is_backward_dir s = (if is_backward_dir then re_emit_op e REOP_prev s else s)"

text \<open>The label \<open>normal_char\<close> of \<open>re_parse_term\<close>.\<close>

definition emit_char :: "re_env \<Rightarrow> bool \<Rightarrow> nat \<Rightarrow> char_range option \<Rightarrow> byte list \<Rightarrow> re_parse \<Rightarrow> atom parse" where
  "emit_char e is_backward_dir c cr p s =
     (let at_start = Some (here s, captures s); s = emit_prev e is_backward_dir s in
      and_then
        (if c \<ge> CLASS_RANGE_BASE then (case cr of None \<Rightarrow> Fault | Some cr \<Rightarrow> re_emit_range e cr s)
         else
           let c = (if fold_case e then lre_canonicalize (case_conv_of (unicode e)) c (utf16_mode e) else c) in
           Done () (if c \<le> 0xffff then re_emit_op_u16 e REOP_char c s else snd (re_emit_op_u32 e REOP_char32 c s)))
        (\<lambda>_ s. Done (at_start, p) (emit_prev e is_backward_dir s)))"

definition parse_class_atom :: "re_env \<Rightarrow> bool \<Rightarrow> byte list \<Rightarrow> re_parse \<Rightarrow> atom parse" where
  "parse_class_atom e is_backward_dir p s =
     and_then (get_class_atom e p False s) (\<lambda>(c, cr, p) s. emit_char e is_backward_dir c cr p s)"

definition emit_back_reference :: "re_env \<Rightarrow> bool \<Rightarrow> nat \<Rightarrow> byte list \<Rightarrow> re_parse \<Rightarrow> atom parse" where
  "emit_back_reference e is_backward_dir c p s =
     Done (Some (here s, captures s), p)
       (re_emit_op_u8 e (if is_backward_dir then REOP_backward_back_reference else REOP_back_reference) c s)"

text \<open>The failures of a named back reference: an error, or the letter itself when the pattern has no names.\<close>

definition bad_reference :: "re_env \<Rightarrow> bool \<Rightarrow> string \<Rightarrow> byte list \<Rightarrow> re_parse \<Rightarrow> atom parse" where
  "bad_reference e is_backward_dir msg p s =
     (if utf16_mode e then re_parse_error msg s
      else and_then (re_has_named_captures e s) (\<lambda>named s.
             if named then re_parse_error msg s else parse_class_atom e is_backward_dir p s))"

definition parse_named_reference :: "re_env \<Rightarrow> bool \<Rightarrow> byte list \<Rightarrow> re_parse \<Rightarrow> atom parse" where
  "parse_named_reference e is_backward_dir p s =
     (if ch (drop 2 p) \<noteq> CHR ''<'' then bad_reference e is_backward_dir ''expecting group name'' p s
      else
        reading (re_parse_group_name e (tmp_buf s) TMP_BUF_SIZE (drop 3 p)) (\<lambda>(buf, r).
          let s = s\<lparr>tmp_buf := buf\<rparr> in
          case r of
            None \<Rightarrow> bad_reference e is_backward_dir ''invalid group name'' p s
          | Some p1 \<Rightarrow>
              reading (find_group_name s (cstr buf)) (\<lambda>c.
                case c of
                  Some c \<Rightarrow> emit_back_reference e is_backward_dir c p1 s
                | None \<Rightarrow>
                    reading (re_parse_captures e (Some (cstr buf))) (\<lambda>(c, _).
                      case c of
                        Some c \<Rightarrow> emit_back_reference e is_backward_dir c p1 s
                      | None \<Rightarrow> bad_reference e is_backward_dir ''group name not defined'' p s))))"

text \<open>Up to \<open>n\<close> more octal digits.\<close>

fun octal_digits :: "nat \<Rightarrow> nat \<Rightarrow> byte list \<Rightarrow> nat \<times> byte list" where
  "octal_digits 0 c p = (c, p)"
| "octal_digits (Suc n) c p = (if is_octal (ch p) then octal_digits n (push_bit 3 c + digit_value (ch p)) (tl p) else (c, p))"

definition parse_zero :: "re_env \<Rightarrow> bool \<Rightarrow> byte list \<Rightarrow> re_parse \<Rightarrow> atom parse" where
  "parse_zero e is_backward_dir p s =
     (let p = drop 2 p in
      if utf16_mode e then
        if is_digit (ch p) then re_parse_error ''invalid decimal escape in regular expression'' s
        else emit_char e is_backward_dir 0 None p s
      else case octal_digits 2 0 p of (c, p) \<Rightarrow> emit_char e is_backward_dir c None p s)"

text \<open>A number that is no group is an octal number, or the digit itself.\<close>

definition legacy_octal :: "byte list \<Rightarrow> nat \<times> byte list" where
  "legacy_octal q =
     (if of_char (ch q) \<le> (55 :: nat) then
        if of_char (ch q) \<le> (51 :: nat) then octal_digits 2 (digit_value (ch q)) (tl q) else octal_digits 2 0 q
      else (of_char (ch q), tl q))"

definition parse_reference :: "re_env \<Rightarrow> bool \<Rightarrow> byte list \<Rightarrow> re_parse \<Rightarrow> atom parse" where
  "parse_reference e is_backward_dir p s =
     (let q = tl p;
          no_group = (\<lambda>s. if \<not> utf16_mode e then (case legacy_octal q of (c, p) \<Rightarrow> emit_char e is_backward_dir c None p s)
                          else re_parse_error ''back reference out of range in regular expression'' s)
      in case parse_digits q False of
           None \<Rightarrow> no_group s
         | Some (c, p) \<Rightarrow>
             if c < captures s then emit_back_reference e is_backward_dir c p s
             else and_then (re_count_captures e s) (\<lambda>n s.
                    if c \<ge> n then no_group s else emit_back_reference e is_backward_dir c p s))"

definition parse_backslash :: "re_env \<Rightarrow> bool \<Rightarrow> byte list \<Rightarrow> re_parse \<Rightarrow> atom parse" where
  "parse_backslash e is_backward_dir p s =
     (let c = ch (tl p) in
      if c = CHR ''b'' then Done (None, drop 2 p) (re_emit_op e REOP_word_boundary s)
      else if c = CHR ''B'' then Done (None, drop 2 p) (re_emit_op e REOP_not_word_boundary s)
      else if c = CHR ''k'' then parse_named_reference e is_backward_dir p s
      else if c = CHR ''0'' then parse_zero e is_backward_dir p s
      else if is_digit c then parse_reference e is_backward_dir p s
      else parse_class_atom e is_backward_dir p s)"

subsection \<open>Groups\<close>

text \<open>\<open>parse_disj\<close> parses a disjunction: its first argument is the direction.\<close>

type_synonym disjunction_parser = "bool \<Rightarrow> re_parse \<Rightarrow> unit parse"

definition parse_capture :: "disjunction_parser \<Rightarrow> re_env \<Rightarrow> bool \<Rightarrow> byte list \<Rightarrow> re_parse \<Rightarrow> atom parse" where
  "parse_capture parse_disj e is_backward_dir p s =
     (if captures s \<ge> CAPTURE_COUNT_MAX then re_parse_error ''too many captures'' s
      else
        let start = here s; capture_index = captures s;
            s = s\<lparr>captures := captures s + 1\<rparr>;
            s = re_emit_op_u8 e (if is_backward_dir then REOP_save_end else REOP_save_start) capture_index s
        in and_then (parse_disj is_backward_dir (s\<lparr>buf_ptr := p\<rparr>)) (\<lambda>_ s.
             let p = buf_ptr s;
                 s = re_emit_op_u8 e (if is_backward_dir then REOP_save_start else REOP_save_end) capture_index s
             in and_then (re_parse_expect p (CHR '')'') s) (\<lambda>p s. Done (Some (start, capture_index), p) s)))"

definition parse_lookahead :: "disjunction_parser \<Rightarrow> re_env \<Rightarrow> bool \<Rightarrow> bool \<Rightarrow> byte list \<Rightarrow> re_parse \<Rightarrow> atom parse" where
  "parse_lookahead parse_disj e is_neg is_backward_lookahead p s =
     (let at_start = (if \<not> utf16_mode e \<and> \<not> is_backward_lookahead then Some (here s, captures s) else None) in
      case re_emit_op_u32 e (if is_neg then REOP_negative_lookahead else REOP_lookahead) 0 s of (pos, s) \<Rightarrow>
        and_then (parse_disj is_backward_lookahead (s\<lparr>buf_ptr := p\<rparr>)) (\<lambda>_ s.
          and_then (re_parse_expect (buf_ptr s) (CHR '')'') s) (\<lambda>p s.
            let s = re_emit_op e REOP_match s in
            if dbuf_error (byte_code s) then Failed s
            else and_then (poke pos (put_u32 (u32 (int (here s) - int (pos + 4)))) s) (\<lambda>_ s. Done (at_start, p) s))))"

definition parse_group :: "disjunction_parser \<Rightarrow> re_env \<Rightarrow> bool \<Rightarrow> byte list \<Rightarrow> re_parse \<Rightarrow> atom parse" where
  "parse_group parse_disj e is_backward_dir p s =
     (if ch (drop 1 p) = CHR ''?'' then
        if ch (drop 2 p) = CHR '':'' then
          let at_start = Some (here s, captures s) in
          and_then (parse_disj is_backward_dir (s\<lparr>buf_ptr := drop 3 p\<rparr>)) (\<lambda>_ s.
            and_then (re_parse_expect (buf_ptr s) (CHR '')'') s) (\<lambda>p s. Done (at_start, p) s))
        else if ch (drop 2 p) = CHR ''='' \<or> ch (drop 2 p) = CHR ''!'' then
          parse_lookahead parse_disj e (ch (drop 2 p) = CHR ''!'') False (drop 3 p) s
        else if ch (drop 2 p) = CHR ''<'' \<and> (ch (drop 3 p) = CHR ''='' \<or> ch (drop 3 p) = CHR ''!'') then
          parse_lookahead parse_disj e (ch (drop 3 p) = CHR ''!'') True (drop 4 p) s
        else if ch (drop 2 p) = CHR ''<'' then
          reading (re_parse_group_name e (tmp_buf s) TMP_BUF_SIZE (drop 3 p)) (\<lambda>(buf, r).
            let s = s\<lparr>tmp_buf := buf\<rparr> in
            case r of
              None \<Rightarrow> re_parse_error ''invalid group name'' s
            | Some p \<Rightarrow>
                reading (find_group_name s (cstr buf)) (\<lambda>c.
                  if c \<noteq> None then re_parse_error ''duplicate group name'' s
                  else parse_capture parse_disj e is_backward_dir p
                         (s\<lparr>group_names := snd (dbuf_put (names_alloc e) (group_names s) (cstr buf @ [NUL])), has_named_captures := Some True\<rparr>)))
        else re_parse_error ''invalid group'' s
      else
        parse_capture parse_disj e is_backward_dir (drop 1 p)
          (s\<lparr>group_names := snd (dbuf_putc (names_alloc e) (group_names s) 0)\<rparr>))"

subsection \<open>Terms, alternatives, disjunctions\<close>

text \<open>An opening brace that is no repetition count is an atom.\<close>

definition looks_like_count :: "byte list \<Rightarrow> bool option" where
  "looks_like_count p =
     do { (_, p1) \<leftarrow> parse_digits (tl p) True;
          if ch p1 = CHR '','' \<and> is_digit (ch (tl p1)) then
            do { (_, p1) \<leftarrow> parse_digits (tl p1) True; Some (ch p1 = CHR 0x7D) }
          else Some (ch (if ch p1 = CHR '','' then tl p1 else p1) = CHR 0x7D) }"

definition parse_atom :: "disjunction_parser \<Rightarrow> re_env \<Rightarrow> bool \<Rightarrow> re_parse \<Rightarrow> atom parse" where
  "parse_atom parse_disj e is_backward_dir s =
     (let p = buf_ptr s; c = ch p in
      if c = CHR ''^'' then Done (None, tl p) (re_emit_op e REOP_line_start s)
      else if c = CHR ''$'' then Done (None, tl p) (re_emit_op e REOP_line_end s)
      else if c = CHR ''.'' then
        Done (Some (here s, captures s), tl p)
          (emit_prev e is_backward_dir (re_emit_op e (if dotall e then REOP_any else REOP_dot) (emit_prev e is_backward_dir s)))
      else if c = CHR ''{'' then
        if utf16_mode e then re_parse_error ''syntax error'' s
        else if \<not> is_digit (ch (tl p)) then parse_class_atom e is_backward_dir p s
        else reading (looks_like_count p) (\<lambda>b. if b then re_parse_error ''nothing to repeat'' s else parse_class_atom e is_backward_dir p s)
      else if c = CHR ''*'' \<or> c = CHR ''+'' \<or> c = CHR ''?'' then re_parse_error ''nothing to repeat'' s
      else if c = CHR ''('' then parse_group parse_disj e is_backward_dir p s
      else if c = CHR 0x5C then parse_backslash e is_backward_dir p s
      else if c = CHR ''['' then
        let at_start = Some (here s, captures s) in
        and_then (re_parse_char_class e p (emit_prev e is_backward_dir s)) (\<lambda>p s. Done (at_start, p) (emit_prev e is_backward_dir s))
      else if (c = CHR 0x5D \<or> c = CHR 0x7D) \<and> utf16_mode e then re_parse_error ''syntax error'' s
      else parse_class_atom e is_backward_dir p s)"

definition re_parse_term :: "disjunction_parser \<Rightarrow> re_env \<Rightarrow> bool \<Rightarrow> re_parse \<Rightarrow> unit parse" where
  "re_parse_term parse_disj e is_backward_dir s =
     and_then (parse_atom parse_disj e is_backward_dir s) (\<lambda>(at_start, p) s.
       case at_start of
         None \<Rightarrow> Done () (s\<lparr>buf_ptr := p\<rparr>)
       | Some (start, last_captures) \<Rightarrow> re_parse_quantifier e start last_captures p s)"

text \<open>In a lookbehind the code of a term is moved in front of the terms before it.\<close>

definition move_term :: "re_env \<Rightarrow> nat \<Rightarrow> nat \<Rightarrow> re_parse \<Rightarrow> unit parse" where
  "move_term e start term_start s =
     (let end = here s; term_size = end - term_start in
      case dbuf_realloc (code_alloc e) (byte_code s) (end + term_size) of
        (False, b) \<Rightarrow> Failed (s\<lparr>byte_code := b\<rparr>)
      | (True, b) \<Rightarrow>
          let m1 = write_at (mem b) (start + term_size) (slice start end (mem b));
              m2 = write_at m1 start (slice end (end + term_size) m1)
          in Done () (s\<lparr>byte_code := b\<lparr>mem := m2\<rparr>\<rparr>))"

fun re_parse_alternative :: "nat \<Rightarrow> disjunction_parser \<Rightarrow> re_env \<Rightarrow> bool \<Rightarrow> nat \<Rightarrow> re_parse \<Rightarrow> unit parse" where
  "re_parse_alternative 0 parse_disj e is_backward_dir start s = No_fuel"
| "re_parse_alternative (Suc k) parse_disj e is_backward_dir start s =
     (if buf_ptr s = [] \<or> ch (buf_ptr s) = CHR ''|'' \<or> ch (buf_ptr s) = CHR '')'' then Done () s
      else
        let term_start = here s in
        and_then (re_parse_term parse_disj e is_backward_dir s) (\<lambda>_ s.
          and_then (if is_backward_dir then move_term e start term_start s else Done () s) (\<lambda>_ s.
            re_parse_alternative k parse_disj e is_backward_dir start s)))"

fun alternatives_loop :: "nat \<Rightarrow> disjunction_parser \<Rightarrow> re_env \<Rightarrow> bool \<Rightarrow> nat \<Rightarrow> re_parse \<Rightarrow> unit parse" where
  "alternatives_loop 0 parse_disj e is_backward_dir start s = No_fuel"
| "alternatives_loop (Suc k) parse_disj e is_backward_dir start s =
     (if ch (buf_ptr s) \<noteq> CHR ''|'' then Done () s
      else
        let s = s\<lparr>buf_ptr := tl (buf_ptr s)\<rparr>; len = here s - start in
        and_then (prepend e start (op_byte REOP_split_next_first # put_u32 (len + 5)) s) (\<lambda>_ s.
          case re_emit_op_u32 e REOP_goto 0 s of (pos, s) \<Rightarrow>
            and_then (re_parse_alternative k parse_disj e is_backward_dir (here s) s) (\<lambda>_ s.
              and_then (poke pos (put_u32 (u32 (int (here s) - int (pos + 4)))) s) (\<lambda>_ s.
                alternatives_loop k parse_disj e is_backward_dir start s))))"

text \<open>The program does not limit the depth.\<close>

definition lre_check_stack_overflow :: bool where "lre_check_stack_overflow = False"

fun re_parse_disjunction :: "nat \<Rightarrow> re_env \<Rightarrow> disjunction_parser" where
  "re_parse_disjunction 0 e is_backward_dir s = No_fuel"
| "re_parse_disjunction (Suc k) e is_backward_dir s =
     (if lre_check_stack_overflow then re_parse_error ''stack overflow'' s
      else
        let start = here s in
        and_then (re_parse_alternative k (re_parse_disjunction k e) e is_backward_dir start s) (\<lambda>_ s.
          alternatives_loop k (re_parse_disjunction k e) e is_backward_dir start s))"

subsection \<open>The compiler\<close>

datatype compiled = Compiled "byte list" | Compile_error string | Compile_fault | Compile_fuel

definition start_state :: "re_env \<Rightarrow> re_parse" where
  "start_state e =
     \<lparr>byte_code = dbuf_init, buf_ptr = buf_start e, captures = 1, total_capture_count = None, has_named_captures = None,
      group_names = dbuf_init, tmp_buf = replicate TMP_BUF_SIZE NUL\<rparr>"

text \<open>The header and the loop over all positions.\<close>

definition emit_prologue :: "re_env \<Rightarrow> re_parse \<Rightarrow> re_parse" where
  "emit_prologue e s =
     (let s = emit e (put_u32 0) (emit e [NUL] (emit e [NUL] (emit e [char_of (re_flags e)] s)));
          s = (if bit (re_flags e) LRE_FLAG_STICKY then s
               else snd (re_emit_op_u32 e REOP_goto (u32 (- (5 + 1 + 5)))
                     (re_emit_op e REOP_any (snd (re_emit_op_u32 e REOP_split_goto_first (1 + 5) s)))))
      in re_emit_op_u8 e REOP_save_start 0 s)"

text \<open>The last part of \<open>lre_compile\<close>: the header is filled and the names are added.\<close>

definition finish_code :: "re_env \<Rightarrow> re_parse \<Rightarrow> byte list parse" where
  "finish_code e s =
     (let s = re_emit_op e REOP_match (re_emit_op_u8 e REOP_save_end 0 s) in
      if ch (buf_ptr s) \<noteq> NUL then re_parse_error ''extraneous characters at the end'' s
      else if dbuf_error (byte_code s) then re_parse_out_of_memory s
      else
        reading (compute_stack_size (content (byte_code s))) (\<lambda>stack_size.
          case stack_size of
            None \<Rightarrow> re_parse_error ''too many imbricated quantifiers'' s
          | Some sz \<Rightarrow>
              and_then (poke RE_HEADER_CAPTURE_COUNT [char_of (captures s), char_of sz] s) (\<lambda>_ s.
              and_then (poke 3 (put_u32 (here s - RE_HEADER_LEN)) s) (\<lambda>_ s.
                if used (group_names s) > captures s - 1 then
                  let s = emit e (content (group_names s)) s in
                  reading (get_u8 (mem (byte_code s)) RE_HEADER_FLAGS) (\<lambda>f.
                    and_then (poke RE_HEADER_FLAGS [char_of (f OR 2 ^ LRE_FLAG_NAMED_GROUPS)] s) (\<lambda>_ s.
                      Done (content (byte_code s)) s))
                else Done (content (byte_code s)) s))))"

text \<open>The nesting and the number of terms are bounded by the length of the pattern.\<close>

definition lre_compile :: "re_env \<Rightarrow> nat \<Rightarrow> compiled" where
  "lre_compile e error_msg_size =
     (case and_then (re_parse_disjunction (length (buf_start e) + 2) e False (emit_prologue e (start_state e))) (\<lambda>_ s. finish_code e s) of
        Done code s \<Rightarrow> Compiled code
      | Failed s \<Rightarrow>
          if NUL \<notin> set (tmp_buf s) then Compile_fault
          else (case pstrcpy (replicate error_msg_size NUL) 0 (int error_msg_size) (cstr (tmp_buf s)) of
                  None \<Rightarrow> Compile_fault
                | Some msg \<Rightarrow> Compile_error (cstr msg))
      | Fault \<Rightarrow> Compile_fault
      | No_fuel \<Rightarrow> Compile_fuel)"

end
