(* ===== verification/Stream_Chain.thy ===== *)
theory Stream_Chain
  imports Prelude
begin

section \<open>The stream chain buffer (stream.c)\<close>

text \<open>
  A stream is a chain of nodes of \<open>BUFSIZE\<close> bytes; \<open>head\<close> is where the next byte of a
  node is written and \<open>tail\<close> where the next byte is read.  The chain that starts at
  \<open>s->first\<close> is the list \<open>nodes\<close>; the pointer \<open>s->last\<close> into the chain is the index
  \<open>last_node\<close> of its node (\<open>None\<close> for a null pointer).  Following a null pointer is the
  result \<open>None\<close> of an operation.
\<close>

definition BUFSIZE :: nat where
  "BUFSIZE = 4096"

record stream_node =
  data :: "byte list"
  tail :: nat
  head :: nat

record stream =
  nodes :: "stream_node list"
  last_node :: "nat option"
  count :: nat

subsection \<open>Operations\<close>

definition stream_new :: stream where
  "stream_new = \<lparr>nodes = [], last_node = None, count = 0\<rparr>"

text \<open>A node that \<open>malloc\<close> returned and \<open>stream_put\<close> initialised.\<close>

definition fresh_node :: stream_node where
  "fresh_node = \<lparr>data = replicate BUFSIZE NUL, tail = 0, head = 0\<rparr>"

text \<open>
  The number of nodes that \<open>stream_put\<close> adds, computed in \<open>size_t\<close>: when the last node
  has room for more than \<open>c\<close> bytes, the difference \<open>c - cap\<close> wraps around.
\<close>

definition stream_cap :: "stream \<Rightarrow> size_t" where
  "stream_cap s = (case last_node s of None \<Rightarrow> 0
     | Some l \<Rightarrow> of_nat BUFSIZE - of_nat (head (nodes s ! l)))"

definition stream_put_num :: "stream \<Rightarrow> nat \<Rightarrow> nat" where
  "stream_put_num s c =
     unat (((of_nat c - stream_cap s) + (of_nat BUFSIZE - 1)) div of_nat BUFSIZE)"

text \<open>The loop that copies the data into the chain, from the node \<open>l\<close> on.\<close>

definition node_write :: "stream_node \<Rightarrow> byte list \<Rightarrow> stream_node" where
  "node_write n bs = n\<lparr>data := write_at (data n) (head n) bs, head := head n + length bs\<rparr>"

function stream_fill :: "stream_node list \<Rightarrow> nat \<Rightarrow> byte list \<Rightarrow> (stream_node list \<times> nat) option" where
  "stream_fill ns l bs =
     (if bs = [] then Some (ns, l)
      else let room = BUFSIZE - head (ns ! l);
               l' = (if room = 0 then Suc l else l);
               block = min (length bs) (if room = 0 then BUFSIZE else room)
           in if l' < length ns
              then stream_fill (ns[l' := node_write (ns ! l') (take block bs)]) l' (drop block bs)
              else None)"
  by pat_completeness auto
termination
  by (relation "measure (\<lambda>(ns, l, bs). length bs)") (auto simp: BUFSIZE_def Let_def)

declare stream_fill.simps [simp del]

definition stream_put :: "alloc \<Rightarrow> stream \<Rightarrow> byte list \<Rightarrow> (int \<times> stream) option" where
  "stream_put al s bs =
     (let c = length bs; num = stream_put_num s c in
      if c = 0 then Some (0, s)
      else if \<not> (\<forall>i < num. al i) then Some (- ENOMEM, s)
      else let new = replicate num fresh_node;
               (ns, last) =
                 (if num = 0 then (nodes s, last_node s)
                  else case last_node s of
                         None \<Rightarrow> (new, Some 0)
                       | Some l \<Rightarrow> (take (Suc l) (nodes s) @ new, Some l))
           in case last of
                None \<Rightarrow> None
              | Some l \<Rightarrow>
                  (case stream_fill ns l bs of
                     None \<Rightarrow> None
                   | Some (ns', l') \<Rightarrow>
                       Some (0, \<lparr>nodes = ns', last_node = Some l', count = count s + c\<rparr>)))"

definition stream_putc :: "alloc \<Rightarrow> stream \<Rightarrow> byte \<Rightarrow> (int \<times> stream) option" where
  "stream_putc al s c = stream_put al s [c]"

definition stream_putstrn :: "alloc \<Rightarrow> stream \<Rightarrow> byte list \<Rightarrow> (int \<times> stream) option" where
  "stream_putstrn al s str = stream_put al s str"

text \<open>
  \<open>stream_vputs\<close> formats into a buffer of 256 bytes, or into an allocated one when the
  result does not fit; \<open>str\<close> is what \<open>vsnprintf\<close> produces and \<open>tmp\<close> says whether the
  allocation of the larger buffer succeeds.  The result of \<open>stream_putstrn\<close> is not
  looked at.  The length is an \<open>int\<close>: a text of \<open>INT_MAX\<close> bytes or more makes it overflow or
  negative, and a negative length is then taken for a huge one.
\<close>

definition INT_MAX :: nat where
  "INT_MAX = 2 ^ 31 - 1"

definition stream_vputs :: "alloc \<Rightarrow> bool \<Rightarrow> stream \<Rightarrow> string \<Rightarrow> (int \<times> stream) option" where
  "stream_vputs al tmp s str =
     (if length str \<ge> INT_MAX then None
      else if length str \<ge> 256 \<and> \<not> tmp then Some (- ENOMEM, s)
      else case stream_putstrn al s str of
             None \<Rightarrow> None
           | Some (_, s') \<Rightarrow> Some (int (length str), s'))"

text \<open>
  The loop of \<open>stream_consume\<close>: \<open>kept\<close> holds the nodes from \<open>s->first\<close> up to \<open>ptr\<close>; a
  node that is read to its end is freed and \<open>s->first\<close> moves behind it.
\<close>

fun consume_loop :: "stream_node list \<Rightarrow> stream_node list \<Rightarrow> nat \<Rightarrow> stream_node list" where
  "consume_loop kept [] c = kept"
| "consume_loop kept (n # ns) c =
     (if c = 0 then kept @ n # ns
      else let block = min c (head n - tail n);
               n' = n\<lparr>tail := tail n + block\<rparr>
           in if tail n' = BUFSIZE then consume_loop [] ns (c - block)
              else consume_loop (kept @ [n']) ns (c - block))"

definition stream_consume :: "stream \<Rightarrow> nat \<Rightarrow> stream" where
  "stream_consume s c =
     (let c = (if c > count s then count s else c);
          ns = consume_loop [] (nodes s) c
      in \<lparr>nodes = ns,
          last_node = (if ns = [] then None
            else map_option (\<lambda>l. l - (length (nodes s) - length ns)) (last_node s)),
          count = count s - c\<rparr>)"

definition stream_ndata :: "stream \<Rightarrow> nat" where
  "stream_ndata s = count s"

fun get_loop :: "stream_node list \<Rightarrow> nat \<Rightarrow> byte list" where
  "get_loop [] c = []"
| "get_loop (n # ns) c =
     (if c = 0 then []
      else if tail n = BUFSIZE then get_loop ns c
      else let block = min c (head n - tail n)
           in slice (tail n) (tail n + block) (data n) @ get_loop ns (c - block))"

definition stream_get :: "stream \<Rightarrow> nat \<Rightarrow> byte list \<times> int \<times> stream" where
  "stream_get s c =
     (if count s = 0 then ([], 0, s)
      else let c = (if c > count s then count s else c)
           in (get_loop (nodes s) c, int c, stream_consume s c))"

definition node_bytes :: "stream_node \<Rightarrow> byte list" where
  "node_bytes n = slice (tail n) (head n) (data n)"

text \<open>The vectors that \<open>stream_iovec\<close> hands to \<open>writev\<close>; \<open>Inl\<close> is an error code.\<close>

definition stream_iovec :: "bool \<Rightarrow> stream \<Rightarrow> int + byte list list" where
  "stream_iovec mem s =
     (if nodes s = [] then Inr []
      else if \<not> mem then Inl (- ENOMEM)
      else Inr (map node_bytes (nodes s)))"

text \<open>
  \<open>writev\<close> is the system call: its result is the number of bytes it took, or negative.
\<close>

definition stream_flush :: "(byte list list \<Rightarrow> int) \<Rightarrow> bool \<Rightarrow> stream \<Rightarrow> int \<times> stream" where
  "stream_flush writev mem s =
     (case stream_iovec mem s of
        Inl e \<Rightarrow> (e, s)
      | Inr iov \<Rightarrow>
          if iov = [] then (0, s)
          else let n = writev iov
               in (n, if n > 0 then stream_consume s (nat n) else s))"

text \<open>\<open>stream_dump\<close> writes what is unread in each node to standard output.\<close>

definition stream_dump :: "stream \<Rightarrow> byte list list" where
  "stream_dump s = map node_bytes (nodes s)"

subsection \<open>Invariant and abstraction\<close>

definition stream_bytes :: "stream \<Rightarrow> byte list" where
  "stream_bytes s = concat (map node_bytes (nodes s))"

definition node_wf :: "stream_node \<Rightarrow> bool" where
  "node_wf n \<longleftrightarrow> length (data n) = BUFSIZE \<and> tail n \<le> head n \<and> head n \<le> BUFSIZE \<and> tail n < BUFSIZE"

text \<open>
  Every node but the last is written to its end, and no node is read to its end: such a
  node has been freed.
\<close>

definition chain_wf :: "stream_node list \<Rightarrow> bool" where
  "chain_wf ns \<longleftrightarrow> list_all node_wf ns \<and> list_all (\<lambda>n. head n = BUFSIZE) (butlast ns)"

definition stream_wf :: "stream \<Rightarrow> bool" where
  "stream_wf s \<longleftrightarrow> chain_wf (nodes s)
     \<and> last_node s = (if nodes s = [] then None else Some (length (nodes s) - 1))
     \<and> count s = length (stream_bytes s)"

subsection \<open>Lemmas on chains\<close>

lemma chain_wf_Nil [simp]: "chain_wf []"
  by (simp add: chain_wf_def)

lemma chain_wf_single [simp]: "chain_wf [n] \<longleftrightarrow> node_wf n"
  by (simp add: chain_wf_def)

lemma chain_wf_Cons2 [simp]:
  "chain_wf (n # m # ns) \<longleftrightarrow> node_wf n \<and> head n = BUFSIZE \<and> chain_wf (m # ns)"
  by (auto simp: chain_wf_def)

lemma chain_wf_append:
  "ms \<noteq> [] \<Longrightarrow> chain_wf (ns @ ms) \<longleftrightarrow>
     list_all (\<lambda>n. node_wf n \<and> head n = BUFSIZE) ns \<and> chain_wf ms"
  by (auto simp: chain_wf_def butlast_append list_all_iff)

lemma chain_wf_tl: "chain_wf (n # ns) \<Longrightarrow> chain_wf ns"
  by (cases ns) auto

lemma length_node_bytes: "node_wf n \<Longrightarrow> length (node_bytes n) = head n - tail n"
  by (simp add: node_bytes_def node_wf_def)

lemma node_wf_fresh [simp]: "node_wf fresh_node"
  by (simp add: node_wf_def fresh_node_def BUFSIZE_def)

lemma fresh_node_sel [simp]: "tail fresh_node = 0" "head fresh_node = 0"
  "node_bytes fresh_node = []"
  by (simp_all add: fresh_node_def node_bytes_def)

lemma node_wf_write [simp]:
  "node_wf n \<Longrightarrow> head n + length bs \<le> BUFSIZE \<Longrightarrow> node_wf (node_write n bs)"
  by (auto simp: node_wf_def node_write_def)

lemma node_write_sel [simp]:
  "head (node_write n bs) = head n + length bs" "tail (node_write n bs) = tail n"
  by (simp_all add: node_write_def)

lemma node_bytes_write [simp]:
  "node_wf n \<Longrightarrow> node_bytes (node_write n bs) = node_bytes n @ bs"
  by (simp add: node_bytes_def node_write_def node_wf_def slice_write_at)

text \<open>
  The copying loop, started at the node \<open>n\<close> with \<open>k\<close> fresh nodes behind it, when the
  data needs exactly those nodes: it never leaves the chain, and the chain it leaves is
  well formed and holds the data behind what \<open>n\<close> held.
\<close>

lemma stream_fill_chain:
  assumes "node_wf n" "length bs \<le> (BUFSIZE - head n) + k * BUFSIZE"
    and "k > 0 \<Longrightarrow> (BUFSIZE - head n) + (k - 1) * BUFSIZE < length bs"
  shows "\<exists>ms. stream_fill (pre @ n # replicate k fresh_node) (length pre) bs
           = Some (pre @ ms, length pre + k)
         \<and> length ms = Suc k \<and> chain_wf ms \<and> concat (map node_bytes ms) = node_bytes n @ bs"
  using assms
proof (induction "length bs" arbitrary: pre n k bs rule: less_induct)
  case less
  let ?ns = "pre @ n # replicate k fresh_node"
  show ?case
  proof (cases "bs = []")
    case True
    with less.prems have "k = 0" by auto
    with True less.prems show ?thesis
      by (simp add: stream_fill.simps [of _ _ "[]"] exI [of _ "[n]"])
  next
    case False
    let ?room = "BUFSIZE - head n"
    have hd: "head n \<le> BUFSIZE" using less.prems by (simp add: node_wf_def)
    show ?thesis
    proof (cases "?room = 0")
      case True
      with False less.prems obtain k' where k: "k = Suc k'"
        by (cases k) auto
      let ?b = "min (length bs) BUFSIZE"
      let ?m = "node_write fresh_node (take ?b bs)"
      have step: "stream_fill ?ns (length pre) bs =
          stream_fill ((pre @ [n]) @ ?m # replicate k' fresh_node) (length (pre @ [n])) (drop ?b bs)"
        using False True
        by (subst stream_fill.simps) (simp add: Let_def k list_update_append nth_append)
      have lt: "length (drop ?b bs) < length bs"
        using False by (simp add: BUFSIZE_def)
      have need: "k' > 0 \<Longrightarrow> (BUFSIZE - head ?m) + (k' - 1) * BUFSIZE < length (drop ?b bs)"
        using less.prems(3) True k by (cases k') auto
      have "\<exists>ms. stream_fill ((pre @ [n]) @ ?m # replicate k' fresh_node) (length (pre @ [n])) (drop ?b bs)
           = Some ((pre @ [n]) @ ms, length (pre @ [n]) + k')
         \<and> length ms = Suc k' \<and> chain_wf ms
         \<and> concat (map node_bytes ms) = node_bytes ?m @ drop ?b bs"
        using less.prems True k need by (intro less.hyps [OF lt]) auto
      then obtain ms where ms: "stream_fill ?ns (length pre) bs = Some (pre @ n # ms, length pre + k)"
        "length ms = Suc k'" "chain_wf ms" "concat (map node_bytes ms) = bs"
        using step k by auto
      moreover have "chain_wf (n # ms)"
        using ms less.prems(1) True hd by (cases ms) auto
      ultimately show ?thesis
        using k by (intro exI [of _ "n # ms"]) simp
    next
      case room: False
      let ?b = "min (length bs) ?room"
      let ?m = "node_write n (take ?b bs)"
      have step: "stream_fill ?ns (length pre) bs =
          stream_fill (pre @ ?m # replicate k fresh_node) (length pre) (drop ?b bs)"
        using False room by (subst stream_fill.simps) (simp add: Let_def)
      have lt: "length (drop ?b bs) < length bs"
        using False room by simp
      have "\<exists>ms. stream_fill (pre @ ?m # replicate k fresh_node) (length pre) (drop ?b bs)
           = Some (pre @ ms, length pre + k)
         \<and> length ms = Suc k \<and> chain_wf ms
         \<and> concat (map node_bytes ms) = node_bytes ?m @ drop ?b bs"
        using less.prems hd by (intro less.hyps [OF lt]) auto
      then show ?thesis
        using step less.prems(1) by auto
    qed
  qed
qed

text \<open>
  The \<open>size_t\<close> computation of the number of nodes, with its wrap-around, is the least
  number of nodes that the data needs beyond the room of the last node.
\<close>

lemma put_num_exact:
  assumes "0 < c" "c \<le> 2 ^ 64 - BUFSIZE" "cap \<le> BUFSIZE"
  shows "unat (((of_nat c - of_nat cap :: size_t) + (of_nat BUFSIZE - 1)) div of_nat BUFSIZE)
     = (c + (BUFSIZE - 1) - cap) div BUFSIZE"
proof -
  have "(of_nat c - of_nat cap :: size_t) + (of_nat BUFSIZE - 1) = of_nat (c + (BUFSIZE - 1) - cap)"
    using assms by (simp add: BUFSIZE_def)
  moreover have "unat (of_nat (c + (BUFSIZE - 1) - cap) :: size_t) = c + (BUFSIZE - 1) - cap"
    using assms by (intro unat_of_nat_less) (simp add: BUFSIZE_def)
  moreover have "unat (of_nat BUFSIZE :: size_t) = BUFSIZE"
    by (simp add: BUFSIZE_def)
  ultimately show ?thesis
    by (simp add: unat_div)
qed

subsection \<open>stream\_put\<close>

lemma stream_cap_eq:
  "stream_wf s \<Longrightarrow> stream_cap s = of_nat (if nodes s = [] then 0 else BUFSIZE - head (last (nodes s)))"
  by (auto simp: stream_cap_def stream_wf_def chain_wf_def list_all_iff node_wf_def last_conv_nth)

lemma stream_put_num_eq:
  assumes "stream_wf s" "0 < c" "c \<le> 2 ^ 64 - BUFSIZE"
  shows "stream_put_num s c
     = (c + (BUFSIZE - 1) - (if nodes s = [] then 0 else BUFSIZE - head (last (nodes s)))) div BUFSIZE"
  using assms by (simp add: stream_put_num_def stream_cap_eq put_num_exact)

text \<open>The nodes that are added are enough, and the last of them is needed.\<close>

lemma ceil_div_bounds:
  fixes b c cap :: nat
  assumes "0 < b" "cap \<le> b" "0 < c"
  defines "k \<equiv> (c + (b - 1) - cap) div b"
  shows "c \<le> cap + k * b" and "k > 0 \<Longrightarrow> cap + (k - 1) * b < c"
proof -
  let ?x = "c + (b - 1) - cap"
  have "?x < Suc k * b"
    unfolding k_def using assms(1) by (metis dividend_less_div_times mult_Suc)
  then show "c \<le> cap + k * b" using assms by simp
  have "k * b \<le> ?x" unfolding k_def by simp
  then show "k > 0 \<Longrightarrow> cap + (k - 1) * b < c" using assms(1-3) by (cases k) auto
qed

lemma stream_put_succeeds:
  assumes wf: "stream_wf s" and small: "length bs \<le> 2 ^ 64 - BUFSIZE"
    and al: "\<forall>i < stream_put_num s (length bs). al i"
  shows "\<exists>s'. stream_put al s bs = Some (0, s') \<and> stream_wf s'
     \<and> stream_bytes s' = stream_bytes s @ bs"
proof (cases "bs = []")
  case True
  with wf show ?thesis by (simp add: stream_put_def)
next
  case False
  let ?k = "stream_put_num s (length bs)"
  show ?thesis
  proof (cases "nodes s = []")
    case True
    then have k: "?k = (length bs + (BUFSIZE - 1)) div BUFSIZE"
      using wf False small by (simp add: stream_put_num_eq)
    have le: "length bs \<le> ?k * BUFSIZE"
      and lt: "?k > 0 \<Longrightarrow> (?k - 1) * BUFSIZE < length bs"
      using ceil_div_bounds [of BUFSIZE 0 "length bs"] False k by (auto simp: BUFSIZE_def)
    obtain j where j: "?k = Suc j"
      using le False by (cases ?k) auto
    with le lt have bnd: "length bs \<le> ?k * BUFSIZE" "(?k - 1) * BUFSIZE < length bs"
      by auto
    have "j > 0 \<Longrightarrow> (BUFSIZE - head fresh_node) + (j - 1) * BUFSIZE < length bs"
      using bnd(2) j by (cases j) auto
    then obtain ms where "stream_fill (fresh_node # replicate j fresh_node) 0 bs = Some (ms, j)"
      "length ms = Suc j" "chain_wf ms" "concat (map node_bytes ms) = bs"
      using stream_fill_chain [of fresh_node bs j "[]"] bnd(1) j by auto
    with True j al wf False show ?thesis
      by (auto simp: stream_put_def stream_wf_def stream_bytes_def Let_def)
  next
    case nonempty: False
    then obtain pre n where ns: "nodes s = pre @ [n]" by (cases "nodes s" rule: rev_cases) auto
    have n: "node_wf n" and pre: "list_all (\<lambda>n. node_wf n \<and> head n = BUFSIZE) pre"
      using wf by (simp_all add: stream_wf_def ns chain_wf_append)
    have l: "last_node s = Some (length pre)"
      using wf by (simp add: stream_wf_def ns)
    have k: "?k = (length bs + (BUFSIZE - 1) - (BUFSIZE - head n)) div BUFSIZE"
      using wf False small by (simp add: stream_put_num_eq ns)
    have bnd: "length bs \<le> (BUFSIZE - head n) + ?k * BUFSIZE"
      "?k > 0 \<Longrightarrow> (BUFSIZE - head n) + (?k - 1) * BUFSIZE < length bs"
      using ceil_div_bounds [of BUFSIZE "BUFSIZE - head n" "length bs"] False k
      by (auto simp: BUFSIZE_def)
    obtain ms where ms: "stream_fill (pre @ n # replicate ?k fresh_node) (length pre) bs
        = Some (pre @ ms, length pre + ?k)" "length ms = Suc ?k" "chain_wf ms"
      "concat (map node_bytes ms) = node_bytes n @ bs"
      using stream_fill_chain [OF n bnd, of pre] by auto
    let ?s' = "\<lparr>nodes = pre @ ms, last_node = Some (length pre + ?k),
                count = count s + length bs\<rparr>"
    have "stream_put al s bs = Some (0, ?s')"
      using False al l ms(1) by (cases "?k = 0") (simp_all add: stream_put_def Let_def ns)
    moreover have bytes: "stream_bytes ?s' = stream_bytes s @ bs"
      using ms(4) by (simp add: stream_bytes_def ns)
    moreover have "chain_wf (pre @ ms)"
      using ms(2,3) pre by (subst chain_wf_append) auto
    then have "stream_wf ?s'"
      using wf ms(2) bytes by (auto simp: stream_wf_def)
    ultimately show ?thesis by blast
  qed
qed

lemma stream_put_fails:
  "bs \<noteq> [] \<Longrightarrow> i < stream_put_num s (length bs) \<Longrightarrow> \<not> al i \<Longrightarrow>
     stream_put al s bs = Some (- ENOMEM, s)"
  by (auto simp: stream_put_def Let_def)

text \<open>On every branch the stream stays well formed and no null pointer is followed.\<close>

lemma stream_put_cases:
  assumes "stream_wf s" "length bs \<le> 2 ^ 64 - BUFSIZE"
  obtains (ok) s' where "stream_put al s bs = Some (0, s')" "stream_wf s'"
      "stream_bytes s' = stream_bytes s @ bs"
    | (nomem) "stream_put al s bs = Some (- ENOMEM, s)"
proof (cases "\<forall>i < stream_put_num s (length bs). al i")
  case True
  then show ?thesis using stream_put_succeeds [OF assms] ok by blast
next
  case False
  then obtain i where "i < stream_put_num s (length bs)" "\<not> al i" by blast
  then show ?thesis
    using stream_put_fails [of bs i s al] assms ok [of s] nomem
    by (cases "bs = []") (auto simp: stream_put_def)
qed

subsection \<open>stream\_consume and stream\_get\<close>

lemma node_consume:
  assumes "node_wf n" "b \<le> head n - tail n"
  shows "node_bytes (n\<lparr>tail := tail n + b\<rparr>) = drop b (node_bytes n)"
  using assms by (simp add: node_bytes_def drop_slice)

text \<open>
  On a well-formed chain the loop drops the bytes it was asked to drop, and what is left
  is a well-formed suffix of the chain.
\<close>

lemma consume_loop_chain:
  assumes "chain_wf ns" "c \<le> length (concat (map node_bytes ns))"
  shows "chain_wf (consume_loop [] ns c)
     \<and> concat (map node_bytes (consume_loop [] ns c)) = drop c (concat (map node_bytes ns))
     \<and> length (consume_loop [] ns c) \<le> length ns"
  using assms
proof (induction ns arbitrary: c)
  case Nil
  then show ?case by simp
next
  case (Cons n ns)
  have n: "node_wf n" and ns: "chain_wf ns"
    using Cons.prems(1) chain_wf_tl by (cases ns; auto)+
  let ?b = "min c (head n - tail n)" and ?n' = "n\<lparr>tail := tail n + min c (head n - tail n)\<rparr>"
  have len: "length (node_bytes n) = head n - tail n" using n by (rule length_node_bytes)
  show ?case
  proof (cases "c = 0")
    case True
    with Cons.prems show ?thesis by simp
  next
    case False
    show ?thesis
    proof (cases "tail n + ?b = BUFSIZE")
      case True
      have full: "c \<ge> head n - tail n" "head n = BUFSIZE"
        using True n by (auto simp: node_wf_def)
      then have "c - ?b \<le> length (concat (map node_bytes ns))"
        using Cons.prems(2) len by simp
      from Cons.IH [OF ns this] show ?thesis
        using False True full len by (simp add: Let_def min_absorb2)
    next
      case part: False
      have end_chain: "ns = [] \<or> c - ?b = 0"
        using Cons.prems(1) part n by (cases ns) (auto simp: node_wf_def min_def split: if_splits)
      then have eq: "consume_loop [] (n # ns) c = ?n' # ns"
        using False part by (cases ns) (auto simp: Let_def)
      have n': "node_wf ?n'" "head ?n' = head n"
        using n part by (auto simp: node_wf_def)
      have "node_bytes ?n' = drop ?b (node_bytes n)"
        using n by (intro node_consume) auto
      moreover have "drop ?b (node_bytes n) @ concat (map node_bytes ns)
          = drop c (node_bytes n @ concat (map node_bytes ns))"
        using end_chain len Cons.prems(2) by (auto simp: min_def)
      moreover have "chain_wf (?n' # ns)"
        using Cons.prems(1) n' by (cases ns) auto
      ultimately show ?thesis unfolding eq by simp
    qed
  qed
qed

lemma stream_bytes_make [simp]:
  "stream_bytes \<lparr>nodes = ns, last_node = l, count = c\<rparr> = concat (map node_bytes ns)"
  by (simp add: stream_bytes_def)

lemma consume_loop_0 [simp]: "consume_loop [] ns 0 = ns"
  by (cases ns) auto

lemma stream_consume_0: "stream_wf s \<Longrightarrow> stream_consume s 0 = s"
  by (cases s) (auto simp: stream_consume_def stream_wf_def Let_def)

lemma stream_consume_spec:
  assumes "stream_wf s"
  shows "stream_wf (stream_consume s c)"
    and "stream_bytes (stream_consume s c) = drop c (stream_bytes s)"
proof -
  let ?c = "if c > count s then count s else c"
  let ?ns = "consume_loop [] (nodes s) ?c"
  have len: "count s = length (concat (map node_bytes (nodes s)))"
    using assms by (simp add: stream_wf_def stream_bytes_def)
  then have "?c \<le> length (concat (map node_bytes (nodes s)))" by simp
  from consume_loop_chain [OF _ this] assms
  have ns: "chain_wf ?ns" "length ?ns \<le> length (nodes s)"
    "concat (map node_bytes ?ns) = drop ?c (stream_bytes s)"
    by (auto simp: stream_wf_def stream_bytes_def)
  have dr: "drop ?c (stream_bytes s) = drop c (stream_bytes s)"
    using len by (simp add: stream_bytes_def)
  show "stream_bytes (stream_consume s c) = drop c (stream_bytes s)"
    using ns(3) dr by (simp add: stream_consume_def stream_bytes_def Let_def)
  then show "stream_wf (stream_consume s c)"
    using ns assms by (auto simp: stream_wf_def stream_consume_def Let_def)
qed

lemma get_loop_chain:
  assumes "list_all node_wf ns" "c \<le> length (concat (map node_bytes ns))"
  shows "get_loop ns c = take c (concat (map node_bytes ns))"
  using assms
proof (induction ns arbitrary: c)
  case (Cons n ns)
  have n: "node_wf n" and len: "length (node_bytes n) = head n - tail n"
    using Cons.prems length_node_bytes by auto
  have "slice (tail n) (tail n + min c (head n - tail n)) (data n)
      = take (min c (head n - tail n)) (node_bytes n)"
    using n by (simp add: node_bytes_def take_slice)
  with Cons len n show ?case
    by (auto simp: Let_def node_wf_def min_def)
qed simp

lemma stream_get_spec:
  assumes "stream_wf s"
  shows "stream_get s c = (take c (stream_bytes s), int (min c (count s)), stream_consume s c)"
proof -
  have len: "count s = length (stream_bytes s)" and "list_all node_wf (nodes s)"
    using assms by (auto simp: stream_wf_def chain_wf_def)
  then have "get_loop (nodes s) (min c (count s)) = take c (stream_bytes s)"
    by (subst get_loop_chain) (auto simp: stream_bytes_def min_def)
  moreover have "stream_consume s (min c (count s)) = stream_consume s c"
    by (simp add: stream_consume_def min_def)
  moreover have "count s = 0 \<Longrightarrow> stream_consume s c = s"
    using calculation(2) stream_consume_0 [OF assms] by simp
  ultimately show ?thesis
    using len by (auto simp: stream_get_def Let_def min_def)
qed

subsection \<open>stream\_flush, stream\_vputs and stream\_new\<close>

lemma stream_new_wf [simp]: "stream_wf stream_new" "stream_bytes stream_new = []"
  by (simp_all add: stream_new_def stream_wf_def)

text \<open>
  Flushing drops exactly what \<open>writev\<close> took; a failed call leaves the stream alone.
\<close>

lemma stream_flush_spec:
  assumes "stream_wf s"
  shows "stream_wf (snd (stream_flush writev mem s))"
    and "stream_bytes (snd (stream_flush writev mem s))
      = drop (nat (fst (stream_flush writev mem s))) (stream_bytes s)"
  using assms stream_consume_spec [OF assms]
  by (auto simp: stream_flush_def stream_iovec_def Let_def ENOMEM_def)

lemma stream_flush_iovec:
  "stream_iovec mem s = Inr iov \<Longrightarrow> concat iov = stream_bytes s"
  by (auto simp: stream_iovec_def stream_bytes_def split: if_splits)

lemma stream_put_total:
  assumes "stream_wf s" "length bs \<le> 2 ^ 64 - BUFSIZE"
  shows "\<exists>r s'. stream_put al s bs = Some (r, s') \<and> stream_wf s'
     \<and> (stream_bytes s' = stream_bytes s @ bs \<and> r = 0 \<or> s' = s \<and> r = - ENOMEM)"
  using stream_put_cases [OF assms, of al] assms(1) by metis

lemma stream_vputs_total:
  assumes "stream_wf s" "length str < INT_MAX"
  shows "\<exists>r s'. stream_vputs al tmp s str = Some (r, s') \<and> stream_wf s'
     \<and> (stream_bytes s' = stream_bytes s @ str \<or> s' = s)"
  using stream_put_total [OF assms(1), of str al] assms
  by (auto simp: stream_vputs_def stream_putstrn_def INT_MAX_def BUFSIZE_def)

subsection \<open>The stream as a byte queue\<close>

text \<open>
  The contract that the clients of the stream rely on: what is put is appended, or
  refused as a whole; what is got is the front of the content.  A run is any sequence of
  puts and gets.
\<close>

datatype queue_op = Put "byte list" | Get nat

fun queue_run :: "('s \<Rightarrow> byte list \<Rightarrow> (bool \<times> 's) option) \<Rightarrow> ('s \<Rightarrow> nat \<Rightarrow> byte list \<times> 's) \<Rightarrow>
    's \<Rightarrow> queue_op list \<Rightarrow> (byte list \<times> byte list \<times> 's) option" where
  "queue_run put get s [] = Some ([], [], s)"
| "queue_run put get s (Put bs # ops) =
     (case put s bs of None \<Rightarrow> None
      | Some (ok, s') \<Rightarrow>
          map_option (\<lambda>(acc, got, t). ((if ok then bs else []) @ acc, got, t)) (queue_run put get s' ops))"
| "queue_run put get s (Get c # ops) =
     (case get s c of (bs, s') \<Rightarrow>
        map_option (\<lambda>(acc, got, t). (acc, bs @ got, t)) (queue_run put get s' ops))"

fun op_fits :: "nat \<Rightarrow> queue_op \<Rightarrow> bool" where
  "op_fits limit (Put bs) \<longleftrightarrow> length bs \<le> limit"
| "op_fits limit (Get c) \<longleftrightarrow> True"

locale byte_queue =
  fixes invar :: "'s \<Rightarrow> bool"
    and content :: "'s \<Rightarrow> byte list"
    and put :: "'s \<Rightarrow> byte list \<Rightarrow> (bool \<times> 's) option"
    and get :: "'s \<Rightarrow> nat \<Rightarrow> byte list \<times> 's"
    and limit :: nat
  assumes put_law: "invar s \<Longrightarrow> length bs \<le> limit \<Longrightarrow>
      \<exists>ok s'. put s bs = Some (ok, s') \<and> invar s' \<and> content s' = content s @ (if ok then bs else [])"
    and get_law: "invar s \<Longrightarrow> get s c = (bs, s') \<Longrightarrow>
      invar s' \<and> bs = take c (content s) \<and> content s' = drop c (content s)"
begin

text \<open>
  No run crashes, and the bytes got followed by the bytes left are the bytes that were
  there followed by the bytes accepted.
\<close>

lemma run_fifo:
  assumes "invar s" "list_all (op_fits limit) ops"
  shows "\<exists>acc got t. queue_run put get s ops = Some (acc, got, t) \<and> invar t
     \<and> got @ content t = content s @ acc"
  using assms
proof (induction ops arbitrary: s)
  case Nil
  then show ?case by simp
next
  case (Cons op ops)
  show ?case
  proof (cases op)
    case (Put bs)
    with Cons.prems obtain ok s' where s': "put s bs = Some (ok, s')" "invar s'"
      "content s' = content s @ (if ok then bs else [])"
      using put_law [of s bs] by auto
    then obtain acc got t where "queue_run put get s' ops = Some (acc, got, t)" "invar t"
      "got @ content t = content s' @ acc"
      using Cons.IH [of s'] Cons.prems by auto
    with s' Put show ?thesis by auto
  next
    case (Get c)
    obtain bs s' where g: "get s c = (bs, s')" by fastforce
    with Cons.prems have s': "invar s'" "bs = take c (content s)" "content s' = drop c (content s)"
      using get_law by blast+
    then obtain acc got t where "queue_run put get s' ops = Some (acc, got, t)" "invar t"
      "got @ content t = content s' @ acc"
      using Cons.IH [of s'] Cons.prems by auto
    with s' g Get show ?thesis by auto
  qed
qed

end

definition stream_enq :: "alloc \<Rightarrow> stream \<Rightarrow> byte list \<Rightarrow> (bool \<times> stream) option" where
  "stream_enq al s bs = map_option (\<lambda>(r, s'). (r = 0, s')) (stream_put al s bs)"

definition stream_deq :: "stream \<Rightarrow> nat \<Rightarrow> byte list \<times> stream" where
  "stream_deq s c = (case stream_get s c of (bs, _, s') \<Rightarrow> (bs, s'))"

interpretation stream_q: byte_queue stream_wf stream_bytes "stream_enq al" stream_deq "2 ^ 64 - BUFSIZE"
  for al
proof unfold_locales
  fix s :: stream and bs :: "byte list"
  assume "stream_wf s" "length bs \<le> 2 ^ 64 - BUFSIZE"
  from stream_put_total [OF this, of al]
  show "\<exists>ok s'. stream_enq al s bs = Some (ok, s') \<and> stream_wf s'
      \<and> stream_bytes s' = stream_bytes s @ (if ok then bs else [])"
    by (auto simp: stream_enq_def ENOMEM_def)
next
  fix s s' :: stream and c and bs :: "byte list"
  assume "stream_wf s" "stream_deq s c = (bs, s')"
  then show "stream_wf s' \<and> bs = take c (stream_bytes s) \<and> stream_bytes s' = drop c (stream_bytes s)"
    by (auto simp: stream_deq_def stream_get_spec stream_consume_spec)
qed

subsection \<open>Properties\<close>



text \<open>
  C31. \<open>stream_put\<close> is all or nothing: it allocates just the nodes that are missing
  (\<open>stream_put_num\<close>, whose subtraction in \<open>size_t\<close> may wrap around), appends the whole data
  when all of these allocations succeed, and otherwise returns \<open>-ENOMEM\<close> with the stream
  untouched.
\<close>

theorem stream_put_all_or_nothing:
  assumes "stream_wf s" "length bs \<le> 2 ^ 64 - BUFSIZE"
  shows "if bs = [] \<or> (\<forall>i < stream_put_num s (length bs). al i)
     then \<exists>s'. stream_put al s bs = Some (0, s') \<and> stream_wf s' \<and> stream_bytes s' = stream_bytes s @ bs
     else stream_put al s bs = Some (- ENOMEM, s)"
proof (cases "bs = []")
  case True
  with assms show ?thesis by (simp add: stream_put_def)
next
  case False
  then show ?thesis using stream_put_succeeds [OF assms, of al] stream_put_fails [of bs _ s al] by auto
qed

theorem stream_put_all_or_nothing_witness:
  "stream_wf stream_new \<and> stream_put (\<lambda>_. False) stream_new ''ab'' = Some (- ENOMEM, stream_new)"
proof -
  have n: "stream_put_num stream_new (Suc (Suc 0)) = 1"
    by (simp add: stream_put_num_def stream_cap_def stream_new_def BUFSIZE_def)
  show ?thesis
    using stream_put_all_or_nothing [OF stream_new_wf(1), of "''ab''" "\<lambda>_. False"] stream_new_wf(1)
    by (simp add: n BUFSIZE_def)
qed

text \<open>
  C32. \<open>stream_flush\<close> loses and repeats nothing: the vector it hands to \<open>writev\<close> holds
  the stored bytes in order, and whatever \<open>writev\<close> returns (an error, a short count, or
  everything), exactly the bytes reported as written leave the stream.
\<close>

theorem stream_flush_exact:
  assumes "stream_wf s"
  shows "stream_wf (snd (stream_flush writev mem s))
     \<and> stream_bytes (snd (stream_flush writev mem s))
        = drop (nat (fst (stream_flush writev mem s))) (stream_bytes s)
     \<and> (\<forall>iov. stream_iovec mem s = Inr iov \<longrightarrow> concat iov = stream_bytes s)"
  using stream_flush_spec [OF assms] stream_flush_iovec by blast

theorem stream_flush_exact_witness:
  "stream_wf stream_new \<and> stream_wf (snd (stream_flush (\<lambda>_. 0) True stream_new))"
  using stream_flush_exact [OF stream_new_wf(1), of "\<lambda>_. 0" True] stream_new_wf(1) by blast

end
