(* ===== verification/Stream_Filter.thy ===== *)
theory Stream_Filter
  imports Stream_Chain
begin

section \<open>Filtering a stream by a regular expression (stream.c, stream\_flush\_regexp)\<close>

text \<open>
  \<open>stream_flush_regexp\<close> empties the stream byte by byte, collects lines in a buffer of
  8192 bytes and writes the lines that match.  The regular expression engine is a
  parameter: \<open>compile\<close> gives an error message or the matcher, and the matcher's result is
  that of \<open>lre_exec\<close> (1 for a match, -1 for an error).  The calls of \<open>write\<close> are
  collected in a list.  Writing past the line buffer is the result \<open>None\<close>.
\<close>

definition LINE_MAX :: nat where
  "LINE_MAX = 8192"

definition eol :: "byte \<Rightarrow> bool" where
  "eol c \<longleftrightarrow> c = CHR 0x0D \<or> c = CHR 0x0A"

definition CRLF :: string where
  "CRLF = [CHR 0x0D, CHR 0x0A]"

definition exec_error_msg :: string where
  "exec_error_msg = ''lre_exec returns -1'' @ [CHR 0x0A]"

text \<open>What is written for a collected line; \<open>nl\<close> is written behind a line that matches.\<close>

definition line_writes :: "(string \<Rightarrow> int) \<Rightarrow> string list \<Rightarrow> string \<Rightarrow> string list" where
  "line_writes exec nl line =
     (if exec line = 1 then line # nl
      else if exec line = -1 then [exec_error_msg] else [])"

lemma count_stream_get: "count s \<noteq> 0 \<Longrightarrow> stream_get s 1 = (bs, r, s') \<Longrightarrow> count s' < count s"
  by (auto simp: stream_get_def stream_consume_def Let_def)

function flush_regexp_loop ::
    "(string \<Rightarrow> int) \<Rightarrow> stream \<Rightarrow> string \<Rightarrow> (string list \<times> string \<times> stream) option" where
  "flush_regexp_loop exec s line =
     (case stream_get s 1 of (bs, r, s') \<Rightarrow>
        if r \<noteq> 1 then Some ([], line, s')
        else case bs of [] \<Rightarrow> None
        | c # _ \<Rightarrow>
            if eol c then
              (if line = [] then flush_regexp_loop exec s' []
               else map_option (\<lambda>(ws, l, t). (line_writes exec [CRLF] line @ ws, l, t))
                      (flush_regexp_loop exec s' []))
            else if length line < LINE_MAX then flush_regexp_loop exec s' (line @ [c])
            else None)"
  by pat_completeness auto
termination
  by (relation "measure (\<lambda>(exec, s, line). count s)")
    (auto simp: stream_get_def stream_consume_def Let_def split: if_splits)

declare flush_regexp_loop.simps [simp del]

definition stream_flush_regexp ::
    "(string \<Rightarrow> string + (string \<Rightarrow> int)) \<Rightarrow> stream \<Rightarrow> string \<Rightarrow> (int \<times> string list \<times> stream) option" where
  "stream_flush_regexp compile s regexp =
     (case compile regexp of
        Inl msg \<Rightarrow>
          Some (-1, [''lre_compile error: '' @ msg @ [CHR 0x0A]], stream_consume s (count s))
      | Inr exec \<Rightarrow>
          (case flush_regexp_loop exec s [] of
             None \<Rightarrow> None
           | Some (ws, line, s') \<Rightarrow>
               Some (0, ws @ (if line \<noteq> [] then line_writes exec [] line else []), s')))"

subsection \<open>Reference\<close>

text \<open>The lines of a text: the runs between end-of-line bytes; the last one is not ended.\<close>

fun split_lines :: "string \<Rightarrow> string list" where
  "split_lines [] = [[]]"
| "split_lines (c # cs) =
     (if eol c then [] # split_lines cs
      else (c # hd (split_lines cs)) # tl (split_lines cs))"

text \<open>What the filter is to write for a text.\<close>

definition grep :: "(string \<Rightarrow> int) \<Rightarrow> string \<Rightarrow> string list" where
  "grep exec txt =
     concat (map (line_writes exec [CRLF]) (filter (\<lambda>l. l \<noteq> []) (butlast (split_lines txt))))
     @ (if last (split_lines txt) \<noteq> [] then line_writes exec [] (last (split_lines txt)) else [])"

subsection \<open>Lemmas\<close>

lemma split_lines_nonempty [simp]: "split_lines cs \<noteq> []"
  by (induction cs) auto

lemma split_lines_append_eol:
  "list_all (\<lambda>c. \<not> eol c) line \<Longrightarrow> eol c \<Longrightarrow> split_lines (line @ c # cs) = line # split_lines cs"
  by (induction line) auto

lemma split_lines_no_eol: "list_all (\<lambda>c. \<not> eol c) line \<Longrightarrow> split_lines line = [line]"
  by (induction line) auto

lemma split_lines_append:
  "list_all (\<lambda>c. \<not> eol c) line \<Longrightarrow>
     split_lines (line @ cs) = (line @ hd (split_lines cs)) # tl (split_lines cs)"
  by (induction line) auto

lemma flush_regexp_loop_Nil:
  assumes "stream_wf s" "stream_bytes s = []"
  shows "flush_regexp_loop exec s line = Some ([], line, stream_consume s 1)"
  using assms by (subst flush_regexp_loop.simps) (simp add: stream_get_spec stream_wf_def)

lemma flush_regexp_loop_Cons:
  assumes "stream_wf s" "stream_bytes s = c # cs"
  shows "flush_regexp_loop exec s line =
     (let s' = stream_consume s 1 in
      if eol c then
        (if line = [] then flush_regexp_loop exec s' []
         else map_option (\<lambda>(ws, l, t). (line_writes exec [CRLF] line @ ws, l, t))
                (flush_regexp_loop exec s' []))
      else if length line < LINE_MAX then flush_regexp_loop exec s' (line @ [c])
      else None)"
  using assms
  by (subst flush_regexp_loop.simps) (simp add: stream_get_spec stream_wf_def Let_def)

text \<open>
  The loop, started with the line collected so far: what it writes and what it leaves in
  the line buffer are given by the lines of the text.
\<close>

lemma flush_regexp_loop_spec:
  assumes "stream_wf s" "list_all (\<lambda>c. \<not> eol c) line"
    and "list_all (\<lambda>l. length l \<le> LINE_MAX) (split_lines (line @ stream_bytes s))"
  shows "\<exists>t. flush_regexp_loop exec s line =
      Some (concat (map (line_writes exec [CRLF])
              (filter (\<lambda>l. l \<noteq> []) (butlast (split_lines (line @ stream_bytes s))))),
            last (split_lines (line @ stream_bytes s)), t)
     \<and> stream_wf t \<and> stream_bytes t = []"
  using assms
proof (induction "stream_bytes s" arbitrary: s line)
  case Nil
  then show ?case
    using stream_consume_spec [OF Nil.prems(1), of 1]
    by (simp add: flush_regexp_loop_Nil split_lines_no_eol)
next
  case (Cons c cs)
  note bytes = Cons.hyps(2) [symmetric]
  let ?s' = "stream_consume s 1"
  have s': "stream_wf ?s'" "cs = stream_bytes ?s'"
    using stream_consume_spec [OF Cons.prems(1), of 1] bytes by simp_all
  note IH = Cons.hyps(1) [OF s'(2) s'(1)]
  show ?case
  proof (cases "eol c")
    case True
    note lines = split_lines_append_eol [OF Cons.prems(2) True, of cs]
    have "list_all (\<lambda>l. length l \<le> LINE_MAX) (split_lines ([] @ stream_bytes ?s'))"
      using Cons.prems(3) lines bytes s'(2) by simp
    from IH [OF _ this] show ?thesis
      using True lines s'(2)
      by (auto simp: flush_regexp_loop_Cons [OF Cons.prems(1) bytes] bytes Let_def)
  next
    case False
    have nl: "list_all (\<lambda>c. \<not> eol c) (line @ [c])"
      using Cons.prems(2) False by simp
    have eq: "line @ stream_bytes s = (line @ [c]) @ stream_bytes ?s'"
      using bytes s'(2) by simp
    have "length line < LINE_MAX"
      using Cons.prems(3) by (simp only: eq split_lines_append [OF nl]) simp
    with IH [OF nl] Cons.prems(3) show ?thesis
      using False by (simp add: flush_regexp_loop_Cons [OF Cons.prems(1) bytes] eq)
  qed
qed

lemma stream_flush_regexp_grep:
  assumes "stream_wf s" "compile regexp = Inr exec"
    and "list_all (\<lambda>l. length l \<le> LINE_MAX) (split_lines (stream_bytes s))"
  shows "\<exists>t. stream_flush_regexp compile s regexp = Some (0, grep exec (stream_bytes s), t)
     \<and> stream_wf t \<and> stream_bytes t = []"
  using flush_regexp_loop_spec [of s "[]" exec] assms
  by (auto simp: stream_flush_regexp_def grep_def)

text \<open>A line of more than \<open>LINE_MAX\<close> bytes is written past the end of the line buffer.\<close>

lemma flush_regexp_loop_overflow:
  assumes "stream_wf s" "list_all (\<lambda>c. \<not> eol c) line" "length line \<le> LINE_MAX"
    and "\<not> list_all (\<lambda>l. length l \<le> LINE_MAX) (split_lines (line @ stream_bytes s))"
  shows "flush_regexp_loop exec s line = None"
  using assms
proof (induction "stream_bytes s" arbitrary: s line)
  case Nil
  then show ?case by (simp add: split_lines_no_eol)
next
  case (Cons c cs)
  note bytes = Cons.hyps(2) [symmetric]
  let ?s' = "stream_consume s 1"
  have s': "stream_wf ?s'" "cs = stream_bytes ?s'"
    using stream_consume_spec [OF Cons.prems(1), of 1] bytes by simp_all
  note IH = Cons.hyps(1) [OF s'(2) s'(1)]
  show ?case
  proof (cases "eol c")
    case True
    have "flush_regexp_loop exec ?s' [] = None"
      using IH [of "[]"] Cons.prems(3,4) s'(2) split_lines_append_eol [OF Cons.prems(2) True, of cs] bytes
      by simp
    with True show ?thesis by (simp add: flush_regexp_loop_Cons [OF Cons.prems(1) bytes] Let_def)
  next
    case False
    have eq: "line @ stream_bytes s = (line @ [c]) @ stream_bytes ?s'"
      using bytes s'(2) by simp
    have "flush_regexp_loop exec ?s' (line @ [c]) = None" if "length line < LINE_MAX"
      using IH [of "line @ [c]"] Cons.prems(2,4) that False unfolding eq by simp
    with False show ?thesis by (simp add: flush_regexp_loop_Cons [OF Cons.prems(1) bytes] Let_def)
  qed
qed

subsection \<open>Properties\<close>

text \<open>
  C23. Filtering: when the expression compiles, \<open>stream_flush_regexp\<close> empties the stream
  and writes the matching lines of its text in order, each ended by CR LF but for an
  unended last one; this holds just as long as no line exceeds the line buffer of 8192
  bytes, and a longer line anywhere in the text is written past that buffer.
\<close>

theorem stream_flush_regexp_lines:
  assumes "stream_wf s" "compile regexp = Inr exec"
  shows "if list_all (\<lambda>l. length l \<le> LINE_MAX) (split_lines (stream_bytes s))
     then \<exists>t. stream_flush_regexp compile s regexp = Some (0, grep exec (stream_bytes s), t)
       \<and> stream_wf t \<and> stream_bytes t = []
     else stream_flush_regexp compile s regexp = None"
  using stream_flush_regexp_grep [of s compile regexp exec, OF assms] flush_regexp_loop_overflow [OF assms(1), of "[]" exec] assms(2)
  by (simp add: stream_flush_regexp_def)

theorem stream_flush_regexp_lines_witness:
  "stream_wf stream_new \<and>
   (\<exists>t. stream_flush_regexp (\<lambda>_. Inr (\<lambda>l. if l = ''a'' then 1 else 0)) stream_new ''a''
      = Some (0, grep (\<lambda>l. if l = ''a'' then 1 else 0) (stream_bytes stream_new), t)
     \<and> stream_wf t \<and> stream_bytes t = [])"
  using stream_flush_regexp_lines [OF stream_new_wf(1),
      of "\<lambda>_. Inr (\<lambda>l. if l = ''a'' then 1 else 0)" "''a''" "\<lambda>l. if l = ''a'' then 1 else 0"]
    stream_new_wf by simp

end
