(* ===== verification/Term_History.thy ===== *)
theory Term_History
  imports Prelude
begin

section \<open>The command history (cli-term.c)\<close>

text \<open>
  The history is a ring of \<open>TERM_MAXHIST\<close> slots.  New lines go to the slot \<open>index\<close>; the
  cursor \<open>cp\<close> moves back and forth between the lines.  The flag of \<open>history_add\<close> says
  whether \<open>strdup\<close> succeeds.
\<close>

definition TERM_MAXHIST :: nat where
  "TERM_MAXHIST = 32"

record history =
  slots :: "string option list"
  hist_cp :: nat
  index :: nat

definition history_create :: "bool \<Rightarrow> history option" where
  "history_create mem =
     (if mem then Some \<lparr>slots = replicate TERM_MAXHIST None, hist_cp = 0, index = 0\<rparr> else None)"

definition history_previous :: "history \<Rightarrow> string option \<times> history" where
  "history_previous h =
     (let try = (if hist_cp h = 0 then TERM_MAXHIST - 1 else hist_cp h - 1)
      in if try = index h then (None, h)
         else case slots h ! try of
                None \<Rightarrow> (None, h)
              | Some l \<Rightarrow> (Some l, h\<lparr>hist_cp := try\<rparr>))"

definition history_next :: "history \<Rightarrow> string option \<times> history" where
  "history_next h =
     (if hist_cp h = index h then (None, h)
      else let try = (if hist_cp h = TERM_MAXHIST - 1 then 0 else hist_cp h + 1)
           in if try = index h then (Some [], h\<lparr>hist_cp := index h\<rparr>)
              else case slots h ! try of
                     None \<Rightarrow> (None, h)
                   | Some l \<Rightarrow> (Some l, h\<lparr>hist_cp := try\<rparr>))"

definition history_add :: "bool \<Rightarrow> history \<Rightarrow> string \<Rightarrow> history" where
  "history_add mem h l =
     (if l = [] then h
      else let i = (if index h \<noteq> 0 then index h - 1 else TERM_MAXHIST - 1)
           in if (case slots h ! i of None \<Rightarrow> False | Some s \<Rightarrow> strcmp l s = 0)
              then h\<lparr>hist_cp := index h\<rparr>
              else if \<not> mem then h\<lparr>slots := (slots h)[index h := None]\<rparr>
              else let j = (if index h + 1 = TERM_MAXHIST then 0 else index h + 1)
                   in h\<lparr>slots := (slots h)[index h := Some l], index := j, hist_cp := j\<rparr>)"

text \<open>
  The loop of \<open>history_print\<close> and the lines it prints; the first argument bounds the
  number of iterations.
\<close>

fun history_print_loop :: "nat \<Rightarrow> history \<Rightarrow> nat \<Rightarrow> string list option" where
  "history_print_loop 0 h i = None"
| "history_print_loop (Suc k) h i =
     (if i = index h then Some []
      else if i = TERM_MAXHIST then history_print_loop k h 0
      else map_option (\<lambda>ls. (case slots h ! i of None \<Rightarrow> [] | Some l \<Rightarrow> [l]) @ ls)
             (history_print_loop k h (i + 1)))"

definition history_print :: "nat \<Rightarrow> history \<Rightarrow> string list option" where
  "history_print fuel h = history_print_loop fuel h (index h + 1)"

definition history_destroy :: "history \<Rightarrow> string list" where
  "history_destroy h = List.map_filter id (slots h)"

subsection \<open>Abstraction\<close>

text \<open>
  The slots from the oldest to the newest, without the slot that is written next, and the
  lines in them.  A history shows at most 31 lines.
\<close>

definition ring :: "history \<Rightarrow> string option list" where
  "ring h = tl (rotate (index h) (slots h))"

definition hist_lines :: "history \<Rightarrow> string list" where
  "hist_lines h = List.map_filter id (ring h)"

text \<open>How many lines the cursor is behind the end.\<close>

definition hist_back :: "history \<Rightarrow> nat" where
  "hist_back h = (index h + TERM_MAXHIST - hist_cp h) mod TERM_MAXHIST"

definition hist_wf :: "history \<Rightarrow> bool" where
  "hist_wf h \<longleftrightarrow> length (slots h) = TERM_MAXHIST \<and> index h < TERM_MAXHIST \<and> hist_cp h < TERM_MAXHIST
     \<and> length (hist_lines h) \<le> TERM_MAXHIST - 1
     \<and> ring h = replicate (TERM_MAXHIST - 1 - length (hist_lines h)) None @ map Some (hist_lines h)
     \<and> hist_back h \<le> length (hist_lines h)
     \<and> list_all (\<lambda>s. case s of None \<Rightarrow> True | Some l \<Rightarrow> cstring l) (slots h)"

subsection \<open>Lemmas\<close>

lemma map_filter_Nones [simp]: "List.map_filter id (replicate n None) = []"
  by (induction n) (auto simp: map_filter_simps)

lemma map_filter_Somes [simp]: "List.map_filter id (map Some xs) = xs"
  by (induction xs) (auto simp: map_filter_simps)

lemma map_filter_append [simp]: "List.map_filter f (xs @ ys) = List.map_filter f xs @ List.map_filter f ys"
  by (simp add: List.map_filter_def)

lemma rotate_update:
  assumes "n < length xs"
  shows "rotate n (xs[n := x]) = x # tl (rotate n xs)"
proof -
  have "rotate n (xs[n := x]) = drop n (xs[n := x]) @ take n (xs[n := x])"
    using assms by (simp add: rotate_drop_take)
  also have "drop n (xs[n := x]) = x # drop (Suc n) xs"
    using assms by (simp add: Cons_nth_drop_Suc [symmetric])
  also have "tl (rotate n xs) = drop (Suc n) xs @ take n xs"
    using assms by (simp add: rotate_drop_take Cons_nth_drop_Suc [symmetric] del: Cons_nth_drop_Suc)
  ultimately show ?thesis by simp
qed

lemma ring_nth:
  assumes "length (slots h) = TERM_MAXHIST" "index h < TERM_MAXHIST" "j < TERM_MAXHIST - 1"
  shows "ring h ! j = slots h ! ((index h + j + 1) mod TERM_MAXHIST)"
proof -
  have "ring h ! j = rotate (index h) (slots h) ! Suc j"
    using assms by (simp add: ring_def nth_tl)
  also have "\<dots> = slots h ! ((index h + Suc j) mod TERM_MAXHIST)"
    using assms nth_rotate [of "Suc j" "slots h" "index h"] by simp
  finally show ?thesis by simp
qed

lemma slot_back:
  assumes "hist_wf h" "1 \<le> p" "p < TERM_MAXHIST"
  shows "slots h ! ((index h + TERM_MAXHIST - p) mod TERM_MAXHIST) =
     (if p \<le> length (hist_lines h) then Some (hist_lines h ! (length (hist_lines h) - p)) else None)"
proof -
  let ?n = "TERM_MAXHIST - 1 - length (hist_lines h)" and ?j = "TERM_MAXHIST - 1 - p"
  have h: "length (slots h) = TERM_MAXHIST" "index h < TERM_MAXHIST" "length (hist_lines h) \<le> TERM_MAXHIST - 1"
    "ring h = replicate ?n None @ map Some (hist_lines h)" using assms(1) by (auto simp: hist_wf_def)
  have j: "?j < TERM_MAXHIST - 1" "index h + ?j + 1 = index h + TERM_MAXHIST - p"
    using assms(2,3) by (auto simp: TERM_MAXHIST_def)
  have "slots h ! ((index h + TERM_MAXHIST - p) mod TERM_MAXHIST) = ring h ! ?j"
    by (simp only: ring_nth [OF h(1,2) j(1)] j(2))
  also have "\<dots> = (if p \<le> length (hist_lines h) then Some (hist_lines h ! (length (hist_lines h) - p)) else None)"
    unfolding h(4) using assms(2,3) h(3) by (auto simp: nth_append)
  finally show ?thesis .
qed

lemma mod_ring: "n < 2 * TERM_MAXHIST \<Longrightarrow> n mod TERM_MAXHIST = (if n < TERM_MAXHIST then n else n - TERM_MAXHIST)"
  by (auto simp: TERM_MAXHIST_def mod_if)

lemma slot_at:
  assumes "hist_wf h" "i < TERM_MAXHIST" "i \<noteq> index h" "p = (if i < index h then index h - i else index h + TERM_MAXHIST - i)"
  shows "slots h ! i = (if p \<le> length (hist_lines h) then Some (hist_lines h ! (length (hist_lines h) - p)) else None)"
proof -
  have ix: "index h < TERM_MAXHIST" using assms(1) by (simp add: hist_wf_def)
  then have p: "1 \<le> p" "p < TERM_MAXHIST" "index h + TERM_MAXHIST - p < 2 * TERM_MAXHIST"
    using assms(2-4) by (auto split: if_splits)
  have "(index h + TERM_MAXHIST - p) mod TERM_MAXHIST = i"
    unfolding mod_ring [OF p(3)] using assms(2-4) ix by (auto split: if_splits)
  with slot_back [OF assms(1) p(1,2)] show ?thesis by simp
qed

lemma hist_back_eq:
  assumes "index h < TERM_MAXHIST" "hist_cp h < TERM_MAXHIST"
  shows "hist_back h = (if hist_cp h \<le> index h then index h - hist_cp h else index h + TERM_MAXHIST - hist_cp h)"
proof -
  have "index h + TERM_MAXHIST - hist_cp h < 2 * TERM_MAXHIST" using assms by simp
  then show ?thesis unfolding hist_back_def using mod_ring assms by auto
qed

lemma hist_wf_move:
  assumes "hist_wf h" "c < TERM_MAXHIST" "hist_back (h\<lparr>hist_cp := c\<rparr>) \<le> length (hist_lines h)"
  shows "hist_wf (h\<lparr>hist_cp := c\<rparr>)" "hist_lines (h\<lparr>hist_cp := c\<rparr>) = hist_lines h"
proof -
  have r: "ring (h\<lparr>hist_cp := c\<rparr>) = ring h" by (simp add: ring_def)
  then show "hist_lines (h\<lparr>hist_cp := c\<rparr>) = hist_lines h" by (simp add: hist_lines_def)
  with assms r show "hist_wf (h\<lparr>hist_cp := c\<rparr>)" by (simp add: hist_wf_def)
qed

lemma history_previous_spec:
  assumes "hist_wf h"
  shows "if hist_back h < length (hist_lines h)
     then \<exists>h'. history_previous h = (Some (hist_lines h ! (length (hist_lines h) - 1 - hist_back h)), h')
        \<and> hist_wf h' \<and> hist_lines h' = hist_lines h \<and> hist_back h' = Suc (hist_back h)
     else history_previous h = (None, h)"
proof -
  let ?t = "if hist_cp h = 0 then TERM_MAXHIST - 1 else hist_cp h - 1" and ?n = "length (hist_lines h)"
  have h: "index h < TERM_MAXHIST" "hist_cp h < TERM_MAXHIST" "?n \<le> TERM_MAXHIST - 1" "hist_back h \<le> ?n"
    using assms by (auto simp: hist_wf_def)
  note hb = hist_back_eq [OF h(1,2)]
  have t: "?t < TERM_MAXHIST" by (auto simp: TERM_MAXHIST_def intro: less_imp_diff_less h(2) [unfolded TERM_MAXHIST_def])
  show ?thesis
  proof (cases "?t = index h")
    case True
    then have "hist_back h = TERM_MAXHIST - 1"
      using h(1,2) hb by (auto simp: TERM_MAXHIST_def split: if_splits)
    with h(3) True show ?thesis by (auto simp: history_previous_def Let_def)
  next
    case False
    let ?h = "h\<lparr>hist_cp := ?t\<rparr>"
    have p: "Suc (hist_back h) = (if ?t < index h then index h - ?t else index h + TERM_MAXHIST - ?t)"
      using False h(1,2) hb by (auto simp: TERM_MAXHIST_def split: if_splits)
    have b: "hist_back ?h = Suc (hist_back h)"
      using hist_back_eq [of ?h] t h(1) p False by (simp split: if_splits)
    note s = slot_at [OF assms t False p]
    show ?thesis
    proof (cases "hist_back h < ?n")
      case True
      with s have "history_previous h = (Some (hist_lines h ! (?n - 1 - hist_back h)), ?h)"
        using False by (simp add: history_previous_def Let_def)
      with hist_wf_move [OF assms t] b True show ?thesis by simp
    next
      case n: False
      with s False show ?thesis by (simp add: history_previous_def Let_def)
    qed
  qed
qed

lemma history_next_spec:
  assumes "hist_wf h"
  shows "if hist_back h = 0 then history_next h = (None, h)
     else \<exists>h'. history_next h = (Some (if hist_back h = 1 then []
            else hist_lines h ! (length (hist_lines h) + 1 - hist_back h)), h')
        \<and> hist_wf h' \<and> hist_lines h' = hist_lines h \<and> hist_back h' = hist_back h - 1"
proof -
  let ?t = "if hist_cp h = TERM_MAXHIST - 1 then 0 else hist_cp h + 1" and ?n = "length (hist_lines h)"
  have h: "index h < TERM_MAXHIST" "hist_cp h < TERM_MAXHIST" "?n \<le> TERM_MAXHIST - 1" "hist_back h \<le> ?n"
    using assms by (auto simp: hist_wf_def)
  note hb = hist_back_eq [OF h(1,2)]
  have t: "?t < TERM_MAXHIST" using h(2) by (auto simp: TERM_MAXHIST_def)
  let ?h = "h\<lparr>hist_cp := ?t\<rparr>"
  consider "hist_cp h = index h" | "hist_cp h \<noteq> index h" "?t = index h" | "hist_cp h \<noteq> index h" "?t \<noteq> index h" by blast
  then show ?thesis
  proof cases
    case 1
    with hb show ?thesis by (simp add: history_next_def)
  next
    case 2
    then have one: "hist_back h = 1" using h(1,2) hb by (auto simp: TERM_MAXHIST_def split: if_splits)
    have "hist_back ?h = 0" using hist_back_eq [of ?h] t h(1) 2(2) by simp
    moreover have "history_next h = (Some [], ?h)" using 2 by (simp add: history_next_def Let_def)
    ultimately show ?thesis using hist_wf_move [OF assms t] one by simp
  next
    case 3
    have p: "hist_back h - 1 = (if ?t < index h then index h - ?t else index h + TERM_MAXHIST - ?t)" "hist_back h \<noteq> 0" "hist_back h \<noteq> 1"
      using 3 h(1,2) hb by (auto simp: TERM_MAXHIST_def split: if_splits)
    have b: "hist_back ?h = hist_back h - 1"
      using hist_back_eq [of ?h] t h(1) p(1) 3(2) by (simp split: if_splits)
    have "slots h ! ?t = Some (hist_lines h ! (?n + 1 - hist_back h))"
      using slot_at [OF assms t 3(2) p(1)] h(4) p(2) by (simp add: Suc_diff_le)
    then have "history_next h = (Some (hist_lines h ! (?n + 1 - hist_back h)), ?h)"
      using 3 by (simp add: history_next_def Let_def)
    moreover have "hist_wf ?h" "hist_lines ?h = hist_lines h"
      using hist_wf_move [OF assms t] b h(4) by (auto simp del: One_nat_def)
    ultimately show ?thesis
      using b by (subst if_not_P [OF p(2)], subst if_not_P [OF p(3)]) blast
  qed
qed

lemma ring_add:
  assumes "length (slots h) = TERM_MAXHIST" "index h < TERM_MAXHIST" "slots h' = (slots h)[index h := x]"
    "index h' = (if index h + 1 = TERM_MAXHIST then 0 else index h + 1)"
  shows "ring h' = tl (ring h @ [x])"
proof -
  have "rotate (index h') (slots h') = rotate (Suc (index h)) (slots h')"
    using assms(1,3,4) rotate_id [of "Suc (index h)" "slots h'"] by (auto simp del: rotate_Suc)
  also have "\<dots> = ring h @ [x]"
    using rotate_update [of "index h" "slots h" x] assms by (simp add: ring_def rotate_Suc)
  finally show ?thesis by (simp add: ring_def)
qed

lemma hist_lines_add:
  assumes "hist_wf h" "ring h' = tl (ring h @ [Some l])"
  shows "hist_lines h' = drop (length (hist_lines h) + 1 - (TERM_MAXHIST - 1)) (hist_lines h @ [l])"
    and "ring h' = replicate (TERM_MAXHIST - 1 - length (hist_lines h')) None @ map Some (hist_lines h')"
    and "length (hist_lines h') \<le> TERM_MAXHIST - 1"
proof -
  let ?ls = "hist_lines h"
  have r: "ring h = replicate (TERM_MAXHIST - 1 - length ?ls) None @ map Some ?ls" "length ?ls \<le> TERM_MAXHIST - 1"
    using assms(1) by (auto simp: hist_wf_def)
  have "ring h' = replicate (TERM_MAXHIST - 2 - length ?ls) None
      @ map Some (drop (length ?ls + 1 - (TERM_MAXHIST - 1)) (?ls @ [l]))"
  proof (cases "length ?ls = TERM_MAXHIST - 1")
    case True
    then show ?thesis unfolding assms(2) r(1) by (cases ?ls) (auto simp: TERM_MAXHIST_def)
  next
    case False
    then have k: "TERM_MAXHIST - 1 - length ?ls = Suc (TERM_MAXHIST - 2 - length ?ls)"
      "length ?ls + 1 - (TERM_MAXHIST - 1) = 0" using r(2) by (auto simp: TERM_MAXHIST_def)
    show ?thesis unfolding assms(2) r(1) k by simp
  qed
  moreover from this show lines: "hist_lines h' = drop (length ?ls + 1 - (TERM_MAXHIST - 1)) (?ls @ [l])"
    by (simp add: hist_lines_def [of h'])
  ultimately show "ring h' = replicate (TERM_MAXHIST - 1 - length (hist_lines h')) None @ map Some (hist_lines h')"
    "length (hist_lines h') \<le> TERM_MAXHIST - 1"
    using r(2) by (auto simp: TERM_MAXHIST_def)
qed

lemma history_add_spec:
  assumes "hist_wf h" "cstring l"
  shows "hist_wf (history_add mem h l)"
    and "hist_lines (history_add mem h l) =
      (if l = [] \<or> (hist_lines h \<noteq> [] \<and> last (hist_lines h) = l) \<or> \<not> mem then hist_lines h
       else drop (length (hist_lines h) + 1 - (TERM_MAXHIST - 1)) (hist_lines h @ [l]))"
    and "l \<noteq> [] \<Longrightarrow> mem \<Longrightarrow> hist_back (history_add mem h l) = 0"
proof -
  let ?ls = "hist_lines h" and ?i = "if index h \<noteq> 0 then index h - 1 else TERM_MAXHIST - 1"
  have h: "length (slots h) = TERM_MAXHIST" "index h < TERM_MAXHIST" "hist_cp h < TERM_MAXHIST"
    "list_all (\<lambda>s. case s of None \<Rightarrow> True | Some l \<Rightarrow> cstring l) (slots h)"
    using assms(1) by (auto simp: hist_wf_def)
  have i: "?i < TERM_MAXHIST" "?i \<noteq> index h" "1 = (if ?i < index h then index h - ?i else index h + TERM_MAXHIST - ?i)"
    using h(2) by (auto simp: TERM_MAXHIST_def)
  have newest: "slots h ! ?i = (if ?ls = [] then None else Some (last ?ls))"
    using slot_at [OF assms(1) i] by (auto simp: last_conv_nth Suc_le_eq)
  have "cstring s" if "slots h ! ?i = Some s" for s
    using h(4) i(1) that h(1) by (metis list_all_length option.simps(5))
  then have same: "(case slots h ! ?i of None \<Rightarrow> False | Some s \<Rightarrow> strcmp l s = 0) \<longleftrightarrow> ?ls \<noteq> [] \<and> last ?ls = l"
    using newest assms(2) strcmp_eq_0_iff by auto
  let ?j = "if index h + 1 = TERM_MAXHIST then 0 else index h + 1"
  define hn where "hn = h\<lparr>slots := (slots h)[index h := None]\<rparr>"
  define ha where "ha = h\<lparr>slots := (slots h)[index h := Some l], index := ?j, hist_cp := ?j\<rparr>"
  have eq: "history_add mem h l = (if l = [] then h else if ?ls \<noteq> [] \<and> last ?ls = l then h\<lparr>hist_cp := index h\<rparr>
     else if mem then ha else hn)"
    unfolding history_add_def Let_def same by (simp add: hn_def ha_def)
  have rn: "ring hn = ring h" using rotate_update [of "index h" "slots h" None] h(1,2) by (simp add: ring_def hn_def)
  have ra: "ring ha = tl (ring h @ [Some l])" using ring_add [OF h(1,2)] by (simp add: ha_def)
  have strs: "list_all (\<lambda>s. case s of None \<Rightarrow> True | Some l \<Rightarrow> cstring l) ((slots h)[index h := x])"
    if "case x of None \<Rightarrow> True | Some l \<Rightarrow> cstring l" for x
    using h(1,2,4) that by (simp add: list_all_length nth_list_update)
  have back0: "hist_back ha = 0" "hist_back (h\<lparr>hist_cp := index h\<rparr>) = 0" by (simp_all add: hist_back_def ha_def)
  have j: "?j < TERM_MAXHIST" using h(2) by (simp add: TERM_MAXHIST_def)
  have wn: "hist_wf hn" "hist_lines hn = ?ls"
    using assms(1) rn strs [of None] by (auto simp: hist_wf_def hist_lines_def hist_back_def) (simp_all add: hn_def)
  have wa: "hist_wf ha" "hist_lines ha = drop (length ?ls + 1 - (TERM_MAXHIST - 1)) (?ls @ [l])"
    using hist_lines_add [OF assms(1) ra] h(1) j back0 strs [of "Some l"] assms(2) by (auto simp: hist_wf_def ha_def)
  have wm: "hist_wf (h\<lparr>hist_cp := index h\<rparr>)" "hist_lines (h\<lparr>hist_cp := index h\<rparr>) = ?ls"
    using hist_wf_move [OF assms(1) h(2)] back0 by simp_all
  show "hist_wf (history_add mem h l)"
    "hist_lines (history_add mem h l) = (if l = [] \<or> (?ls \<noteq> [] \<and> last ?ls = l) \<or> \<not> mem then ?ls
       else drop (length ?ls + 1 - (TERM_MAXHIST - 1)) (?ls @ [l]))"
    "l \<noteq> [] \<Longrightarrow> mem \<Longrightarrow> hist_back (history_add mem h l) = 0"
    unfolding eq using assms(1) wn wa wm back0 by auto
qed

lemma history_print_low:
  assumes "length (slots h) = TERM_MAXHIST" "index h < TERM_MAXHIST" "i \<le> index h" "index h - i < k"
  shows "history_print_loop k h i = Some (List.map_filter id (drop i (take (index h) (slots h))))"
  using assms(3,4)
proof (induction k arbitrary: i)
  case (Suc k)
  show ?case
  proof (cases "i = index h")
    case False
    then have i: "i < index h" "i < length (take (index h) (slots h))" using Suc.prems assms by auto
    then have "drop i (take (index h) (slots h)) = slots h ! i # drop (Suc i) (take (index h) (slots h))"
      using Cons_nth_drop_Suc [OF i(2)] by simp
    with Suc.IH [of "i + 1"] Suc.prems i assms(2) False show ?thesis
      by (auto simp: map_filter_simps split: option.splits)
  qed simp
qed simp

lemma history_print_high:
  assumes "length (slots h) = TERM_MAXHIST" "index h < i" "i \<le> TERM_MAXHIST" "TERM_MAXHIST - i + 1 + index h < k"
  shows "history_print_loop k h i = Some (List.map_filter id (drop i (slots h) @ take (index h) (slots h)))"
  using assms(2-4)
proof (induction k arbitrary: i)
  case (Suc k)
  show ?case
  proof (cases "i = TERM_MAXHIST")
    case True
    with history_print_low [OF assms(1), of 0 k] Suc.prems assms show ?thesis by (simp add: id_def)
  next
    case False
    then have i: "i < length (slots h)" using Suc.prems(2) assms(1) by simp
    from Suc.IH [of "i + 1"] Suc.prems False Cons_nth_drop_Suc [OF i, symmetric] show ?thesis
      by (auto simp: map_filter_simps split: option.splits)
  qed
qed simp

lemma history_print_spec:
  assumes "hist_wf h" "TERM_MAXHIST + 1 < fuel"
  shows "history_print fuel h = Some (hist_lines h)"
proof -
  have h: "length (slots h) = TERM_MAXHIST" "index h < TERM_MAXHIST" using assms(1) by (auto simp: hist_wf_def)
  have "ring h = drop (index h + 1) (slots h) @ take (index h) (slots h)"
    using h by (simp add: ring_def rotate_drop_take tl_drop drop_Suc)
  then show ?thesis
    using history_print_high [OF h(1), of "index h + 1" fuel] h(2) assms(2)
    by (simp add: history_print_def hist_lines_def)
qed

lemma history_create_wf:
  "history_create True = Some h \<Longrightarrow> hist_wf h \<and> hist_lines h = [] \<and> hist_back h = 0"
proof -
  assume "history_create True = Some h"
  then have h: "h = \<lparr>slots = replicate TERM_MAXHIST None, hist_cp = 0, index = 0\<rparr>"
    by (simp add: history_create_def)
  then have "ring h = replicate (TERM_MAXHIST - 1) None" by (simp add: ring_def TERM_MAXHIST_def)
  then have "hist_lines h = []" by (simp add: hist_lines_def)
  with \<open>ring h = _\<close> h show ?thesis by (auto simp: hist_wf_def hist_back_def list_all_iff TERM_MAXHIST_def)
qed

subsection \<open>Properties\<close>

text \<open>
  C25. The history keeps the last 31 lines: adding a line appends it and drops the oldest
  line when there are 31 already; an empty line, a repetition of the newest line and a
  line that cannot be copied add nothing; \<open>history_print\<close> ends and prints exactly the
  lines kept, from the oldest to the newest.
\<close>

theorem history_keeps_last_lines:
  assumes "hist_wf h" "cstring l"
  shows "hist_wf (history_add mem h l)
     \<and> hist_lines (history_add mem h l) =
        (if l = [] \<or> (hist_lines h \<noteq> [] \<and> last (hist_lines h) = l) \<or> \<not> mem then hist_lines h
         else drop (length (hist_lines h) + 1 - 31) (hist_lines h @ [l]))
     \<and> history_print 34 (history_add mem h l) = Some (hist_lines (history_add mem h l))"
  using history_add_spec [OF assms, of mem] history_print_spec [of "history_add mem h l" 34]
  by (simp add: TERM_MAXHIST_def)

theorem history_keeps_last_lines_witness:
  "\<exists>h. history_create True = Some h \<and> hist_wf h \<and> hist_lines (history_add True h ''show'') = [''show'']"
proof -
  obtain h where h: "history_create True = Some h" by (simp add: history_create_def)
  from history_create_wf [OF this] have "hist_wf h" "hist_lines h = []" by auto
  with history_keeps_last_lines [of h "''show''" True] h show ?thesis by (auto simp: cstring_def)
qed

text \<open>
  Moving through the history: with the cursor \<open>b\<close> lines behind the end,
  \<open>history_previous\<close> gives the next older line and moves there, and gives nothing at the
  oldest line; \<open>history_next\<close> gives the next newer line, the empty line when it arrives at
  the end, and nothing at the end.
\<close>

theorem history_navigation:
  assumes "hist_wf h" "b = hist_back h" "ls = hist_lines h"
  shows "(if b < length ls
      then \<exists>h'. history_previous h = (Some (ls ! (length ls - 1 - b)), h') \<and> hist_wf h' \<and> hist_lines h' = ls \<and> hist_back h' = Suc b
      else history_previous h = (None, h))
   \<and> (if b = 0 then history_next h = (None, h)
      else \<exists>h'. history_next h = (Some (if b = 1 then [] else ls ! (length ls + 1 - b)), h')
        \<and> hist_wf h' \<and> hist_lines h' = ls \<and> hist_back h' = b - 1)"
  using history_previous_spec [OF assms(1)] history_next_spec [OF assms(1)] unfolding assms(2,3) by blast

theorem history_navigation_witness:
  "\<exists>h. history_create True = Some h \<and> hist_wf h \<and> history_previous h = (None, h) \<and> history_next h = (None, h)"
proof -
  obtain h where h: "history_create True = Some h" by (simp add: history_create_def)
  from history_create_wf [OF this] have "hist_wf h" "[] = hist_lines h" "0 = hist_back h" by auto
  with history_navigation [OF this(1,3,2)] h show ?thesis by simp
qed

end
