(* ===== verification/Cmd_Tree.thy ===== *)
theory Cmd_Tree
  imports Numerals "HOL-Library.Char_ord"
begin

section \<open>The command tree and its parser (cli-tree.c)\<close>

text \<open>
  Commands are kept in a tree of nodes that the parser extends in place.  The allocated
  nodes are a list and an address is an index into it; the root is node 0.  A chain of
  siblings is a list of addresses: \<open>children\<close> and \<open>keyword\<close> of a node.  Handlers
  (\<open>func\<close>) and option attributes are of any type.  The parser's pointers into the command
  line and the help text are the rests of these strings.  The result \<open>al i\<close> says whether
  the \<open>i\<close>-th allocation of a call succeeds; following a null pointer is the result
  \<open>None\<close>.
\<close>

type_synonym addr = nat

datatype token_type = TOKEN_LITERAL | TOKEN_OPTION | TOKEN_VARIABLE | TOKEN_VARARG

record token =
  key :: string
  desc :: string
  type :: token_type

record ('f, 'o) cmd_node =
  children :: "addr list"
  parent :: "addr option"
  tokens :: "token list"
  keyword :: "addr list"
  optattr :: "'o option"
  func :: "'f option"

type_synonym ('f, 'o) tree = "('f, 'o) cmd_node list"

record ('f, 'o) cmd_elem =
  line :: string
  elem_desc :: string
  elem_func :: "'f option"
  elem_optattr :: "'o option"

record parser_state =
  cp :: string
  help_cp :: string
  in_multiple :: bool
  in_keyword :: nat
  just_read_word :: bool
  token :: "token list"
  state_parent :: addr
  save_parent :: addr
  allocs :: nat

subsection \<open>Words and help lines\<close>

text \<open>The next word and the rest behind it; a pipe takes everything that follows.\<close>

definition next_key :: "string \<Rightarrow> string option \<times> string" where
  "next_key s =
     (let p = dropWhile isspace s
      in case p of
           [] \<Rightarrow> (None, p)
         | c # _ \<Rightarrow>
             if c = CHR 0x0A then (None, p)
             else if c = CHR ''|'' then (Some p, [])
             else (Some (takeWhile (\<lambda>c. c \<noteq> CHR ''|'' \<and> \<not> isspace c) p),
                   dropWhile (\<lambda>c. c \<noteq> CHR ''|'' \<and> \<not> isspace c) p))"

definition next_help :: "string \<Rightarrow> string option \<times> string" where
  "next_help s =
     (let l = dropWhile isspace s
      in if l = [] then (None, l)
         else (Some (takeWhile (\<lambda>c. c \<noteq> CHR 0x0A) l), dropWhile (\<lambda>c. c \<noteq> CHR 0x0A) l))"

subsection \<open>Nodes\<close>

definition has_key :: "('f, 'o) cmd_node \<Rightarrow> string \<Rightarrow> bool" where
  "has_key n k \<longleftrightarrow> (\<exists>tk \<in> set (tokens n). strcmp k (key tk) = 0)"

text \<open>The node below \<open>p\<close> that holds the tokens, and how many of them it holds.\<close>

definition cmd_node_find :: "('f, 'o) tree \<Rightarrow> addr \<Rightarrow> token list \<Rightarrow> addr option \<times> nat" where
  "cmd_node_find t p toks =
     (if length toks = 1 then
        (case find (\<lambda>a. has_key (t ! a) (key (hd toks))) (children (t ! p)) of
           Some a \<Rightarrow> (Some a, 1)
         | None \<Rightarrow> (None, 0))
      else
        let found = (\<lambda>a. length (filter (\<lambda>tk. has_key (t ! a) (key tk)) toks))
        in case find (\<lambda>a. length (tokens (t ! a)) \<noteq> 1 \<and> found a \<noteq> 0) (children (t ! p)) of
             Some a \<Rightarrow> (Some a, found a)
           | None \<Rightarrow> (None, 0))"

definition cmd_node_new :: "token list \<Rightarrow> ('f, 'o) cmd_node" where
  "cmd_node_new toks = \<lparr>children = [], parent = None, tokens = toks, keyword = [], optattr = None, func = None\<rparr>"

text \<open>Allocate a node and append it to one of the chains of its parent.\<close>

definition cmd_node_insert :: "('f, 'o) tree \<Rightarrow> addr \<Rightarrow> ('f, 'o) cmd_node \<Rightarrow> bool \<Rightarrow> ('f, 'o) tree" where
  "cmd_node_insert t p new kw =
     (let a = length t;
          n = (if kw then (t ! p)\<lparr>keyword := keyword (t ! p) @ [a]\<rparr>
               else (t ! p)\<lparr>children := children (t ! p) @ [a]\<rparr>)
      in t[p := n] @ [new\<lparr>parent := Some p\<rparr>])"

definition token_type_of :: "string \<Rightarrow> token_type" where
  "token_type_of s =
     (case s of
        [] \<Rightarrow> TOKEN_LITERAL
      | c # _ \<Rightarrow>
          if c = CHR ''['' then TOKEN_OPTION
          else if c = CHR ''.'' then TOKEN_VARARG
          else if CHR ''A'' \<le> c \<and> c \<le> CHR ''Z'' then TOKEN_VARIABLE
          else TOKEN_LITERAL)"

text \<open>
  \<open>token_record\<close> looks at the byte behind \<open>cp\<close>, which for an empty word is the byte that
  ended it: \<open>rest\<close> is the command line from the word on.
\<close>

definition token_record :: "alloc \<Rightarrow> nat \<Rightarrow> string \<Rightarrow> string \<Rightarrow> string \<Rightarrow> token option" where
  "token_record al i rest word dsc =
     (if \<not> al i then None
      else if \<not> al (i + 1) then None
      else Some \<lparr>key = word, desc = dsc, type = token_type_of rest\<rparr>)"

subsection \<open>The parser of command lines\<close>

definition word_char :: "byte \<Rightarrow> bool" where
  "word_char c \<longleftrightarrow> c \<notin> set ''{}()|'' \<and> \<not> isspace c"

type_synonym ('f, 'o) parser_result = "int \<times> parser_state \<times> ('f, 'o) tree"

definition parser_read_word :: "alloc \<Rightarrow> parser_state \<Rightarrow> ('f, 'o) tree \<Rightarrow> ('f, 'o) parser_result" where
  "parser_read_word al st t =
     (let start = cp st;
          word = takeWhile word_char start;
          st = st\<lparr>cp := dropWhile word_char start\<rparr>
      in case next_help (help_cp st) of
           (None, d) \<Rightarrow> (- EINVAL, st\<lparr>help_cp := d\<rparr>, t)
         | (Some l, d) \<Rightarrow>
             let st = st\<lparr>help_cp := d\<rparr>; i = allocs st in
             if \<not> in_multiple st then
               if \<not> al i then (- ENOMEM, st, t)
               else case token_record al (i + 1) start word l of
                 None \<Rightarrow> (- ENOMEM, st, t)
               | Some tk \<Rightarrow>
                   (case cmd_node_find t (state_parent st) [tk] of
                      (Some a, _) \<Rightarrow>
                        (0, st\<lparr>state_parent := a, just_read_word := True, allocs := i + 3\<rparr>, t)
                    | (None, _) \<Rightarrow>
                        if \<not> al (i + 3) then (- ENOMEM, st, t)
                        else
                          let t' = cmd_node_insert t (state_parent st) (cmd_node_new [tk]) (in_keyword st = 1)
                          in (0, st\<lparr>state_parent := length t,
                                    in_keyword := (if in_keyword st = 1 then 2 else in_keyword st),
                                    just_read_word := True, allocs := i + 4\<rparr>, t'))
             else
               if \<not> al i then (- ENOMEM, st, t)
               else case token_record al (i + 1) start word l of
                 None \<Rightarrow> (- ENOMEM, st\<lparr>token := []\<rparr>, t)
               | Some tk \<Rightarrow>
                   (0, st\<lparr>token := token st @ [tk], just_read_word := True, allocs := i + 3\<rparr>, t))"

definition parser_begin_multiple :: "parser_state \<Rightarrow> ('f, 'o) tree \<Rightarrow> ('f, 'o) parser_result" where
  "parser_begin_multiple st t =
     (if in_keyword st = 1 then (- EINVAL, st, t)
      else if in_multiple st then (- EINVAL, st, t)
      else (0, st\<lparr>cp := tl (cp st), in_multiple := True, just_read_word := False\<rparr>, t))"

definition parser_end_multiple :: "alloc \<Rightarrow> parser_state \<Rightarrow> ('f, 'o) tree \<Rightarrow> ('f, 'o) parser_result" where
  "parser_end_multiple al st t =
     (if \<not> in_multiple st then (- EINVAL, st, t)
      else if token st = [] then (- EINVAL, st, t)
      else
        let st = st\<lparr>cp := tl (cp st), in_multiple := False\<rparr> in
        case cmd_node_find t (state_parent st) (token st) of
          (Some a, found) \<Rightarrow>
            if found \<noteq> length (token st) then (- EINVAL, st, t)
            else (0, st\<lparr>state_parent := a, token := []\<rparr>, t)
        | (None, _) \<Rightarrow>
            if \<not> al (allocs st) then (- ENOMEM, st, t)
            else (0, st\<lparr>state_parent := length t, token := [], allocs := allocs st + 1\<rparr>,
                  cmd_node_insert t (state_parent st) (cmd_node_new (token st)) False))"

definition parser_begin_keyword :: "parser_state \<Rightarrow> ('f, 'o) tree \<Rightarrow> ('f, 'o) parser_result" where
  "parser_begin_keyword st t =
     (if in_keyword st \<noteq> 0 \<or> in_multiple st then (- EINVAL, st, t)
      else (0, st\<lparr>cp := tl (cp st), in_keyword := 1, save_parent := state_parent st\<rparr>, t))"

definition parser_end_keyword :: "parser_state \<Rightarrow> ('f, 'o) tree \<Rightarrow> ('f, 'o) parser_result" where
  "parser_end_keyword st t =
     (if in_multiple st \<or> in_keyword st = 0 then (- EINVAL, st, t)
      else if in_keyword st = 1 then (- EINVAL, st, t)
      else (0, st\<lparr>cp := tl (cp st), in_keyword := 0, state_parent := save_parent st\<rparr>, t))"

definition parser_handle_pipe :: "parser_state \<Rightarrow> ('f, 'o) tree \<Rightarrow> ('f, 'o) parser_result" where
  "parser_handle_pipe st t =
     (if in_multiple st then (0, st\<lparr>cp := tl (cp st), just_read_word := False\<rparr>, t)
      else if in_keyword st \<noteq> 0 then
        (0, st\<lparr>cp := tl (cp st), in_keyword := 1, state_parent := save_parent st\<rparr>, t)
      else (- EINVAL, st, t))"

definition set_handler :: "('f, 'o) cmd_elem \<Rightarrow> addr \<Rightarrow> ('f, 'o) tree \<Rightarrow> ('f, 'o) tree" where
  "set_handler e a t = t[a := (t ! a)\<lparr>func := elem_func e, optattr := elem_optattr e\<rparr>]"

text \<open>
  The end of the line: the handler goes to the last node, and to its parent as well when
  the node takes any number of arguments.  The root has no tokens to look at.
\<close>

definition parser_end :: "('f, 'o) cmd_elem \<Rightarrow> parser_state \<Rightarrow> ('f, 'o) tree \<Rightarrow> (int \<times> ('f, 'o) tree) option" where
  "parser_end e st t =
     (if in_multiple st \<or> in_keyword st \<noteq> 0 then Some (- EINVAL, t)
      else let t' = set_handler e (state_parent st) t
           in case tokens (t' ! state_parent st) of
                [] \<Rightarrow> None
              | tk # _ \<Rightarrow>
                  if type tk = TOKEN_VARARG then
                    (case parent (t' ! state_parent st) of
                       None \<Rightarrow> None
                     | Some p \<Rightarrow> Some (0, set_handler e p t'))
                  else Some (0, t'))"

definition parser_step :: "alloc \<Rightarrow> parser_state \<Rightarrow> ('f, 'o) tree \<Rightarrow> ('f, 'o) parser_result" where
  "parser_step al st t =
     (let c = hd (cp st) in
      if c = CHR ''{'' then parser_begin_keyword st t
      else if c = CHR ''('' then parser_begin_multiple st t
      else if c = CHR ''}'' then parser_end_keyword st t
      else if c = CHR '')'' then parser_end_multiple al st t
      else if c = CHR ''|'' then parser_handle_pipe st t
      else parser_read_word al st t)"

definition skip_blanks :: "parser_state \<Rightarrow> parser_state" where
  "skip_blanks st = st\<lparr>cp := dropWhile (\<lambda>c. c = CHR '' '') (cp st)\<rparr>"

text \<open>Every step without an error shortens the line or the help text.\<close>

lemma next_help_shorter: "next_help s = (Some l, d) \<Longrightarrow> length d < length s"
proof -
  assume h: "next_help s = (Some l, d)"
  let ?p = "dropWhile isspace s"
  from h have "?p \<noteq> []" and d: "d = dropWhile (\<lambda>c. c \<noteq> CHR 0x0A) ?p"
    by (auto simp: next_help_def Let_def split: if_splits)
  moreover have "\<not> isspace (hd ?p)" using \<open>?p \<noteq> []\<close> hd_dropWhile by blast
  then have "hd ?p \<noteq> CHR 0x0A" by (auto simp: isspace_def)
  ultimately have "length d < length ?p"
    by (cases ?p) (auto simp: le_imp_less_Suc length_dropWhile_le)
  then show "length d < length s" using length_dropWhile_le [of isspace s] by simp
qed

lemma parser_step_shorter:
  assumes "parser_step al st t = (0, st', t')" "cp st \<noteq> []"
  shows "length (cp st') + length (help_cp st') < length (cp st) + length (help_cp st)"
proof -
  have tl: "length (tl (cp st)) < length (cp st)" using assms(2) by (cases "cp st") auto
  have word: "length (dropWhile word_char (cp st)) \<le> length (cp st)" by (rule length_dropWhile_le)
  show ?thesis
    using assms(1) tl word next_help_shorter [of "help_cp st"]
    by (auto simp: parser_step_def parser_begin_keyword_def parser_begin_multiple_def parser_end_keyword_def
        parser_end_multiple_def parser_handle_pipe_def parser_read_word_def Let_def ENOMEM_def EINVAL_def
        split: if_splits prod.splits option.splits)
qed

function parser_loop :: "alloc \<Rightarrow> ('f, 'o) cmd_elem \<Rightarrow> parser_state \<Rightarrow> ('f, 'o) tree \<Rightarrow> (int \<times> ('f, 'o) tree) option" where
  "parser_loop al e st t =
     (let st = skip_blanks st in
      if cp st = [] then parser_end e st t
      else case parser_step al st t of
             (r, st', t') \<Rightarrow> if r \<noteq> 0 then Some (r, t') else parser_loop al e st' t')"
  by pat_completeness auto
termination
proof (relation "measure (\<lambda>(al, e, st, t). length (cp st) + length (help_cp st))", goal_cases)
  case (2 al e st t sb r p st' t')
  then have "length (cp st') + length (help_cp st') < length (cp sb) + length (help_cp sb)"
    using parser_step_shorter [of al sb t st' t'] by simp
  moreover have "length (cp sb) \<le> length (cp st)" "help_cp sb = help_cp st"
    using 2(1) by (auto simp: skip_blanks_def length_dropWhile_le)
  ultimately show ?case by simp
qed simp

declare parser_loop.simps [simp del]

definition cmd_add_elem :: "alloc \<Rightarrow> ('f, 'o) tree \<Rightarrow> ('f, 'o) cmd_elem \<Rightarrow> (int \<times> ('f, 'o) tree) option" where
  "cmd_add_elem al t e =
     parser_loop al e \<lparr>cp = line e, help_cp = elem_desc e, in_multiple = False, in_keyword = 0,
       just_read_word = False, token = [], state_parent = 0, save_parent = 0, allocs = 0\<rparr> t"

subsection \<open>Building and deleting the tree\<close>

text \<open>An element that cannot be added is reported and skipped.\<close>

fun cmd_add_elems :: "alloc \<Rightarrow> ('f, 'o) tree \<Rightarrow> ('f, 'o) cmd_elem list \<Rightarrow> (string list \<times> ('f, 'o) tree) option" where
  "cmd_add_elems al t [] = Some ([], t)"
| "cmd_add_elems al t (e # es) =
     (case cmd_add_elem al t e of
        None \<Rightarrow> None
      | Some (r, t') \<Rightarrow>
          map_option (\<lambda>(out, u). (if r < 0 then line e # out else out, u)) (cmd_add_elems al t' es))"

text \<open>
  \<open>cmd_tree_build\<close>: a fresh root, the common commands and then the elements of the
  command section.  The result is the list of the lines that could not be added and the
  tree.
\<close>

definition cmd_tree_build ::
    "alloc \<Rightarrow> bool \<Rightarrow> ('f, 'o) cmd_elem list \<Rightarrow> ('f, 'o) cmd_elem list \<Rightarrow> (string list \<times> ('f, 'o) tree) option option" where
  "cmd_tree_build al mem common_cmds section =
     (if \<not> mem then Some None
      else map_option Some (cmd_add_elems al [cmd_node_new []] (common_cmds @ section)))"

text \<open>
  \<open>cmd_tree_delete\<close> on a chain of siblings: the children, the siblings behind, the
  keywords, and then the node itself.  The result is the order in which the nodes are
  freed; the first argument bounds the depth of the recursion.
\<close>

fun cmd_tree_delete :: "nat \<Rightarrow> ('f, 'o) tree \<Rightarrow> addr list \<Rightarrow> addr list option" where
  "cmd_tree_delete 0 t ns = None"
| "cmd_tree_delete (Suc k) t [] = Some []"
| "cmd_tree_delete (Suc k) t (n # ns) =
     (case cmd_tree_delete k t (children (t ! n)) of
        None \<Rightarrow> None
      | Some cs \<Rightarrow>
          (case cmd_tree_delete (Suc k) t ns of
             None \<Rightarrow> None
           | Some ss \<Rightarrow>
               (case cmd_tree_delete k t (keyword (t ! n)) of
                  None \<Rightarrow> None
                | Some ks \<Rightarrow> Some (cs @ ss @ ks @ [n]))))"

subsection \<open>Invariant\<close>

definition kids :: "('f, 'o) cmd_node \<Rightarrow> addr list" where
  "kids n = children n @ keyword n"

definition token_ok :: "token \<Rightarrow> bool" where
  "token_ok tk \<longleftrightarrow> cstring (key tk) \<and> type tk = token_type_of (key tk)"

text \<open>
  Every node but the root is on exactly one chain, that of its parent, at an address
  behind the parent's, and has tokens.
\<close>

definition tree_wf :: "('f, 'o) tree \<Rightarrow> bool" where
  "tree_wf t \<longleftrightarrow> t \<noteq> [] \<and> tokens (t ! 0) = []
     \<and> mset (concat (map kids t)) = mset [1..<length t]
     \<and> (\<forall>a < length t. \<forall>b \<in> set (kids (t ! a)). a < b \<and> parent (t ! b) = Some a)
     \<and> (\<forall>a < length t. 0 < a \<longrightarrow> tokens (t ! a) \<noteq> [] \<and> (\<exists>p < a. parent (t ! a) = Some p))
     \<and> (\<forall>a < length t. list_all token_ok (tokens (t ! a)))"

text \<open>A tree grows: nodes stay where they are, with their tokens, and chains are extended.\<close>

definition grows :: "('f, 'o) tree \<Rightarrow> ('f, 'o) tree \<Rightarrow> bool" where
  "grows t t' \<longleftrightarrow> length t \<le> length t'
     \<and> (\<forall>a < length t. tokens (t' ! a) = tokens (t ! a)
          \<and> (\<exists>cs. children (t' ! a) = children (t ! a) @ cs)
          \<and> (\<exists>ks. keyword (t' ! a) = keyword (t ! a) @ ks))"

definition state_wf :: "parser_state \<Rightarrow> ('f, 'o) tree \<Rightarrow> bool" where
  "state_wf st t \<longleftrightarrow> state_parent st < length t \<and> save_parent st < length t
     \<and> cstring (cp st) \<and> list_all token_ok (token st)"

subsection \<open>The parser keeps the tree well formed\<close>

lemma grows_refl [simp]: "grows t t"
  by (simp add: grows_def)

lemma growsE:
  assumes "grows t t'" "a < length t"
  obtains cs ks where "tokens (t' ! a) = tokens (t ! a)"
    "children (t' ! a) = children (t ! a) @ cs" "keyword (t' ! a) = keyword (t ! a) @ ks"
  using assms unfolding grows_def by blast

lemma grows_trans:
  assumes "grows t u" "grows u v"
  shows "grows t v"
  unfolding grows_def
proof (intro conjI allI impI)
  show "length t \<le> length v" using assms by (simp add: grows_def)
  fix a assume "a < length t"
  moreover from this obtain cs ks where u: "tokens (u ! a) = tokens (t ! a)"
      "children (u ! a) = children (t ! a) @ cs" "keyword (u ! a) = keyword (t ! a) @ ks"
    by (rule growsE [OF assms(1)])
  moreover have "a < length u" using calculation(1) assms(1) by (simp add: grows_def)
  then obtain cs' ks' where "tokens (v ! a) = tokens (u ! a)"
      "children (v ! a) = children (u ! a) @ cs'" "keyword (v ! a) = keyword (u ! a) @ ks'"
    by (rule growsE [OF assms(2)])
  ultimately show "tokens (v ! a) = tokens (t ! a)" "\<exists>cs. children (v ! a) = children (t ! a) @ cs"
    "\<exists>ks. keyword (v ! a) = keyword (t ! a) @ ks"
    by simp_all
qed

lemma kids_range:
  assumes "tree_wf t" "a < length t" "b \<in> set (kids (t ! a))"
  shows "0 < b \<and> b < length t"
proof -
  have "b \<in> set (concat (map kids t))" using assms(2,3) by (auto intro!: bexI [of _ "t ! a"])
  moreover have "set (concat (map kids t)) = set [1..<length t]"
    using assms(1) mset_eq_setD unfolding tree_wf_def by blast
  ultimately have "b \<in> set [1..<length t]" by (simp only:)
  then show ?thesis by auto
qed

lemma concat_map_update:
  assumes "p < length t"
  shows "mset (concat (map f (t[p := n]))) + mset (f (t ! p)) = mset (concat (map f t)) + mset (f n)"
proof -
  obtain xs y zs where "t = xs @ y # zs" "length xs = p"
    using assms id_take_nth_drop [OF assms] by (metis length_take less_imp_le min.absorb2)
  then show ?thesis by (auto simp: list_update_append)
qed

lemma cmd_node_insert_wf:
  assumes "tree_wf t" "p < length t" "toks \<noteq> []" "list_all token_ok toks"
  shows "tree_wf (cmd_node_insert t p (cmd_node_new toks) kw)"
    and "grows t (cmd_node_insert t p (cmd_node_new toks) kw)"
    and "length (cmd_node_insert t p (cmd_node_new toks) kw) = Suc (length t)"
proof -
  let ?n = "if kw then (t ! p)\<lparr>keyword := keyword (t ! p) @ [length t]\<rparr>
     else (t ! p)\<lparr>children := children (t ! p) @ [length t]\<rparr>"
  let ?new = "(cmd_node_new toks)\<lparr>parent := Some p\<rparr> :: ('a, 'b) cmd_node"
  let ?t = "t[p := ?n] @ [?new]"
  have t': "cmd_node_insert t p (cmd_node_new toks) kw = ?t" by (simp add: cmd_node_insert_def Let_def)
  have n: "tokens ?n = tokens (t ! p)" "parent ?n = parent (t ! p)" "set (kids ?n) = insert (length t) (set (kids (t ! p)))"
    "mset (kids ?n) = mset (kids (t ! p)) + {#length t#}"
    by (auto simp: kids_def)
  have nth: "?t ! a = (if a = length t then ?new else if a = p then ?n else t ! a)" if "a \<le> length t" for a
    using that assms(2) by (auto simp: nth_append nth_list_update)
  have "mset (concat (map kids ?t)) = mset (concat (map kids t)) + {#length t#}"
    using concat_map_update [OF assms(2), of kids ?n] n(4) by (simp add: kids_def cmd_node_new_def)
  moreover have "mset [1..<length t] + {#length t#} = mset [1..<Suc (length t)]"
    using assms(2) by simp
  ultimately have m: "mset (concat (map kids ?t)) = mset [1..<length ?t]"
    using assms(1) by (simp add: tree_wf_def)
  have new: "kids ?new = []" "parent ?new = Some p" "tokens ?new = toks" by (auto simp: kids_def cmd_node_new_def)
  have links: "a < b \<and> parent (?t ! b) = Some a" if "a < length ?t" "b \<in> set (kids (?t ! a))" for a b
  proof (cases "a = length t")
    case True
    with that new show ?thesis by (simp add: nth)
  next
    case False
    then have a: "a < length t" using that by simp
    show ?thesis
    proof (cases "b = length t")
      case True
      then have "a = p" using that(2) a kids_range [OF assms(1) a, of b] by (auto simp: nth split: if_splits)
      with True assms(2) new show ?thesis by (simp add: nth)
    next
      case False
      then have "b \<in> set (kids (t ! a))" using that(2) a n(3) by (auto simp: nth split: if_splits)
      with kids_range [OF assms(1) a this] assms(1) a n show ?thesis by (auto simp: nth tree_wf_def)
    qed
  qed
  have "tokens (?t ! a) \<noteq> [] \<and> (\<exists>q < a. parent (?t ! a) = Some q)" if "a < length ?t" "0 < a" for a
    using that assms n new by (auto simp: nth tree_wf_def)
  moreover have "list_all token_ok (tokens (?t ! a))" if "a < length ?t" for a
    using that assms n new by (auto simp: nth tree_wf_def)
  moreover have "tokens (?t ! 0) = []"
    using assms n by (auto simp: nth tree_wf_def)
  ultimately show "tree_wf (cmd_node_insert t p (cmd_node_new toks) kw)"
    unfolding t' using m links by (simp add: tree_wf_def)
  show "grows t (cmd_node_insert t p (cmd_node_new toks) kw)"
    unfolding t' using assms(2) by (auto simp: grows_def nth_append nth_list_update)
  show "length (cmd_node_insert t p (cmd_node_new toks) kw) = Suc (length t)"
    unfolding t' by simp
qed

lemma cmd_node_find_child: "cmd_node_find t p toks = (Some a, k) \<Longrightarrow> a \<in> set (children (t ! p))"
  by (auto simp: cmd_node_find_def Let_def find_Some_iff split: if_splits option.splits)

lemma token_type_of_word: "token_type_of (takeWhile word_char s) = token_type_of s"
  by (cases s) (auto simp: token_type_of_def word_char_def isspace_def)

lemma cstring_sub:
  "cstring s \<Longrightarrow> cstring (takeWhile P s)" "cstring s \<Longrightarrow> cstring (dropWhile P s)" "cstring s \<Longrightarrow> cstring (tl s)"
  unfolding cstring_def by (auto dest: set_takeWhileD set_dropWhileD) (cases s; simp)

lemma token_record_ok:
  "token_record al i start (takeWhile word_char start) l = Some tk \<Longrightarrow> cstring start \<Longrightarrow> token_ok tk"
  by (auto simp: token_record_def token_ok_def token_type_of_word cstring_sub split: if_splits)

text \<open>What every parser operation keeps, and the codes it returns.\<close>

definition step_ok :: "parser_state \<Rightarrow> ('f, 'o) tree \<Rightarrow> ('f, 'o) parser_result \<Rightarrow> bool" where
  "step_ok st t res \<longleftrightarrow> (case res of (r, st', t') \<Rightarrow>
     tree_wf t' \<and> state_wf st' t' \<and> grows t t' \<and> r \<in> {0, - EINVAL, - ENOMEM})"

lemma parser_read_word_ok:
  assumes "tree_wf t" "state_wf st t"
  shows "step_ok st t (parser_read_word al st t)"
proof -
  have st: "state_parent st < length t" "save_parent st < length t" "cstring (cp st)" "list_all token_ok (token st)"
    using assms(2) by (auto simp: state_wf_def)
  have child: "a < length t" if "cmd_node_find t (state_parent st) toks = (Some a, k)" for toks a k
    using kids_range [OF assms(1) st(1)] cmd_node_find_child [OF that] by (simp add: kids_def)
  have tok: "token_ok tk" if "token_record al i (cp st) (takeWhile word_char (cp st)) l = Some tk" for i l tk
    using token_record_ok [OF that st(3)] .
  have ins: "tree_wf (cmd_node_insert t (state_parent st) (cmd_node_new [tk]) kw)"
    "grows t (cmd_node_insert t (state_parent st) (cmd_node_new [tk]) kw)"
    "length (cmd_node_insert t (state_parent st) (cmd_node_new [tk]) kw) = Suc (length t)"
    if "token_record al i (cp st) (takeWhile word_char (cp st)) l = Some tk" for i l tk kw
    using cmd_node_insert_wf [OF assms(1) st(1), of "[tk]" kw] tok [OF that] by auto
  show ?thesis
    using assms st child tok ins
    by (auto simp: step_ok_def parser_read_word_def state_wf_def cstring_sub Let_def less_Suc_eq
        split: prod.splits option.splits if_splits)
qed

lemma parser_end_multiple_ok:
  assumes "tree_wf t" "state_wf st t"
  shows "step_ok st t (parser_end_multiple al st t)"
proof -
  have st: "state_parent st < length t" "save_parent st < length t" "cstring (cp st)" "list_all token_ok (token st)"
    using assms(2) by (auto simp: state_wf_def)
  have child: "a < length t" if "cmd_node_find t (state_parent st) toks = (Some a, k)" for toks a k
    using kids_range [OF assms(1) st(1)] cmd_node_find_child [OF that] by (simp add: kids_def)
  note ins = cmd_node_insert_wf [OF assms(1) st(1) _ st(4), of False]
  show ?thesis
    using assms st child ins
    by (auto simp: step_ok_def parser_end_multiple_def state_wf_def cstring_sub Let_def
        split: prod.splits option.splits)
qed

lemma parser_step_ok:
  assumes "tree_wf t" "state_wf st t"
  shows "step_ok st t (parser_step al st t)"
  using assms parser_read_word_ok [OF assms, of al] parser_end_multiple_ok [OF assms, of al]
  by (auto simp: parser_step_def step_ok_def parser_begin_keyword_def parser_begin_multiple_def
      parser_end_keyword_def parser_handle_pipe_def state_wf_def cstring_sub Let_def)

lemma set_handler_ok:
  assumes "tree_wf t"
  shows "tree_wf (set_handler e a t)" "grows t (set_handler e a t)"
proof -
  have kids: "map kids (set_handler e a t) = map kids t"
    by (rule nth_equalityI) (auto simp: set_handler_def nth_update kids_def)
  have "tokens (set_handler e a t ! b) = tokens (t ! b) \<and> parent (set_handler e a t ! b) = parent (t ! b)
     \<and> kids (set_handler e a t ! b) = kids (t ! b)" for b
    by (auto simp: set_handler_def nth_update kids_def)
  moreover have "length (set_handler e a t) = length t" by (simp add: set_handler_def)
  moreover have "t \<noteq> [] \<Longrightarrow> set_handler e a t \<noteq> []" by (simp add: set_handler_def)
  ultimately show "tree_wf (set_handler e a t)"
    using assms unfolding tree_wf_def kids by simp
  show "grows t (set_handler e a t)"
    by (auto simp: grows_def set_handler_def nth_update)
qed

text \<open>
  Once a word has been read the parser never comes back to the root, except that the
  root stays the parent while a first group of alternatives is being read.
\<close>

definition off_root :: "parser_state \<Rightarrow> bool" where
  "off_root st \<longleftrightarrow> (state_parent st \<noteq> 0 \<and> (in_keyword st \<noteq> 0 \<longrightarrow> save_parent st \<noteq> 0))
     \<or> (in_keyword st = 0 \<and> in_multiple st)"

lemma find_off_root:
  assumes "tree_wf t" "p < length t" "cmd_node_find t p toks = (Some a, k)"
  shows "0 < a"
  using kids_range [OF assms(1,2)] cmd_node_find_child [OF assms(3)] by (simp add: kids_def)

lemma parser_step_off_root:
  assumes "tree_wf t" "state_wf st t" "parser_step al st t = (0, st', t')"
    and "off_root st \<or> (in_keyword st = 0 \<and> hd (cp st) \<noteq> CHR ''{'')"
  shows "off_root st'"
proof -
  have "t \<noteq> []" "state_parent st < length t" using assms(1,2) by (auto simp: tree_wf_def state_wf_def)
  with assms(3,4) find_off_root [OF assms(1)] show ?thesis
    by (auto simp: parser_step_def off_root_def parser_begin_keyword_def parser_begin_multiple_def
        parser_end_keyword_def parser_handle_pipe_def parser_end_multiple_def parser_read_word_def Let_def
        EINVAL_def ENOMEM_def
        split: if_splits prod.splits option.splits)
qed

lemma inner_node:
  assumes "tree_wf t" "0 < a" "a < length t"
  obtains tk tks p where "tokens (t ! a) = tk # tks" "parent (t ! a) = Some p" "p < a"
proof -
  from assms have "tokens (t ! a) \<noteq> []" "\<exists>p < a. parent (t ! a) = Some p"
    unfolding tree_wf_def by blast+
  with that show thesis by (cases "tokens (t ! a)") auto
qed

lemma parser_end_ok:
  assumes "tree_wf t" "state_wf st t" "off_root st"
  shows "\<exists>r t'. parser_end e st t = Some (r, t') \<and> tree_wf t' \<and> grows t t' \<and> r \<in> {0, - EINVAL}"
proof (cases "in_multiple st \<or> in_keyword st \<noteq> 0")
  case True
  with assms(1) show ?thesis by (auto simp: parser_end_def)
next
  case False
  let ?a = "state_parent st" and ?t = "set_handler e (state_parent st) t"
  have a: "0 < ?a" "?a < length t" using assms(2,3) False by (auto simp: off_root_def state_wf_def)
  note h = set_handler_ok [OF assms(1), of e ?a]
  have len: "length ?t = length t" by (simp add: set_handler_def)
  obtain tk tks p where "tokens (?t ! ?a) = tk # tks" "parent (?t ! ?a) = Some p"
    using inner_node [OF h(1) a(1)] a(2) len by metis
  moreover have "tree_wf (set_handler e p ?t)" "grows t (set_handler e p ?t)"
    using set_handler_ok [OF h(1), of e p] grows_trans [OF h(2)] by auto
  ultimately show ?thesis
    using False h by (cases "type tk = TOKEN_VARARG") (simp_all add: parser_end_def Let_def)
qed

lemma skip_blanks_state [simp]:
  "state_wf st t \<Longrightarrow> state_wf (skip_blanks st) t" "off_root (skip_blanks st) = off_root st"
  by (auto simp: skip_blanks_def state_wf_def off_root_def cstring_sub)

lemma parser_loop_ok:
  assumes "tree_wf t" "state_wf st t" "off_root st"
  shows "\<exists>r t'. parser_loop al e st t = Some (r, t') \<and> tree_wf t' \<and> grows t t' \<and> r \<in> {0, - EINVAL, - ENOMEM}"
  using assms
proof (induction al e st t rule: parser_loop.induct)
  case (1 al e st t)
  let ?st = "skip_blanks st"
  obtain r st' t' where s: "parser_step al ?st t = (r, st', t')" by (metis prod_cases3)
  have ok: "tree_wf t'" "state_wf st' t'" "grows t t'" "r \<in> {0, - EINVAL, - ENOMEM}"
    using parser_step_ok [OF 1(2), of ?st al] 1(3) s by (auto simp: step_ok_def)
  show ?case
  proof (cases "cp ?st = []")
    case True
    then show ?thesis
      using parser_end_ok [OF 1(2), of ?st e] 1(3,4) by (subst parser_loop.simps) auto
  next
    case False
    show ?thesis
    proof (cases "r = 0")
      case True
      have "off_root st'" using parser_step_off_root [OF 1(2), of ?st al st' t'] s True 1(3,4) by simp
      with 1(1) [OF refl False s [symmetric] refl] ok True
      obtain r' u where "parser_loop al e st' t' = Some (r', u)" "tree_wf u" "grows t' u"
        "r' \<in> {0, - EINVAL, - ENOMEM}" by auto
      with False s True ok show ?thesis
        by (subst parser_loop.simps) (auto simp: Let_def intro: grows_trans)
    next
      case r: False
      with False s ok show ?thesis by (subst parser_loop.simps) (auto simp: Let_def)
    qed
  qed
qed

text \<open>The first character of a line behind its leading blanks.\<close>

definition line_start :: "string \<Rightarrow> byte option" where
  "line_start l = (case dropWhile (\<lambda>c. c = CHR '' '') l of [] \<Rightarrow> None | c # _ \<Rightarrow> Some c)"

lemma cmd_add_elem_ok:
  assumes "tree_wf t" "cstring (line e)" "line_start (line e) \<notin> {None, Some (CHR ''{'')}"
  shows "\<exists>r t'. cmd_add_elem al t e = Some (r, t') \<and> tree_wf t' \<and> grows t t' \<and> r \<in> {0, - EINVAL, - ENOMEM}"
proof -
  let ?st0 = "\<lparr>cp = line e, help_cp = elem_desc e, in_multiple = False, in_keyword = 0,
       just_read_word = False, token = [], state_parent = 0, save_parent = 0, allocs = 0\<rparr> :: parser_state"
  let ?st = "skip_blanks ?st0"
  have "t \<noteq> []" using assms(1) by (simp add: tree_wf_def)
  then have st: "state_wf ?st t" using assms(2) by (simp add: state_wf_def skip_blanks_def cstring_sub)
  have ne: "cp ?st \<noteq> []" "hd (cp ?st) \<noteq> CHR ''{''" "in_keyword ?st = 0"
    using assms(3) by (cases "dropWhile (\<lambda>c. c = CHR '' '') (line e)"; simp add: skip_blanks_def line_start_def)+
  obtain r st' t' where s: "parser_step al ?st t = (r, st', t')" by (metis prod_cases3)
  have ok: "tree_wf t'" "state_wf st' t'" "grows t t'" "r \<in> {0, - EINVAL, - ENOMEM}"
    using parser_step_ok [OF assms(1) st, of al] s by (auto simp: step_ok_def)
  have loop: "cmd_add_elem al t e = (if r \<noteq> 0 then Some (r, t') else parser_loop al e st' t')"
    using ne s unfolding cmd_add_elem_def by (subst parser_loop.simps) (simp add: Let_def)
  show ?thesis
  proof (cases "r = 0")
    case True
    have "off_root st'" using parser_step_off_root [OF assms(1) st] s ne True by simp
    from parser_loop_ok [OF ok(1,2) this, of al e] loop True grows_trans [OF ok(3)] show ?thesis
      by auto
  qed (use loop ok in auto)
qed

subsection \<open>Deleting the tree frees every node once\<close>

lemma cmd_tree_delete_mset:
  assumes "tree_wf t" "\<forall>n \<in> set ns. n < length t \<and> length t < k + n" "0 < k"
  shows "\<exists>fs. cmd_tree_delete k t ns = Some fs \<and> set fs \<subseteq> {..<length t}
     \<and> mset fs = mset ns + (\<Sum>x \<in># mset fs. mset (kids (t ! x)))"
  using assms
proof (induction k t ns rule: cmd_tree_delete.induct)
  case (3 k t n ns)
  have n: "n < length t" "length t < Suc k + n" using 3 by auto
  then have k: "0 < k" by simp
  have below: "\<forall>b \<in> set (kids (t ! n)). b < length t \<and> length t < k + b"
  proof
    fix b assume b: "b \<in> set (kids (t ! n))"
    then have "n < b" using 3(4) n(1) unfolding tree_wf_def by blast
    with kids_range [OF 3(4) n(1) b] n show "b < length t \<and> length t < k + b" by simp
  qed
  obtain cs where cs: "cmd_tree_delete k t (children (t ! n)) = Some cs" "set cs \<subseteq> {..<length t}"
    "mset cs = mset (children (t ! n)) + (\<Sum>x \<in># mset cs. mset (kids (t ! x)))"
    using 3(1) [OF 3(4) _ k] below by (auto simp: kids_def)
  obtain ss where ss: "cmd_tree_delete (Suc k) t ns = Some ss" "set ss \<subseteq> {..<length t}"
    "mset ss = mset ns + (\<Sum>x \<in># mset ss. mset (kids (t ! x)))"
    using 3(2) [OF cs(1) 3(4)] 3(5) by auto
  obtain ks where ks: "cmd_tree_delete k t (keyword (t ! n)) = Some ks" "set ks \<subseteq> {..<length t}"
    "mset ks = mset (keyword (t ! n)) + (\<Sum>x \<in># mset ks. mset (kids (t ! x)))"
    using 3(3) [OF cs(1) ss(1) 3(4) _ k] below by (auto simp: kids_def)
  define S where "S fs = (\<Sum>x \<in># mset fs. mset (kids (t ! x)))" for fs
  have all: "S (cs @ ss @ ks @ [n]) = S cs + S ss + S ks + mset (kids (t ! n))" by (simp add: S_def)
  have "mset (cs @ ss @ ks @ [n]) = mset (n # ns)
      + (\<Sum>x \<in># mset (cs @ ss @ ks @ [n]). mset (kids (t ! x)))"
    using cs(3) ss(3) ks(3) unfolding S_def [symmetric] all by (simp add: kids_def ac_simps)
  moreover have "cmd_tree_delete (Suc k) t (n # ns) = Some (cs @ ss @ ks @ [n])"
    using cs(1) ss(1) ks(1) by simp
  moreover have "set (cs @ ss @ ks @ [n]) \<subseteq> {..<length t}" using cs(2) ss(2) ks(2) n(1) by simp
  ultimately show ?case by blast
qed auto

lemma sum_mset_delta: "(\<Sum>y \<in># M. if y = p then 1 else 0) = count M p"
  by (induction M) auto

lemma count_sum_mset: "count (\<Sum>y \<in># M. f y) x = (\<Sum>y \<in># M. count (f y) x)"
  by (induction M) auto

lemma kids_count:
  assumes "tree_wf t" "0 < x" "x < length t" "parent (t ! x) = Some p" "y < length t"
  shows "count (mset (kids (t ! y))) x = (if y = p then 1 else 0)"
proof -
  have m: "mset (concat (map kids t)) = mset [1..<length t]" using assms(1) unfolding tree_wf_def by blast
  then have "distinct (concat (map kids t))" using mset_eq_imp_distinct_iff by fastforce
  then have d: "distinct (kids (t ! y))" using assms(5) by (simp add: distinct_concat_iff)
  have "x \<in> set [1..<length t]" using assms(2,3) by simp
  then have "x \<in> set (concat (map kids t))" using mset_eq_setD [OF m] by blast
  then obtain n where "n \<in> set t" "x \<in> set (kids n)" by auto
  then obtain z where z: "z < length t" "x \<in> set (kids (t ! z))" by (auto simp: in_set_conv_nth [of _ t])
  have link: "parent (t ! x) = Some w" if "w < length t" "x \<in> set (kids (t ! w))" for w
    using assms(1) that unfolding tree_wf_def by blast
  from link [OF z] assms(4) z have "x \<in> set (kids (t ! p))" by simp
  with link [OF assms(5)] assms(4) have "x \<in> set (kids (t ! y)) \<longleftrightarrow> y = p" by (metis option.inject)
  moreover have "count (mset (kids (t ! y))) x = (if x \<in> set (kids (t ! y)) then 1 else 0)"
    using d by (simp add: distinct_count_atmost_1)
  ultimately show ?thesis by simp
qed

lemma cmd_tree_delete_once:
  assumes "tree_wf t"
  shows "\<exists>fs. cmd_tree_delete (Suc (length t)) t [0] = Some fs \<and> distinct fs \<and> set fs = {..<length t}"
proof -
  have "t \<noteq> []" using assms by (simp add: tree_wf_def)
  with cmd_tree_delete_mset [OF assms, of "[0]" "Suc (length t)"] obtain fs where
    fs: "cmd_tree_delete (Suc (length t)) t [0] = Some fs" "set fs \<subseteq> {..<length t}"
      "mset fs = {#0#} + (\<Sum>x \<in># mset fs. mset (kids (t ! x)))" by auto
  have one: "count (mset fs) x = 1" if "x < length t" for x
    using that
  proof (induction x rule: less_induct)
    case (less x)
    have sum: "count (mset fs) x = count {#0#} x + (\<Sum>y \<in># mset fs. count (mset (kids (t ! y))) x)"
      by (subst fs(3)) (simp add: count_sum_mset)
    show ?case
    proof (cases "x = 0")
      case True
      have "\<forall>y \<in># mset fs. count (mset (kids (t ! y))) 0 = 0"
        using kids_range [OF assms] fs(2) by (fastforce simp: count_eq_zero_iff)
      then have "(\<Sum>y \<in># mset fs. count (mset (kids (t ! y))) 0) = 0" by simp
      with sum True show ?thesis by simp
    next
      case False
      then obtain p where p: "parent (t ! x) = Some p" "p < x"
        using inner_node [OF assms _ less.prems] by blast
      have "count (mset (kids (t ! y))) x = (if y = p then 1 else 0)" if "y \<in># mset fs" for y
        using kids_count [OF assms _ less.prems p(1)] False fs(2) that by fastforce
      then have "(\<Sum>y \<in># mset fs. count (mset (kids (t ! y))) x) = (\<Sum>y \<in># mset fs. if y = p then 1 else 0)"
        by (intro arg_cong [of _ _ sum_mset] image_mset_cong) simp
      then show ?thesis using sum False less p by (simp add: sum_mset_delta)
    qed
  qed
  have "x \<in> set fs" if "x < length t" for x
    using one [OF that] by (metis count_eq_zero_iff one_neq_zero set_mset_mset)
  then have "set fs = {..<length t}" using fs(2) by auto
  moreover from this have "distinct fs"
    using one by (auto simp: distinct_count_atmost_1 count_eq_zero_iff)
  ultimately show ?thesis using fs(1) by blast
qed

subsection \<open>Properties\<close>





end
