(* ===== verification/Cmd_Register.thy ===== *)
theory Cmd_Register
  imports Cmd_Tree
begin

section \<open>Registering plain command lines\<close>

text \<open>
  A plain command line consists of literal words only.  Adding one puts its handler at
  the end of the path of its words, and the path stays there whatever is added later.
\<close>

subsection \<open>Paths\<close>

text \<open>The node that a path of words leads to, at each step the first child that has the word as a key.\<close>

fun walk :: "('f, 'o) tree \<Rightarrow> addr \<Rightarrow> string list \<Rightarrow> addr option" where
  "walk t p [] = Some p"
| "walk t p (w # ws) =
     (case find (\<lambda>a. has_key (t ! a) w) (children (t ! p)) of
        None \<Rightarrow> None
      | Some a \<Rightarrow> walk t a ws)"

definition plain_word :: "string \<Rightarrow> bool" where
  "plain_word w \<longleftrightarrow> w \<noteq> [] \<and> list_all word_char w \<and> cstring w \<and> token_type_of w = TOKEN_LITERAL"

fun join_words :: "string list \<Rightarrow> string" where
  "join_words [] = []"
| "join_words [w] = w"
| "join_words (w # v # ws) = w @ CHR '' '' # join_words (v # ws)"

definition help_line :: "string \<Rightarrow> bool" where
  "help_line d \<longleftrightarrow> d \<noteq> [] \<and> \<not> isspace (hd d) \<and> CHR 0x0A \<notin> set d"

definition help_text :: "string list \<Rightarrow> string" where
  "help_text ds = concat (map (\<lambda>d. d @ [CHR 0x0A]) ds)"

subsection \<open>Lemmas\<close>

lemma find_cong_set: "(\<And>x. x \<in> set xs \<Longrightarrow> P x = Q x) \<Longrightarrow> find P xs = find Q xs"
  by (induction xs) auto

lemma find_append_Some: "find P xs = Some x \<Longrightarrow> find P (xs @ ys) = Some x"
  by (induction xs) (auto split: if_splits)

lemma find_append_None: "find P xs = None \<Longrightarrow> find P (xs @ ys) = find P ys"
  by (induction xs) (auto split: if_splits)

lemma children_range:
  assumes "tree_wf t" "p < length t" "a \<in> set (children (t ! p))"
  shows "0 < a" "a < length t" "p < a"
  using kids_range [OF assms(1,2), of a] assms unfolding tree_wf_def by (auto simp: kids_def)

lemma find_grows:
  assumes "grows t t'" "tree_wf t" "p < length t"
    and "find (\<lambda>a. has_key (t ! a) w) (children (t ! p)) = Some b"
  shows "find (\<lambda>a. has_key (t' ! a) w) (children (t' ! p)) = Some b"
proof -
  obtain cs where cs: "children (t' ! p) = children (t ! p) @ cs"
    using growsE [OF assms(1,3)] by blast
  have "has_key (t' ! a) w = has_key (t ! a) w" if "a \<in> set (children (t ! p))" for a
    using assms(1) children_range(2) [OF assms(2,3) that] by (simp add: grows_def has_key_def)
  then have "find (\<lambda>a. has_key (t' ! a) w) (children (t ! p)) = find (\<lambda>a. has_key (t ! a) w) (children (t ! p))"
    by (rule find_cong_set)
  then have "find (\<lambda>a. has_key (t' ! a) w) (children (t ! p)) = Some b" using assms(4) by simp
  then show ?thesis by (simp add: cs find_append_Some)
qed

lemma walk_grows:
  assumes "grows t t'" "tree_wf t" "p < length t" "walk t p ws = Some q"
  shows "walk t' p ws = Some q"
  using assms
proof (induction ws arbitrary: p)
  case (Cons w ws)
  then obtain b where b: "find (\<lambda>a. has_key (t ! a) w) (children (t ! p)) = Some b" "walk t b ws = Some q"
    by (auto split: option.splits)
  have "b < length t"
    using b(1) children_range(2) [OF Cons.prems(2,3)] by (auto simp: find_Some_iff)
  with Cons.IH [OF Cons.prems(1,2) _ b(2)] find_grows [OF Cons.prems(1-3) b(1)] show ?case by simp
qed simp

lemma walk_range:
  assumes "tree_wf t" "p < length t" "walk t p ws = Some q"
  shows "q < length t \<and> (ws \<noteq> [] \<longrightarrow> p < q)"
  using assms
proof (induction ws arbitrary: p)
  case (Cons w ws)
  then obtain b where b: "find (\<lambda>a. has_key (t ! a) w) (children (t ! p)) = Some b" "walk t b ws = Some q"
    by (auto split: option.splits)
  then have "b \<in> set (children (t ! p))" by (auto simp: find_Some_iff)
  with children_range [OF Cons.prems(1,2) this] Cons.IH [OF Cons.prems(1) _ b(2)] b(2) show ?case by (cases ws) auto
qed simp

lemma help_text_Cons: "help_text (d # ds) = d @ CHR 0x0A # help_text ds"
  by (simp add: help_text_def)

lemma dropWhile_help: "list_all help_line ds \<Longrightarrow> dropWhile isspace (help_text ds) = help_text ds"
proof (cases ds)
  case (Cons d es)
  assume "list_all help_line ds"
  with Cons show ?thesis by (cases d) (auto simp: help_text_Cons help_line_def)
qed (simp add: help_text_def)

lemma next_help_text:
  assumes "list_all help_line (d # ds)" "dropWhile isspace s = help_text (d # ds)"
  shows "\<exists>s'. next_help s = (Some d, s') \<and> dropWhile isspace s' = help_text ds"
proof -
  have d: "\<forall>c \<in> set d. c \<noteq> CHR 0x0A" "help_text (d # ds) \<noteq> []"
    using assms(1) by (auto simp: help_line_def help_text_Cons)
  then have "next_help s = (Some d, CHR 0x0A # help_text ds)"
    using assms(2) by (simp add: next_help_def Let_def help_text_Cons takeWhile_append2 dropWhile_append2)
  moreover have "dropWhile isspace (CHR 0x0A # help_text ds) = help_text ds"
    using dropWhile_help [of ds] assms(1) by (simp add: isspace_def)
  ultimately show ?thesis by simp
qed

lemma word_end:
  assumes "list_all word_char w" "rest = [] \<or> \<not> word_char (hd rest)"
  shows "takeWhile word_char (w @ rest) = w" "dropWhile word_char (w @ rest) = rest"
proof -
  have r: "takeWhile word_char rest = []" "dropWhile word_char rest = rest"
    using assms(2) by (cases rest; simp)+
  have "\<forall>x \<in> set w. word_char x" using assms(1) by (simp add: list_all_iff)
  then show "takeWhile word_char (w @ rest) = w" "dropWhile word_char (w @ rest) = rest"
    using r by (simp_all add: takeWhile_append2 dropWhile_append2)
qed

lemma strcmp_refl [simp]: "strcmp s s = 0"
  by (induction s) auto

lemma plain_insert:
  assumes "tree_wf t" "p < length t" "find (\<lambda>a. has_key (t ! a) (key tk)) (children (t ! p)) = None"
  shows "find (\<lambda>a. has_key (cmd_node_insert t p (cmd_node_new [tk]) False ! a) (key tk))
     (children (cmd_node_insert t p (cmd_node_new [tk]) False ! p)) = Some (length t)"
proof -
  let ?t = "cmd_node_insert t p (cmd_node_new [tk]) False"
  have ch: "children (?t ! p) = children (t ! p) @ [length t]"
    using assms(2) by (simp add: cmd_node_insert_def nth_append)
  have "has_key (?t ! a) (key tk) = has_key (t ! a) (key tk)" if "a \<in> set (children (t ! p))" for a
    using children_range(2) [OF assms(1,2) that] assms(2)
    by (auto simp: cmd_node_insert_def nth_append nth_update has_key_def)
  then have "find (\<lambda>a. has_key (?t ! a) (key tk)) (children (t ! p))
      = find (\<lambda>a. has_key (t ! a) (key tk)) (children (t ! p))"
    by (rule find_cong_set)
  then have "find (\<lambda>a. has_key (?t ! a) (key tk)) (children (t ! p)) = None" using assms(3) by simp
  moreover have "has_key (?t ! length t) (key tk)"
    by (simp add: cmd_node_insert_def nth_append has_key_def cmd_node_new_def)
  ultimately show ?thesis by (simp add: ch find_append_None)
qed

text \<open>The state of the parser between the words of a plain line.\<close>

definition plain_state :: "parser_state \<Rightarrow> bool" where
  "plain_state st \<longleftrightarrow> \<not> in_multiple st \<and> in_keyword st = 0"

lemma plain_step:
  assumes "tree_wf t" "state_wf st t" "plain_state st" "\<forall>i. al i"
    and w: "plain_word w" "cp st = w @ rest" "rest = [] \<or> hd rest = CHR '' ''"
    and h: "list_all help_line (d # ds)" "dropWhile isspace (help_cp st) = help_text (d # ds)"
  shows "\<exists>st' t'. parser_step al st t = (0, st', t') \<and> plain_state st' \<and> cp st' = rest
     \<and> dropWhile isspace (help_cp st') = help_text ds
     \<and> find (\<lambda>a. has_key (t' ! a) w) (children (t' ! state_parent st)) = Some (state_parent st')"
proof -
  let ?p = "state_parent st" and ?tk = "\<lparr>key = w, desc = d, type = TOKEN_LITERAL\<rparr>"
  obtain c cs where c: "w = c # cs" "word_char c" using w(1) by (cases w) (auto simp: plain_word_def)
  have step: "parser_step al st t = parser_read_word al st t"
    using c w(2) by (auto simp: parser_step_def word_char_def)
  have "\<not> word_char (CHR '' '')" by (simp add: word_char_def isspace_def)
  then have ends: "takeWhile word_char (cp st) = w" "dropWhile word_char (cp st) = rest"
    using word_end [of w rest] w by (auto simp: plain_word_def)
  obtain s' where s': "next_help (help_cp st) = (Some d, s')" "dropWhile isspace s' = help_text ds"
    using next_help_text [OF h] by blast
  have "token_type_of (cp st) = TOKEN_LITERAL"
    using token_type_of_word [of "cp st"] w(1) ends(1) by (simp add: plain_word_def)
  then have rec: "token_record al i (cp st) w d = Some ?tk" for i
    using assms(4) by (simp add: token_record_def)
  have p: "?p < length t" using assms(2) by (simp add: state_wf_def)
  show ?thesis
  proof (cases "find (\<lambda>a. has_key (t ! a) w) (children (t ! ?p))")
    case (Some a)
    then have "cmd_node_find t ?p [?tk] = (Some a, 1)" by (simp add: cmd_node_find_def)
    with Some show ?thesis
      using assms(3,4) s' rec by (simp add: step parser_read_word_def ends Let_def plain_state_def)
  next
    case None
    then have "cmd_node_find t ?p [?tk] = (None, 0)" by (simp add: cmd_node_find_def)
    moreover have "find (\<lambda>a. has_key (cmd_node_insert t ?p (cmd_node_new [?tk]) False ! a) w)
       (children (cmd_node_insert t ?p (cmd_node_new [?tk]) False ! ?p)) = Some (length t)"
      using plain_insert [OF assms(1) p, of ?tk] None by simp
    ultimately show ?thesis
      using assms(3,4) s' rec by (simp add: step parser_read_word_def ends Let_def plain_state_def)
  qed
qed

lemma join_words_split:
  assumes "list_all plain_word (w # ws)"
  obtains rest where "join_words (w # ws) = w @ rest" "rest = [] \<or> hd rest = CHR '' ''"
    "dropWhile (\<lambda>c. c = CHR '' '') rest = join_words ws"
proof (cases ws)
  case Nil
  with that [of "[]"] show thesis by simp
next
  case (Cons v us)
  obtain c cs where "v = c # cs" "c \<noteq> CHR '' ''"
    using assms Cons by (cases v) (auto simp: plain_word_def word_char_def isspace_def)
  then have "dropWhile (\<lambda>c. c = CHR '' '') (CHR '' '' # join_words ws) = join_words ws"
    by (cases us) (auto simp: Cons)
  with Cons that [of "CHR '' '' # join_words ws"] show thesis by simp
qed

lemma parser_loop_plain:
  assumes "tree_wf t" "state_wf st t" "plain_state st" "\<forall>i. al i"
    and "list_all plain_word ws" "dropWhile (\<lambda>c. c = CHR '' '') (cp st) = join_words ws"
    and "list_all help_line ds" "dropWhile isspace (help_cp st) = help_text ds" "length ws \<le> length ds"
  shows "\<exists>st' t'. parser_loop al e st t = parser_end e st' t' \<and> tree_wf t' \<and> state_wf st' t' \<and> grows t t'
     \<and> plain_state st' \<and> walk t' (state_parent st) ws = Some (state_parent st')"
  using assms
proof (induction ws arbitrary: st t ds)
  case Nil
  then have "parser_loop al e st t = parser_end e (skip_blanks st) t"
    by (subst parser_loop.simps) (simp add: skip_blanks_def)
  moreover have "plain_state (skip_blanks st)" "state_parent (skip_blanks st) = state_parent st"
    using Nil.prems(3) by (simp_all add: plain_state_def skip_blanks_def)
  ultimately show ?case
    using Nil.prems(1,2) by (intro exI [of _ "skip_blanks st"] exI [of _ t]) simp
next
  case (Cons w ws)
  obtain d ds' where ds: "ds = d # ds'" "list_all help_line ds'" using Cons.prems(7,9) by (cases ds) auto
  obtain rest where rest: "join_words (w # ws) = w @ rest" "rest = [] \<or> hd rest = CHR '' ''"
    "dropWhile (\<lambda>c. c = CHR '' '') rest = join_words ws"
    by (rule join_words_split [OF Cons.prems(5)])
  let ?st = "skip_blanks st"
  have sb: "state_wf ?st t" "plain_state ?st" "cp ?st = w @ rest" "help_cp ?st = help_cp st"
      "state_parent ?st = state_parent st"
    using Cons.prems(2,3,6) rest(1) by (auto simp: plain_state_def) (simp_all add: skip_blanks_def)
  obtain st' t' where s: "parser_step al ?st t = (0, st', t')" "plain_state st'" "cp st' = rest"
      "dropWhile isspace (help_cp st') = help_text ds'"
      "find (\<lambda>a. has_key (t' ! a) w) (children (t' ! state_parent st)) = Some (state_parent st')"
    using plain_step [OF Cons.prems(1) sb(1,2) Cons.prems(4) _ sb(3) rest(2), of d ds'] Cons.prems(5,7,8) ds sb(4,5)
    by auto
  have ok: "tree_wf t'" "state_wf st' t'" "grows t t'"
    using parser_step_ok [OF Cons.prems(1) sb(1), of al] s(1) by (auto simp: step_ok_def)
  obtain st2 t2 where r: "parser_loop al e st' t' = parser_end e st2 t2" "tree_wf t2" "state_wf st2 t2" "grows t' t2"
      "plain_state st2" "walk t2 (state_parent st') ws = Some (state_parent st2)"
    using Cons.IH [OF ok(1,2) s(2) Cons.prems(4) _ _ ds(2) s(4)] Cons.prems(5,9) rest(3) s(3) ds(1) by auto
  have "cp ?st \<noteq> []" using sb(3) Cons.prems(5) by (simp add: plain_word_def)
  then have "parser_loop al e st t = parser_loop al e st' t'"
    using s(1) by (subst parser_loop.simps) (simp add: Let_def)
  moreover have "state_parent st < length t'"
    using Cons.prems(2) ok(3) by (simp add: state_wf_def grows_def)
  then have "walk t2 (state_parent st) (w # ws) = Some (state_parent st2)"
    using find_grows [OF r(4) ok(1) _ s(5)] r(6) by simp
  ultimately show ?case using r grows_trans [OF ok(3) r(4)] by metis
qed

subsection \<open>Registration\<close>

lemma parser_end_plain:
  assumes "tree_wf t" "state_wf st t" "plain_state st" "0 < state_parent st"
  shows "\<exists>t'. parser_end e st t = Some (0, t') \<and> tree_wf t' \<and> grows t t'
     \<and> func (t' ! state_parent st) = elem_func e \<and> optattr (t' ! state_parent st) = elem_optattr e"
proof -
  let ?a = "state_parent st" and ?t = "set_handler e (state_parent st) t"
  have off: "off_root st" using assms(3,4) by (simp add: off_root_def plain_state_def)
  obtain r t' where r: "parser_end e st t = Some (r, t')" "tree_wf t'" "grows t t'"
    using parser_end_ok [OF assms(1,2) off] by blast
  have a: "?a < length t" using assms(2) by (simp add: state_wf_def)
  then have h: "func (?t ! ?a) = elem_func e" "optattr (?t ! ?a) = elem_optattr e"
    by (simp_all add: set_handler_def)
  moreover have "func (set_handler e p ?t ! ?a) = elem_func e" "optattr (set_handler e p ?t ! ?a) = elem_optattr e" for p
    using h a by (auto simp: set_handler_def nth_update)
  ultimately show ?thesis
    using r assms(3) by (auto simp: parser_end_def plain_state_def Let_def split: list.splits if_splits option.splits)
qed

lemma cmd_add_elem_plain:
  assumes "tree_wf t" "\<forall>i. al i" "ws \<noteq> []" "list_all plain_word ws" "line e = join_words ws"
    and "list_all help_line ds" "elem_desc e = help_text ds" "length ws \<le> length ds"
  shows "\<exists>t' q. cmd_add_elem al t e = Some (0, t') \<and> tree_wf t' \<and> grows t t' \<and> walk t' 0 ws = Some q
     \<and> func (t' ! q) = elem_func e \<and> optattr (t' ! q) = elem_optattr e"
proof -
  let ?st = "\<lparr>cp = line e, help_cp = elem_desc e, in_multiple = False, in_keyword = 0,
       just_read_word = False, token = [], state_parent = 0, save_parent = 0, allocs = 0\<rparr> :: parser_state"
  have "t \<noteq> []" using assms(1) by (simp add: tree_wf_def)
  moreover have "cstring (join_words ws)"
    using assms(4) by (induction ws rule: join_words.induct) (auto simp: plain_word_def cstring_def)
  ultimately have st: "state_wf ?st t" "plain_state ?st"
    using assms(5) by (auto simp: state_wf_def plain_state_def)
  have "join_words ws \<noteq> [] \<and> hd (join_words ws) \<noteq> CHR '' ''"
    using assms(3,4) by (cases ws rule: join_words.cases; cases "hd ws")
      (auto simp: plain_word_def word_char_def isspace_def)
  then have "dropWhile (\<lambda>c. c = CHR '' '') (line e) = join_words ws"
    using assms(5) by (cases "join_words ws") auto
  moreover have "dropWhile isspace (elem_desc e) = help_text ds"
    using dropWhile_help assms(6,7) by simp
  ultimately obtain st' t' where l: "cmd_add_elem al t e = parser_end e st' t'" "tree_wf t'" "state_wf st' t'"
      "grows t t'" "plain_state st'" "walk t' 0 ws = Some (state_parent st')"
    using parser_loop_plain [OF assms(1) st assms(2,4) _ assms(6) _ assms(8), of e]
    by (auto simp: cmd_add_elem_def)
  have "0 < state_parent st'"
    using walk_range [OF l(2) _ l(6)] l(2) assms(3) by (auto simp: tree_wf_def)
  with parser_end_plain [OF l(2,3,5)] obtain u where u: "parser_end e st' t' = Some (0, u)" "tree_wf u" "grows t' u"
    "func (u ! state_parent st') = elem_func e" "optattr (u ! state_parent st') = elem_optattr e" by blast
  have "walk u 0 ws = Some (state_parent st')"
    using walk_grows [OF u(3) l(2) _ l(6)] l(2) by (auto simp: tree_wf_def)
  with u l grows_trans [OF l(4) u(3)] show ?thesis by auto
qed

end
