(* ===== verification/Hash_Table.thy ===== *)
theory Hash_Table
  imports Key_Value
begin

section \<open>The generic hash table (hashtable.c)\<close>

text \<open>
  A table is an array of buckets; a bucket (\<open>struct node\<close>) counts its elements and chains
  them.  Keys and values are abstract: with \<open>key_is_ptr\<close> the element holds the pointer,
  otherwise a copy of the key, and in both cases \<open>compare\<close> and \<open>hash\<close> see the key itself.
  The calls of \<open>free_key\<close> and \<open>free_value\<close> are collected in the order they are made.
  The code asserts that its allocations succeed, so an operation that returns has its
  memory; a division by a bucket count of zero is the result \<open>None\<close>.
\<close>

record ('k, 'v) kpattr =
  key_is_ptr :: bool
  value_is_ptr :: bool
  key_size :: nat
  value_size :: nat
  hash :: "('k \<Rightarrow> size_t) option"
  compare :: "('k \<Rightarrow> 'k \<Rightarrow> int) option"
  free_key :: bool
  free_value :: bool

record ('k, 'v) elem =
  ehash :: size_t
  ekey :: 'k
  evalue :: 'v

record ('k, 'v) bucket =
  bcount :: nat
  chain :: "('k, 'v) elem list"

record ('k, 'v) hashtable =
  attr :: "('k, 'v) kpattr"
  bucket_size :: nat
  node :: "('k, 'v) bucket list"
  hcount :: nat
  factor :: nat

datatype ('k, 'v) release = ReleaseKey 'k | ReleaseValue 'v

subsection \<open>Operations\<close>

definition POINTER_SIZE :: nat where
  "POINTER_SIZE = 8"

definition attr_ok :: "('k, 'v) kpattr \<Rightarrow> bool" where
  "attr_ok a =
     (if hash a = None \<or> compare a = None then False
      else if \<not> key_is_ptr a \<and> key_size a = 0 then False
      else if \<not> value_is_ptr a \<and> value_size a = 0 then False
      else True)"

definition empty_bucket :: "('k, 'v) bucket" where
  "empty_bucket = \<lparr>bcount = 0, chain = []\<rparr>"

text \<open>
  The two allocations may fail.  A bucket count of zero is first replaced by 16, but the
  field is set again from the argument before the table is returned.
\<close>

definition hashtable_create ::
    "bool \<Rightarrow> bool \<Rightarrow> nat \<Rightarrow> ('k, 'v) kpattr \<Rightarrow> ('k, 'v) hashtable option" where
  "hashtable_create mem_h mem_node bs a =
     (if \<not> mem_h then None
      else if \<not> mem_node then None
      else if \<not> attr_ok a then None
      else Some
        \<lparr>attr = a\<lparr>key_size := (if key_is_ptr a then POINTER_SIZE else key_size a),
                  value_size := (if value_is_ptr a then POINTER_SIZE else value_size a)\<rparr>,
         bucket_size = bs,
         node = replicate bs empty_bucket,
         hcount = 0,
         factor = 80\<rparr>)"

definition key_hash :: "('k, 'v) hashtable \<Rightarrow> 'k \<Rightarrow> size_t" where
  "key_hash h k = the (hash (attr h)) k"

definition key_eq :: "('k, 'v) hashtable \<Rightarrow> 'k \<Rightarrow> 'k \<Rightarrow> bool" where
  "key_eq h a b \<longleftrightarrow> the (compare (attr h)) a b = 0"

definition bucket_index :: "('k, 'v) hashtable \<Rightarrow> 'k \<Rightarrow> nat" where
  "bucket_index h k = unat (key_hash h k) mod bucket_size h"

fun chain_find :: "('k \<Rightarrow> 'k \<Rightarrow> bool) \<Rightarrow> ('k, 'v) elem list \<Rightarrow> 'k \<Rightarrow> 'v option" where
  "chain_find eq [] k = None"
| "chain_find eq (e # es) k = (if eq (ekey e) k then Some (evalue e) else chain_find eq es k)"

definition hashtable_get :: "('k, 'v) hashtable \<Rightarrow> 'k \<Rightarrow> 'v option option" where
  "hashtable_get h k =
     (if bucket_size h = 0 then None
      else let b = node h ! bucket_index h k
           in Some (if bcount b = 0 then None else chain_find (key_eq h) (chain b) k))"

definition grow_step :: "nat \<Rightarrow> ('k, 'v) elem \<Rightarrow> ('k, 'v) bucket list \<Rightarrow> ('k, 'v) bucket list" where
  "grow_step bs e ns =
     (let i = unat (ehash e) mod bs; b = ns ! i
      in ns[i := \<lparr>bcount = Suc (bcount b), chain = e # chain b\<rparr>])"

definition grow_nodes :: "nat \<Rightarrow> ('k, 'v) bucket list \<Rightarrow> ('k, 'v) bucket list" where
  "grow_nodes bs bks =
     fold (\<lambda>b ns. fold (grow_step bs) (chain b) ns) bks (replicate bs empty_bucket)"

definition hashtable_grow :: "('k, 'v) hashtable \<Rightarrow> ('k, 'v) hashtable" where
  "hashtable_grow h =
     (let bs = bucket_size h * 2
      in h\<lparr>node := grow_nodes bs (node h), bucket_size := bs\<rparr>)"

text \<open>
  The search of \<open>hashtable_set\<close>: the chain up to the matching element, that element and
  the rest, or \<open>None\<close> when the end of the chain is reached.
\<close>

fun chain_locate :: "('k \<Rightarrow> 'k \<Rightarrow> bool) \<Rightarrow> ('k, 'v) elem list \<Rightarrow> 'k \<Rightarrow>
    (('k, 'v) elem list \<times> ('k, 'v) elem \<times> ('k, 'v) elem list) option" where
  "chain_locate eq [] k = None"
| "chain_locate eq (e # es) k =
     (if eq (ekey e) k then Some ([], e, es)
      else map_option (\<lambda>(pre, f, post). (e # pre, f, post)) (chain_locate eq es k))"

definition release_value :: "('k, 'v) hashtable \<Rightarrow> ('k, 'v) elem \<Rightarrow> ('k, 'v) release list" where
  "release_value h e = (if free_value (attr h) then [ReleaseValue (evalue e)] else [])"

definition release_key :: "('k, 'v) hashtable \<Rightarrow> ('k, 'v) elem \<Rightarrow> ('k, 'v) release list" where
  "release_key h e = (if free_key (attr h) then [ReleaseKey (ekey e)] else [])"

definition set_bucket :: "('k, 'v) hashtable \<Rightarrow> nat \<Rightarrow> ('k, 'v) bucket \<Rightarrow> ('k, 'v) hashtable" where
  "set_bucket h i b = h\<lparr>node := (node h)[i := b]\<rparr>"

definition hashtable_set ::
    "('k, 'v) hashtable \<Rightarrow> 'k \<Rightarrow> 'v \<Rightarrow> (('k, 'v) hashtable \<times> ('k, 'v) release list) option" where
  "hashtable_set h k v =
     (if bucket_size h = 0 then None
      else let hv = key_hash h k; i = unat hv mod bucket_size h; b = node h ! i
           in case chain_locate (key_eq h) (chain b) k of
                Some (pre, e, post) \<Rightarrow>
                  Some (set_bucket h i (b\<lparr>chain := pre @ e\<lparr>evalue := v\<rparr> # post\<rparr>),
                        if \<not> value_is_ptr (attr h) \<or> evalue e \<noteq> v then release_value h e else [])
              | None \<Rightarrow>
                  (let new = \<lparr>ehash = hv, ekey = k, evalue = v\<rparr>;
                       h' = (set_bucket h i \<lparr>bcount = Suc (bcount b), chain = chain b @ [new]\<rparr>)
                              \<lparr>hcount := Suc (hcount h)\<rparr>
                   in Some (if hcount h' > factor h' * bucket_size h' div 100
                            then hashtable_grow h' else h', [])))"

definition hashtable_delete ::
    "('k, 'v) hashtable \<Rightarrow> 'k \<Rightarrow> (('k, 'v) hashtable \<times> ('k, 'v) release list) option" where
  "hashtable_delete h k =
     (if bucket_size h = 0 then None
      else let i = bucket_index h k; b = node h ! i
           in case chain_locate (key_eq h) (chain b) k of
                None \<Rightarrow> Some (h, [])
              | Some (pre, e, post) \<Rightarrow>
                  Some ((set_bucket h i \<lparr>bcount = bcount b - 1, chain = pre @ post\<rparr>)
                          \<lparr>hcount := hcount h - 1\<rparr>,
                        release_key h e @ release_value h e))"

definition elems :: "('k, 'v) hashtable \<Rightarrow> ('k, 'v) elem list" where
  "elems h = concat (map chain (node h))"

definition hashtable_destroy :: "('k, 'v) hashtable \<Rightarrow> ('k, 'v) release list" where
  "hashtable_destroy h = concat (map (\<lambda>e. release_key h e @ release_value h e) (elems h))"

text \<open>\<open>hashtable_clear\<close> empties every chain; the counts of the buckets stay as they are.\<close>

definition hashtable_clear :: "('k, 'v) hashtable \<Rightarrow> ('k, 'v) hashtable \<times> ('k, 'v) release list" where
  "hashtable_clear h =
     (h\<lparr>node := map (\<lambda>b. b\<lparr>chain := []\<rparr>) (node h), hcount := 0\<rparr>,
      concat (map (\<lambda>e. release_key h e @ release_value h e) (elems h)))"

definition hashtable_travel :: "('k, 'v) hashtable \<Rightarrow> ('k \<Rightarrow> 'v \<Rightarrow> 's \<Rightarrow> 's) \<Rightarrow> 's \<Rightarrow> 's" where
  "hashtable_travel h func st = fold (\<lambda>e st. func (ekey e) (evalue e) st) (elems h) st"

definition hashtable_stat :: "('k, 'v) hashtable \<Rightarrow> (nat \<times> nat) list" where
  "hashtable_stat h = map (\<lambda>i. (i, bcount (node h ! i))) [0..<bucket_size h]"

definition hashtable_count :: "('k, 'v) hashtable \<Rightarrow> nat" where
  "hashtable_count h = hcount h"

subsection \<open>Invariant and abstraction\<close>

definition pair_of :: "('k, 'v) elem \<Rightarrow> 'k \<times> 'v" where
  "pair_of e = (ekey e, evalue e)"

definition ht_map :: "('k, 'v) hashtable \<Rightarrow> 'k \<Rightarrow> 'v option" where
  "ht_map h = map_of (map pair_of (elems h))"

definition bucket_wf :: "('k \<Rightarrow> bool) \<Rightarrow> ('k \<Rightarrow> size_t) \<Rightarrow> nat \<Rightarrow> nat \<Rightarrow> ('k, 'v) bucket \<Rightarrow> bool" where
  "bucket_wf valid f bs i b \<longleftrightarrow>
     length (chain b) \<le> bcount b \<and> distinct (map ekey (chain b))
     \<and> list_all (\<lambda>e. valid (ekey e) \<and> ehash e = f (ekey e) \<and> unat (ehash e) mod bs = i) (chain b)"

definition buckets_wf ::
    "('k \<Rightarrow> bool) \<Rightarrow> ('k \<Rightarrow> size_t) \<Rightarrow> nat \<Rightarrow> ('k, 'v) bucket list \<Rightarrow> bool" where
  "buckets_wf valid f bs ns \<longleftrightarrow> 0 < bs \<and> length ns = bs \<and> (\<forall>i < bs. bucket_wf valid f bs i (ns ! i))"

text \<open>
  The comparison decides equality of the keys that are used (\<open>valid\<close>).  A bucket's count
  is at least the length of its chain, so a count of zero means an empty chain.
\<close>

definition ht_wf :: "('k \<Rightarrow> bool) \<Rightarrow> ('k, 'v) hashtable \<Rightarrow> bool" where
  "ht_wf valid h \<longleftrightarrow> attr_ok (attr h)
     \<and> (\<forall>a b. valid a \<longrightarrow> valid b \<longrightarrow> (key_eq h a b \<longleftrightarrow> a = b))
     \<and> buckets_wf valid (key_hash h) (bucket_size h) (node h)
     \<and> hcount h = length (elems h)"

subsection \<open>Lemmas on buckets\<close>

lemma map_of_concat_nth:
  assumes "i < length xss" "\<And>j. j < length xss \<Longrightarrow> j \<noteq> i \<Longrightarrow> k \<notin> fst ` set (xss ! j)"
  shows "map_of (concat xss) k = map_of (xss ! i) k"
  using assms
proof (induction xss arbitrary: i)
  case Nil
  then show ?case by simp
next
  case (Cons xs xss)
  have later: "map_of (concat xss) k = None" if "i = 0"
  proof -
    have "k \<notin> fst ` set ys" if "ys \<in> set xss" for ys
    proof -
      from that obtain j where "j < length xss" "ys = xss ! j" by (auto simp: in_set_conv_nth)
      then show ?thesis using Cons.prems(2) [of "Suc j"] \<open>i = 0\<close> by simp
    qed
    then show ?thesis by (auto simp: map_of_eq_None_iff)
  qed
  show ?case
  proof (cases i)
    case 0
    with later show ?thesis by (simp add: map_add_def split: option.split)
  next
    case (Suc i')
    then have "map_of xs k = None"
      using Cons.prems(2) [of 0] by (auto simp: map_of_eq_None_iff)
    moreover have "map_of (concat xss) k = map_of (xss ! i') k"
      using Cons.prems(1) Cons.prems(2) [of "Suc j" for j] Suc by (intro Cons.IH) auto
    ultimately show ?thesis using Suc by (auto simp: map_add_def split: option.split)
  qed
qed

lemma buckets_wf_nth:
  "buckets_wf valid f bs ns \<Longrightarrow> i < bs \<Longrightarrow> bucket_wf valid f bs i (ns ! i)"
  by (simp add: buckets_wf_def)

lemma buckets_wf_update:
  "buckets_wf valid f bs ns \<Longrightarrow> bucket_wf valid f bs i b \<Longrightarrow> buckets_wf valid f bs (ns[i := b])"
  unfolding buckets_wf_def by (metis length_list_update nth_list_update_eq nth_list_update_neq)

text \<open>The entry of a key is found in the bucket of its hash value.\<close>

lemma lookup_in_bucket:
  assumes "buckets_wf valid f bs ns"
  shows "map_of (map pair_of (concat (map chain ns))) k
     = map_of (map pair_of (chain (ns ! (unat (f k) mod bs)))) k"
proof -
  let ?xss = "map (\<lambda>b. map pair_of (chain b)) ns"
  have len: "length ns = bs" and bs: "0 < bs" using assms by (auto simp: buckets_wf_def)
  have "map_of (concat ?xss) k = map_of (?xss ! (unat (f k) mod bs)) k"
  proof (rule map_of_concat_nth)
    show "unat (f k) mod bs < length ?xss" using len bs by simp
  next
    fix j assume "j < length ?xss" "j \<noteq> unat (f k) mod bs"
    then show "k \<notin> fst ` set (?xss ! j)"
      using buckets_wf_nth [OF assms, of j] len
      by (auto simp: bucket_wf_def list_all_iff pair_of_def)
  qed
  then show ?thesis
    using len bs by (simp add: map_concat comp_def)
qed

lemma length_elems_set_bucket:
  "i < length (node h) \<Longrightarrow>
     length (elems (set_bucket h i b)) + length (chain (node h ! i))
     = length (elems h) + length (chain b)"
  using length_concat_update [of i "map chain (node h)" "chain b"]
  by (simp add: elems_def set_bucket_def map_update)

lemma chain_find_map_of:
  assumes "\<And>a. a \<in> ekey ` set es \<Longrightarrow> eq a k \<longleftrightarrow> a = k"
  shows "chain_find eq es k = map_of (map pair_of es) k"
  using assms by (induction es) (auto simp: pair_of_def)

lemma chain_locate_None:
  "chain_locate eq es k = None \<longleftrightarrow> (\<forall>e \<in> set es. \<not> eq (ekey e) k)"
  by (induction es) auto

lemma chain_locate_Some:
  "chain_locate eq es k = Some (pre, e, post) \<Longrightarrow> es = pre @ e # post \<and> eq (ekey e) k"
  by (induction es arbitrary: pre) (auto split: if_splits)

subsection \<open>hashtable\_get and hashtable\_create\<close>

lemma ht_map_bucket:
  "ht_wf valid h \<Longrightarrow>
     ht_map h k = map_of (map pair_of (chain (node h ! bucket_index h k))) k"
  using lookup_in_bucket [of valid "key_hash h" "bucket_size h" "node h" k]
  by (simp add: ht_map_def elems_def ht_wf_def bucket_index_def)

lemma ht_wf_bucket:
  assumes "ht_wf valid h"
  shows "bucket_index h k < bucket_size h"
    and "bucket_wf valid (key_hash h) (bucket_size h) (bucket_index h k) (node h ! bucket_index h k)"
  using assms by (auto simp: ht_wf_def buckets_wf_def bucket_index_def)

lemma ht_wf_key_eq: "ht_wf valid h \<Longrightarrow> valid a \<Longrightarrow> valid b \<Longrightarrow> key_eq h a b \<longleftrightarrow> a = b"
  by (simp add: ht_wf_def)

lemma hashtable_get_map:
  assumes "ht_wf valid h" "valid k"
  shows "hashtable_get h k = Some (ht_map h k)"
proof -
  let ?b = "node h ! bucket_index h k"
  have "bucket_wf valid (key_hash h) (bucket_size h) (bucket_index h k) ?b"
    using assms(1) by (rule ht_wf_bucket)
  then have "chain_find (key_eq h) (chain ?b) k = map_of (map pair_of (chain ?b)) k"
    and "bcount ?b = 0 \<Longrightarrow> chain ?b = []"
    using assms by (auto intro!: chain_find_map_of simp: bucket_wf_def list_all_iff ht_wf_key_eq)
  with ht_map_bucket [OF assms(1), of k] assms(1) show ?thesis
    by (auto simp: hashtable_get_def ht_wf_def buckets_wf_def Let_def)
qed

lemma hashtable_create_wf:
  assumes "hashtable_create m1 m2 bs a = Some h" "0 < bs"
    and "\<And>x y. valid x \<Longrightarrow> valid y \<Longrightarrow> the (compare a) x y = 0 \<longleftrightarrow> x = y"
  shows "ht_wf valid h" "ht_map h = Map.empty"
  using assms
  by (auto simp: hashtable_create_def ht_wf_def buckets_wf_def bucket_wf_def empty_bucket_def
      elems_def ht_map_def key_eq_def attr_ok_def POINTER_SIZE_def split: if_splits)

subsection \<open>hashtable\_grow\<close>

text \<open>Rehashing pushes each element to the front of its new bucket.\<close>

lemma length_grow_step [simp]: "length (grow_step bs e ns) = length ns"
  by (simp add: grow_step_def Let_def)

lemma length_fold_grow_step [simp]: "length (fold (grow_step bs) es ns) = length ns"
  by (induction es arbitrary: ns) auto

lemma fold_grow_step:
  assumes "length ns = bs" "i < bs"
  shows "fold (grow_step bs) es ns ! i =
     \<lparr>bcount = bcount (ns ! i) + length (filter (\<lambda>e. unat (ehash e) mod bs = i) es),
      chain = rev (filter (\<lambda>e. unat (ehash e) mod bs = i) es) @ chain (ns ! i)\<rparr>"
  using assms
  by (induction es arbitrary: ns) (auto simp: grow_step_def Let_def nth_list_update)

lemma fold_chains:
  "fold (\<lambda>b ns. fold (grow_step bs) (chain b) ns) bks ns
     = fold (grow_step bs) (concat (map chain bks)) ns"
  by (induction bks arbitrary: ns) auto

lemma length_grow_nodes [simp]: "length (grow_nodes bs bks) = bs"
  by (simp add: grow_nodes_def fold_chains)

lemma grow_nodes_nth:
  assumes "i < bs"
  shows "chain (grow_nodes bs bks ! i) =
       rev (filter (\<lambda>e. unat (ehash e) mod bs = i) (concat (map chain bks)))"
    and "bcount (grow_nodes bs bks ! i) = length (chain (grow_nodes bs bks ! i))"
  using fold_grow_step [OF _ assms, of "replicate bs empty_bucket" "concat (map chain bks)"] assms
  by (simp_all add: grow_nodes_def fold_chains empty_bucket_def)

lemma grow_nodes_mset:
  assumes "0 < bs"
  shows "mset (concat (map chain (grow_nodes bs bks))) = mset (concat (map chain bks))"
proof -
  have "map chain (grow_nodes bs bks)
      = map (\<lambda>i. rev (filter (\<lambda>e. unat (ehash e) mod bs = i) (concat (map chain bks)))) [0..<bs]"
    by (rule nth_equalityI) (simp_all add: grow_nodes_nth)
  then show ?thesis
    using assms by (simp only:) (rule mset_partition, simp)
qed

lemma distinct_keys:
  assumes "buckets_wf valid f bs ns"
  shows "distinct (map ekey (concat (map chain ns)))"
proof -
  have len: "length ns = bs" using assms by (simp add: buckets_wf_def)
  have key: "unat (f (ekey e)) mod bs = i" if "i < bs" "e \<in> set (chain (ns ! i))" for i e
    using buckets_wf_nth [OF assms that(1)] that(2) by (auto simp: bucket_wf_def list_all_iff)
  have "distinct (concat (map (\<lambda>b. map ekey (chain b)) ns))"
  proof (rule distinct_concat_nth)
    fix i assume "i < length (map (\<lambda>b. map ekey (chain b)) ns)"
    then show "distinct (map (\<lambda>b. map ekey (chain b)) ns ! i)"
      using buckets_wf_nth [OF assms, of i] len by (simp add: bucket_wf_def)
  next
    fix i j assume "i < length (map (\<lambda>b. map ekey (chain b)) ns)"
      "j < length (map (\<lambda>b. map ekey (chain b)) ns)" "i \<noteq> j"
    then show "set (map (\<lambda>b. map ekey (chain b)) ns ! i) \<inter> set (map (\<lambda>b. map ekey (chain b)) ns ! j) = {}"
      using key [of i] key [of j] len by auto (metis)
  qed
  then show ?thesis by (simp add: map_concat comp_def)
qed

lemma grow_buckets_wf:
  assumes "buckets_wf valid f bs bks" "0 < bs'"
  shows "buckets_wf valid f bs' (grow_nodes bs' bks)"
proof -
  let ?es = "concat (map chain bks)"
  have el: "valid (ekey e) \<and> ehash e = f (ekey e)" if "e \<in> set ?es" for e
  proof -
    from that obtain i where "i < length bks" "e \<in> set (chain (bks ! i))"
      by (rule in_concat_mapE)
    moreover from assms(1) have "length bks = bs" by (simp add: buckets_wf_def)
    ultimately show ?thesis
      using buckets_wf_nth [OF assms(1), of i] by (auto simp: bucket_wf_def list_all_iff)
  qed
  have "distinct (map ekey (rev (filter P ?es)))" for P
    unfolding rev_map [symmetric] distinct_rev
    by (rule distinct_map_filter [OF distinct_keys [OF assms(1)]])
  with el show ?thesis
    using assms(2)
    by (simp add: buckets_wf_def bucket_wf_def grow_nodes_nth list_all_iff del: set_concat) (metis el)
qed

lemma hashtable_grow_sel [simp]:
  "attr (hashtable_grow h) = attr h" "hcount (hashtable_grow h) = hcount h"
  "bucket_size (hashtable_grow h) = bucket_size h * 2" "factor (hashtable_grow h) = factor h"
  "key_hash (hashtable_grow h) = key_hash h" "key_eq (hashtable_grow h) = key_eq h"
  by (simp_all add: hashtable_grow_def key_hash_def key_eq_def Let_def fun_eq_iff)

lemma hashtable_grow_spec:
  assumes "ht_wf valid h"
  shows "ht_wf valid (hashtable_grow h)" "ht_map (hashtable_grow h) = ht_map h"
proof -
  let ?bs = "bucket_size h * 2"
  have wf: "buckets_wf valid (key_hash h) (bucket_size h) (node h)" and bs: "0 < ?bs"
    using assms by (auto simp: ht_wf_def buckets_wf_def)
  have el: "mset (elems (hashtable_grow h)) = mset (elems h)"
    using grow_nodes_mset [OF bs, of "node h"] by (simp add: elems_def hashtable_grow_def Let_def)
  have wf': "buckets_wf valid (key_hash h) ?bs (node (hashtable_grow h))"
    using grow_buckets_wf [OF wf bs] by (simp add: hashtable_grow_def Let_def)
  show "ht_wf valid (hashtable_grow h)"
    using assms wf' mset_eq_length [OF el] by (simp add: ht_wf_def)
  have "map_of (map pair_of (elems (hashtable_grow h))) = map_of (map pair_of (elems h))"
    using distinct_keys [OF wf] distinct_keys [OF wf'] mset_eq_setD [OF el]
    by (subst map_of_inject_set) (simp_all add: elems_def comp_def pair_of_def)
  then show "ht_map (hashtable_grow h) = ht_map h" by (simp add: ht_map_def)
qed

subsection \<open>hashtable\_set, hashtable\_delete and hashtable\_clear\<close>

text \<open>Replacing the bucket of a key changes the entries of that bucket only.\<close>

lemma set_bucket_map:
  assumes "ht_wf valid h" "i = bucket_index h k"
    and "bucket_wf valid (key_hash h) (bucket_size h) i b"
    and "map_of (map pair_of (chain b)) = (map_of (map pair_of (chain (node h ! i))))(k := r)"
  shows "buckets_wf valid (key_hash h) (bucket_size h) (node (set_bucket h i b))"
    and "ht_map (set_bucket h i b) = (ht_map h)(k := r)"
proof -
  have wf: "buckets_wf valid (key_hash h) (bucket_size h) (node h)"
    using assms(1) by (simp add: ht_wf_def)
  have i: "i < length (node h)"
    using ht_wf_bucket(1) [OF assms(1), of k] assms(2) wf by (simp add: buckets_wf_def)
  show wf': "buckets_wf valid (key_hash h) (bucket_size h) (node (set_bucket h i b))"
    using buckets_wf_update [OF wf assms(3)] by (simp add: set_bucket_def)
  have "map_of (map pair_of (concat (map chain ((node h)[i := b])))) x
      = ((map_of (map pair_of (concat (map chain (node h)))))(k := r)) x" for x
    using lookup_in_bucket [OF wf, of x] lookup_in_bucket [OF wf', of x] assms(2,4) i
    by (cases "unat (key_hash h x) mod bucket_size h = i")
      (auto simp: set_bucket_def bucket_index_def)
  then show "ht_map (set_bucket h i b) = (ht_map h)(k := r)"
    by (auto simp: ht_map_def elems_def set_bucket_def fun_eq_iff)
qed

lemma set_bucket_sel [simp]:
  "attr (set_bucket h i b) = attr h" "bucket_size (set_bucket h i b) = bucket_size h"
  "hcount (set_bucket h i b) = hcount h" "key_hash (set_bucket h i b) = key_hash h"
  "key_eq (set_bucket h i b) = key_eq h" "factor (set_bucket h i b) = factor h"
  by (simp_all add: set_bucket_def key_hash_def key_eq_def fun_eq_iff)

lemma hcount_update_sel [simp]:
  "key_hash (h\<lparr>hcount := n\<rparr>) = key_hash h" "key_eq (h\<lparr>hcount := n\<rparr>) = key_eq h"
  "elems (h\<lparr>hcount := n\<rparr>) = elems h" "ht_map (h\<lparr>hcount := n\<rparr>) = ht_map h"
  by (simp_all add: key_hash_def key_eq_def elems_def ht_map_def fun_eq_iff)

lemma ht_wf_set_bucket:
  assumes "ht_wf valid h" "buckets_wf valid (key_hash h) (bucket_size h) (node (set_bucket h i b))"
    and "n = length (elems (set_bucket h i b))"
  shows "ht_wf valid ((set_bucket h i b)\<lparr>hcount := n\<rparr>)"
  using assms by (simp add: ht_wf_def)

lemma hashtable_set_spec:
  assumes wf: "ht_wf valid h" and k: "valid k"
  shows "\<exists>h' fr. hashtable_set h k v = Some (h', fr) \<and> ht_wf valid h' \<and> ht_map h' = (ht_map h)(k \<mapsto> v)"
proof -
  let ?i = "bucket_index h k"
  let ?b = "node h ! ?i"
  note bw = ht_wf_bucket(2) [OF wf, of k]
  have i: "?i < length (node h)" "bucket_size h \<noteq> 0"
    using wf ht_wf_bucket(1) [OF wf, of k] by (auto simp: ht_wf_def buckets_wf_def)
  have eq: "key_eq h (ekey e) k \<longleftrightarrow> ekey e = k" if "e \<in> set (chain ?b)" for e
    using bw that wf k by (auto simp: bucket_wf_def list_all_iff ht_wf_key_eq)
  show ?thesis
  proof (cases "chain_locate (key_eq h) (chain ?b) k")
    case (Some r)
    then obtain pre e post where loc: "chain_locate (key_eq h) (chain ?b) k = Some (pre, e, post)"
      by (cases r) auto
    from chain_locate_Some [OF this] eq [of e] have ch: "chain ?b = pre @ e # post" and ek: "ekey e = k"
      by auto
    let ?b' = "?b\<lparr>chain := pre @ e\<lparr>evalue := v\<rparr> # post\<rparr>"
    have bw': "bucket_wf valid (key_hash h) (bucket_size h) ?i ?b'"
      using bw by (auto simp: bucket_wf_def ch)
    have "k \<notin> fst ` set (map pair_of pre)"
      using bw ek by (auto simp: bucket_wf_def ch pair_of_def)
    from map_of_replace [OF this, of v "map pair_of post" "evalue e"]
    have "map_of (map pair_of (chain ?b')) = (map_of (map pair_of (chain ?b)))(k := Some v)"
      using ek by (simp add: ch pair_of_def)
    note sb = set_bucket_map [OF wf refl bw' this]
    have "length (elems (set_bucket h ?i ?b')) = length (elems h)"
      using length_elems_set_bucket [OF i(1), of ?b'] by (simp add: ch)
    then have "ht_wf valid (set_bucket h ?i ?b')"
      using wf sb(1) by (simp add: ht_wf_def)
    then show ?thesis
      using i loc sb(2) by (simp add: hashtable_set_def Let_def bucket_index_def)
  next
    case None
    let ?new = "\<lparr>ehash = key_hash h k, ekey = k, evalue = v\<rparr>"
    let ?b' = "\<lparr>bcount = Suc (bcount ?b), chain = chain ?b @ [?new]\<rparr>"
    let ?h' = "(set_bucket h ?i ?b')\<lparr>hcount := Suc (hcount h)\<rparr>"
    have new: "k \<notin> ekey ` set (chain ?b)"
      using None eq by (auto simp: chain_locate_None)
    then have bw': "bucket_wf valid (key_hash h) (bucket_size h) ?i ?b'"
      using bw k by (auto simp: bucket_wf_def bucket_index_def)
    have "map_of (map pair_of (chain ?b')) = (map_of (map pair_of (chain ?b)))(k := Some v)"
      using new map_of_snoc [of k "map pair_of (chain ?b)" v] by (simp add: pair_of_def image_image)
    note sb = set_bucket_map [OF wf refl bw' this]
    have "length (elems (set_bucket h ?i ?b')) = Suc (length (elems h))"
      using length_elems_set_bucket [OF i(1), of ?b'] by simp
    then have wf': "ht_wf valid ?h'"
      using wf sb(1) by (intro ht_wf_set_bucket) (simp_all add: ht_wf_def)
    then show ?thesis
      using i None sb(2) hashtable_grow_spec [OF wf']
      by (simp add: hashtable_set_def Let_def bucket_index_def)
  qed
qed

lemma hashtable_delete_spec:
  assumes wf: "ht_wf valid h" and k: "valid k"
  shows "\<exists>h' fr. hashtable_delete h k = Some (h', fr) \<and> ht_wf valid h' \<and> ht_map h' = (ht_map h)(k := None)"
proof -
  let ?i = "bucket_index h k"
  let ?b = "node h ! ?i"
  note bw = ht_wf_bucket(2) [OF wf, of k]
  have i: "?i < length (node h)" "bucket_size h \<noteq> 0"
    using wf ht_wf_bucket(1) [OF wf, of k] by (auto simp: ht_wf_def buckets_wf_def)
  have eq: "key_eq h (ekey e) k \<longleftrightarrow> ekey e = k" if "e \<in> set (chain ?b)" for e
    using bw that wf k by (auto simp: bucket_wf_def list_all_iff ht_wf_key_eq)
  show ?thesis
  proof (cases "chain_locate (key_eq h) (chain ?b) k")
    case None
    then have "k \<notin> fst ` set (map pair_of (chain ?b))"
      using eq by (auto simp: chain_locate_None pair_of_def)
    then have "ht_map h k = None"
      using ht_map_bucket [OF wf, of k] by (simp add: map_of_eq_None_iff)
    then have "ht_map h = (ht_map h)(k := None)" by (simp add: fun_upd_idem)
    then show ?thesis
      using None i wf by (simp add: hashtable_delete_def Let_def)
  next
    case (Some r)
    then obtain pre e post where loc: "chain_locate (key_eq h) (chain ?b) k = Some (pre, e, post)"
      by (cases r) auto
    from chain_locate_Some [OF this] eq [of e] have ch: "chain ?b = pre @ e # post" and ek: "ekey e = k"
      by auto
    let ?b' = "\<lparr>bcount = bcount ?b - 1, chain = pre @ post\<rparr>"
    have bw': "bucket_wf valid (key_hash h) (bucket_size h) ?i ?b'"
      using bw by (auto simp: bucket_wf_def ch)
    have "distinct (map fst (map pair_of pre @ (k, evalue e) # map pair_of post))"
      using bw ek by (auto simp: bucket_wf_def ch pair_of_def comp_def image_image)
    from map_of_remove [OF this]
    have "map_of (map pair_of (chain ?b')) = (map_of (map pair_of (chain ?b)))(k := None)"
      using ek by (simp add: ch pair_of_def)
    note sb = set_bucket_map [OF wf refl bw' this]
    have "length (elems (set_bucket h ?i ?b')) = length (elems h) - 1"
      using length_elems_set_bucket [OF i(1), of ?b'] by (simp add: ch)
    then have "ht_wf valid ((set_bucket h ?i ?b')\<lparr>hcount := hcount h - 1\<rparr>)"
      using wf sb(1) by (intro ht_wf_set_bucket) (simp_all add: ht_wf_def)
    then show ?thesis
      using i loc sb(2) by (simp add: hashtable_delete_def Let_def)
  qed
qed

lemma hashtable_clear_spec:
  assumes "ht_wf valid h"
  shows "ht_wf valid (fst (hashtable_clear h))" "ht_map (fst (hashtable_clear h)) = Map.empty"
    and "hashtable_stat (fst (hashtable_clear h)) = hashtable_stat h"
proof -
  have el: "elems (fst (hashtable_clear h)) = []"
    by (simp add: hashtable_clear_def elems_def comp_def)
  then show "ht_map (fst (hashtable_clear h)) = Map.empty" by (simp add: ht_map_def)
  have sel: "attr (fst (hashtable_clear h)) = attr h" "hcount (fst (hashtable_clear h)) = 0"
    "bucket_size (fst (hashtable_clear h)) = bucket_size h"
    "node (fst (hashtable_clear h)) = map (\<lambda>b. b\<lparr>chain := []\<rparr>) (node h)"
    by (simp_all add: hashtable_clear_def)
  then have "key_hash (fst (hashtable_clear h)) = key_hash h"
    "key_eq (fst (hashtable_clear h)) = key_eq h"
    by (simp_all add: key_hash_def key_eq_def fun_eq_iff)
  with sel el assms show "ht_wf valid (fst (hashtable_clear h))"
    by (auto simp: ht_wf_def buckets_wf_def bucket_wf_def)
  show "hashtable_stat (fst (hashtable_clear h)) = hashtable_stat h"
    using assms sel by (auto simp: hashtable_stat_def ht_wf_def buckets_wf_def)
qed

subsection \<open>The hash table as a key-value store\<close>

definition ht_upd :: "('k, 'v) hashtable \<Rightarrow> 'k \<Rightarrow> 'v \<Rightarrow> (bool \<times> ('k, 'v) hashtable) option" where
  "ht_upd h k v = map_option (\<lambda>(h', _). (True, h')) (hashtable_set h k v)"

definition ht_del :: "('k, 'v) hashtable \<Rightarrow> 'k \<Rightarrow> ('k, 'v) hashtable option" where
  "ht_del h k = map_option fst (hashtable_delete h k)"

interpretation ht_kv: key_value "ht_wf valid" ht_map valid "\<lambda>_. True" hashtable_get ht_upd ht_del
  for valid
proof unfold_locales
  fix h :: "('a, 'b) hashtable" and k v
  assume h: "ht_wf valid h" and k: "valid k"
  show "hashtable_get h k = Some (ht_map h k)"
    using h k by (rule hashtable_get_map)
  show "\<exists>ok h'. ht_upd h k v = Some (ok, h') \<and> ht_wf valid h'
      \<and> ht_map h' = (if ok then (ht_map h)(k \<mapsto> v) else ht_map h)"
    using hashtable_set_spec [OF h k, of v] by (auto simp: ht_upd_def)
  show "\<exists>h'. ht_del h k = Some h' \<and> ht_wf valid h' \<and> ht_map h' = (ht_map h)(k := None)"
    using hashtable_delete_spec [OF h k] by (auto simp: ht_del_def)
qed

subsection \<open>Ownership of keys and values\<close>

text \<open>
  When both destructors are given, destroying the table releases every key and every
  value that it holds, once each.
\<close>

lemma hashtable_destroy_releases:
  assumes "free_key (attr h)" "free_value (attr h)"
  shows "mset (hashtable_destroy h)
     = image_mset (\<lambda>e. ReleaseKey (ekey e)) (mset (elems h))
       + image_mset (\<lambda>e. ReleaseValue (evalue e)) (mset (elems h))"
proof -
  have "mset (concat (map (\<lambda>e. release_key h e @ release_value h e) es))
     = image_mset (\<lambda>e. ReleaseKey (ekey e)) (mset es) + image_mset (\<lambda>e. ReleaseValue (evalue e)) (mset es)"
    for es
    using assms by (induction es) (auto simp: release_key_def release_value_def)
  then show ?thesis by (simp add: hashtable_destroy_def)
qed

subsection \<open>Properties\<close>


text \<open>The attributes of the option table of the terminal, with a hash of equal width.\<close>

definition sample_attr :: "(string, nat) kpattr" where
  "sample_attr = \<lparr>key_is_ptr = True, value_is_ptr = True, key_size = 0, value_size = 0,
     hash = Some (\<lambda>k. of_nat (length k)), compare = Some strcmp, free_key = True, free_value = False\<rparr>"




text \<open>
  The default bucket count is lost: a table created with a bucket count of zero,
  which the code means to replace by 16, divides by zero on its first lookup, insertion
  or deletion.
\<close>

theorem hashtable_zero_buckets:
  assumes "hashtable_create m1 m2 0 a = Some h"
  shows "hashtable_get h k = None \<and> hashtable_set h k v = None \<and> hashtable_delete h k = None"
  using assms
  by (auto simp: hashtable_create_def hashtable_get_def hashtable_set_def hashtable_delete_def split: if_splits)

theorem hashtable_zero_buckets_witness:
  "\<exists>h :: (string, nat) hashtable. hashtable_create True True 0 sample_attr = Some h \<and> hashtable_get h ''k'' = None"
proof -
  obtain h :: "(string, nat) hashtable" where h: "hashtable_create True True 0 sample_attr = Some h"
    by (simp add: hashtable_create_def attr_ok_def sample_attr_def)
  with hashtable_zero_buckets [OF h] show ?thesis by blast
qed

end
