(* ===== verification/Cmd_Opt.thy ===== *)
theory Cmd_Opt
  imports Hash_Table
begin

section \<open>Command options (cli-term.c, cmdopt)\<close>

text \<open>
  The options of a command: its positional arguments and a table of keyword arguments.
  The list \<open>argv\<close> holds the entries of the array of \<open>MAXARGC\<close> pointers that are in use,
  so that \<open>argc\<close> is its length.
\<close>

definition MAXARGC :: nat where
  "MAXARGC = 64"

record cmdopt =
  argv :: "string list"
  kpairs :: "(string, string) hashtable"

text \<open>A character is signed; it is extended to the width of \<open>size_t\<close> before it is added.\<close>

definition char_sext :: "byte \<Rightarrow> size_t" where
  "char_sext c = scast (of_char c :: 8 word)"

fun string_hash_loop :: "size_t \<Rightarrow> string \<Rightarrow> size_t" where
  "string_hash_loop h [] = h"
| "string_hash_loop h (c # cs) = string_hash_loop (h * 31 + char_sext c) cs"

definition string_hash :: "string \<Rightarrow> size_t" where
  "string_hash s = string_hash_loop 0 s"

definition string_compare :: "string \<Rightarrow> string \<Rightarrow> int" where
  "string_compare a b = strcmp a b"

definition cmdopt_attr :: "(string, string) kpattr" where
  "cmdopt_attr = \<lparr>key_is_ptr = True, value_is_ptr = True, key_size = 0, value_size = 0,
     hash = Some string_hash, compare = Some string_compare, free_key = False, free_value = False\<rparr>"

definition cmdopt_create :: "bool \<Rightarrow> bool \<Rightarrow> bool \<Rightarrow> cmdopt option" where
  "cmdopt_create mem_opt mem_h mem_node =
     (if \<not> mem_opt then None
      else case hashtable_create mem_h mem_node 32 cmdopt_attr of
             None \<Rightarrow> None
           | Some h \<Rightarrow> Some \<lparr>argv = [], kpairs = h\<rparr>)"

definition cmdopt_clear :: "cmdopt \<Rightarrow> cmdopt" where
  "cmdopt_clear opt = opt\<lparr>kpairs := fst (hashtable_clear (kpairs opt)), argv := []\<rparr>"

definition cmdopt_destroy :: "cmdopt \<Rightarrow> (string, string) release list" where
  "cmdopt_destroy opt = hashtable_destroy (kpairs opt)"

subsection \<open>Invariant\<close>

definition cmdopt_wf :: "cmdopt \<Rightarrow> bool" where
  "cmdopt_wf opt \<longleftrightarrow> ht_wf cstring (kpairs opt) \<and> length (argv opt) \<le> MAXARGC"

lemma cmdopt_create_wf:
  assumes "cmdopt_create m1 m2 m3 = Some opt"
  shows "cmdopt_wf opt" "ht_map (kpairs opt) = Map.empty" "argv opt = []"
proof -
  obtain h where h: "hashtable_create m2 m3 32 cmdopt_attr = Some h" "opt = \<lparr>argv = [], kpairs = h\<rparr>"
    using assms by (auto simp: cmdopt_create_def split: if_splits option.splits)
  have eq: "the (compare cmdopt_attr) x y = 0 \<longleftrightarrow> x = y" if "cstring x" "cstring y" for x y
    using that by (simp add: cmdopt_attr_def string_compare_def strcmp_eq_0_iff)
  show "cmdopt_wf opt" "ht_map (kpairs opt) = Map.empty" "argv opt = []"
    using hashtable_create_wf [OF h(1) _ eq] h(2) by (auto simp: cmdopt_wf_def)
qed

lemma cmdopt_clear_wf:
  assumes "cmdopt_wf opt"
  shows "cmdopt_wf (cmdopt_clear opt)" "ht_map (kpairs (cmdopt_clear opt)) = Map.empty" "argv (cmdopt_clear opt) = []"
  using assms hashtable_clear_spec [of cstring "kpairs opt"] by (auto simp: cmdopt_wf_def cmdopt_clear_def)

end
