(* ===== verification/Cmd_Search.thy ===== *)
theory Cmd_Search
  imports Cmd_Register Cmd_Opt "HOL-Library.Sublist"
begin

section \<open>Splitting a line and searching the tree (cli-tree.c)\<close>

text \<open>
  \<open>cmd_search\<close> walks down the tree along the words of a line, collects the arguments in
  \<open>argv\<close> and the keyword options in the table.  Its in-out parameters are the record
  \<open>search\<close>; \<open>cap\<close> is the size of the caller's array for the arguments.  Writing behind the
  array and reading behind the words are the result \<open>None\<close>.
\<close>

definition CMD_SUCCESS :: int where "CMD_SUCCESS = 0"

definition CMD_ERR_NO_MATCH :: int where "CMD_ERR_NO_MATCH = 2"

definition CMD_ERR_INCOMPLETE :: int where "CMD_ERR_INCOMPLETE = 4"

definition CMD_COMPLETE_FULL_MATCH :: int where "CMD_COMPLETE_FULL_MATCH = 7"

definition CMD_COMPLETE_MATCH :: int where "CMD_COMPLETE_MATCH = 8"

definition CMD_COMPLETE_LIST_MATCH :: int where "CMD_COMPLETE_LIST_MATCH = 9"

definition CMD_ERR_SYSTEM :: int where "CMD_ERR_SYSTEM = 11"

lemmas cmd_codes = CMD_SUCCESS_def CMD_ERR_NO_MATCH_def CMD_ERR_INCOMPLETE_def CMD_COMPLETE_FULL_MATCH_def
  CMD_COMPLETE_MATCH_def CMD_COMPLETE_LIST_MATCH_def CMD_ERR_SYSTEM_def

subsection \<open>Words of a line\<close>

lemma next_key_shorter: "next_key s = (Some w, r) \<Longrightarrow> length r < length s"
proof -
  assume h: "next_key s = (Some w, r)"
  let ?p = "dropWhile isspace s"
  have len: "length ?p \<le> length s" by (rule length_dropWhile_le)
  obtain c cs where p: "?p = c # cs" using h by (cases ?p) (auto simp: next_key_def)
  then have "\<not> isspace c" using hd_dropWhile [of isspace s] by simp
  with h p len show "length r < length s"
    using length_dropWhile_le [of "\<lambda>c. c \<noteq> CHR ''|'' \<and> \<not> isspace c" cs]
    by (auto simp: next_key_def Let_def split: if_splits)
qed

function line_words :: "string \<Rightarrow> string list" where
  "line_words s = (case next_key s of (None, r) \<Rightarrow> [] | (Some w, r) \<Rightarrow> w # line_words r)"
  by pat_completeness auto
termination
  by (relation "measure length") (auto dest: next_key_shorter [OF sym])

declare line_words.simps [simp del]

text \<open>\<open>line_get_args\<close>: the first allocation is the array, the others are the words.\<close>

definition line_get_args :: "alloc \<Rightarrow> string \<Rightarrow> int + string list" where
  "line_get_args al l =
     (let ws = line_words l in
      if ws = [] then Inr []
      else if \<not> al 0 then Inl (- ENOMEM)
      else if \<not> (\<forall>i < length ws. al (Suc i)) then Inl (- ENOMEM)
      else Inr ws)"

subsection \<open>Matching\<close>

datatype match_type = no_match | extend_match | vararg_match | exact_match

fun match_rank :: "match_type \<Rightarrow> nat" where
  "match_rank no_match = 0"
| "match_rank extend_match = 1"
| "match_rank vararg_match = 2"
| "match_rank exact_match = 3"

instantiation match_type :: linorder
begin

definition less_eq_match_type :: "match_type \<Rightarrow> match_type \<Rightarrow> bool" where
  "less_eq_match_type a b \<longleftrightarrow> match_rank a \<le> match_rank b"

definition less_match_type :: "match_type \<Rightarrow> match_type \<Rightarrow> bool" where
  "less_match_type a b \<longleftrightarrow> match_rank a < match_rank b"

instance
proof
  fix a b c :: match_type
  show "a \<le> b \<Longrightarrow> b \<le> a \<Longrightarrow> a = b"
    by (cases a; cases b) (auto simp: less_eq_match_type_def)
qed (auto simp: less_eq_match_type_def less_match_type_def)

end

definition match_word :: "token \<Rightarrow> string \<Rightarrow> match_type" where
  "match_word tk w =
     (case type tk of
        TOKEN_LITERAL \<Rightarrow> if strcmp (key tk) w = 0 then exact_match else no_match
      | TOKEN_VARIABLE \<Rightarrow> extend_match
      | TOKEN_OPTION \<Rightarrow> extend_match
      | TOKEN_VARARG \<Rightarrow> vararg_match)"

type_synonym candidate = "addr \<times> token"

definition candidates :: "('f, 'o) tree \<Rightarrow> addr list \<Rightarrow> candidate list" where
  "candidates t head = concat (map (\<lambda>a. map (Pair a) (tokens (t ! a))) head)"

definition better :: "string \<Rightarrow> candidate \<Rightarrow> match_type \<times> candidate option \<Rightarrow> match_type \<times> candidate option" where
  "better w c best =
     (if fst best < match_word (snd c) w then (match_word (snd c) w, Some c) else best)"

definition find_best_node :: "('f, 'o) tree \<Rightarrow> addr list \<Rightarrow> string \<Rightarrow> candidate option" where
  "find_best_node t head w = snd (fold (better w) (candidates t head) (no_match, None))"

subsection \<open>Search\<close>

record search =
  found :: "addr option"
  wordi :: nat
  args :: "string list"
  pairs :: "(string, string) hashtable option"

definition put_arg :: "nat \<Rightarrow> string list \<Rightarrow> search \<Rightarrow> search option" where
  "put_arg cap words st =
     (if wordi st < length words \<and> length (args st) < cap
      then Some (st\<lparr>args := args st @ [words ! wordi st], wordi := Suc (wordi st)\<rparr>)
      else None)"

lemma put_arg_wordi: "put_arg cap words st = Some st' \<Longrightarrow> wordi st' = Suc (wordi st)"
  by (auto simp: put_arg_def split: if_splits)

function vararg_loop :: "nat \<Rightarrow> nat \<Rightarrow> string list \<Rightarrow> search \<Rightarrow> search option" where
  "vararg_loop cap wordc words st =
     (if wordi st < wordc
      then (case put_arg cap words st of None \<Rightarrow> None | Some st' \<Rightarrow> vararg_loop cap wordc words st')
      else Some st)"
  by pat_completeness auto
termination
  by (relation "measure (\<lambda>(cap, wordc, words, st). wordc - wordi st)") (auto dest: put_arg_wordi)

declare vararg_loop.simps [simp del]

definition take_args ::
    "nat \<Rightarrow> nat \<Rightarrow> string list \<Rightarrow> ('f, 'o) cmd_node \<Rightarrow> token \<Rightarrow> search \<Rightarrow> search option" where
  "take_args cap wordc words target tk st =
     (if length (tokens target) > 1 then put_arg cap words st
      else if type tk \<noteq> TOKEN_LITERAL then
        (case put_arg cap words st of
           None \<Rightarrow> None
         | Some st' \<Rightarrow> if type tk = TOKEN_VARARG then vararg_loop cap wordc words st' else Some st')
      else Some (st\<lparr>wordi := Suc (wordi st)\<rparr>))"

definition pair_set :: "search \<Rightarrow> string \<Rightarrow> string \<Rightarrow> search option" where
  "pair_set st k v =
     (case pairs st of
        None \<Rightarrow> Some st
      | Some h \<Rightarrow> map_option (\<lambda>(h', _). st\<lparr>pairs := Some h'\<rparr>) (hashtable_set h k v))"

lemma pair_set_wordi: "pair_set st k v = Some st' \<Longrightarrow> wordi st' = wordi st"
  by (auto simp: pair_set_def split: option.splits)

text \<open>The loop over keyword options either returns from \<open>cmd_search\<close> or goes on behind it.\<close>

datatype loop_exit = Return int | Go_On

function keyword_loop ::
    "('f, 'o) tree \<Rightarrow> nat \<Rightarrow> string list \<Rightarrow> addr list \<Rightarrow> search \<Rightarrow> (loop_exit \<times> search) option" where
  "keyword_loop t wordc words kws st =
     (if \<not> wordi st < length words then None
      else case find_best_node t kws (words ! wordi st) of
        None \<Rightarrow> Some (Go_On, st)
      | Some (n, _) \<Rightarrow>
          let k = words ! wordi st in
          case pair_set st k ''1'' of
            None \<Rightarrow> None
          | Some st1 \<Rightarrow>
              let st2 = st1\<lparr>wordi := Suc (wordi st1)\<rparr> in
              if children (t ! n) \<noteq> [] then
                if wordi st2 = wordc then Some (Return 0, st2\<lparr>found := Some n\<rparr>)
                else if \<not> wordi st2 < length words then None
                else case find_best_node t (children (t ! n)) (words ! wordi st2) of
                  None \<Rightarrow> Some (Return CMD_ERR_NO_MATCH, st2)
                | Some _ \<Rightarrow>
                    (case pair_set st2 k (words ! wordi st2) of
                       None \<Rightarrow> None
                     | Some st3 \<Rightarrow>
                         let st4 = st3\<lparr>wordi := Suc (wordi st3)\<rparr>
                         in if wordi st4 < wordc then keyword_loop t wordc words kws st4 else Some (Go_On, st4))
              else if wordi st2 < wordc then keyword_loop t wordc words kws st2
              else Some (Go_On, st2))"
  by pat_completeness auto
termination
  by (relation "measure (\<lambda>(t, wordc, words, kws, st). length words - wordi st)")
    (auto dest!: pair_set_wordi)

declare keyword_loop.simps [simp del]

lemma vararg_loop_wordi: "vararg_loop cap wordc words st = Some st' \<Longrightarrow> wordi st \<le> wordi st'"
proof (induction cap wordc words st rule: vararg_loop.induct)
  case (1 cap wordc words st)
  then show ?case
    by (subst (asm) (2) vararg_loop.simps)
      (fastforce split: if_splits option.splits dest: put_arg_wordi)
qed

lemma take_args_wordi: "take_args cap wordc words n tk st = Some st' \<Longrightarrow> wordi st < wordi st'"
  by (auto simp: take_args_def split: if_splits option.splits dest!: put_arg_wordi vararg_loop_wordi)

lemma keyword_loop_wordi:
  "keyword_loop t wordc words kws st = Some (r, st') \<Longrightarrow> wordi st \<le> wordi st'"
proof (induction "length words - wordi st" arbitrary: st rule: less_induct)
  case less
  have IH: "wordi st \<le> wordi st'"
    if "keyword_loop t wordc words kws s = Some (r, st')" "wordi st < wordi s" "wordi st < length words" for s
    using less.hyps [OF diff_less_mono2 [OF that(2,3)] that(1)] that(2) by simp
  show ?case
    using less.prems
    by (subst (asm) keyword_loop.simps)
      (auto simp: Let_def intro: IH split: if_splits option.splits prod.splits dest!: pair_set_wordi)
qed

function cmd_search ::
    "('f, 'o) tree \<Rightarrow> nat \<Rightarrow> nat \<Rightarrow> string list \<Rightarrow> addr list \<Rightarrow> search \<Rightarrow> (int \<times> search) option" where
  "cmd_search t cap wordc words head st =
     (if \<not> wordi st < length words then None
      else case find_best_node t head (words ! wordi st) of
        None \<Rightarrow> Some (CMD_ERR_NO_MATCH, st)
      | Some (target, tk) \<Rightarrow>
          (case take_args cap wordc words (t ! target) tk (st\<lparr>found := Some target\<rparr>) of
             None \<Rightarrow> None
           | Some st1 \<Rightarrow>
               if wordi st1 = wordc then Some (0, st1)
               else case (if keyword (t ! target) \<noteq> []
                          then keyword_loop t wordc words (keyword (t ! target)) st1
                          else Some (Go_On, st1)) of
                 None \<Rightarrow> None
               | Some (Return r, st2) \<Rightarrow> Some (r, st2)
               | Some (Go_On, st2) \<Rightarrow>
                   if keyword (t ! target) \<noteq> [] \<and> wordi st2 = wordc
                   then Some (0, st2\<lparr>found := Some target\<rparr>)
                   else if children (t ! target) \<noteq> []
                   then cmd_search t cap wordc words (children (t ! target)) st2
                   else Some (CMD_ERR_NO_MATCH, st2)))"
  by pat_completeness auto
termination
  by (relation "measure (\<lambda>(t, cap, wordc, words, head, st). length words - wordi st)")
    (auto dest!: take_args_wordi keyword_loop_wordi split: if_splits)

declare cmd_search.simps [simp del]

subsection \<open>The best match\<close>

lemma fold_better_exact: "fst best = exact_match \<Longrightarrow> fold (better w) cs best = best"
proof (induction cs)
  case (Cons c cs)
  then show ?case by (cases "match_word (snd c) w") (auto simp: better_def less_match_type_def)
qed simp

lemma fold_better_first_exact:
  assumes "fst best \<noteq> exact_match" "find (\<lambda>c. match_word (snd c) w = exact_match) cs = Some c"
  shows "fold (better w) cs best = (exact_match, Some c)"
  using assms
proof (induction cs arbitrary: best)
  case (Cons d ds)
  have up: "fst best < exact_match" using Cons.prems(1) by (cases "fst best") (auto simp: less_match_type_def)
  show ?case
  proof (cases "match_word (snd d) w = exact_match")
    case True
    then have "better w d best = (exact_match, Some d)" using up by (simp add: better_def)
    with Cons.prems(2) True show ?thesis by (simp add: fold_better_exact)
  next
    case False
    then have "fst (better w d best) \<noteq> exact_match" using Cons.prems(1) by (simp add: better_def)
    with Cons.IH Cons.prems(2) False show ?thesis by simp
  qed
qed simp

text \<open>The result is the first candidate of the highest rank, and none if nothing matches.\<close>

lemma fold_better_best:
  assumes "fold (better w) cs best = (m, r)"
  shows "fst best \<le> m \<and> (\<forall>c \<in> set cs. match_word (snd c) w \<le> m)
    \<and> ((m, r) = best \<or> (\<exists>pre c post. cs = pre @ c # post \<and> r = Some c \<and> m = match_word (snd c) w
      \<and> fst best < m \<and> (\<forall>d \<in> set pre. match_word (snd d) w < m)))"
  using assms
proof (induction cs arbitrary: best)
  case (Cons c cs)
  let ?b = "better w c best"
  have b: "fst best \<le> fst ?b" "match_word (snd c) w \<le> fst ?b" by (auto simp: better_def)
  have IH: "fst ?b \<le> m" "\<forall>c \<in> set cs. match_word (snd c) w \<le> m"
    "(m, r) = ?b \<or> (\<exists>pre d post. cs = pre @ d # post \<and> r = Some d \<and> m = match_word (snd d) w
      \<and> fst ?b < m \<and> (\<forall>e \<in> set pre. match_word (snd e) w < m))"
    using Cons.IH [of ?b] Cons.prems by auto
  have "(m, r) = best \<or> (\<exists>pre d post. c # cs = pre @ d # post \<and> r = Some d \<and> m = match_word (snd d) w
      \<and> fst best < m \<and> (\<forall>e \<in> set pre. match_word (snd e) w < m))"
    using IH(3)
  proof (elim disjE exE conjE)
    assume e: "(m, r) = ?b"
    then have "c # cs = [] @ c # cs \<and> r = Some c \<and> m = match_word (snd c) w \<and> fst best < m" if "(m, r) \<noteq> best"
      using that by (auto simp: better_def split: if_splits)
    then show ?thesis by fastforce
  next
    fix pre d post
    assume d: "cs = pre @ d # post" "r = Some d" "m = match_word (snd d) w" "fst ?b < m"
      "\<forall>e \<in> set pre. match_word (snd e) w < m"
    have "c # cs = (c # pre) @ d # post" "fst best < m" "\<forall>e \<in> set (c # pre). match_word (snd e) w < m"
      using d b by auto
    with d(2,3) show ?thesis by blast
  qed
  then show ?case using b IH(1,2) by auto
qed auto

lemma find_best_node_Some:
  assumes "find_best_node t head w = Some (a, tk)"
  shows "a \<in> set head" "tk \<in> set (tokens (t ! a))" "match_word tk w \<noteq> no_match"
proof -
  obtain m where m: "fold (better w) (candidates t head) (no_match, None) = (m, Some (a, tk))"
    using assms unfolding find_best_node_def by (metis prod.collapse)
  from fold_better_best [OF m] have "(a, tk) \<in> set (candidates t head)" "no_match < match_word tk w"
    by auto
  then show "a \<in> set head" "tk \<in> set (tokens (t ! a))" "match_word tk w \<noteq> no_match"
    by (auto simp: candidates_def)
qed

lemma exact_match_iff:
  assumes "token_ok tk" "cstring w" "token_type_of w = TOKEN_LITERAL"
  shows "match_word tk w = exact_match \<longleftrightarrow> key tk = w" "strcmp w (key tk) = 0 \<longleftrightarrow> key tk = w"
  using assms by (auto simp: match_word_def token_ok_def strcmp_eq_0_iff split: token_type.splits)

lemma find_exact_candidate:
  assumes "\<forall>a \<in> set head. list_all token_ok (tokens (t ! a))" "cstring w" "token_type_of w = TOKEN_LITERAL"
    and "find (\<lambda>a. has_key (t ! a) w) head = Some a"
  shows "\<exists>tk. find (\<lambda>c. match_word (snd c) w = exact_match) (candidates t head) = Some (a, tk) \<and> key tk = w"
  using assms
proof (induction head)
  case (Cons b head)
  have ok: "\<forall>tk \<in> set (tokens (t ! b)). token_ok tk" using Cons.prems(1) by (simp add: list_all_iff)
  show ?case
  proof (cases "has_key (t ! b) w")
    case True
    have "\<exists>tk \<in> set tks. strcmp w (key tk) = 0 \<Longrightarrow> \<forall>tk \<in> set tks. token_ok tk \<Longrightarrow>
       \<exists>tk. find (\<lambda>c. match_word (snd c) w = exact_match) (map (Pair b) tks) = Some (b, tk) \<and> key tk = w" for tks
      by (induction tks) (auto simp: exact_match_iff Cons.prems(2,3))
    with True ok obtain tk where
      "find (\<lambda>c. match_word (snd c) w = exact_match) (map (Pair b) (tokens (t ! b))) = Some (b, tk)" "key tk = w"
      by (auto simp: has_key_def)
    with True Cons.prems(4) show ?thesis by (auto simp: candidates_def find_append_Some)
  next
    case False
    then have "\<forall>tk \<in> set (tokens (t ! b)). match_word tk w \<noteq> exact_match"
      using ok exact_match_iff [OF _ Cons.prems(2,3)] by (auto simp: has_key_def)
    then have "find (\<lambda>c. match_word (snd c) w = exact_match) (map (Pair b) (tokens (t ! b))) = None"
      by (auto simp: find_None_iff)
    with False Cons show ?thesis by (auto simp: candidates_def find_append_None)
  qed
qed simp

lemma find_best_node_literal:
  assumes "tree_wf t" "p < length t" "cstring w" "token_type_of w = TOKEN_LITERAL"
    and "find (\<lambda>a. has_key (t ! a) w) (children (t ! p)) = Some a"
  shows "\<exists>tk. find_best_node t (children (t ! p)) w = Some (a, tk) \<and> key tk = w \<and> type tk = TOKEN_LITERAL"
proof -
  have ok: "\<forall>a \<in> set (children (t ! p)). list_all token_ok (tokens (t ! a))"
    using children_range(2) [OF assms(1,2)] assms(1) unfolding tree_wf_def by blast
  from find_exact_candidate [OF this assms(3-5)] obtain tk where
    "find (\<lambda>c. match_word (snd c) w = exact_match) (candidates t (children (t ! p))) = Some (a, tk)" "key tk = w"
    by blast
  then have f: "find_best_node t (children (t ! p)) w = Some (a, tk)"
    by (simp add: find_best_node_def fold_better_first_exact)
  then have "token_ok tk" using ok find_best_node_Some [OF f] by (auto simp: list_all_iff)
  with f \<open>key tk = w\<close> assms(4) show ?thesis by (simp add: token_ok_def)
qed

end
