(* ===== verification/Search_Spec.thy ===== *)
theory Search_Spec
  imports Cmd_Search
begin

section \<open>Correctness of the command search\<close>

text \<open>
  The search never reads behind the words nor writes behind the argument array, as long as
  the array has room for the words that are left; the arguments it collects are words of
  the line in their order; and a path of literal words is found.
\<close>

definition search_wf :: "nat \<Rightarrow> nat \<Rightarrow> string list \<Rightarrow> search \<Rightarrow> bool" where
  "search_wf cap wordc words st \<longleftrightarrow> wordi st \<le> wordc \<and> wordc \<le> length words \<and> list_all cstring words
     \<and> length (args st) + (wordc - wordi st) \<le> cap
     \<and> (case pairs st of None \<Rightarrow> True | Some h \<Rightarrow> ht_wf cstring h)"

text \<open>The keyword options found so far, and that new ones are made of the words.\<close>

definition pair_map :: "search \<Rightarrow> string \<Rightarrow> string option" where
  "pair_map st = (case pairs st of None \<Rightarrow> Map.empty | Some h \<Rightarrow> ht_map h)"

definition pairs_from :: "string list \<Rightarrow> search \<Rightarrow> search \<Rightarrow> bool" where
  "pairs_from words st st' \<longleftrightarrow> (\<forall>k v. pair_map st' k = Some v \<longrightarrow>
     pair_map st k = Some v \<or> k \<in> set words \<and> (v = ''1'' \<or> v \<in> set words))"

lemma pair_map_update [simp]:
  "pair_map (st\<lparr>wordi := i\<rparr>) = pair_map st" "pair_map (st\<lparr>found := n\<rparr>) = pair_map st" "pair_map (st\<lparr>args := xs\<rparr>) = pair_map st"
  by (simp_all add: pair_map_def)

lemma pairs_from_update [simp]:
  "pairs_from words st (u\<lparr>wordi := i\<rparr>) = pairs_from words st u" "pairs_from words st (u\<lparr>found := n\<rparr>) = pairs_from words st u"
  "pairs_from words st (u\<lparr>args := xs\<rparr>) = pairs_from words st u" "pairs_from words st st"
  by (simp_all add: pairs_from_def)

lemma pairs_from_trans: "pairs_from words s t \<Longrightarrow> pairs_from words t u \<Longrightarrow> pairs_from words s u"
  unfolding pairs_from_def by blast

text \<open>From \<open>st\<close> to \<open>st'\<close> the search went forward and collected words that it passed.\<close>

definition passed :: "string list \<Rightarrow> search \<Rightarrow> search \<Rightarrow> bool" where
  "passed words st st' \<longleftrightarrow> wordi st \<le> wordi st'
     \<and> (\<exists>xs. args st' = args st @ xs \<and> subseq xs (slice (wordi st) (wordi st') words))
     \<and> (pairs st = None \<longleftrightarrow> pairs st' = None) \<and> pairs_from words st st'"

lemma passed_refl: "passed words st st"
  by (simp add: passed_def)

lemma passed_trans:
  assumes "passed words s t" "passed words t u"
  shows "passed words s u"
proof -
  obtain xs ys where "args t = args s @ xs" "args u = args t @ ys"
    "subseq xs (slice (wordi s) (wordi t) words)" "subseq ys (slice (wordi t) (wordi u) words)"
    "wordi s \<le> wordi t" "wordi t \<le> wordi u"
    using assms by (auto simp: passed_def)
  moreover from this have "subseq (xs @ ys) (slice (wordi s) (wordi u) words)"
    by (simp add: slice_split [of "wordi s" "wordi t" "wordi u"] list_emb_append_mono)
  ultimately show ?thesis using assms by (auto simp: passed_def intro: pairs_from_trans)
qed

lemma put_arg_ok:
  assumes "search_wf cap wordc words st" "wordi st < wordc"
  shows "\<exists>st'. put_arg cap words st = Some st' \<and> search_wf cap wordc words st' \<and> passed words st st'
     \<and> wordi st' = Suc (wordi st) \<and> found st' = found st"
proof -
  have "slice (wordi st) (Suc (wordi st)) words = [words ! wordi st]"
    using assms by (simp add: search_wf_def slice_def take_Suc_conv_app_nth)
  then show ?thesis using assms by (auto simp: put_arg_def search_wf_def passed_def)
qed

lemma vararg_loop_ok:
  assumes "search_wf cap wordc words st"
  shows "\<exists>st'. vararg_loop cap wordc words st = Some st' \<and> search_wf cap wordc words st' \<and> passed words st st'
     \<and> wordi st' = wordc \<and> found st' = found st"
  using assms
proof (induction "wordc - wordi st" arbitrary: st)
  case 0
  then have "wordi st = wordc" by (simp add: search_wf_def)
  with 0 show ?case by (subst vararg_loop.simps) (simp add: passed_refl)
next
  case (Suc n)
  then have lt: "wordi st < wordc" by simp
  obtain s where s: "put_arg cap words st = Some s" "search_wf cap wordc words s" "passed words st s"
    "wordi s = Suc (wordi st)" "found s = found st" using put_arg_ok [OF Suc.prems lt] by blast
  have n: "n = wordc - wordi s" using Suc.hyps(2) s(4) by simp
  obtain st' where "vararg_loop cap wordc words s = Some st'" "search_wf cap wordc words st'" "passed words s st'"
    "wordi st' = wordc" "found st' = found s"
    using Suc.hyps(1) [OF n s(2)] by blast
  moreover from this have "vararg_loop cap wordc words st = Some st'"
    using lt s(1) by (subst vararg_loop.simps) simp
  ultimately show ?case using s(5) passed_trans [OF s(3)] by auto
qed

lemma take_args_ok:
  assumes "search_wf cap wordc words st" "wordi st < wordc"
  shows "\<exists>st'. take_args cap wordc words n tk st = Some st' \<and> search_wf cap wordc words st' \<and> passed words st st'
     \<and> wordi st < wordi st' \<and> found st' = found st"
proof -
  obtain s where s: "put_arg cap words st = Some s" "search_wf cap wordc words s" "passed words st s"
    "wordi s = Suc (wordi st)" "found s = found st" using put_arg_ok [OF assms] by blast
  obtain u where u: "vararg_loop cap wordc words s = Some u" "search_wf cap wordc words u" "passed words s u"
    "wordi u = wordc" "found u = found s" using vararg_loop_ok [OF s(2)] by blast
  have "search_wf cap wordc words (st\<lparr>wordi := Suc (wordi st)\<rparr>)" "passed words st (st\<lparr>wordi := Suc (wordi st)\<rparr>)"
    using assms by (auto simp: search_wf_def passed_def)
  then show ?thesis
    using s u assms(2) passed_trans [OF s(3) u(3)] by (auto simp: take_args_def)
qed

lemma pair_set_ok:
  assumes "search_wf cap wordc words st" "cstring k" "k \<in> set words" "v = ''1'' \<or> v \<in> set words"
  shows "\<exists>st'. pair_set st k v = Some st' \<and> search_wf cap wordc words st' \<and> passed words st st'
     \<and> wordi st' = wordi st \<and> found st' = found st"
proof (cases "pairs st")
  case None
  with assms show ?thesis by (simp add: pair_set_def passed_refl)
next
  case (Some h)
  with assms(1) have "ht_wf cstring h" by (simp add: search_wf_def)
  with hashtable_set_spec [OF this assms(2), of v] Some assms(1,3,4) show ?thesis
    by (auto simp: pair_set_def search_wf_def passed_def pairs_from_def pair_map_def split: if_splits)
qed

lemma step_over:
  assumes "search_wf cap wordc words st" "wordi st < wordc"
  shows "search_wf cap wordc words (st\<lparr>wordi := Suc (wordi st)\<rparr>)" "passed words st (st\<lparr>wordi := Suc (wordi st)\<rparr>)"
  using assms by (auto simp: search_wf_def passed_def)

lemma word_cstring: "search_wf cap wordc words st \<Longrightarrow> wordi st < wordc \<Longrightarrow> cstring (words ! wordi st)"
  by (simp add: search_wf_def list_all_length)

definition node_ok :: "('f, 'o) tree \<Rightarrow> addr option \<Rightarrow> bool" where
  "node_ok t a \<longleftrightarrow> (case a of None \<Rightarrow> False | Some n \<Rightarrow> 0 < n \<and> n < length t)"

lemma keyword_loop_ok:
  assumes "tree_wf t" "\<forall>n \<in> set kws. 0 < n \<and> n < length t" "search_wf cap wordc words st" "wordi st < wordc"
    and "node_ok t (found st)"
  shows "\<exists>r st'. keyword_loop t wordc words kws st = Some (r, st') \<and> search_wf cap wordc words st' \<and> passed words st st'
     \<and> node_ok t (found st') \<and> r \<in> {Go_On, Return 0, Return CMD_ERR_NO_MATCH} \<and> (r = Return 0 \<longrightarrow> wordi st' = wordc)"
  using assms(3-5)
proof (induction "wordc - wordi st" arbitrary: st rule: less_induct)
  case less
  let ?k = "words ! wordi st"
  have i: "wordi st < length words" using less.prems by (simp add: search_wf_def)
  show ?case
  proof (cases "find_best_node t kws ?k")
    case None
    with i less.prems show ?thesis by (subst keyword_loop.simps) (simp add: passed_refl)
  next
    case (Some c)
    obtain n tk where c: "c = (n, tk)" by fastforce
    have n: "node_ok t (Some n)" using find_best_node_Some(1) [of t kws ?k n tk] Some c assms(2) by (simp add: node_ok_def)
    obtain s1 where s1: "pair_set st ?k ''1'' = Some s1" "search_wf cap wordc words s1" "passed words st s1"
      "wordi s1 = wordi st" "found s1 = found st"
      using pair_set_ok [OF less.prems(1) word_cstring [OF less.prems(1,2)]] nth_mem [OF i] by blast
    let ?s2 = "s1\<lparr>wordi := Suc (wordi s1)\<rparr>"
    have s2: "search_wf cap wordc words ?s2" "passed words st ?s2"
      using step_over [OF s1(2)] s1(4) less.prems(2) passed_trans [OF s1(3)] by auto
    have IH: "\<exists>r st'. keyword_loop t wordc words kws s = Some (r, st') \<and> search_wf cap wordc words st' \<and> passed words st st'
         \<and> node_ok t (found st') \<and> r \<in> {Go_On, Return 0, Return CMD_ERR_NO_MATCH} \<and> (r = Return 0 \<longrightarrow> wordi st' = wordc)"
      if "search_wf cap wordc words s" "passed words st s" "wordi s < wordc" "wordi st < wordi s" "node_ok t (found s)" for s
      using less.hyps [OF diff_less_mono2 [OF that(4) less.prems(2)] that(1,3,5)] passed_trans [OF that(2)] by blast
    show ?thesis
    proof (cases "children (t ! n) = []")
      case True
      then show ?thesis
        using i Some c s1 s2 IH [of ?s2] less.prems(2,3) by (subst keyword_loop.simps) (auto simp: Let_def)
    next
      case ch: False
      show ?thesis
      proof (cases "wordi ?s2 = wordc")
        case True
        then show ?thesis
          using i Some c s1 s2 ch n by (subst keyword_loop.simps) (auto simp: Let_def passed_def search_wf_def)
      next
        case False
        then have lt: "wordi ?s2 < wordc" using s1(4) less.prems(2) by simp
        then have i2: "wordi ?s2 < length words" using s2(1) by (simp add: search_wf_def)
        let ?v = "words ! wordi ?s2"
        obtain s3 where s3: "pair_set ?s2 ?k ?v = Some s3" "search_wf cap wordc words s3" "passed words ?s2 s3"
          "wordi s3 = wordi ?s2" "found s3 = found ?s2"
          using pair_set_ok [OF s2(1) word_cstring [OF less.prems(1,2)]] nth_mem [OF i] nth_mem [OF i2] by blast
        let ?s4 = "s3\<lparr>wordi := Suc (wordi s3)\<rparr>"
        have s4: "search_wf cap wordc words ?s4" "passed words st ?s4"
          using step_over [OF s3(2)] s3(4) lt passed_trans [OF s2(2) passed_trans [OF s3(3)]] by auto
        show ?thesis
          using i i2 Some c s1 s2 s3 s4 ch False less.prems(2,3) IH [of ?s4]
          by (subst keyword_loop.simps) (auto simp: Let_def CMD_ERR_NO_MATCH_def split: option.splits)
      qed
    qed
  qed
qed

lemma cmd_search_ok:
  assumes "tree_wf t" "\<forall>n \<in> set head. 0 < n \<and> n < length t" "search_wf cap wordc words st" "wordi st < wordc"
  shows "\<exists>r st'. cmd_search t cap wordc words head st = Some (r, st') \<and> search_wf cap wordc words st' \<and> passed words st st'
     \<and> r \<in> {0, CMD_ERR_NO_MATCH} \<and> (r = 0 \<longrightarrow> wordi st' = wordc \<and> node_ok t (found st'))"
  using assms(2-4)
proof (induction "wordc - wordi st" arbitrary: head st rule: less_induct)
  case less
  let ?P = "\<lambda>res. \<exists>r st'. res = Some (r, st') \<and> search_wf cap wordc words st' \<and> passed words st st'
     \<and> r \<in> {0, CMD_ERR_NO_MATCH} \<and> (r = 0 \<longrightarrow> wordi st' = wordc \<and> node_ok t (found st'))"
  have i: "wordi st < length words" using less.prems by (simp add: search_wf_def)
  show ?case
  proof (cases "find_best_node t head (words ! wordi st)")
    case None
    with i less.prems show ?thesis by (subst cmd_search.simps) (simp add: passed_refl CMD_ERR_NO_MATCH_def)
  next
    case (Some c)
    obtain n tk where c: "c = (n, tk)" by fastforce
    have n: "0 < n" "n < length t" using find_best_node_Some(1) [of t head _ n tk] Some c less.prems(1) by auto
    let ?s0 = "st\<lparr>found := Some n\<rparr>"
    have s0: "search_wf cap wordc words ?s0" "passed words st ?s0" "wordi ?s0 < wordc"
      using less.prems by (auto simp: search_wf_def passed_def)
    obtain s1 where s1: "take_args cap wordc words (t ! n) tk ?s0 = Some s1" "search_wf cap wordc words s1"
      "passed words ?s0 s1" "wordi ?s0 < wordi s1" "found s1 = Some n"
      using take_args_ok [OF s0(1,3)] by auto
    have p1: "passed words st s1" using passed_trans [OF s0(2) s1(3)] .
    have kids: "\<forall>m \<in> set (children (t ! n)). 0 < m \<and> m < length t" "\<forall>m \<in> set (keyword (t ! n)). 0 < m \<and> m < length t"
      using kids_range [OF assms(1) n(2)] by (auto simp: kids_def)
    have tail: "?P (if keyword (t ! n) \<noteq> [] \<and> wordi s2 = wordc then Some (0, s2\<lparr>found := Some n\<rparr>)
          else if children (t ! n) \<noteq> [] then cmd_search t cap wordc words (children (t ! n)) s2
          else Some (CMD_ERR_NO_MATCH, s2))"
      if s2: "search_wf cap wordc words s2" "passed words s1 s2" "wordi s2 \<noteq> wordc \<or> keyword (t ! n) \<noteq> []" for s2
    proof -
      have p2: "passed words st s2" "wordi st < wordi s2"
        using passed_trans [OF p1 s2(2)] s1(4) s2(2) by (auto simp: passed_def)
      show ?thesis
      proof (cases "wordi s2 = wordc")
        case True
        with s2 p2 n show ?thesis by (auto simp: search_wf_def passed_def node_ok_def)
      next
        case False
        then have "wordi s2 < wordc" using s2(1) by (simp add: search_wf_def)
        with less.hyps [OF diff_less_mono2 [OF p2(2) less.prems(3)] kids(1) s2(1)] passed_trans [OF p2(1)] False s2 p2
        show ?thesis by (auto simp: CMD_ERR_NO_MATCH_def)
      qed
    qed
    show ?thesis
    proof (cases "wordi s1 = wordc")
      case True
      with i Some c s1 p1 n show ?thesis by (subst cmd_search.simps) (simp add: node_ok_def)
    next
      case False
      then have lt: "wordi s1 < wordc" using s1(2) by (simp add: search_wf_def)
      show ?thesis
      proof (cases "keyword (t ! n) = []")
        case True
        with tail [OF s1(2) passed_refl] i Some c s1(1) False show ?thesis
          by (subst cmd_search.simps) simp
      next
        case kw: False
        obtain r s2 where s2: "keyword_loop t wordc words (keyword (t ! n)) s1 = Some (r, s2)" "search_wf cap wordc words s2"
          "passed words s1 s2" "node_ok t (found s2)" "r \<in> {Go_On, Return 0, Return CMD_ERR_NO_MATCH}" "r = Return 0 \<longrightarrow> wordi s2 = wordc"
          using keyword_loop_ok [OF assms(1) kids(2) s1(2) lt] n s1(5) by (auto simp: node_ok_def)
        show ?thesis
        proof (cases r)
          case (Return x)
          with i Some c s1(1) False kw s2 passed_trans [OF p1 s2(3)] show ?thesis
            by (subst cmd_search.simps) auto
        next
          case Go_On
          with tail [OF s2(2,3)] i Some c s1(1) False kw s2(1) show ?thesis
            by (subst cmd_search.simps) simp
        qed
      qed
    qed
  qed
qed

lemma take_args_literal:
  "take_args cap wordc words n tk st = Some st' \<Longrightarrow> type tk = TOKEN_LITERAL \<Longrightarrow>
     wordi st' = Suc (wordi st) \<and> pairs st' = pairs st \<and>
     args st' = args st @ (if length (tokens n) > 1 then [words ! wordi st] else [])"
  by (auto simp: take_args_def put_arg_def split: if_splits)

text \<open>
  The words of a path that are handed to the command: those that choose one of several
  alternatives.
\<close>

fun walk_args :: "('f, 'o) tree \<Rightarrow> addr \<Rightarrow> string list \<Rightarrow> string list" where
  "walk_args t p [] = []"
| "walk_args t p (w # ws) =
     (case find (\<lambda>a. has_key (t ! a) w) (children (t ! p)) of
        None \<Rightarrow> []
      | Some a \<Rightarrow> (if length (tokens (t ! a)) > 1 then [w] else []) @ walk_args t a ws)"

text \<open>A path of literal words without keywords on the way is found, with its choices as arguments.\<close>

lemma cmd_search_walk:
  assumes "tree_wf t" "p < length t" "ws \<noteq> []" "list_all (\<lambda>w. cstring w \<and> token_type_of w = TOKEN_LITERAL) ws"
    and "walk t p ws = Some q" "\<forall>vs. \<forall>n. strict_prefix vs ws \<longrightarrow> vs \<noteq> [] \<longrightarrow> walk t p vs = Some n \<longrightarrow> keyword (t ! n) = []"
    and "search_wf cap wordc words st" "slice (wordi st) wordc words = ws" "wordc = wordi st + length ws"
  shows "\<exists>st'. cmd_search t cap wordc words (children (t ! p)) st = Some (0, st') \<and> found st' = Some q \<and> wordi st' = wordc
     \<and> pairs st' = pairs st \<and> args st' = args st @ walk_args t p ws"
  using assms(2-)
proof (induction ws arbitrary: p st)
  case (Cons w ws)
  have lt: "wordi st < wordc" "wordi st < length words" using Cons.prems(6,8) by (auto simp: search_wf_def)
  have hd: "words ! wordi st = w"
    using arg_cong [OF Cons.prems(7), of hd] lt by (simp add: slice_def hd_drop_conv_nth)
  obtain a where a: "find (\<lambda>a. has_key (t ! a) w) (children (t ! p)) = Some a" "walk t a ws = Some q"
    using Cons.prems(4) by (auto split: option.splits)
  obtain tk where tk: "find_best_node t (children (t ! p)) w = Some (a, tk)" "type tk = TOKEN_LITERAL"
    using find_best_node_literal [OF assms(1) Cons.prems(1) _ _ a(1)] Cons.prems(3) by auto
  have al: "a < length t" using a(1) children_range(2) [OF assms(1) Cons.prems(1)] by (auto simp: find_Some_iff)
  let ?s0 = "st\<lparr>found := Some a\<rparr>"
  have s0: "search_wf cap wordc words ?s0" "wordi ?s0 < wordc" using Cons.prems(6) lt by (auto simp: search_wf_def)
  obtain s1 where s: "take_args cap wordc words (t ! a) tk ?s0 = Some s1" "search_wf cap wordc words s1" "found s1 = found ?s0"
    using take_args_ok [OF s0, of "t ! a" tk] by blast
  define xs where "xs = (if length (tokens (t ! a)) > 1 then [w] else [])"
  have s1: "take_args cap wordc words (t ! a) tk ?s0 = Some s1" "search_wf cap wordc words s1"
      "wordi s1 = Suc (wordi st)" "found s1 = Some a" "pairs s1 = pairs st" "args s1 = args st @ xs"
    using s take_args_literal [OF s(1) tk(2)] hd unfolding xs_def by simp_all
  have g: "walk_args t p (w # ws) = xs @ walk_args t a ws" using a(1) unfolding xs_def by simp
  show ?case
  proof (cases "ws = []")
    case True
    with lt hd tk s1 a(2) Cons.prems(8) show ?thesis unfolding g by (subst cmd_search.simps) simp
  next
    case False
    have "strict_prefix [w] (w # ws)" using False by (simp add: strict_prefix_def)
    with Cons.prems(5) a(1) have kw: "keyword (t ! a) = []" by fastforce
    have "slice (wordi s1) wordc words = ws"
      using Cons.prems(7) drop_slice [of 1 "wordi st" wordc words] s1(3) by simp
    moreover have "\<forall>vs n. strict_prefix vs ws \<longrightarrow> vs \<noteq> [] \<longrightarrow> walk t a vs = Some n \<longrightarrow> keyword (t ! n) = []"
    proof (intro allI impI)
      fix vs n assume "strict_prefix vs ws" "vs \<noteq> []" "walk t a vs = Some n"
      then show "keyword (t ! n) = []" using Cons.prems(5) [rule_format, of "w # vs" n] a(1) by simp
    qed
    ultimately obtain st' where "cmd_search t cap wordc words (children (t ! a)) s1 = Some (0, st')" "found st' = Some q"
      "wordi st' = wordc" "pairs st' = pairs s1" "args st' = args s1 @ walk_args t a ws"
      using Cons.IH [OF al False _ a(2) _ s1(2)] Cons.prems(3,8) s1(3) by auto
    moreover have "children (t ! a) \<noteq> []" using a(2) False by (cases ws) auto
    ultimately show ?thesis
      using lt hd tk s1 kw False Cons.prems(8) unfolding g by (subst cmd_search.simps) auto
  qed
qed simp

subsection \<open>Words of a typed line\<close>

lemma next_key_word:
  assumes "plain_word w" "rest = [] \<or> hd rest = CHR '' '' \<or> hd rest = CHR ''|''"
  shows "next_key (w @ rest) = (Some w, rest)"
proof -
  let ?P = "\<lambda>c. c \<noteq> CHR ''|'' \<and> \<not> isspace c"
  obtain c cs where w: "w = c # cs" using assms(1) by (cases w) (auto simp: plain_word_def)
  have P: "\<forall>c \<in> set w. ?P c" using assms(1) by (auto simp: plain_word_def word_char_def list_all_iff)
  then have "\<not> isspace c" "c \<noteq> CHR ''|''" "c \<noteq> CHR 0x0A" using w by (auto simp: isspace_def)
  moreover have "takeWhile ?P rest = []" "dropWhile ?P rest = rest"
    using assms(2) by (cases rest; auto simp: isspace_def)+
  moreover have "takeWhile ?P (w @ rest) = w @ takeWhile ?P rest" "dropWhile ?P (w @ rest) = dropWhile ?P rest"
    using P by (simp_all add: takeWhile_append2 dropWhile_append2)
  ultimately show ?thesis by (simp add: next_key_def w Let_def)
qed

lemma line_words_skip: "line_words (CHR '' '' # s) = line_words s"
  by (subst (1 2) line_words.simps) (simp add: next_key_def isspace_def)

lemma line_words_pipe: "line_words (CHR ''|'' # cmd) = [CHR ''|'' # cmd]"
proof -
  have "line_words [] = []" by (subst line_words.simps) (simp add: next_key_def)
  then show ?thesis by (subst line_words.simps) (simp add: next_key_def isspace_def)
qed

lemma line_words_join:
  assumes "list_all plain_word ws" "rest = [] \<or> (\<exists>r. rest = CHR '' '' # r) \<or> (\<exists>r. rest = CHR ''|'' # r)"
  shows "line_words (join_words ws @ rest) = ws @ line_words rest"
  using assms(1)
proof (induction ws rule: join_words.induct)
  case (2 w)
  have "next_key (w @ rest) = (Some w, rest)" using 2 assms(2) by (intro next_key_word) auto
  then show ?case by (subst line_words.simps) simp
next
  case (3 w v ws)
  have "next_key (w @ CHR '' '' # join_words (v # ws) @ rest) = (Some w, CHR '' '' # join_words (v # ws) @ rest)"
    using 3(2) by (intro next_key_word) auto
  with 3 show ?case by (subst line_words.simps) (simp add: line_words_skip)
qed simp

lemma line_words_Nil: "line_words [] = []"
  by (subst line_words.simps) (simp add: next_key_def)

lemma plain_words_search:
  assumes "list_all plain_word ws" "length ws \<le> MAXARGC" "ht_wf cstring h"
  shows "search_wf MAXARGC (length ws) (ws @ vs) \<lparr>found = None, wordi = 0, args = [], pairs = Some h\<rparr>
    \<longleftrightarrow> list_all cstring vs"
  using assms by (auto simp: search_wf_def plain_word_def list_all_iff)

text \<open>The nodes inside a path have no keyword options.\<close>

definition path_plain :: "('f, 'o) tree \<Rightarrow> string list \<Rightarrow> bool" where
  "path_plain t ws \<longleftrightarrow>
     (\<forall>vs n. strict_prefix vs ws \<longrightarrow> vs \<noteq> [] \<longrightarrow> walk t 0 vs = Some n \<longrightarrow> keyword (t ! n) = [])"

subsection \<open>Properties\<close>

text \<open>
  C1. Registering a command makes it reachable: adding a command line of literal words
  with a help line for each word to any well-formed tree succeeds, and in the resulting
  tree, and in every tree that later additions make of it, splitting the typed line gives
  back the words and searching them ends with success at a node that the registration
  gave the command's handler.  Nodes with keyword options inside the path are excluded,
  because their options take precedence over the rest of the line.
\<close>

theorem registered_command_found:
  assumes "tree_wf t" "\<forall>i. al i" "ws \<noteq> []" "list_all plain_word ws" "line e = join_words ws"
    and "list_all help_line ds" "elem_desc e = help_text ds" "length ws \<le> length ds"
    and "length ws \<le> MAXARGC" "ht_wf cstring h"
  shows "\<exists>t' q. cmd_add_elem al t e = Some (0, t') \<and> tree_wf t' \<and> func (t' ! q) = elem_func e
     \<and> line_words (line e) = ws
     \<and> (\<forall>u. grows t' u \<longrightarrow> tree_wf u \<longrightarrow> path_plain u ws \<longrightarrow>
          (\<exists>st. cmd_search u MAXARGC (length ws) ws (children (u ! 0))
             \<lparr>found = None, wordi = 0, args = [], pairs = Some h\<rparr> = Some (0, st) \<and> found st = Some q))"
proof -
  obtain t' q where t': "cmd_add_elem al t e = Some (0, t')" "tree_wf t'" "walk t' 0 ws = Some q"
    "func (t' ! q) = elem_func e"
    using cmd_add_elem_plain [OF assms(1-8)] by blast
  have len: "0 < length u" if "tree_wf u" for u :: "('a, 'b) tree" using that by (simp add: tree_wf_def)
  let ?st = "\<lparr>found = None, wordi = 0, args = [], pairs = Some h\<rparr> :: search"
  have lit: "list_all (\<lambda>w. cstring w \<and> token_type_of w = TOKEN_LITERAL) ws"
    using assms(4) by (auto simp: plain_word_def list_all_iff)
  have wf: "search_wf MAXARGC (length ws) ws ?st"
    using plain_words_search [OF assms(4,9,10), of "[]"] by simp
  have "\<exists>st. cmd_search u MAXARGC (length ws) ws (children (u ! 0)) ?st = Some (0, st) \<and> found st = Some q"
    if u: "grows t' u" "tree_wf u" "path_plain u ws" for u
    using cmd_search_walk [OF u(2) len [OF u(2)] assms(3) lit walk_grows [OF u(1) t'(2) len [OF t'(2)] t'(3)]
        u(3) [unfolded path_plain_def] wf] by (auto simp: slice_def)
  moreover have "line_words (line e) = ws"
    using line_words_join [OF assms(4), of "[]"] assms(5) by (simp add: line_words_Nil)
  ultimately show ?thesis using t' by blast
qed

lemma sample_cmdopt: "\<exists>h. ht_wf cstring (h :: (string, string) hashtable)"
  using cmdopt_create_wf(1) [of True True True] by (auto simp: cmdopt_create_def cmdopt_wf_def hashtable_create_def
      attr_ok_def cmdopt_attr_def)

theorem registered_command_found_witness:
  "\<exists>t' q (h :: (string, string) hashtable). cmd_add_elem (\<lambda>_. True) [cmd_node_new []]
      \<lparr>line = ''show log'', elem_desc = help_text [''Show'', ''Log''], elem_func = Some (7 :: nat), elem_optattr = None :: unit option\<rparr>
      = Some (0, t') \<and> func (t' ! q) = Some 7
     \<and> (path_plain t' [''show'', ''log''] \<longrightarrow>
        (\<exists>st. cmd_search t' MAXARGC (length [''show'', ''log'']) [''show'', ''log''] (children (t' ! 0))
           \<lparr>found = None, wordi = 0, args = [], pairs = Some h\<rparr> = Some (0, st) \<and> found st = Some q))"
proof -
  let ?e = "\<lparr>line = ''show log'', elem_desc = help_text [''Show'', ''Log''], elem_func = Some (7 :: nat),
      elem_optattr = None :: unit option\<rparr>"
  let ?t = "[cmd_node_new []] :: (nat, unit) tree"
  have t: "tree_wf ?t" by (simp add: tree_wf_def cmd_node_new_def kids_def)
  have ws: "list_all plain_word [''show'', ''log'']" "list_all help_line [''Show'', ''Log'']"
    by (auto simp: plain_word_def word_char_def isspace_def cstring_def token_type_of_def help_line_def
        less_eq_char_def of_char_def)
  obtain h :: "(string, string) hashtable" where h: "ht_wf cstring h" using sample_cmdopt by blast
  from registered_command_found [OF t _ _ ws(1) _ ws(2), of "\<lambda>_. True" ?e h] h
  obtain t' q where "cmd_add_elem (\<lambda>_. True) ?t ?e = Some (0, t')" "tree_wf t'" "func (t' ! q) = Some 7"
    "\<forall>u. grows t' u \<longrightarrow> tree_wf u \<longrightarrow> path_plain u [''show'', ''log''] \<longrightarrow>
          (\<exists>st. cmd_search u MAXARGC (length [''show'', ''log'']) [''show'', ''log''] (children (u ! 0))
             \<lparr>found = None, wordi = 0, args = [], pairs = Some h\<rparr> = Some (0, st) \<and> found st = Some q)"
    by (auto simp: MAXARGC_def)
  then show ?thesis using grows_refl by blast
qed

text \<open>
  C11. The search is memory safe and total: on a well-formed tree and table, with words
  left to match and an argument array that has room for them, \<open>cmd_search\<close> returns
  success or \<open>CMD_ERR_NO_MATCH\<close>; on success all words are used up and an inner node of
  the tree is found; the arguments it adds are words of the line, in order.
\<close>

theorem cmd_search_safe:
  assumes "tree_wf t" "search_wf cap wordc words st" "wordi st < wordc"
  shows "\<exists>r st' xs. cmd_search t cap wordc words (children (t ! 0)) st = Some (r, st') \<and> search_wf cap wordc words st'
     \<and> r \<in> {0, CMD_ERR_NO_MATCH}
     \<and> (r = 0 \<longrightarrow> wordi st' = wordc \<and> (\<exists>n. found st' = Some n \<and> 0 < n \<and> n < length t))
     \<and> args st' = args st @ xs \<and> subseq xs (slice (wordi st) (wordi st') words)"
proof -
  have "\<forall>n \<in> set (children (t ! 0)). 0 < n \<and> n < length t"
    using children_range [OF assms(1), of 0] assms(1) by (auto simp: tree_wf_def)
  from cmd_search_ok [OF assms(1) this assms(2,3)] show ?thesis
    by (auto simp: passed_def node_ok_def split: option.splits)
qed

theorem cmd_search_safe_witness:
  "\<exists>r st'. cmd_search ([cmd_node_new []] :: (nat, unit) tree) 64 1 [''a''] []
      \<lparr>found = None, wordi = 0, args = [], pairs = None\<rparr> = Some (r, st')"
  using cmd_search_safe [of "[cmd_node_new []] :: (nat, unit) tree" 64 1 "[''a'']"
      "\<lparr>found = None, wordi = 0, args = [], pairs = None\<rparr>"]
  by (auto simp: tree_wf_def cmd_node_new_def kids_def search_wf_def cstring_def)

lemma vararg_loop_overflow:
  assumes "wordc \<le> length words" "cap < length (args st) + (wordc - wordi st)" "length (args st) \<le> cap"
  shows "vararg_loop cap wordc words st = None"
  using assms(2,3)
proof (induction "wordc - wordi st" arbitrary: st)
  case (Suc n)
  then have lt: "wordi st < wordc" by simp
  show ?case
  proof (cases "put_arg cap words st")
    case None
    with lt show ?thesis by (subst vararg_loop.simps) simp
  next
    case (Some s)
    then have s: "wordi s = Suc (wordi st)" "length (args s) = Suc (length (args st))" "length (args st) < cap"
      by (auto simp: put_arg_def split: if_splits)
    then have "vararg_loop cap wordc words s = None" using Suc by simp
    with lt Some show ?thesis by (subst vararg_loop.simps) simp
  qed
qed simp



end
