(* ===== verification/Cmd_Complete.thy ===== *)
theory Cmd_Complete
  imports Search_Spec
begin

section \<open>Completion and description of commands (cli-tree.c)\<close>

text \<open>
  The out parameters \<open>n\<close> and \<open>keys\<close> (and \<open>descs\<close>) are lists: their length is \<open>n\<close>.  The
  flags say whether the allocations succeed; the buffer for a common prefix is used
  unchecked, so that its failure is the result \<open>None\<close>.
\<close>

definition strncmp :: "string \<Rightarrow> string \<Rightarrow> nat \<Rightarrow> int" where
  "strncmp a b n = strcmp (take n a) (take n b)"

definition word_len :: "string option \<Rightarrow> nat" where
  "word_len w = (case w of None \<Rightarrow> 0 | Some s \<Rightarrow> length s)"

definition token_fits :: "string option \<Rightarrow> token \<Rightarrow> bool" where
  "token_fits w tk \<longleftrightarrow> word_len w = 0 \<or> strncmp (key tk) (the w) (word_len w) = 0"

definition fitting :: "('f, 'o) tree \<Rightarrow> addr list \<Rightarrow> string option \<Rightarrow> token list" where
  "fitting t head w = filter (token_fits w) (concat (map (\<lambda>a. tokens (t ! a)) head))"

definition token_count :: "('f, 'o) tree \<Rightarrow> addr list \<Rightarrow> string option \<Rightarrow> nat" where
  "token_count t head w = length (fitting t head w)"

subsection \<open>Completion\<close>

fun common_len :: "string \<Rightarrow> string \<Rightarrow> nat" where
  "common_len (c # cs) (d # ds) = (if c \<noteq> d then 0 else Suc (common_len cs ds))"
| "common_len _ _ = 0"

fun lcd_loop :: "int \<Rightarrow> string list \<Rightarrow> int" where
  "lcd_loop lcd (a # b # ks) =
     (let j = int (common_len a b)
      in lcd_loop (if lcd < 0 then j else if lcd > j then j else lcd) (b # ks))"
| "lcd_loop lcd _ = lcd"

definition cmd_lcd :: "string list \<Rightarrow> int" where
  "cmd_lcd matched = (if length matched < 2 then 0 else lcd_loop (-1) matched)"

definition get_complete ::
    "bool \<Rightarrow> bool \<Rightarrow> ('f, 'o) tree \<Rightarrow> addr \<Rightarrow> string option \<Rightarrow> (int \<times> string list) option" where
  "get_complete mem_keys mem_one t base w =
     (let head = children (t ! base); kw = keyword (t ! base);
          count = token_count t head w + token_count t kw w
      in if count = 0 then Some (CMD_ERR_NO_MATCH, [])
         else if \<not> mem_keys then Some (CMD_ERR_SYSTEM, [])
         else let keys = map key (fitting t head w @ fitting t kw w); lcd = cmd_lcd keys
              in if lcd \<noteq> 0 \<and> lcd > int (word_len w) then
                   (if mem_one then Some (CMD_COMPLETE_MATCH, keys[0 := take (nat lcd) (keys ! 0)]) else None)
                 else Some (if count = 1 then CMD_COMPLETE_FULL_MATCH else CMD_COMPLETE_LIST_MATCH, keys))"

definition start_search :: "(string, string) hashtable option \<Rightarrow> search" where
  "start_search h = \<lparr>found = None, wordi = 0, args = [], pairs = h\<rparr>"

text \<open>
  The node below which the last word is to be completed, and that word; the array for the
  arguments has 1000 entries.
\<close>

definition complete_base :: "('f, 'o) tree \<Rightarrow> string \<Rightarrow> string list \<Rightarrow> (int + (addr \<times> string option \<times> bool)) option" where
  "complete_base t l words =
     (let wordc = length words;
          wordc' = (if wordc \<noteq> 0 \<and> last l \<noteq> CHR '' '' then wordc - 1 else wordc)
      in if wordc' > 0 then
           (case cmd_search t 1000 wordc' words (children (t ! 0)) (start_search None) of
              None \<Rightarrow> None
            | Some (r, st) \<Rightarrow>
                if r \<noteq> 0 then Some (Inl CMD_ERR_NO_MATCH)
                else Some (Inr (the (found st),
                                if wordi st < wordc then Some (words ! wordi st) else None, wordc' = wordc)))
         else Some (Inr (0, if wordc > 0 then Some (words ! 0) else None, wordc' = wordc)))"

definition cmd_complete ::
    "alloc \<Rightarrow> bool \<Rightarrow> bool \<Rightarrow> ('f, 'o) tree \<Rightarrow> string \<Rightarrow> (int \<times> string list) option" where
  "cmd_complete al mem_keys mem_one t l =
     (case line_get_args al l of
        Inl _ \<Rightarrow> Some (CMD_ERR_SYSTEM, [])
      | Inr words \<Rightarrow>
          if \<exists>w \<in> set words. hd w = CHR ''|'' then Some (CMD_SUCCESS, [])
          else if words = [] then Some (CMD_SUCCESS, [])
          else (case complete_base t l words of
                  None \<Rightarrow> None
                | Some (Inl r) \<Rightarrow> Some (r, [])
                | Some (Inr (base, w, _)) \<Rightarrow> get_complete mem_keys mem_one t base w))"

subsection \<open>Description\<close>

definition get_desc :: "bool \<Rightarrow> ('f, 'o) tree \<Rightarrow> addr \<Rightarrow> string option \<Rightarrow> int \<times> (string \<times> string) list" where
  "get_desc mem t base w =
     (let head = children (t ! base); kw = keyword (t ! base);
          count = token_count t head w + token_count t kw w
      in if count = 0 then (CMD_ERR_NO_MATCH, [])
         else if \<not> mem then (CMD_ERR_SYSTEM, [])
         else (if count = 1 then CMD_COMPLETE_FULL_MATCH else CMD_COMPLETE_LIST_MATCH,
               map (\<lambda>tk. (key tk, desc tk)) (fitting t head w @ fitting t kw w)))"

text \<open>
  The result is the code, the keys with their descriptions, and the flag \<open>cr\<close>.  When the
  allocations of \<open>get_desc\<close> fail, the number of keys is already set, and comparing the
  word with the missing keys follows a null pointer.
\<close>

definition cmd_describe ::
    "alloc \<Rightarrow> bool \<Rightarrow> ('f, 'o) tree \<Rightarrow> string \<Rightarrow> (int \<times> (string \<times> string) list \<times> bool) option" where
  "cmd_describe al mem t l =
     (case line_get_args al l of
        Inl _ \<Rightarrow> Some (CMD_ERR_NO_MATCH, [], False)
      | Inr words \<Rightarrow>
          if \<exists>w \<in> set words. hd w = CHR ''|'' then Some (CMD_SUCCESS, [], False)
          else (case complete_base t l words of
                  None \<Rightarrow> None
                | Some (Inl r) \<Rightarrow> Some (r, [], False)
                | Some (Inr (base, w, full)) \<Rightarrow>
                    (case get_desc mem t base w of
                       (r, kds) \<Rightarrow>
                         if w \<noteq> None \<and> r = CMD_ERR_SYSTEM then None
                         else Some (r, kds,
                           full \<and> func (t ! base) \<noteq> None
                           \<or> w \<noteq> None \<and> (\<exists>kd \<in> set kds. strcmp (the w) (fst kd) = 0) \<and> func (t ! base) \<noteq> None))))"

subsection \<open>Lemmas\<close>

lemma take_cstring: "cstring s \<Longrightarrow> cstring (take n s)"
  unfolding cstring_def by (meson in_set_takeD)

lemma strncmp_prefix:
  assumes "cstring a" "cstring b"
  shows "strncmp a b (length b) = 0 \<longleftrightarrow> prefix b a"
proof -
  have "strncmp a b (length b) = 0 \<longleftrightarrow> take (length b) a = b"
    using strcmp_eq_0_iff [OF take_cstring [OF assms(1)] assms(2)] by (simp add: strncmp_def)
  then show ?thesis by (metis prefix_def take_is_prefix append_eq_conv_conj)
qed

lemma token_fits_prefix:
  assumes "cstring (key tk)" "cstring s"
  shows "token_fits (Some s) tk \<longleftrightarrow> prefix s (key tk)"
  using strncmp_prefix [OF assms] by (auto simp: token_fits_def word_len_def)

lemma common_len_take: "take (common_len a b) a = take (common_len a b) b"
  by (induction a b rule: common_len.induct) auto

lemma common_len_le: "common_len a b \<le> length a" "common_len a b \<le> length b"
  by (induction a b rule: common_len.induct) auto

lemma common_len_max: "prefix p a \<Longrightarrow> prefix p b \<Longrightarrow> length p \<le> common_len a b"
proof (induction a b arbitrary: p rule: common_len.induct)
  case (1 c cs d ds)
  then show ?case by (cases p) auto
qed (auto simp: prefix_def)

text \<open>The loop computes the length of the longest common prefix of all keys.\<close>

lemma lcd_loop_spec:
  assumes "lcd < 0 \<and> ks \<noteq> [] \<and> tl ks \<noteq> [] \<or> 0 \<le> lcd \<and> ks \<noteq> [] \<and> nat lcd \<le> length (hd ks)"
  shows "0 \<le> lcd_loop lcd ks \<and> (0 \<le> lcd \<longrightarrow> lcd_loop lcd ks \<le> lcd)
     \<and> (\<forall>k \<in> set ks. prefix (take (nat (lcd_loop lcd ks)) (hd ks)) k)
     \<and> nat (lcd_loop lcd ks) \<le> length (hd ks)
     \<and> (\<forall>p. (\<forall>k \<in> set ks. prefix p k) \<longrightarrow> 0 \<le> lcd \<longrightarrow> int (length p) \<le> lcd \<longrightarrow> int (length p) \<le> lcd_loop lcd ks)
     \<and> (\<forall>p. (\<forall>k \<in> set ks. prefix p k) \<longrightarrow> lcd < 0 \<longrightarrow> int (length p) \<le> lcd_loop lcd ks)"
  using assms
proof (induction lcd ks rule: lcd_loop.induct)
  case (1 lcd a b ks)
  let ?j = "common_len a b"
  define l where "l = (if lcd < 0 then int ?j else if lcd > int ?j then int ?j else lcd)"
  define r where "r = lcd_loop l (b # ks)"
  have l: "0 \<le> l" "nat l \<le> ?j" "nat l \<le> length b" "0 \<le> lcd \<Longrightarrow> l \<le> lcd"
    "\<And>n. n \<le> int ?j \<Longrightarrow> lcd < 0 \<or> n \<le> lcd \<Longrightarrow> n \<le> l"
    using common_len_le [of a b] by (auto simp: l_def)
  have IH: "0 \<le> r" "r \<le> l" "\<forall>k \<in> set (b # ks). prefix (take (nat r) b) k" "nat r \<le> length b"
    "\<And>p. \<forall>k \<in> set (b # ks). prefix p k \<Longrightarrow> int (length p) \<le> l \<Longrightarrow> int (length p) \<le> r"
    using 1(1) [OF refl, folded l_def] l unfolding r_def by auto
  have rj: "nat r \<le> ?j" using IH(1,2) l by linarith
  have same: "take (nat r) a = take (nat r) b"
    using common_len_take [of a b] rj by (metis min_absorb1 take_take)
  have lcp: "int (length p) \<le> int ?j" if "\<forall>k \<in> set (a # b # ks). prefix p k" for p
    using common_len_max [of p a b] that by simp
  have eq: "lcd_loop lcd (a # b # ks) = r" by (simp add: Let_def r_def l_def)
  have "prefix (take (nat r) a) a" by (rule take_is_prefix)
  then have "\<forall>k \<in> set (a # b # ks). prefix (take (nat r) a) k"
    using IH(3) by (simp add: same)
  moreover have "nat r \<le> length a" using rj common_len_le(1) [of a b] by simp
  moreover have "int (length p) \<le> r" if "\<forall>k \<in> set (a # b # ks). prefix p k" "lcd < 0 \<or> int (length p) \<le> lcd" for p
    using IH(5) [of p] l(5) [OF lcp [OF that(1)] that(2)] that(1) by simp
  moreover have "0 \<le> lcd \<longrightarrow> r \<le> lcd" using IH(2) l(4) by linarith
  ultimately show ?case
    unfolding eq using IH(1) by simp
qed (auto simp: take_is_prefix)

lemma cmd_lcd_spec:
  assumes "2 \<le> length ks"
  shows "0 \<le> cmd_lcd ks" "\<forall>k \<in> set ks. prefix (take (nat (cmd_lcd ks)) (hd ks)) k"
    and "nat (cmd_lcd ks) \<le> length (hd ks)" "(\<forall>k \<in> set ks. prefix p k) \<Longrightarrow> length p \<le> nat (cmd_lcd ks)"
proof -
  have ne: "ks \<noteq> [] \<and> tl ks \<noteq> []" using assms by (cases ks; cases "tl ks") auto
  have eq: "cmd_lcd ks = lcd_loop (-1) ks" using assms by (simp add: cmd_lcd_def)
  have spec: "(-1 :: int) < 0 \<and> ks \<noteq> [] \<and> tl ks \<noteq> [] \<or> 0 \<le> (-1 :: int) \<and> ks \<noteq> [] \<and> nat (-1) \<le> length (hd ks)"
    using ne by simp
  note s = lcd_loop_spec [OF spec, folded eq]
  show "0 \<le> cmd_lcd ks" "\<forall>k \<in> set ks. prefix (take (nat (cmd_lcd ks)) (hd ks)) k"
    "nat (cmd_lcd ks) \<le> length (hd ks)" using s by blast+
  show "(\<forall>k \<in> set ks. prefix p k) \<Longrightarrow> length p \<le> nat (cmd_lcd ks)"
    using s by (simp add: nat_le_iff le_nat_iff)
qed

text \<open>The candidates below a node: the tokens of its children and of its keywords that start with the word.\<close>

definition completions :: "('f, 'o) tree \<Rightarrow> addr \<Rightarrow> string option \<Rightarrow> string list" where
  "completions t base w =
     map key (filter (\<lambda>tk. prefix (case w of None \<Rightarrow> [] | Some s \<Rightarrow> s) (key tk))
       (concat (map (\<lambda>a. tokens (t ! a)) (kids (t ! base)))))"

lemma fitting_completions:
  assumes "tree_wf t" "base < length t" "w = None \<or> (\<exists>s. w = Some s \<and> cstring s)"
  shows "map key (fitting t (children (t ! base)) w @ fitting t (keyword (t ! base)) w) = completions t base w"
proof -
  have fits: "token_fits w tk \<longleftrightarrow> prefix (case w of None \<Rightarrow> [] | Some s \<Rightarrow> s) (key tk)"
    if "a \<in> set (kids (t ! base))" "tk \<in> set (tokens (t ! a))" for a tk
  proof -
    have "a < length t" using kids_range [OF assms(1,2) that(1)] by simp
    then have "token_ok tk" using assms(1) that(2) unfolding tree_wf_def list_all_iff by blast
    then show ?thesis
      using assms(3) token_fits_prefix [of tk] by (cases w) (auto simp: token_ok_def token_fits_def word_len_def [of None])
  qed
  let ?Q = "\<lambda>tk. prefix (case w of None \<Rightarrow> [] | Some s \<Rightarrow> s) (key tk)"
  have "filter (token_fits w) (concat (map (\<lambda>a. tokens (t ! a)) as)) = filter ?Q (concat (map (\<lambda>a. tokens (t ! a)) as))"
    if "set as \<subseteq> set (kids (t ! base))" for as
    using fits that by (intro filter_cong) auto
  then show ?thesis by (simp add: fitting_def completions_def kids_def)
qed

definition longest_common :: "string list \<Rightarrow> string \<Rightarrow> bool" where
  "longest_common ks p \<longleftrightarrow> (\<forall>k \<in> set ks. prefix p k) \<and> (\<forall>q. (\<forall>k \<in> set ks. prefix q k) \<longrightarrow> prefix q p)"

lemma longest_common_lcd:
  assumes "2 \<le> length ks"
  shows "longest_common ks (take (nat (cmd_lcd ks)) (hd ks))"
proof -
  let ?p = "take (nat (cmd_lcd ks)) (hd ks)"
  note lcd = cmd_lcd_spec [OF assms]
  have "ks \<noteq> []" using assms by auto
  have "prefix q ?p" if q: "\<forall>k \<in> set ks. prefix q k" for q
  proof (rule prefix_length_prefix)
    show "prefix q (hd ks)" using q \<open>ks \<noteq> []\<close> by simp
    show "prefix ?p (hd ks)" by (rule take_is_prefix)
    show "length q \<le> length ?p" using lcd(3) lcd(4) [OF q] by simp
  qed
  with lcd(2) show ?thesis by (simp add: longest_common_def)
qed

lemma get_complete_eq:
  assumes "tree_wf t" "base < length t" "cstring w"
  shows "let ks = completions t base (Some w) in
     if ks = [] then get_complete True True t base (Some w) = Some (CMD_ERR_NO_MATCH, [])
     else if length ks = 1 then get_complete True True t base (Some w) = Some (CMD_COMPLETE_FULL_MATCH, ks)
     else \<exists>p. longest_common ks p \<and> get_complete True True t base (Some w) =
       (if length w < length p then Some (CMD_COMPLETE_MATCH, ks[0 := p]) else Some (CMD_COMPLETE_LIST_MATCH, ks))"
proof -
  let ?ks = "completions t base (Some w)"
  have ks: "map key (fitting t (children (t ! base)) (Some w) @ fitting t (keyword (t ! base)) (Some w)) = ?ks"
    using fitting_completions [OF assms(1,2)] assms(3) by simp
  have count: "token_count t (children (t ! base)) (Some w) + token_count t (keyword (t ! base)) (Some w) = length ?ks"
    unfolding ks [symmetric] by (simp add: token_count_def)
  have eq: "get_complete True True t base (Some w) =
     (if length ?ks = 0 then Some (CMD_ERR_NO_MATCH, [])
      else if cmd_lcd ?ks \<noteq> 0 \<and> cmd_lcd ?ks > int (length w)
      then Some (CMD_COMPLETE_MATCH, ?ks[0 := take (nat (cmd_lcd ?ks)) (?ks ! 0)])
      else Some (if length ?ks = 1 then CMD_COMPLETE_FULL_MATCH else CMD_COMPLETE_LIST_MATCH, ?ks))"
    unfolding get_complete_def Let_def count ks by (simp add: word_len_def)
  consider "?ks = []" | "length ?ks = 1" | "2 \<le> length ?ks" by (cases ?ks; cases "tl ?ks") auto
  then show ?thesis
  proof cases
    case 3
    let ?p = "take (nat (cmd_lcd ?ks)) (hd ?ks)"
    have "length ?p = nat (cmd_lcd ?ks)" "0 \<le> cmd_lcd ?ks" using cmd_lcd_spec [OF 3] by simp_all
    then have "length w < length ?p \<longleftrightarrow> cmd_lcd ?ks \<noteq> 0 \<and> cmd_lcd ?ks > int (length w)" by linarith
    moreover have "hd ?ks = ?ks ! 0" using 3 by (cases ?ks) auto
    moreover have ne: "?ks \<noteq> []" "length ?ks \<noteq> 1" using 3 by auto
    ultimately have "get_complete True True t base (Some w) =
       (if length w < length ?p then Some (CMD_COMPLETE_MATCH, ?ks[0 := ?p]) else Some (CMD_COMPLETE_LIST_MATCH, ?ks))"
      unfolding eq by simp
    with longest_common_lcd [OF 3] show ?thesis
      unfolding Let_def by (subst if_not_P [OF ne(1)], subst if_not_P [OF ne(2)]) (rule exI [of _ ?p], rule conjI)
  qed (auto simp: eq Let_def cmd_lcd_def)
qed

text \<open>The node below which a plain line with a last word typed so far is completed.\<close>

lemma complete_base_walk:
  assumes "tree_wf t" "list_all plain_word ws" "plain_word w" "walk t 0 ws = Some q" "path_plain t ws" "length ws \<le> 1000"
  shows "complete_base t (l @ w) (ws @ [w]) = Some (Inr (q, Some w, False))"
proof -
  have last: "last (l @ w) \<noteq> CHR '' ''"
    using assms(3) last_in_set [of w] by (auto simp: plain_word_def word_char_def isspace_def list_all_iff)
  show ?thesis
  proof (cases "ws = []")
    case True
    with last assms(4) show ?thesis by (simp add: complete_base_def)
  next
    case False
    have lit: "list_all (\<lambda>w. cstring w \<and> token_type_of w = TOKEN_LITERAL) ws"
      using assms(2) by (auto simp: plain_word_def list_all_iff)
    have wf: "search_wf 1000 (length ws) (ws @ [w]) (start_search None)"
      using assms(2,3,6) by (auto simp: search_wf_def start_search_def plain_word_def list_all_iff)
    have "0 < length t" using assms(1) by (simp add: tree_wf_def)
    from cmd_search_walk [OF assms(1) this False lit assms(4) assms(5) [unfolded path_plain_def] wf]
    obtain st where "cmd_search t 1000 (length ws) (ws @ [w]) (children (t ! 0)) (start_search None) = Some (0, st)"
      "found st = Some q" "wordi st = length ws"
      by (auto simp: start_search_def slice_def)
    with False last show ?thesis by (simp add: complete_base_def)
  qed
qed

lemma join_words_snoc: "\<exists>l. join_words (ws @ [w]) = l @ w"
proof (induction ws rule: join_words.induct)
  case (3 u v ws)
  then obtain l where "join_words (v # ws @ [w]) = l @ w" by auto
  then have "join_words ((u # v # ws) @ [w]) = (u @ CHR '' '' # l) @ w" by simp
  then show ?case by blast
qed auto

lemma line_get_args_plain:
  assumes "\<forall>i. al i" "list_all plain_word ws"
  shows "line_get_args al (join_words ws) = Inr ws" "\<not> (\<exists>w \<in> set ws. hd w = CHR ''|'')"
proof -
  show "line_get_args al (join_words ws) = Inr ws"
    using line_words_join [OF assms(2), of "[]"] assms(1) by (simp add: line_get_args_def line_words_Nil Let_def)
  have "hd w \<noteq> CHR ''|''" if "w \<in> set ws" for w
    using assms(2) that by (cases w) (auto simp: plain_word_def word_char_def list_all_iff)
  then show "\<not> (\<exists>w \<in> set ws. hd w = CHR ''|'')" by blast
qed

subsection \<open>Properties\<close>

text \<open>
  C29. Completion offers just what fits: for a line of literal words that lead to a node,
  followed by a last word typed so far, \<open>cmd_complete\<close> reports no match when no token
  below the node starts with that word, gives the token when it is the only one, and
  otherwise replaces the word by the longest common prefix of all candidates if that is
  longer than what was typed, and lists the candidates if it is not.
\<close>

theorem cmd_complete_candidates:
  assumes "tree_wf t" "\<forall>i. al i" "list_all plain_word (ws @ [w])" "walk t 0 ws = Some q" "path_plain t ws" "length ws \<le> 1000"
  shows "let ks = completions t q (Some w); res = cmd_complete al True True t (join_words (ws @ [w])) in
     if ks = [] then res = Some (CMD_ERR_NO_MATCH, [])
     else if length ks = 1 then res = Some (CMD_COMPLETE_FULL_MATCH, ks)
     else \<exists>p. longest_common ks p \<and> res =
       (if length w < length p then Some (CMD_COMPLETE_MATCH, ks[0 := p]) else Some (CMD_COMPLETE_LIST_MATCH, ks))"
proof -
  obtain l where l: "join_words (ws @ [w]) = l @ w" using join_words_snoc by blast
  have w: "list_all plain_word ws" "plain_word w" using assms(3) by auto
  have "complete_base t (join_words (ws @ [w])) (ws @ [w]) = Some (Inr (q, Some w, False))"
    unfolding l by (rule complete_base_walk [OF assms(1) w assms(4-6)])
  then have "cmd_complete al True True t (join_words (ws @ [w])) = get_complete True True t q (Some w)"
    using line_get_args_plain [OF assms(2,3)] by (auto simp: cmd_complete_def)
  moreover have "q < length t" using walk_range [OF assms(1) _ assms(4)] assms(1) by (auto simp: tree_wf_def)
  ultimately show ?thesis
    using get_complete_eq [OF assms(1), of q w] w(2) by (simp add: plain_word_def Let_def)
qed

definition sample_tree :: "(nat, unit) tree" where
  "sample_tree = [(cmd_node_new [])\<lparr>children := [1, 2]\<rparr>,
     (cmd_node_new [\<lparr>key = ''quit'', desc = ''Quit'', type = TOKEN_LITERAL\<rparr>])\<lparr>parent := Some 0, func := Some 1\<rparr>,
     (cmd_node_new [\<lparr>key = ''list'', desc = ''List'', type = TOKEN_LITERAL\<rparr>])\<lparr>parent := Some 0, func := Some 2\<rparr>]"

lemma sample_tree_wf: "tree_wf sample_tree"
proof -
  have all: "(\<forall>a < 3. P a) \<longleftrightarrow> P 0 \<and> P 1 \<and> P (2 :: nat)" for P
    by (auto simp: less_Suc_eq numeral_3_eq_3 numeral_2_eq_2)
  have "length sample_tree = 3" by (simp add: sample_tree_def)
  then show ?thesis
    unfolding tree_wf_def by (simp only: all)
      (auto simp: sample_tree_def cmd_node_new_def kids_def token_ok_def cstring_def token_type_of_def
        less_eq_char_def of_char_def numeral_2_eq_2 upt_rec)
qed

lemma sample_plain: "list_all plain_word ([] @ [''qu''])"
  by (simp add: plain_word_def word_char_def isspace_def cstring_def token_type_of_def less_eq_char_def of_char_def)

theorem cmd_complete_candidates_witness:
  "cmd_complete (\<lambda>_. True) True True sample_tree ''qu'' = Some (CMD_COMPLETE_FULL_MATCH, [''quit''])"
proof -
  have "completions sample_tree 0 (Some ''qu'') = [''quit'']"
    by (simp add: completions_def sample_tree_def kids_def cmd_node_new_def)
  then show ?thesis
    using cmd_complete_candidates [OF sample_tree_wf _ sample_plain, of "\<lambda>_. True" 0]
    by (simp add: path_plain_def)
qed

text \<open>
  The description of a line lists the same candidates with their help lines, and
  announces that the line may be ended when the word typed so far is itself a candidate
  and the node it follows has a handler.
\<close>

theorem cmd_describe_candidates:
  assumes "tree_wf t" "\<forall>i. al i" "list_all plain_word (ws @ [w])" "walk t 0 ws = Some q" "path_plain t ws" "length ws \<le> 1000"
  shows "\<exists>r kds. cmd_describe al True t (join_words (ws @ [w])) =
       Some (r, kds, w \<in> set (completions t q (Some w)) \<and> func (t ! q) \<noteq> None)
     \<and> map fst kds = completions t q (Some w)
     \<and> (\<forall>kd \<in> set kds. \<exists>a \<in> set (kids (t ! q)). \<exists>tk \<in> set (tokens (t ! a)). kd = (key tk, desc tk))
     \<and> (r = CMD_ERR_NO_MATCH \<longleftrightarrow> kds = [])"
proof -
  obtain l where l: "join_words (ws @ [w]) = l @ w" using join_words_snoc by blast
  have w: "list_all plain_word ws" "plain_word w" "cstring w" using assms(3) by (auto simp: plain_word_def)
  have base: "complete_base t (join_words (ws @ [w])) (ws @ [w]) = Some (Inr (q, Some w, False))"
    unfolding l by (rule complete_base_walk [OF assms(1) w(1,2) assms(4-6)])
  have q: "q < length t" using walk_range [OF assms(1) _ assms(4)] assms(1) by (auto simp: tree_wf_def)
  let ?tks = "fitting t (children (t ! q)) (Some w) @ fitting t (keyword (t ! q)) (Some w)"
  have ks: "map key ?tks = completions t q (Some w)" using fitting_completions [OF assms(1) q] w(3) by simp
  obtain r where r: "get_desc True t q (Some w) = (r, map (\<lambda>tk. (key tk, desc tk)) ?tks)"
    "r = CMD_ERR_NO_MATCH \<longleftrightarrow> ?tks = []" "r \<noteq> CMD_ERR_SYSTEM"
    by (cases "?tks = []") (auto simp: get_desc_def token_count_def Let_def cmd_codes)
  have "strcmp w k = 0 \<longleftrightarrow> w = k" if "k \<in> set (completions t q (Some w))" for k
  proof -
    from that obtain a tk where "a \<in> set (kids (t ! q))" "tk \<in> set (tokens (t ! a))" "k = key tk"
      by (auto simp: completions_def)
    with kids_range [OF assms(1) q] assms(1) have "cstring k"
      unfolding tree_wf_def list_all_iff token_ok_def by blast
    then show ?thesis using w(3) by (simp add: strcmp_eq_0_iff)
  qed
  then have "(\<exists>k \<in> set (map key ?tks). strcmp w k = 0) \<longleftrightarrow> w \<in> set (completions t q (Some w))"
    unfolding ks by auto
  moreover have "(\<exists>kd \<in> set (map (\<lambda>tk. (key tk, desc tk)) ?tks). strcmp w (fst kd) = 0)
      \<longleftrightarrow> (\<exists>k \<in> set (map key ?tks). strcmp w k = 0)"
    by (simp only: set_map bex_simps fst_conv)
  ultimately have "cmd_describe al True t (join_words (ws @ [w])) =
       Some (r, map (\<lambda>tk. (key tk, desc tk)) ?tks, w \<in> set (completions t q (Some w)) \<and> func (t ! q) \<noteq> None)"
    using line_get_args_plain [OF assms(2,3)] base r(1,3) by (auto simp: cmd_describe_def)
  moreover have "map fst (map (\<lambda>tk. (key tk, desc tk)) ?tks) = completions t q (Some w)"
    unfolding ks [symmetric] by simp
  ultimately show ?thesis using r(2) by (fastforce simp: fitting_def kids_def)
qed

theorem cmd_describe_candidates_witness:
  "\<exists>r kds cr. cmd_describe (\<lambda>_. True) True sample_tree ''qu'' = Some (r, kds, cr) \<and> map fst kds = [''quit'']"
proof -
  have "completions sample_tree 0 (Some ''qu'') = [''quit'']"
    by (simp add: completions_def sample_tree_def kids_def cmd_node_new_def)
  then show ?thesis
    using cmd_describe_candidates [OF sample_tree_wf _ sample_plain, of "\<lambda>_. True" 0]
    by (auto simp: path_plain_def)
qed

end
