(* ===== verification/Term_Edit.thy ===== *)
theory Term_Edit
  imports Stream_Filter Term_History Cmd_Complete
begin

section \<open>The terminal and its line editor (cli-term.c)\<close>

text \<open>
  A terminal has an input line of 8192 bytes with a cursor, an output stream, a history
  and the state of the escape sequence reader.  The environment decides which allocations
  succeed and how many bytes a write takes; its \<open>n\<close>-th decision is used by the \<open>n\<close>-th
  operation that asks it (\<open>ticks\<close> counts them).  \<open>written\<close> collects what was written to each
  descriptor, and \<open>fault\<close> is set once an index is outside its array or a null pointer is
  followed.
\<close>

definition INBUF :: nat where
  "INBUF = 8192"

definition BS :: byte where
  "BS = CHR 0x08"

text \<open>
  A command run by the shell: making the pipes or the process fails, or the process takes
  what \<open>writev\<close> writes to it and answers with the results of the calls of \<open>read\<close>, up to
  the end of its output.
\<close>

datatype read_result = Read_data "byte list" | Read_eintr | Read_error string

datatype shell_run =
    Pipe_fails string
  | Fork_fails string
  | Shell "byte list list \<Rightarrow> int" bool "byte list \<Rightarrow> read_result list"

record env =
  put_mem :: "nat \<Rightarrow> alloc"
  tmp_mem :: "nat \<Rightarrow> bool"
  cmd_mem :: "nat \<Rightarrow> alloc"
  writev :: "nat \<Rightarrow> byte list list \<Rightarrow> int"
  shell :: "nat \<Rightarrow> string \<Rightarrow> shell_run"
  regexp :: "string \<Rightarrow> string + (string \<Rightarrow> int)"

record ('f, 'o) "term" =
  fd :: int
  buf :: string
  in_cp :: nat
  in_len :: nat
  in_max :: nat
  out :: stream
  hist :: history
  escape :: nat
  stop :: bool
  name :: string
  cmd_tree :: "('f, 'o) tree"
  opts :: cmdopt
  env :: env
  ticks :: nat
  written :: "int \<Rightarrow> byte list"
  fault :: bool

subsection \<open>Output\<close>

definition out_put :: "('f, 'o) term \<Rightarrow> byte list \<Rightarrow> ('f, 'o) term" where
  "out_put t bs =
     (case stream_put (put_mem (env t) (ticks t)) (out t) bs of
        None \<Rightarrow> t\<lparr>fault := True, ticks := Suc (ticks t)\<rparr>
      | Some (_, s) \<Rightarrow> t\<lparr>out := s, ticks := Suc (ticks t)\<rparr>)"

definition out_putc :: "('f, 'o) term \<Rightarrow> byte \<Rightarrow> ('f, 'o) term" where
  "out_putc t c = out_put t [c]"

text \<open>\<open>stream_puts\<close> and \<open>term_print\<close>, given the formatted text.\<close>

definition term_print :: "('f, 'o) term \<Rightarrow> string \<Rightarrow> ('f, 'o) term" where
  "term_print t str =
     (case stream_vputs (put_mem (env t) (ticks t)) (tmp_mem (env t) (ticks t)) (out t) str of
        None \<Rightarrow> t\<lparr>fault := True, ticks := Suc (ticks t)\<rparr>
      | Some (_, s) \<Rightarrow> t\<lparr>out := s, ticks := Suc (ticks t)\<rparr>)"

definition wrote :: "('f, 'o) term \<Rightarrow> int \<Rightarrow> byte list \<Rightarrow> ('f, 'o) term" where
  "wrote t d bs = t\<lparr>written := (written t)(d := written t d @ bs)\<rparr>"

definition STDOUT_FILENO :: int where
  "STDOUT_FILENO = 1"

definition term_flush :: "('f, 'o) term \<Rightarrow> ('f, 'o) term" where
  "term_flush t =
     (case stream_flush (writev (env t) (ticks t)) (tmp_mem (env t) (ticks t)) (out t) of
        (n, s) \<Rightarrow> wrote (t\<lparr>out := s, ticks := Suc (ticks t)\<rparr>) STDOUT_FILENO
                    (take (nat n) (stream_bytes (out t))))"

fun out_repeat :: "nat \<Rightarrow> byte \<Rightarrow> ('f, 'o) term \<Rightarrow> ('f, 'o) term" where
  "out_repeat 0 c t = t"
| "out_repeat (Suc n) c t = out_repeat n c (out_putc t c)"

definition term_prompt :: "('f, 'o) term \<Rightarrow> ('f, 'o) term" where
  "term_prompt t = term_print t (name t @ '' > '')"

subsection \<open>The line buffer\<close>

text \<open>An access to the bytes of the buffer below the index \<open>n\<close>.\<close>

definition touch :: "('f, 'o) term \<Rightarrow> nat \<Rightarrow> ('f, 'o) term" where
  "touch t n = (if n \<le> length (buf t) then t else t\<lparr>fault := True\<rparr>)"

definition poke :: "('f, 'o) term \<Rightarrow> nat \<Rightarrow> byte \<Rightarrow> ('f, 'o) term" where
  "poke t i c = (touch t (Suc i))\<lparr>buf := (buf t)[i := c]\<rparr>"

text \<open>\<open>for (; i < len; i++) buf[i - 1] = buf[i]\<close>\<close>

function shift_left :: "string \<Rightarrow> nat \<Rightarrow> nat \<Rightarrow> string" where
  "shift_left b i len = (if i < len then shift_left (b[i - 1 := b ! i]) (i + 1) len else b)"
  by pat_completeness auto
termination
  by (relation "measure (\<lambda>(b, i, len). len - i)") auto

declare shift_left.simps [simp del]

text \<open>\<open>for (; i > cp; i--) buf[i] = buf[i - 1]\<close>\<close>

function shift_right :: "string \<Rightarrow> nat \<Rightarrow> nat \<Rightarrow> string" where
  "shift_right b i p = (if i > p then shift_right (b[i := b ! (i - 1)]) (i - 1) p else b)"
  by pat_completeness auto
termination
  by (relation "measure (\<lambda>(b, i, p). i)") auto

declare shift_right.simps [simp del]

subsection \<open>Moving and deleting\<close>

definition term_backward_char :: "('f, 'o) term \<Rightarrow> ('f, 'o) term" where
  "term_backward_char t = (if in_cp t \<noteq> 0 then out_putc (t\<lparr>in_cp := in_cp t - 1\<rparr>) BS else t)"

definition term_forward_char :: "('f, 'o) term \<Rightarrow> ('f, 'o) term" where
  "term_forward_char t =
     (if in_cp t < in_len t
      then (out_putc (touch t (Suc (in_cp t))) (buf t ! in_cp t))\<lparr>in_cp := Suc (in_cp t)\<rparr>
      else t)"

text \<open>The bytes of the line behind the cursor.\<close>

definition rest_of_line :: "('f, 'o) term \<Rightarrow> byte list" where
  "rest_of_line t = slice (in_cp t) (in_len t) (buf t)"

definition term_delete_backward_char :: "('f, 'o) term \<Rightarrow> ('f, 'o) term" where
  "term_delete_backward_char t =
     (if in_cp t \<noteq> 0 then
        let t1 = (touch t (in_len t))\<lparr>buf := shift_left (buf t) (in_cp t) (in_len t)\<rparr>;
            t2 = t1\<lparr>in_cp := in_cp t1 - 1, in_len := in_len t1 - 1\<rparr>;
            t3 = poke t2 (in_len t2) NUL;
            mv = in_len t3 - in_cp t3;
            t4 = out_putc t3 BS;
            t5 = out_put t4 (rest_of_line t4);
            t6 = out_putc t5 (CHR '' '')
        in out_repeat (Suc mv) BS t6
      else t)"

definition term_delete_char :: "('f, 'o) term \<Rightarrow> ('f, 'o) term" where
  "term_delete_char t =
     (if in_cp t < in_len t then
        let t1 = (touch t (in_len t))\<lparr>buf := shift_left (buf t) (in_cp t + 1) (in_len t)\<rparr>;
            t2 = t1\<lparr>in_len := in_len t1 - 1\<rparr>;
            t3 = poke t2 (in_len t2) NUL;
            mv = in_len t3 - in_cp t3;
            t4 = out_put t3 (rest_of_line t3);
            t5 = out_putc t4 (CHR '' '')
        in out_repeat (Suc mv) BS t5
      else t)"

definition term_self_insert :: "('f, 'o) term \<Rightarrow> byte \<Rightarrow> ('f, 'o) term" where
  "term_self_insert t c =
     (if in_len t + 1 \<ge> in_max t then t
      else
        let t1 = (if in_cp t < in_len t
                  then (touch t (in_len t + 2))\<lparr>buf := shift_right (buf t) (in_len t + 1) (in_cp t)\<rparr>
                  else t);
            t2 = poke t1 (in_cp t1) c;
            t3 = t2\<lparr>in_cp := in_cp t2 + 1, in_len := in_len t2 + 1\<rparr>;
            t4 = poke t3 (in_len t3) NUL;
            mv = in_len t4 - in_cp t4;
            t5 = out_putc t4 c
        in if mv \<noteq> 0 then out_repeat mv BS (out_put t5 (rest_of_line t5)) else t5)"

definition term_redraw_line :: "('f, 'o) term \<Rightarrow> ('f, 'o) term" where
  "term_redraw_line t = (out_put (touch t (in_len t)) (take (in_len t) (buf t)))\<lparr>in_cp := in_len t\<rparr>"

lemma out_put_line [simp]:
  "in_cp (out_put t bs) = in_cp t" "in_len (out_put t bs) = in_len t" "buf (out_put t bs) = buf t"
  "in_max (out_put t bs) = in_max t"
  by (auto simp: out_put_def split: option.splits)

lemma out_putc_line [simp]:
  "in_cp (out_putc t c) = in_cp t" "in_len (out_putc t c) = in_len t" "buf (out_putc t c) = buf t"
  "in_max (out_putc t c) = in_max t"
  by (auto simp: out_putc_def)

lemma out_repeat_line [simp]:
  "in_cp (out_repeat n c t) = in_cp t" "in_len (out_repeat n c t) = in_len t" "buf (out_repeat n c t) = buf t"
  "in_max (out_repeat n c t) = in_max t"
  by (induction n arbitrary: t) auto

lemma touch_line [simp]:
  "in_cp (touch t n) = in_cp t" "in_len (touch t n) = in_len t" "buf (touch t n) = buf t" "in_max (touch t n) = in_max t"
  by (auto simp: touch_def)

lemma poke_line [simp]:
  "in_cp (poke t i c) = in_cp t" "in_len (poke t i c) = in_len t" "buf (poke t i c) = (buf t)[i := c]"
  "in_max (poke t i c) = in_max t"
  by (auto simp: poke_def)

lemma in_cp_backward [simp]: "in_cp (term_backward_char t) = in_cp t - 1"
  by (simp add: term_backward_char_def)

lemma in_cp_forward [simp]: "in_cp t < in_len t \<Longrightarrow> in_cp (term_forward_char t) = Suc (in_cp t)"
  "in_len (term_forward_char t) = in_len t"
  by (simp_all add: term_forward_char_def)

lemma in_cp_delete_backward [simp]: "in_cp (term_delete_backward_char t) = in_cp t - 1"
  by (simp add: term_delete_backward_char_def Let_def)

lemma in_len_delete [simp]: "in_cp t < in_len t \<Longrightarrow> in_len (term_delete_char t) = in_len t - 1"
  "in_cp (term_delete_char t) = in_cp t"
  by (simp_all add: term_delete_char_def Let_def)

text \<open>The loops \<open>while (cp > 0 \<and> P (buf[cp - 1])) op\<close> and \<open>while (cp < len \<and> P (buf[cp])) op\<close>.\<close>

function backward_while :: "(byte \<Rightarrow> bool) \<Rightarrow> ('f, 'o) term \<Rightarrow> ('f, 'o) term" where
  "backward_while P t =
     (if in_cp t > 0 \<and> P (buf t ! (in_cp t - 1)) then backward_while P (term_backward_char t) else t)"
  by pat_completeness auto
termination
  by (relation "measure (\<lambda>(P, t). in_cp t)") auto

function forward_while :: "(byte \<Rightarrow> bool) \<Rightarrow> ('f, 'o) term \<Rightarrow> ('f, 'o) term" where
  "forward_while P t =
     (if in_cp t < in_len t \<and> P (buf t ! in_cp t) then forward_while P (term_forward_char t) else t)"
  by pat_completeness auto
termination
  by (relation "measure (\<lambda>(P, t). in_len t - in_cp t)") auto

function delete_backward_while :: "(byte \<Rightarrow> bool) \<Rightarrow> ('f, 'o) term \<Rightarrow> ('f, 'o) term" where
  "delete_backward_while P t =
     (if in_cp t > 0 \<and> P (buf t ! (in_cp t - 1)) then delete_backward_while P (term_delete_backward_char t) else t)"
  by pat_completeness auto
termination
  by (relation "measure (\<lambda>(P, t). in_cp t)") auto

function delete_while :: "(byte \<Rightarrow> bool) \<Rightarrow> ('f, 'o) term \<Rightarrow> ('f, 'o) term" where
  "delete_while P t =
     (if in_cp t < in_len t \<and> P (buf t ! in_cp t) then delete_while P (term_delete_char t) else t)"
  by pat_completeness auto
termination
  by (relation "measure (\<lambda>(P, t). in_len t)") auto

declare backward_while.simps [simp del] forward_while.simps [simp del]
  delete_backward_while.simps [simp del] delete_while.simps [simp del]

abbreviation (input) blank :: "byte \<Rightarrow> bool" where
  "blank c \<equiv> c = CHR '' ''"

definition term_backward_pure_word :: "('f, 'o) term \<Rightarrow> ('f, 'o) term" where
  "term_backward_pure_word t = backward_while (\<lambda>c. \<not> blank c) t"

definition term_beginning_of_line :: "('f, 'o) term \<Rightarrow> ('f, 'o) term" where
  "term_beginning_of_line t = backward_while (\<lambda>_. True) t"

definition term_end_of_line :: "('f, 'o) term \<Rightarrow> ('f, 'o) term" where
  "term_end_of_line t = forward_while (\<lambda>_. True) t"

definition term_kill_line :: "('f, 'o) term \<Rightarrow> ('f, 'o) term" where
  "term_kill_line t =
     (let len = in_len t - in_cp t in
      if len = 0 then t
      else let t1 = out_repeat len BS (out_repeat len (CHR '' '') t)
           in (touch t1 (in_len t1))\<lparr>buf := write_at (buf t1) (in_cp t1) (replicate len NUL), in_len := in_cp t1\<rparr>)"

definition term_kill_line_from_beginning :: "('f, 'o) term \<Rightarrow> ('f, 'o) term" where
  "term_kill_line_from_beginning t = term_kill_line (term_beginning_of_line t)"

definition term_backward_word :: "('f, 'o) term \<Rightarrow> ('f, 'o) term" where
  "term_backward_word t = backward_while (\<lambda>c. \<not> blank c) (backward_while blank t)"

definition term_forward_word :: "('f, 'o) term \<Rightarrow> ('f, 'o) term" where
  "term_forward_word t = forward_while (\<lambda>c. \<not> blank c) (forward_while blank t)"

definition term_backward_kill_word :: "('f, 'o) term \<Rightarrow> ('f, 'o) term" where
  "term_backward_kill_word t = delete_backward_while (\<lambda>c. \<not> blank c) (delete_backward_while blank t)"

definition term_forward_kill_word :: "('f, 'o) term \<Rightarrow> ('f, 'o) term" where
  "term_forward_kill_word t = delete_while (\<lambda>c. \<not> blank c) (delete_while blank t)"

definition term_insert_word_overwrite :: "('f, 'o) term \<Rightarrow> string \<Rightarrow> ('f, 'o) term" where
  "term_insert_word_overwrite t str =
     (let n = min (length str) (in_max t - in_cp t - 1);
          t1 = (touch t (in_cp t + n))\<lparr>buf := write_at (buf t) (in_cp t) (take n str)\<rparr>;
          t2 = t1\<lparr>in_cp := in_cp t1 + n, in_len := in_cp t1 + n\<rparr>;
          t3 = poke t2 (in_len t2) NUL
      in out_put t3 (take n str))"

definition term_history_print :: "('f, 'o) term \<Rightarrow> string \<Rightarrow> ('f, 'o) term" where
  "term_history_print t l =
     (let t1 = term_kill_line_from_beginning t;
          t2 = (touch t1 (length l))\<lparr>buf := write_at (buf t1) 0 l\<rparr>;
          t3 = t2\<lparr>in_cp := length l, in_len := length l\<rparr>;
          t4 = poke t3 (in_len t3) NUL
      in term_redraw_line t4)"

definition term_next_line :: "('f, 'o) term \<Rightarrow> ('f, 'o) term" where
  "term_next_line t =
     (case history_next (hist t) of
        (None, h) \<Rightarrow> t\<lparr>hist := h\<rparr>
      | (Some l, h) \<Rightarrow> term_history_print (t\<lparr>hist := h\<rparr>) l)"

definition term_previous_line :: "('f, 'o) term \<Rightarrow> ('f, 'o) term" where
  "term_previous_line t =
     (case history_previous (hist t) of
        (None, h) \<Rightarrow> t\<lparr>hist := h\<rparr>
      | (Some l, h) \<Rightarrow> term_history_print (t\<lparr>hist := h\<rparr>) l)"

end
