(* ===== verification/Term_Line.thy ===== *)
theory Term_Line
  imports Term_Edit
begin

section \<open>The line editor edits a line\<close>

text \<open>
  The abstract state of the editor is the text before the cursor and the text behind it.
  Each editing operation is shown to act on this pair, to keep the terminal well formed
  whatever the environment does, and to emit known bytes when memory suffices.
\<close>

definition left :: "('f, 'o) term \<Rightarrow> string" where
  "left t = take (in_cp t) (buf t)"

definition right :: "('f, 'o) term \<Rightarrow> string" where
  "right t = slice (in_cp t) (in_len t) (buf t)"

definition line_wf :: "('f, 'o) term \<Rightarrow> bool" where
  "line_wf t \<longleftrightarrow> length (buf t) = INBUF \<and> in_max t = INBUF
     \<and> (\<exists>junk. buf t = left t @ right t @ NUL # junk) \<and> in_cp t = length (left t)
     \<and> in_len t = length (left t) + length (right t) \<and> cstring (left t @ right t)"

definition hist_fits :: "history \<Rightarrow> bool" where
  "hist_fits h \<longleftrightarrow> hist_wf h \<and> list_all (\<lambda>l. length l < INBUF \<and> cstring l) (hist_lines h)"

text \<open>A text that, with a few others, can be formatted in one call.\<close>

definition short :: "string \<Rightarrow> bool" where
  "short s \<longleftrightarrow> length s < 2 ^ 24"

definition tree_short :: "('f, 'o) tree \<Rightarrow> bool" where
  "tree_short t \<longleftrightarrow> list_all (\<lambda>n. list_all (\<lambda>tk. short (key tk) \<and> short (desc tk)) (tokens n)) t"

definition opts_short :: "cmdopt \<Rightarrow> bool" where
  "opts_short opt \<longleftrightarrow> list_all short (argv opt) \<and> (\<forall>k v. ht_map (kpairs opt) k = Some v \<longrightarrow> short k \<and> short v)"

definition term_wf :: "('f, 'o) term \<Rightarrow> bool" where
  "term_wf t \<longleftrightarrow> line_wf t \<and> stream_wf (out t) \<and> \<not> fault t \<and> hist_fits (hist t)
     \<and> tree_wf (cmd_tree t) \<and> tree_short (cmd_tree t) \<and> cmdopt_wf (opts t) \<and> opts_short (opts t)
     \<and> short (name t)"

definition mem_ok :: "('f, 'o) term \<Rightarrow> bool" where
  "mem_ok t \<longleftrightarrow> (\<forall>n i. put_mem (env t) n i) \<and> (\<forall>n. tmp_mem (env t) n) \<and> (\<forall>n i. cmd_mem (env t) n i)"

text \<open>What the editing operations leave alone.\<close>

definition same_frame :: "('f, 'o) term \<Rightarrow> ('f, 'o) term \<Rightarrow> bool" where
  "same_frame t t' \<longleftrightarrow> fd t' = fd t \<and> escape t' = escape t \<and> stop t' = stop t \<and> name t' = name t
     \<and> cmd_tree t' = cmd_tree t \<and> opts t' = opts t \<and> env t' = env t \<and> hist t' = hist t \<and> written t' = written t"

text \<open>
  From \<open>t\<close> to \<open>t'\<close> the line became \<open>l\<close> and \<open>r\<close> and, if memory suffices, the bytes \<open>e\<close> were
  put out.
\<close>

definition edited :: "('f, 'o) term \<Rightarrow> string \<Rightarrow> string \<Rightarrow> byte list \<Rightarrow> ('f, 'o) term \<Rightarrow> bool" where
  "edited t l r e t' \<longleftrightarrow> term_wf t' \<and> left t' = l \<and> right t' = r \<and> same_frame t t'
     \<and> (mem_ok t \<longrightarrow> stream_bytes (out t') = stream_bytes (out t) @ e)"

lemma edited_refl: "term_wf t \<Longrightarrow> edited t (left t) (right t) [] t"
  by (simp add: edited_def same_frame_def)

lemma edited_trans:
  "edited t l r e t' \<Longrightarrow> edited t' l' r' e' t'' \<Longrightarrow> edited t l' r' (e @ e') t''"
  by (auto simp: edited_def same_frame_def mem_ok_def)

lemma edited_wf: "edited t l r e t' \<Longrightarrow> term_wf t'"
  by (simp add: edited_def)

lemma edited_line: "edited t l r e t' \<Longrightarrow> left t' = l \<and> right t' = r"
  by (simp add: edited_def)

lemma line_wfI:
  assumes "buf t = l @ r @ NUL # junk" "in_cp t = length l" "in_len t = length l + length r"
    "length (buf t) = INBUF" "in_max t = INBUF" "cstring (l @ r)"
  shows "line_wf t" "left t = l" "right t = r"
proof -
  show lr: "left t = l" "right t = r" using assms by (auto simp: left_def right_def slice_def)
  show "line_wf t" unfolding line_wf_def lr using assms by blast
qed

lemma line_wfE:
  assumes "line_wf t"
  obtains junk where "buf t = left t @ right t @ NUL # junk" "in_cp t = length (left t)"
    "in_len t = length (left t) + length (right t)" "length (left t) + length (right t) < INBUF"
    "Suc (length (left t) + length (right t) + length junk) = INBUF"
proof -
  from assms obtain junk where j: "buf t = left t @ right t @ NUL # junk" by (auto simp: line_wf_def)
  then have "length (buf t) = Suc (length (left t) + length (right t) + length junk)" by (metis add_Suc_right length_append length_Cons add.assoc)
  with j assms that show thesis by (auto simp: line_wf_def)
qed

subsection \<open>Output\<close>

lemma out_put_edited:
  assumes "term_wf t" "length bs \<le> INBUF"
  shows "edited t (left t) (right t) bs (out_put t bs)"
proof -
  let ?al = "put_mem (env t) (ticks t)"
  have small: "length bs \<le> 2 ^ 64 - BUFSIZE" using assms(2) by (simp add: INBUF_def BUFSIZE_def)
  have s: "stream_wf (out t)" using assms(1) by (simp add: term_wf_def)
  obtain r s' where s': "stream_put ?al (out t) bs = Some (r, s')" "stream_wf s'"
    using stream_put_total [OF s small] by blast
  have ok: "stream_bytes s' = stream_bytes (out t) @ bs" if "mem_ok t"
    using stream_put_succeeds [OF s small, of ?al] that s'(1) by (auto simp: mem_ok_def)
  have eq: "out_put t bs = t\<lparr>out := s', ticks := Suc (ticks t)\<rparr>" using s'(1) by (simp add: out_put_def)
  have "left (out_put t bs) = left t" "right (out_put t bs) = right t" by (simp_all add: left_def right_def)
  moreover from this have "line_wf (out_put t bs)" using assms(1) by (simp add: line_wf_def term_wf_def)
  ultimately show ?thesis
    using assms(1) s'(2) ok unfolding edited_def term_wf_def same_frame_def by (simp add: eq)
qed

lemma out_putc_edited:
  assumes "term_wf t"
  shows "edited t (left t) (right t) [c] (out_putc t c)"
  unfolding out_putc_def using assms by (intro out_put_edited) (auto simp: INBUF_def)

lemma out_repeat_edited:
  assumes "term_wf t"
  shows "edited t (left t) (right t) (replicate n c) (out_repeat n c t)"
  using assms
proof (induction n arbitrary: t)
  case 0
  then show ?case by (simp add: edited_refl)
next
  case (Suc n)
  note first = out_putc_edited [OF Suc.prems, of c]
  from edited_trans [OF first Suc.IH [OF edited_wf [OF first]]] edited_line [OF first]
  show ?case by simp
qed

lemma term_print_edited:
  assumes "term_wf t" "length str < INT_MAX"
  shows "edited t (left t) (right t) str (term_print t str)"
proof -
  let ?al = "put_mem (env t) (ticks t)" and ?tmp = "tmp_mem (env t) (ticks t)"
  have s: "stream_wf (out t)" using assms(1) by (simp add: term_wf_def)
  obtain r s' where s': "stream_vputs ?al ?tmp (out t) str = Some (r, s')" "stream_wf s'"
    using stream_vputs_total [OF s assms(2)] by blast
  have ok: "stream_bytes s' = stream_bytes (out t) @ str" if "mem_ok t"
    using stream_put_succeeds [OF s, of str ?al] that s'(1) assms(2)
    by (auto simp: mem_ok_def stream_vputs_def stream_putstrn_def INT_MAX_def BUFSIZE_def)
  have eq: "term_print t str = t\<lparr>out := s', ticks := Suc (ticks t)\<rparr>" using s'(1) by (simp add: term_print_def)
  have "left (term_print t str) = left t" "right (term_print t str) = right t" by (simp_all add: eq left_def right_def)
  moreover from this have "line_wf (term_print t str)" using assms(1) by (simp add: line_wf_def term_wf_def eq)
  ultimately show ?thesis
    using assms(1) s'(2) ok unfolding edited_def term_wf_def same_frame_def by (simp add: eq)
qed

text \<open>A change of the line alone.\<close>

lemma line_edited:
  assumes "term_wf t" "buf t' = l @ r @ NUL # junk" "in_cp t' = length l" "in_len t' = length l + length r"
    "length (buf t') = INBUF" "cstring (l @ r)"
    "t' = t\<lparr>buf := buf t', in_cp := in_cp t', in_len := in_len t'\<rparr>"
  shows "edited t l r [] t'"
proof -
  have f: "in_max t' = in_max t" "out t' = out t" "fault t' = fault t" "same_frame t t'"
    by (subst assms(7); simp add: same_frame_def)+
  have "in_max t' = INBUF" using f(1) assms(1) by (simp add: term_wf_def line_wf_def)
  from line_wfI [OF assms(2-5) this assms(6)] f assms(1) show ?thesis
    by (auto simp: edited_def term_wf_def same_frame_def)
qed

subsection \<open>The copying loops\<close>

lemma shift_left_eq:
  assumes "1 \<le> i" "i \<le> len" "len \<le> length b"
  shows "shift_left b i len = take (i - 1) b @ slice i len b @ drop (len - 1) b"
  using assms
proof (induction "len - i" arbitrary: b i)
  case 0
  then show ?case by (subst shift_left.simps) simp
next
  case (Suc n)
  let ?b = "b[i - 1 := b ! i]"
  have i: "i < len" "i < length b" using Suc by auto
  then have "take i ?b = take (i - 1) b @ [b ! i]"
    using Suc.prems(1) by (cases i) (simp_all add: take_Suc_conv_app_nth)
  moreover have "slice (i + 1) len ?b = slice (i + 1) len b" "drop (len - 1) ?b = drop (len - 1) b"
    using i Suc.prems(1) by (simp_all add: slice_def)
  moreover have "slice i len b = b ! i # slice (i + 1) len b"
    using i by (simp add: slice_def Cons_nth_drop_Suc [symmetric] take_Cons' del: Cons_nth_drop_Suc)
  moreover have "shift_left ?b (i + 1) len = take i ?b @ slice (i + 1) len ?b @ drop (len - 1) ?b"
    using Suc.hyps(1) [of "i + 1" ?b] Suc.hyps(2) Suc.prems i by simp
  ultimately show ?case using i by (subst shift_left.simps) simp
qed

lemma shift_right_eq:
  assumes "p \<le> i" "i < length b"
  shows "shift_right b i p = take (p + 1) b @ slice p i b @ drop (i + 1) b"
  using assms
proof (induction "i - p" arbitrary: b i)
  case 0
  then show ?case by (subst shift_right.simps) simp
next
  case (Suc n)
  obtain j where j: "i = Suc j" using Suc.hyps(2) by (cases i) auto
  let ?b = "b[i := b ! j]"
  have p: "p \<le> j" "j < length b" "n = j - p" using Suc j by auto
  have "take (p + 1) ?b = take (p + 1) b" "slice p j ?b = slice p j b"
    using p j by (simp_all add: slice_def drop_update_swap take_update_cancel)
  moreover have "drop (j + 1) ?b = b ! j # drop (i + 1) b"
    using Suc.prems(2) j by (simp add: Cons_nth_drop_Suc [symmetric] drop_update_swap del: Cons_nth_drop_Suc)
  moreover have "slice p i b = slice p j b @ [b ! j]"
    using p j Suc.prems(2) by (simp add: slice_def Suc_diff_le take_Suc_conv_app_nth)
  moreover have "shift_right ?b j p = take (p + 1) ?b @ slice p j ?b @ drop (j + 1) ?b"
    using Suc.hyps(1) [of j ?b] p by simp
  ultimately show ?case using p(1) j by (subst shift_right.simps) simp
qed

subsection \<open>The operations\<close>

lemma wf_line: "term_wf t \<Longrightarrow> line_wf t"
  by (simp add: term_wf_def)

lemma wf_cstring: "term_wf t \<Longrightarrow> cstring (left t @ right t)"
  by (simp add: term_wf_def line_wf_def)

lemma cstring_append [simp]: "cstring (a @ b) \<longleftrightarrow> cstring a \<and> cstring b"
  by (auto simp: cstring_def)

lemma cstring_Cons [simp]: "cstring (c # s) \<longleftrightarrow> c \<noteq> NUL \<and> cstring s"
  by (auto simp: cstring_def)

lemma touch_id: "n \<le> length (buf t) \<Longrightarrow> touch t n = t"
  by (simp add: touch_def)

lemma poke_in: "i < length (buf t) \<Longrightarrow> poke t i c = t\<lparr>buf := (buf t)[i := c]\<rparr>"
  by (simp add: poke_def touch_def)

lemma backward_char_edited:
  assumes "term_wf t" "left t = l @ [x]"
  shows "edited t l (x # right t) [BS] (term_backward_char t)"
proof -
  from wf_line [OF assms(1)] obtain junk where b: "buf t = left t @ right t @ NUL # junk" "in_cp t = length (left t)"
    "in_len t = length (left t) + length (right t)" by (rule line_wfE)
  let ?t = "t\<lparr>in_cp := in_cp t - 1\<rparr>"
  have "edited t l (x # right t) [] ?t"
    using wf_cstring [OF assms(1)] wf_line [OF assms(1)] b assms(2)
    by (intro line_edited [of _ _ _ _ junk]) (auto simp: line_wf_def assms(1))
  from edited_trans [OF this out_putc_edited [OF edited_wf [OF this]]] edited_line [OF this] b(2) assms(2)
  show ?thesis by (simp add: term_backward_char_def)
qed

lemma forward_char_edited:
  assumes "term_wf t" "right t = x # r"
  shows "edited t (left t @ [x]) r [x] (term_forward_char t)"
proof -
  from wf_line [OF assms(1)] obtain junk where b: "buf t = left t @ right t @ NUL # junk" "in_cp t = length (left t)"
    "in_len t = length (left t) + length (right t)" "length (left t) + length (right t) < INBUF" by (rule line_wfE)
  have len: "length (buf t) = INBUF" using wf_line [OF assms(1)] by (simp add: line_wf_def)
  have x: "buf t ! in_cp t = x" using b(1,2) assms(2) by (metis append_Cons nth_append_length)
  let ?t = "out_putc t x"
  have e: "edited t (left t) (right t) [x] ?t" by (rule out_putc_edited [OF assms(1)])
  have "edited ?t (left t @ [x]) r [] (?t\<lparr>in_cp := Suc (in_cp t)\<rparr>)"
    using wf_cstring [OF assms(1)] b(1-3) assms(2) len
    by (intro line_edited [of _ _ _ _ junk] edited_wf [OF e]) auto
  from edited_trans [OF e this] show ?thesis
    using b assms(2) len by (simp add: term_forward_char_def x touch_id)
qed

text \<open>What is put out after a character has been taken out in front of \<open>r\<close>.\<close>

definition erase_echo :: "string \<Rightarrow> byte list" where
  "erase_echo r = r @ [CHR '' ''] @ replicate (Suc (length r)) BS"

lemma erase_edited:
  assumes "term_wf t"
  shows "edited t (left t) (right t) (erase_echo (right t))
     (out_repeat (Suc (length (right t))) BS (out_putc (out_put t (right t)) (CHR '' '')))"
proof -
  from wf_line [OF assms] have "length (right t) \<le> INBUF" by (elim line_wfE) simp
  note a = out_put_edited [OF assms this]
  note b = out_putc_edited [OF edited_wf [OF a], of "CHR '' ''"]
  note c = out_repeat_edited [OF edited_wf [OF b], of "Suc (length (right t))" BS]
  show ?thesis
    using edited_trans [OF edited_trans [OF a b] c] edited_line [OF a] edited_line [OF b]
    by (simp add: erase_echo_def)
qed

lemma delete_backward_edited:
  assumes "term_wf t" "left t = l @ [x]"
  shows "edited t l (right t) (BS # erase_echo (right t)) (term_delete_backward_char t)"
proof -
  let ?r = "right t"
  from wf_line [OF assms(1)] obtain junk where b: "buf t = left t @ right t @ NUL # junk" "in_cp t = length (left t)"
    "in_len t = length (left t) + length (right t)" "length (left t) + length (right t) < INBUF" by (rule line_wfE)
  have len: "length (buf t) = INBUF" using wf_line [OF assms(1)] by (simp add: line_wf_def)
  let ?n = "length l + length ?r"
  let ?b = "shift_left (buf t) (in_cp t) (in_len t)"
  have "drop ?n (l @ x # ?r @ NUL # junk) = last (x # ?r) # NUL # junk"
    by (cases ?r rule: rev_cases) simp_all
  then have sh: "?b = l @ ?r @ last (x # ?r) # NUL # junk"
    using b assms(2) len by (simp add: shift_left_eq slice_def)
  let ?t = "t\<lparr>buf := ?b[?n := NUL], in_cp := length l, in_len := ?n\<rparr>"
  have total: "Suc (Suc (length l + (length ?r + length junk))) = INBUF" using len b(1) assms(2) by simp
  have "?b[?n := NUL] = l @ ?r @ NUL # NUL # junk" by (simp add: sh list_update_append)
  moreover have "length ?b = INBUF" using sh b(1) assms(2) len by simp
  ultimately have e: "edited t l ?r [] ?t"
    using wf_cstring [OF assms(1)] assms(2)
    by (intro line_edited [of _ _ _ _ "NUL # junk"]) (simp_all add: assms(1) total)
  note p = out_putc_edited [OF edited_wf [OF e], of BS]
  note q = erase_edited [OF edited_wf [OF p]]
  have rest: "rest_of_line (out_putc ?t BS) = ?r"
    using edited_line [OF p] edited_line [OF e] by (simp add: rest_of_line_def right_def)
  have "touch t (in_len t) = t" using b len by (simp add: touch_id)
  moreover have "poke (t\<lparr>buf := ?b, in_cp := length l, in_len := ?n\<rparr>) ?n NUL = ?t"
    using \<open>length ?b = INBUF\<close> b(4) assms(2) by (simp add: poke_in)
  ultimately have "term_delete_backward_char t =
      out_repeat (Suc (length ?r)) BS (out_putc (out_put (out_putc ?t BS) ?r) (CHR '' ''))"
    using b(2,3) assms(2) rest by (simp add: term_delete_backward_char_def Let_def)
  with edited_trans [OF e edited_trans [OF p q]] edited_line [OF p] edited_line [OF e] show ?thesis by simp
qed

lemma delete_char_edited:
  assumes "term_wf t" "right t = x # r"
  shows "edited t (left t) r (erase_echo r) (term_delete_char t)"
proof -
  let ?l = "left t"
  from wf_line [OF assms(1)] obtain junk where b: "buf t = left t @ right t @ NUL # junk" "in_cp t = length (left t)"
    "in_len t = length (left t) + length (right t)" "length (left t) + length (right t) < INBUF" by (rule line_wfE)
  have len: "length (buf t) = INBUF" using wf_line [OF assms(1)] by (simp add: line_wf_def)
  let ?n = "length ?l + length r"
  let ?b = "shift_left (buf t) (in_cp t + 1) (in_len t)"
  have "drop ?n (?l @ x # r @ NUL # junk) = last (x # r) # NUL # junk"
    by (cases r rule: rev_cases) simp_all
  then have sh: "?b = ?l @ r @ last (x # r) # NUL # junk"
    using b assms(2) len by (simp add: shift_left_eq slice_def)
  let ?t = "t\<lparr>buf := ?b[?n := NUL], in_len := ?n\<rparr>"
  have total: "Suc (Suc (length ?l + (length r + length junk))) = INBUF" using len b(1) assms(2) by simp
  have "?b[?n := NUL] = ?l @ r @ NUL # NUL # junk" unfolding sh by (simp add: list_update_append)
  moreover have "length ?b = INBUF" using sh b(1) assms(2) len by simp
  ultimately have e: "edited t ?l r [] ?t"
    using wf_cstring [OF assms(1)] assms(2) b(2)
    by (intro line_edited [of _ _ _ _ "NUL # junk"]) (simp_all add: assms(1) total)
  note q = erase_edited [OF edited_wf [OF e]]
  have rest: "rest_of_line ?t = r" using edited_line [OF e] by (simp add: rest_of_line_def right_def)
  have "touch t (in_len t) = t" using b len by (simp add: touch_id)
  moreover have "poke (t\<lparr>buf := ?b, in_len := ?n\<rparr>) ?n NUL = ?t"
    using \<open>length ?b = INBUF\<close> b(4) assms(2) by (simp add: poke_in)
  ultimately have "term_delete_char t = out_repeat (Suc (length r)) BS (out_putc (out_put ?t r) (CHR '' ''))"
    using b(2,3) assms(2) rest by (simp add: term_delete_char_def Let_def)
  with edited_trans [OF e q] edited_line [OF e] show ?thesis by simp
qed

lemma self_insert_buf:
  assumes "b = l @ r @ NUL # j # js"
  shows "((if r \<noteq> [] then shift_right b (length l + length r + 1) (length l) else b)[length l := c])
      [length l + length r + 1 := NUL] = (l @ [c]) @ r @ NUL # js"
proof (cases r)
  case Nil
  with assms show ?thesis by (simp add: list_update_append)
next
  case (Cons x xs)
  have "shift_right b (length l + length r + 1) (length l) = l @ [x] @ (r @ [NUL]) @ js"
    using Cons by (subst shift_right_eq) (simp_all add: assms slice_def numeral_3_eq_3)
  with Cons show ?thesis by (simp add: list_update_append)
qed

lemma self_insert_edited:
  assumes "term_wf t" "c \<noteq> NUL" "length (left t) + length (right t) + 1 < INBUF"
  shows "edited t (left t @ [c]) (right t) (c # right t @ replicate (length (right t)) BS) (term_self_insert t c)"
proof -
  let ?l = "left t" and ?r = "right t"
  from wf_line [OF assms(1)] obtain junk where b: "buf t = ?l @ ?r @ NUL # junk" "in_cp t = length ?l"
    "in_len t = length ?l + length ?r" "Suc (length ?l + length ?r + length junk) = INBUF" by (rule line_wfE)
  have len: "length (buf t) = INBUF" "in_max t = INBUF" using wf_line [OF assms(1)] by (auto simp: line_wf_def)
  obtain j js where j: "junk = j # js" using b(4) assms(3) by (cases junk) auto
  let ?b = "((if ?r \<noteq> [] then shift_right (buf t) (in_len t + 1) (in_cp t) else buf t)[in_cp t := c])[in_len t + 1 := NUL]"
  have B: "?b = (?l @ [c]) @ ?r @ NUL # js" 
    unfolding b(2,3) by (rule self_insert_buf) (simp add: b(1) j)
  have shlen: "length (shift_right (buf t) (in_len t + 1) (in_cp t)) = INBUF"
    using b len assms(3) by (subst shift_right_eq) (auto simp: slice_def)
  define t1 where "t1 = (if in_cp t < in_len t
      then (touch t (in_len t + 2))\<lparr>buf := shift_right (buf t) (in_len t + 1) (in_cp t)\<rparr> else t)"
  define t2 where "t2 = poke t1 (in_cp t1) c"
  define t3 where "t3 = t2\<lparr>in_cp := in_cp t2 + 1, in_len := in_len t2 + 1\<rparr>"
  define t4 where "t4 = poke t3 (in_len t3) NUL"
  have t1: "t1 = t\<lparr>buf := (if ?r \<noteq> [] then shift_right (buf t) (in_len t + 1) (in_cp t) else buf t)\<rparr>"
    using b(2,3) len assms(3) by (auto simp: t1_def touch_id)
  have t4: "t4 = t\<lparr>buf := ?b, in_cp := in_cp t + 1, in_len := in_len t + 1\<rparr>"
    using shlen len b(2,3) assms(3) by (simp add: t4_def t3_def t2_def t1 poke_in)
  have "length ?b = INBUF" using shlen len by simp
  then have e: "edited t (?l @ [c]) ?r [] t4"
    using wf_cstring [OF assms(1)] assms(2) b(2,3) B unfolding t4
    by (intro line_edited [of _ _ _ _ js]) (simp_all only: assms(1), auto)
  note p = out_putc_edited [OF edited_wf [OF e], of c]
  have rl: "length ?r \<le> INBUF" using assms(3) by simp
  note q = out_put_edited [OF edited_wf [OF p] rl]
  note z = out_repeat_edited [OF edited_wf [OF q], of "length ?r" BS]
  have rest: "rest_of_line (out_putc t4 c) = ?r"
    using edited_line [OF p] edited_line [OF e] by (simp add: rest_of_line_def right_def)
  have "in_len t4 - in_cp t4 = length ?r" using b(2,3) by (simp add: t4)
  then have "term_self_insert t c = (if ?r \<noteq> [] then out_repeat (length ?r) BS (out_put (out_putc t4 c) ?r) else out_putc t4 c)"
    unfolding term_self_insert_def Let_def t1_def [symmetric] t2_def [symmetric] t3_def [symmetric] t4_def [symmetric]
    using b(3) len(2) assms(3) rest by simp
  then show ?thesis
    using edited_trans [OF e edited_trans [OF p edited_trans [OF q z]]] edited_trans [OF e p]
      edited_line [OF e] edited_line [OF p] edited_line [OF q] by (cases ?r) auto
qed

lemma self_insert_full:
  assumes "term_wf t" "\<not> length (left t) + length (right t) + 1 < INBUF"
  shows "term_self_insert t c = t"
proof -
  from wf_line [OF assms(1)] have "in_len t = length (left t) + length (right t)" "in_max t = INBUF"
    by (auto simp: line_wf_def)
  with assms(2) show ?thesis by (simp add: term_self_insert_def)
qed

lemma redraw_edited:
  assumes "term_wf t"
  shows "edited t (left t @ right t) [] (left t @ right t) (term_redraw_line t)"
proof -
  let ?l = "left t" and ?r = "right t"
  from wf_line [OF assms] obtain junk where b: "buf t = ?l @ ?r @ NUL # junk" "in_cp t = length ?l"
    "in_len t = length ?l + length ?r" "length ?l + length ?r < INBUF" by (rule line_wfE)
  have len: "length (buf t) = INBUF" using wf_line [OF assms] by (simp add: line_wf_def)
  have take: "take (in_len t) (buf t) = ?l @ ?r" "touch t (in_len t) = t" using b len by (simp_all add: touch_id)
  have "length (?l @ ?r) \<le> INBUF" using b(4) by simp
  note p = out_put_edited [OF assms this]
  have "edited (out_put t (?l @ ?r)) (?l @ ?r) [] [] ((out_put t (?l @ ?r))\<lparr>in_cp := in_len t\<rparr>)"
    using wf_cstring [OF assms] b len p by (intro line_edited [of _ _ _ _ junk] edited_wf [OF p]) auto
  from edited_trans [OF p this] show ?thesis by (simp add: term_redraw_line_def take)
qed

lemma kill_line_edited:
  assumes "term_wf t"
  shows "edited t (left t) [] (replicate (length (right t)) (CHR '' '') @ replicate (length (right t)) BS) (term_kill_line t)"
proof -
  let ?l = "left t" and ?r = "right t"
  from wf_line [OF assms] obtain junk where b: "buf t = ?l @ ?r @ NUL # junk" "in_cp t = length ?l"
    "in_len t = length ?l + length ?r" "length ?l + length ?r < INBUF" by (rule line_wfE)
  have len: "length (buf t) = INBUF" using wf_line [OF assms] by (simp add: line_wf_def)
  show ?thesis
  proof (cases ?r)
    case Nil
    with b edited_refl [OF assms] show ?thesis by (simp add: term_kill_line_def)
  next
    case (Cons x xs)
    note p = out_repeat_edited [OF assms, of "length ?r" "CHR '' ''"]
    note q = out_repeat_edited [OF edited_wf [OF p], of "length ?r" BS]
    let ?t = "out_repeat (length ?r) BS (out_repeat (length ?r) (CHR '' '') t)"
    have w: "write_at (buf t) (length ?l) (replicate (length ?r) NUL) = ?l @ [] @ NUL # replicate (length xs) NUL @ NUL # junk"
      by (subst b(1)) (simp add: write_at_def Cons)
    have "length (?l @ [] @ NUL # replicate (length xs) NUL @ NUL # junk) = INBUF" using len b(1) Cons by simp
    with w have "edited ?t ?l [] [] (?t\<lparr>buf := write_at (buf t) (in_cp t) (replicate (length ?r) NUL), in_len := in_cp t\<rparr>)"
      using wf_cstring [OF assms] b(2,3) edited_wf [OF q]
      by (intro line_edited [of _ _ _ _ "replicate (length xs) NUL @ NUL # junk"]) simp_all
    from edited_trans [OF edited_trans [OF p q] this] edited_line [OF p] show ?thesis
      using b(2,3,4) len Cons by (simp add: term_kill_line_def Let_def touch_id)
  qed
qed

end
