(* ===== verification/Term_Screen.thy ===== *)
theory Term_Screen
  imports Term_Line
begin

section \<open>What the terminal shows\<close>

text \<open>
  A row of a screen with a column: a backspace moves to the left, any other byte is drawn
  at the column and moves to the right.  The bytes that an editing operation puts out turn
  a row that shows the old line, with the cursor in its place, into a row that shows the
  new one.
\<close>

type_synonym row = "byte list \<times> nat"

definition putch :: "byte \<Rightarrow> row \<Rightarrow> row" where
  "putch c rw = (case rw of (cs, col) \<Rightarrow>
     if c = BS then (cs, col - 1)
     else (take col (cs @ replicate (col - length cs) (CHR '' '')) @ [c] @ drop (Suc col) cs, Suc col))"

definition blanks :: "nat \<Rightarrow> byte list" where
  "blanks k = replicate k (CHR '' '')"

definition clean :: "string \<Rightarrow> bool" where
  "clean s \<longleftrightarrow> BS \<notin> set s"

text \<open>Behind the prompt \<open>p\<close> the row shows \<open>l\<close>, the cursor, \<open>r\<close> and blanks.\<close>

definition shows_line :: "string \<Rightarrow> string \<Rightarrow> string \<Rightarrow> row \<Rightarrow> bool" where
  "shows_line p l r rw \<longleftrightarrow> (\<exists>k. rw = (p @ l @ r @ blanks k, length p + length l))"

definition draws :: "string \<Rightarrow> string \<Rightarrow> byte list \<Rightarrow> string \<Rightarrow> string \<Rightarrow> bool" where
  "draws l r e l' r' \<longleftrightarrow> (clean (l @ r) \<longrightarrow> clean (l' @ r')
     \<and> (\<forall>p rw. shows_line p l r rw \<longrightarrow> shows_line p l' r' (fold putch e rw)))"

text \<open>An editing step: the line becomes \<open>l\<close> and \<open>r\<close>, and so does the screen.\<close>

definition edit_step :: "('f, 'o) term \<Rightarrow> string \<Rightarrow> string \<Rightarrow> ('f, 'o) term \<Rightarrow> bool" where
  "edit_step t l r t' \<longleftrightarrow> (\<exists>e. edited t l r e t' \<and> draws (left t) (right t) e l r)"

subsection \<open>Drawing\<close>

lemma draws_trans: "draws l r e l' r' \<Longrightarrow> draws l' r' e' l'' r'' \<Longrightarrow> draws l r (e @ e') l'' r''"
  unfolding draws_def by (auto simp del: split_paired_All)

lemma edit_step_refl: "term_wf t \<Longrightarrow> edit_step t (left t) (right t) t"
  using edited_refl [of t] by (auto simp: edit_step_def draws_def)

lemma edit_step_trans:
  assumes "edit_step t l r t'" "edit_step t' l' r' t''"
  shows "edit_step t l' r' t''"
proof -
  from assms(1) obtain e where e: "edited t l r e t'" "draws (left t) (right t) e l r" by (auto simp: edit_step_def)
  from assms(2) obtain e' where e': "edited t' l' r' e' t''" "draws (left t') (right t') e' l' r'"
    by (auto simp: edit_step_def)
  from e'(2) have "draws l r e' l' r'" using edited_line [OF e(1)] by simp
  with draws_trans [OF e(2)] edited_trans [OF e(1) e'(1)] show ?thesis unfolding edit_step_def by blast
qed

lemma edit_stepI: "edited t l r e t' \<Longrightarrow> draws (left t) (right t) e l r \<Longrightarrow> edit_step t l r t'"
  by (auto simp: edit_step_def)

lemma edit_stepD: "edit_step t l r t' \<Longrightarrow> term_wf t' \<and> left t' = l \<and> right t' = r \<and> same_frame t t'"
  by (auto simp: edit_step_def edited_def)

lemma putch_at: "c \<noteq> BS \<Longrightarrow> putch c (a @ rest, length a) = (a @ c # drop 1 rest, Suc (length a))"
  by (simp add: putch_def)

lemma fold_putch_text:
  "clean xs \<Longrightarrow> fold putch xs (a @ rest, length a) = (a @ xs @ drop (length xs) rest, length a + length xs)"
proof (induction xs arbitrary: a rest)
  case (Cons x xs)
  then have x: "x \<noteq> BS" "clean xs" by (auto simp: clean_def)
  have "fold putch (x # xs) (a @ rest, length a) = fold putch xs ((a @ [x]) @ drop 1 rest, length (a @ [x]))"
    using x(1) by (simp add: putch_at)
  also have "\<dots> = ((a @ [x]) @ xs @ drop (length xs) (drop 1 rest), length (a @ [x]) + length xs)"
    by (rule Cons.IH [OF x(2)])
  finally show ?case by simp
qed simp

lemma fold_putch_back: "fold putch (replicate n BS) (cs, col) = (cs, col - n)"
  by (induction n arbitrary: col) (auto simp: putch_def)

lemma putch_back_pow [simp]: "(putch BS ^^ n) (cs, col) = (cs, col - n)"
  using fold_putch_back [of n cs col] by (simp add: fold_replicate)

lemma putch_back [simp]: "putch BS (cs, col) = (cs, col - 1)"
  by (simp add: putch_def)

lemma clean_simps [simp]:
  "clean []" "clean (a @ b) \<longleftrightarrow> clean a \<and> clean b" "clean (c # s) \<longleftrightarrow> c \<noteq> BS \<and> clean s" "clean (blanks k)"
  "clean (replicate k (CHR '' ''))"
  by (auto simp: clean_def blanks_def BS_def)

lemma draws_backward: "draws (l @ [x]) r [BS] l (x # r)"
  unfolding draws_def
proof (intro impI conjI allI)
  fix p rw
  assume "shows_line p (l @ [x]) r rw"
  then obtain k where "rw = (p @ l @ x # r @ blanks k, Suc (length p + length l))" by (auto simp: shows_line_def)
  then show "shows_line p l (x # r) (fold putch [BS] rw)" by (auto simp: shows_line_def)
qed auto

lemma draws_forward: "draws l (x # r) [x] (l @ [x]) r"
  unfolding draws_def
proof (intro impI conjI allI)
  fix p rw
  assume c: "clean (l @ x # r)" "shows_line p l (x # r) rw"
  then obtain k where "rw = ((p @ l) @ x # r @ blanks k, length (p @ l))" by (auto simp: shows_line_def)
  with c(1) putch_at [of x "p @ l" "x # r @ blanks k"] show "shows_line p (l @ [x]) r (fold putch [x] rw)"
    by (auto simp: shows_line_def)
qed auto

lemma draws_erase: "draws l (x # r) (erase_echo r) l r"
  unfolding draws_def
proof (intro impI conjI allI)
  fix p rw
  assume c: "clean (l @ x # r)" "shows_line p l (x # r) rw"
  then obtain k where "rw = ((p @ l) @ x # r @ blanks k, length (p @ l))" by (auto simp: shows_line_def)
  moreover have "fold putch (r @ [CHR '' '']) ((p @ l) @ x # r @ blanks k, length (p @ l))
      = ((p @ l) @ (r @ [CHR '' '']) @ drop (length (r @ [CHR '' ''])) (x # r @ blanks k), length (p @ l) + length (r @ [CHR '' '']))"
    using c(1) by (intro fold_putch_text) (simp add: BS_def)
  ultimately have "fold putch (erase_echo r) rw = (p @ l @ r @ blanks (Suc k), length p + length l)"
    unfolding erase_echo_def append.assoc [symmetric] fold_append
    by (simp add: fold_putch_back blanks_def)
  then show "shows_line p l r (fold putch (erase_echo r) rw)" by (auto simp: shows_line_def)
qed auto

lemma draws_delete_backward: "draws (l @ [x]) r (BS # erase_echo r) l r"
  using draws_trans [OF draws_backward draws_erase] by simp

lemma draws_insert: "c \<noteq> BS \<Longrightarrow> draws l r (c # r @ replicate (length r) BS) (l @ [c]) r"
  unfolding draws_def
proof (intro impI conjI allI)
  fix p rw
  assume c: "c \<noteq> BS" "clean (l @ r)" "shows_line p l r rw"
  then obtain k where "rw = ((p @ l) @ r @ blanks k, length (p @ l))" by (auto simp: shows_line_def)
  moreover have "fold putch (c # r) ((p @ l) @ r @ blanks k, length (p @ l))
      = ((p @ l) @ (c # r) @ drop (length (c # r)) (r @ blanks k), length (p @ l) + length (c # r))"
    using c(1,2) by (intro fold_putch_text) simp
  moreover have "c # r @ replicate (length r) BS = (c # r) @ replicate (length r) BS" by simp
  ultimately have "fold putch (c # r @ replicate (length r) BS) rw = (p @ (l @ [c]) @ r @ blanks (k - 1), length p + length (l @ [c]))"
    by (simp only: fold_append comp_def fold_putch_back) (simp add: blanks_def)
  then show "shows_line p (l @ [c]) r (fold putch (c # r @ replicate (length r) BS) rw)" by (auto simp: shows_line_def)
qed auto

lemma draws_kill: "draws l r (replicate (length r) (CHR '' '') @ replicate (length r) BS) l []"
  unfolding draws_def
proof (intro impI conjI allI)
  fix p rw
  assume c: "clean (l @ r)" "shows_line p l r rw"
  then obtain k where "rw = ((p @ l) @ r @ blanks k, length (p @ l))" by (auto simp: shows_line_def)
  moreover have "fold putch (replicate (length r) (CHR '' '')) ((p @ l) @ r @ blanks k, length (p @ l))
      = ((p @ l) @ replicate (length r) (CHR '' '') @ drop (length (replicate (length r) (CHR '' ''))) (r @ blanks k),
         length (p @ l) + length (replicate (length r) (CHR '' '')))"
    by (intro fold_putch_text) simp
  ultimately have "fold putch (replicate (length r) (CHR '' '') @ replicate (length r) BS) rw
      = (p @ l @ [] @ blanks (length r + k), length p + length l)"
    by (simp add: fold_putch_back blanks_def replicate_add)
  then show "shows_line p l [] (fold putch (replicate (length r) (CHR '' '') @ replicate (length r) BS) rw)"
    unfolding shows_line_def by blast
qed auto

lemma draws_append: "clean s \<Longrightarrow> draws l [] s (l @ s) []"
  unfolding draws_def
proof (intro impI conjI allI)
  fix p rw
  assume c: "clean s" "clean (l @ [])" "shows_line p l [] rw"
  then obtain k where "rw = ((p @ l) @ blanks k, length (p @ l))" by (auto simp: shows_line_def)
  with fold_putch_text [OF c(1), of "p @ l" "blanks k"]
  have "fold putch s rw = (p @ (l @ s) @ [] @ blanks (k - length s), length p + length (l @ s))"
    by (simp add: blanks_def)
  then show "shows_line p (l @ s) [] (fold putch s rw)" unfolding shows_line_def by blast
qed auto

subsection \<open>Editing steps\<close>

lemma backward_step: "term_wf t \<Longrightarrow> left t = l @ [x] \<Longrightarrow> edit_step t l (x # right t) (term_backward_char t)"
  by (rule edit_stepI [OF backward_char_edited]) (simp_all add: draws_backward)

lemma forward_step: "term_wf t \<Longrightarrow> right t = x # r \<Longrightarrow> edit_step t (left t @ [x]) r (term_forward_char t)"
  by (rule edit_stepI [OF forward_char_edited]) (simp_all add: draws_forward)

lemma delete_backward_step: "term_wf t \<Longrightarrow> left t = l @ [x] \<Longrightarrow> edit_step t l (right t) (term_delete_backward_char t)"
  by (rule edit_stepI [OF delete_backward_edited]) (simp_all add: draws_delete_backward)

lemma delete_step: "term_wf t \<Longrightarrow> right t = x # r \<Longrightarrow> edit_step t (left t) r (term_delete_char t)"
  by (rule edit_stepI [OF delete_char_edited]) (simp_all add: draws_erase)

lemma insert_step:
  "term_wf t \<Longrightarrow> c \<noteq> NUL \<Longrightarrow> c \<noteq> BS \<Longrightarrow> length (left t) + length (right t) + 1 < INBUF \<Longrightarrow>
     edit_step t (left t @ [c]) (right t) (term_self_insert t c)"
  by (rule edit_stepI [OF self_insert_edited draws_insert])

lemma kill_step: "term_wf t \<Longrightarrow> edit_step t (left t) [] (term_kill_line t)"
  by (rule edit_stepI [OF kill_line_edited draws_kill])

subsection \<open>The loops\<close>

lemma before_cursor:
  assumes "term_wf t"
  shows "in_cp t = length (left t)" "left t = l @ [x] \<Longrightarrow> buf t ! (in_cp t - 1) = x"
proof -
  from wf_line [OF assms] obtain junk where b: "buf t = left t @ right t @ NUL # junk" "in_cp t = length (left t)"
    by (rule line_wfE)
  show "in_cp t = length (left t)" by (rule b(2))
  show "buf t ! (in_cp t - 1) = x" if "left t = l @ [x]"
    using b(1) unfolding b(2) that by (simp add: nth_append)
qed

lemma behind_cursor:
  assumes "term_wf t"
  shows "in_len t = length (left t) + length (right t)" "right t = x # r \<Longrightarrow> buf t ! in_cp t = x"
proof -
  from wf_line [OF assms] obtain junk where b: "buf t = left t @ right t @ NUL # junk" "in_cp t = length (left t)"
    "in_len t = length (left t) + length (right t)"
    by (rule line_wfE)
  show "in_len t = length (left t) + length (right t)" by (rule b(3))
  show "buf t ! in_cp t = x" if "right t = x # r"
    using b(1) unfolding b(2) that by (simp add: nth_append)
qed

lemma backward_while_step:
  "term_wf t \<Longrightarrow> edit_step t (rev (dropWhile P (rev (left t)))) (rev (takeWhile P (rev (left t))) @ right t) (backward_while P t)"
proof (induction "rev (left t)" arbitrary: t)
  case Nil
  then show ?case using edit_step_refl [OF Nil(2)] before_cursor(1) [OF Nil(2)]
    by (subst backward_while.simps) simp
next
  case (Cons x xs)
  have l: "left t = rev xs @ [x]" using Cons(2) by (metis rev.simps(2) rev_rev_ident)
  note b = before_cursor [OF Cons(3)]
  show ?case
  proof (cases "P x")
    case True
    note s = backward_step [OF Cons(3) l]
    note d = edit_stepD [OF s]
    from Cons(1) [of "term_backward_char t"] d
    have "edit_step (term_backward_char t) (rev (dropWhile P xs)) (rev (takeWhile P xs) @ x # right t)
        (backward_while P (term_backward_char t))" by simp
    from edit_step_trans [OF s this] b(1) b(2) [OF l] l True show ?thesis
      by (subst backward_while.simps) simp
  next
    case False
    then show ?thesis using edit_step_refl [OF Cons(3)] b(2) [OF l] l by (subst backward_while.simps) simp
  qed
qed

lemma forward_while_step:
  "term_wf t \<Longrightarrow> edit_step t (left t @ takeWhile P (right t)) (dropWhile P (right t)) (forward_while P t)"
proof (induction "right t" arbitrary: t)
  case Nil
  then show ?case using edit_step_refl [OF Nil(2)] before_cursor(1) [OF Nil(2)] behind_cursor(1) [OF Nil(2)]
    by (subst forward_while.simps) simp
next
  case (Cons x xs)
  note r = Cons(2) [symmetric]
  note b = before_cursor(1) [OF Cons(3)] behind_cursor(1) [OF Cons(3)] behind_cursor(2) [OF Cons(3) r]
  show ?case
  proof (cases "P x")
    case True
    note s = forward_step [OF Cons(3) r]
    note d = edit_stepD [OF s]
    from Cons(1) [of "term_forward_char t"] d
    have "edit_step (term_forward_char t) ((left t @ [x]) @ takeWhile P xs) (dropWhile P xs)
        (forward_while P (term_forward_char t))" by simp
    from edit_step_trans [OF s this] b r True show ?thesis by (subst forward_while.simps) simp
  next
    case False
    then show ?thesis using edit_step_refl [OF Cons(3)] b r by (subst forward_while.simps) simp
  qed
qed

lemma delete_backward_while_step:
  "term_wf t \<Longrightarrow> edit_step t (rev (dropWhile P (rev (left t)))) (right t) (delete_backward_while P t)"
proof (induction "rev (left t)" arbitrary: t)
  case Nil
  then show ?case using edit_step_refl [OF Nil(2)] before_cursor(1) [OF Nil(2)]
    by (subst delete_backward_while.simps) simp
next
  case (Cons x xs)
  have l: "left t = rev xs @ [x]" using Cons(2) by (metis rev.simps(2) rev_rev_ident)
  note b = before_cursor [OF Cons(3)]
  show ?case
  proof (cases "P x")
    case True
    note s = delete_backward_step [OF Cons(3) l]
    note d = edit_stepD [OF s]
    from Cons(1) [of "term_delete_backward_char t"] d
    have "edit_step (term_delete_backward_char t) (rev (dropWhile P xs)) (right t)
        (delete_backward_while P (term_delete_backward_char t))" by simp
    from edit_step_trans [OF s this] b(1) b(2) [OF l] l True show ?thesis
      by (subst delete_backward_while.simps) simp
  next
    case False
    then show ?thesis using edit_step_refl [OF Cons(3)] b(2) [OF l] l by (subst delete_backward_while.simps) simp
  qed
qed

lemma delete_while_step:
  "term_wf t \<Longrightarrow> edit_step t (left t) (dropWhile P (right t)) (delete_while P t)"
proof (induction "right t" arbitrary: t)
  case Nil
  then show ?case using edit_step_refl [OF Nil(2)] before_cursor(1) [OF Nil(2)] behind_cursor(1) [OF Nil(2)]
    by (subst delete_while.simps) simp
next
  case (Cons x xs)
  note r = Cons(2) [symmetric]
  note b = before_cursor(1) [OF Cons(3)] behind_cursor(1) [OF Cons(3)] behind_cursor(2) [OF Cons(3) r]
  show ?case
  proof (cases "P x")
    case True
    note s = delete_step [OF Cons(3) r]
    note d = edit_stepD [OF s]
    from Cons(1) [of "term_delete_char t"] d
    have "edit_step (term_delete_char t) (left t) (dropWhile P xs) (delete_while P (term_delete_char t))" by simp
    from edit_step_trans [OF s this] b r True show ?thesis by (subst delete_while.simps) simp
  next
    case False
    then show ?thesis using edit_step_refl [OF Cons(3)] b r by (subst delete_while.simps) simp
  qed
qed

subsection \<open>Words and lines\<close>

lemma beginning_step: "term_wf t \<Longrightarrow> edit_step t [] (left t @ right t) (term_beginning_of_line t)"
  using backward_while_step [of t "\<lambda>_. True"] by (simp add: term_beginning_of_line_def takeWhile_eq_all_conv [THEN iffD2] dropWhile_eq_Nil_conv [THEN iffD2])

lemma end_step: "term_wf t \<Longrightarrow> edit_step t (left t @ right t) [] (term_end_of_line t)"
  using forward_while_step [of t "\<lambda>_. True"] by (simp add: term_end_of_line_def takeWhile_eq_all_conv [THEN iffD2] dropWhile_eq_Nil_conv [THEN iffD2])

lemma kill_from_beginning_step: "term_wf t \<Longrightarrow> edit_step t [] [] (term_kill_line_from_beginning t)"
proof -
  assume t: "term_wf t"
  note b = beginning_step [OF t]
  note d = edit_stepD [OF b]
  from edit_step_trans [OF b kill_step] d show ?thesis by (simp add: term_kill_line_from_beginning_def)
qed

text \<open>The text before the cursor without its last word, and the text behind it without its first.\<close>

definition strip_word :: "string \<Rightarrow> string" where
  "strip_word l = rev (dropWhile (\<lambda>c. c \<noteq> CHR '' '') (dropWhile (\<lambda>c. c = CHR '' '') (rev l)))"

definition skip_word :: "string \<Rightarrow> string" where
  "skip_word r = dropWhile (\<lambda>c. c \<noteq> CHR '' '') (dropWhile (\<lambda>c. c = CHR '' '') r)"

lemma backward_word_step:
  "term_wf t \<Longrightarrow> edit_step t (strip_word (left t)) (drop (length (strip_word (left t))) (left t @ right t)) (term_backward_word t)"
proof -
  assume t: "term_wf t"
  note b = backward_while_step [OF t, of "\<lambda>c. blank c"]
  note d = edit_stepD [OF b]
  let ?l = "rev (dropWhile (\<lambda>c. blank c) (rev (left t)))"
  have *: "drop (length (rev (dropWhile P (rev l)))) (l @ r) = rev (takeWhile P (rev l)) @ r" for P and l r :: string
    by (metis append_assoc append_eq_conv_conj rev_append rev_rev_ident takeWhile_dropWhile_id)
  have "drop (length (strip_word (left t))) (left t @ right t)
      = drop (length (strip_word (left t))) (?l @ rev (takeWhile (\<lambda>c. blank c) (rev (left t))) @ right t)"
    by (metis append_assoc rev_append rev_rev_ident takeWhile_dropWhile_id)
  also have "\<dots> = rev (takeWhile (\<lambda>c. \<not> blank c) (rev ?l)) @ rev (takeWhile (\<lambda>c. blank c) (rev (left t))) @ right t"
    using * [of "\<lambda>c. \<not> blank c" ?l] unfolding strip_word_def rev_rev_ident .
  finally show ?thesis
    using edit_step_trans [OF b backward_while_step [of _ "\<lambda>c. \<not> blank c"]] d
    by (simp add: term_backward_word_def strip_word_def)
qed

lemma forward_word_step:
  "term_wf t \<Longrightarrow> edit_step t (take (length (left t @ right t) - length (skip_word (right t))) (left t @ right t))
     (skip_word (right t)) (term_forward_word t)"
proof -
  assume t: "term_wf t"
  note b = forward_while_step [OF t, of "\<lambda>c. blank c"]
  note d = edit_stepD [OF b]
  let ?u = "takeWhile (\<lambda>c. blank c) (right t)" and ?v = "takeWhile (\<lambda>c. \<not> blank c) (dropWhile (\<lambda>c. blank c) (right t))"
  have "left t @ right t = (left t @ ?u @ ?v) @ skip_word (right t)" by (simp add: skip_word_def)
  then have "take (length (left t @ right t) - length (skip_word (right t))) (left t @ right t) = left t @ ?u @ ?v"
    by (metis append_eq_conv_conj diff_add_inverse2 length_append)
  then show ?thesis
    using edit_step_trans [OF b forward_while_step [of _ "\<lambda>c. \<not> blank c"]] d
    by (simp add: term_forward_word_def skip_word_def)
qed

lemma backward_kill_word_step: "term_wf t \<Longrightarrow> edit_step t (strip_word (left t)) (right t) (term_backward_kill_word t)"
proof -
  assume t: "term_wf t"
  note b = delete_backward_while_step [OF t, of "\<lambda>c. blank c"]
  from edit_step_trans [OF b delete_backward_while_step [of _ "\<lambda>c. \<not> blank c"]] edit_stepD [OF b]
  show ?thesis by (simp add: term_backward_kill_word_def strip_word_def)
qed

lemma forward_kill_word_step: "term_wf t \<Longrightarrow> edit_step t (left t) (skip_word (right t)) (term_forward_kill_word t)"
proof -
  assume t: "term_wf t"
  note b = delete_while_step [OF t, of "\<lambda>c. blank c"]
  from edit_step_trans [OF b delete_while_step [of _ "\<lambda>c. \<not> blank c"]] edit_stepD [OF b]
  show ?thesis by (simp add: term_forward_kill_word_def skip_word_def)
qed

subsection \<open>Overwriting and recalling\<close>

lemma line_update_order:
  "(t :: ('f, 'o) term)\<lparr>in_cp := a, in_len := b, buf := c\<rparr> = t\<lparr>buf := c, in_cp := a, in_len := b\<rparr>"
  by simp

lemma overwrite_edited:
  fixes str :: string and t :: "('f, 'o) term"
  assumes "term_wf t" "cstring str"
  defines "s \<equiv> take (INBUF - length (left t) - 1) str"
  shows "edited t (left t @ s) [] s (term_insert_word_overwrite t str)"
proof -
  let ?l = "left t" and ?r = "right t"
  define n where "n = min (length str) (INBUF - length ?l - 1)"
  have s: "take n str = s" "length s = n" by (auto simp: s_def n_def min_def)
  from wf_line [OF assms(1)] obtain junk where b: "buf t = ?l @ ?r @ NUL # junk" "in_cp t = length ?l"
    "in_len t = length ?l + length ?r" "length ?l + length ?r < INBUF" by (rule line_wfE)
  have len: "length (buf t) = INBUF" "in_max t = INBUF" using wf_line [OF assms(1)] by (simp_all add: line_wf_def)
  have n: "length ?l + n < INBUF" using b(4) by (auto simp: n_def)
  let ?b = "(write_at (buf t) (length ?l) s)[length ?l + n := NUL]"
  have split: "drop (length ?l + n) (buf t) = buf t ! (length ?l + n) # drop (Suc (length ?l + n)) (buf t)"
    using n len by (simp add: Cons_nth_drop_Suc)
  have w: "write_at (buf t) (length ?l) s = (?l @ s) @ drop (length ?l + n) (buf t)"
    using b(1) s(2) by (simp add: write_at_def left_def b(2) [symmetric] min_def)
  have bq: "?b = (?l @ s) @ [] @ NUL # drop (Suc (length ?l + n)) (buf t)"
    unfolding w split using s(2) by (simp add: list_update_append)
  define t1 where "t1 = t\<lparr>buf := ?b, in_cp := length ?l + n, in_len := length ?l + n\<rparr>"
  have "cstring ((?l @ s) @ [])" using wf_cstring [OF assms(1)] assms(2) by (auto simp: s_def cstring_def dest: in_set_takeD)
  then have e: "edited t (?l @ s) [] [] t1" using bq s(2) n len assms(1)
    by (intro line_edited [of _ _ _ _ "drop (Suc (length ?l + n)) (buf t)"]) (simp_all add: t1_def)
  have o: "edited t1 (?l @ s) [] s (out_put t1 s)"
    using out_put_edited [OF edited_wf [OF e], of s] edited_line [OF e] s(2) n by simp
  have mn: "min (length str) (INBUF - Suc (length ?l)) = n" by (simp add: n_def)
  have "term_insert_word_overwrite t str = out_put t1 s"
    using n len b(2) by (simp add: term_insert_word_overwrite_def Let_def touch_id poke_def t1_def s mn line_update_order)
  with edited_trans [OF e o] show ?thesis by simp
qed

lemma history_print_edited:
  assumes "term_wf t" "cstring l" "length l < INBUF"
  obtains e where "edited t l [] e (term_history_print t l)" "clean l \<Longrightarrow> draws (left t) (right t) e l []"
proof -
  let ?t = "term_kill_line_from_beginning t"
  from kill_from_beginning_step [OF assms(1)] obtain e where
    e: "edited t [] [] e ?t" "draws (left t) (right t) e [] []" by (auto simp: edit_step_def)
  note wf = edited_wf [OF e(1)]
  have len: "length (buf ?t) = INBUF" using wf_line [OF wf] by (simp add: line_wf_def)
  define t1 where "t1 = ?t\<lparr>buf := (write_at (buf ?t) 0 l)[length l := NUL], in_cp := length l, in_len := length l\<rparr>"
  have "drop (length l) (buf ?t) = buf ?t ! length l # drop (Suc (length l)) (buf ?t)"
    using assms(3) len by (simp add: Cons_nth_drop_Suc)
  then have bq: "buf t1 = l @ [] @ NUL # drop (Suc (length l)) (buf ?t)"
    by (simp add: t1_def write_at_def)
  have e1: "edited ?t l [] [] t1" using bq assms(2,3) len wf
    by (intro line_edited [of _ _ _ _ "drop (Suc (length l)) (buf ?t)"]) (simp_all add: t1_def)
  have "edited t1 l [] l (term_redraw_line t1)" using redraw_edited [OF edited_wf [OF e1]] edited_line [OF e1] by simp
  moreover have "term_history_print t l = term_redraw_line t1"
    using assms(3) len by (simp add: term_history_print_def Let_def touch_id poke_def t1_def line_update_order)
  ultimately have "edited t l [] (e @ l) (term_history_print t l)" using edited_trans [OF edited_trans [OF e(1) e1]] by simp
  then show thesis using draws_trans [OF e(2) draws_append [of l "[]"]] that [of "e @ l"] by simp
qed

end
