(* ===== verification/Cmd_Execute.thy ===== *)
theory Cmd_Execute
  imports Term_Screen
begin

section \<open>Running a command (cli-tree.c, cmd\_execute)\<close>

text \<open>
  \<open>cmd_execute\<close> splits a line, finds its node, parses the options, runs the handler and
  then feeds what was printed to a filter or to a command of the shell.  The handlers are
  a parameter: \<open>run f\<close> is what the function \<open>f\<close> of a command does with the terminal.  The
  static buffers that \<open>cmdopt_parse\<close> fills are a store from the option tables to the
  contents of their buffers; \<open>attrs\<close> gives the tables.  A setter is the function of an
  attribute applied at the offset of the attribute.
\<close>

record 'b optattr =
  attr_index :: int
  attr_key :: "string option"
  attr_set :: "string \<Rightarrow> 'b \<Rightarrow> int \<times> 'b"

record 'b cmdoptattr =
  attr_list :: "'b optattr list"
  zeroed :: 'b
  init :: "('b \<Rightarrow> 'b) option"

type_synonym ('f, 'o, 'b) result = "int \<times> ('f, 'o) term \<times> ('o \<Rightarrow> 'b)"
type_synonym ('f, 'o, 'b) handler = "'f \<Rightarrow> ('f, 'o) term \<Rightarrow> ('o \<Rightarrow> 'b) \<Rightarrow> ('f, 'o, 'b) result"

definition crash :: "('f, 'o) term \<Rightarrow> ('f, 'o) term" where
  "crash t = t\<lparr>fault := True\<rparr>"

subsection \<open>Options\<close>

fun parse_attrs :: "nat \<Rightarrow> 'b optattr list \<Rightarrow> ('f, 'o) term \<Rightarrow> 'b \<Rightarrow> int \<times> ('f, 'o) term \<times> 'b" where
  "parse_attrs i [] t b = (0, t, b)"
| "parse_attrs i (a # as) t b =
     (if 0 \<le> attr_index a \<and> attr_index a < int (length (argv (opts t))) then
        (let w = argv (opts t) ! nat (attr_index a) in
         case attr_set a w b of (r, b') \<Rightarrow>
           if r < 0 then (-1, term_print t (''invalid option '' @ w @ ''.'' @ CRLF), b')
           else parse_attrs (Suc i) as t b')
      else case attr_key a of
        Some k \<Rightarrow>
          (case hashtable_get (kpairs (opts t)) k of
             None \<Rightarrow> (-1, crash t, b)
           | Some None \<Rightarrow> parse_attrs (Suc i) as t b
           | Some (Some v) \<Rightarrow>
               (case attr_set a v b of (r, b') \<Rightarrow>
                  if r < 0 then (-1, term_print t (''invalid keyword '' @ k @ '':'' @ v @ ''.'' @ CRLF), b')
                  else parse_attrs (Suc i) as t b'))
      | None \<Rightarrow> parse_attrs (Suc i) as (term_print t (''invalid attribute at '' @ dec i @ [CHR 0x0A])) b)"

definition cmdopt_parse ::
    "('o \<Rightarrow> 'b cmdoptattr) \<Rightarrow> ('f, 'o) term \<Rightarrow> 'o option \<Rightarrow> ('o \<Rightarrow> 'b) \<Rightarrow> ('f, 'o, 'b) result" where
  "cmdopt_parse attrs t oa bufs =
     (case oa of
        None \<Rightarrow> (0, t, bufs)
      | Some a \<Rightarrow>
          let b = (case init (attrs a) of None \<Rightarrow> zeroed (attrs a) | Some f \<Rightarrow> f (bufs a))
          in if hashtable_count (kpairs (opts t)) = 0 \<and> argv (opts t) = [] then (0, t, bufs(a := b))
             else case parse_attrs 0 (attr_list (attrs a)) t b of (r, t', b') \<Rightarrow> (r, t', bufs(a := b')))"

subsection \<open>Pipes\<close>

definition strip_head_blank :: "string \<Rightarrow> string" where
  "strip_head_blank s = dropWhile blank s"

definition strip_tail_blank :: "string \<Rightarrow> string" where
  "strip_tail_blank s = rev (dropWhile blank (rev s))"

text \<open>The loop that reads the output of the child process.\<close>

fun pipe_reads :: "read_result list \<Rightarrow> ('f, 'o) term \<Rightarrow> int \<times> ('f, 'o) term" where
  "pipe_reads [] t = (0, t)"
| "pipe_reads (Read_eintr # rs) t = pipe_reads rs t"
| "pipe_reads (Read_error m # rs) t = (CMD_ERR_SYSTEM, term_print t (''error execvp '' @ m @ CRLF))"
| "pipe_reads (Read_data d # rs) t = pipe_reads rs (out_put t d)"

definition cmd_pipe :: "('f, 'o) term \<Rightarrow> string \<Rightarrow> int \<times> ('f, 'o) term" where
  "cmd_pipe t cmd =
     (case shell (env t) (ticks t) cmd of
        Pipe_fails m \<Rightarrow> (CMD_ERR_SYSTEM, term_print t (''error pipe '' @ m @ CRLF))
      | Fork_fails m \<Rightarrow> (CMD_ERR_SYSTEM, term_print t (''fork '' @ m @ CRLF))
      | Shell wr mem answer \<Rightarrow>
          (case stream_flush wr mem (out t) of (n, s) \<Rightarrow>
             pipe_reads (answer (take (nat n) (stream_bytes (out t)))) (t\<lparr>out := s, ticks := Suc (ticks t)\<rparr>)))"

text \<open>The regular expression of a filter \<open>include REGEXP\<close> behind the bar.\<close>

definition include_filter :: "string \<Rightarrow> string option" where
  "include_filter p =
     (let ptr = strip_head_blank p;
          key = takeWhile (\<lambda>c. \<not> blank c) ptr;
          rest = strip_head_blank (dropWhile (\<lambda>c. \<not> blank c) ptr)
      in if ptr \<noteq> [] \<and> rest \<noteq> [] \<and> length key = length ''include'' \<and> strncmp key ''include'' (length key) = 0
         then Some (strip_tail_blank rest) else None)"

definition run_pipe :: "('f, 'o) term \<Rightarrow> string \<Rightarrow> ('f, 'o) term" where
  "run_pipe t p =
     (case include_filter p of
        Some re \<Rightarrow>
          (case stream_flush_regexp (regexp (env t)) (out t) re of
             None \<Rightarrow> crash t
           | Some (_, ws, s) \<Rightarrow> wrote (t\<lparr>out := s\<rparr>) (fd t) (concat ws))
      | None \<Rightarrow> snd (cmd_pipe t p))"

subsection \<open>Execution\<close>

definition run_command ::
    "('o \<Rightarrow> 'b cmdoptattr) \<Rightarrow> ('f, 'o, 'b) handler \<Rightarrow> ('f, 'o) term \<Rightarrow> ('o \<Rightarrow> 'b) \<Rightarrow> nat \<Rightarrow> string list
       \<Rightarrow> ('f, 'o, 'b) result" where
  "run_command attrs run t bufs i words =
     (case cmd_search (cmd_tree t) MAXARGC i words (children (cmd_tree t ! 0))
             \<lparr>found = None, wordi = 0, args = argv (opts t), pairs = Some (kpairs (opts t))\<rparr> of
        None \<Rightarrow> (CMD_ERR_NO_MATCH, crash t, bufs)
      | Some (r, st) \<Rightarrow>
          let t1 = t\<lparr>opts := \<lparr>argv = args st, kpairs = the (pairs st)\<rparr>\<rparr>; n = cmd_tree t ! the (found st)
          in if r \<noteq> 0 then (CMD_ERR_NO_MATCH, t1, bufs)
             else case func n of
               None \<Rightarrow> (CMD_ERR_INCOMPLETE, t1, bufs)
             | Some f \<Rightarrow>
                 (case cmdopt_parse attrs t1 (optattr n) bufs of
                    (r', t2, bufs') \<Rightarrow> if r' = 0 then run f t2 bufs' else (r', t2, bufs')))"

definition report :: "int \<Rightarrow> string \<Rightarrow> ('f, 'o) term \<Rightarrow> ('f, 'o) term" where
  "report ret l t =
     (if ret = CMD_ERR_NO_MATCH then term_print t (''% Unknown command - '' @ l @ ''.'' @ CRLF)
      else if ret = CMD_ERR_INCOMPLETE then term_print t (''% Command incomplete.'' @ CRLF)
      else t)"

definition cmd_execute ::
    "('o \<Rightarrow> 'b cmdoptattr) \<Rightarrow> ('f, 'o, 'b) handler \<Rightarrow> ('f, 'o) term \<Rightarrow> ('o \<Rightarrow> 'b) \<Rightarrow> string \<Rightarrow> ('f, 'o, 'b) result" where
  "cmd_execute attrs run t bufs l =
     (case line_get_args (cmd_mem (env t) (ticks t)) l of
        Inl _ \<Rightarrow> (CMD_ERR_SYSTEM, t, bufs)
      | Inr words \<Rightarrow>
          let i = length (takeWhile (\<lambda>w. hd w \<noteq> CHR ''|'') words)
          in if words = [] then (CMD_SUCCESS, t, bufs)
             else if i = 0 then (CMD_ERR_NO_MATCH, term_print t (''% Invalid command - '' @ l @ ''.'' @ CRLF), bufs)
             else case run_command attrs run t bufs i words of
               (ret, t1, bufs') \<Rightarrow>
                 let t2 = report ret l (t1\<lparr>opts := cmdopt_clear (opts t1)\<rparr>)
                 in (ret, if i < length words \<and> ret = CMD_SUCCESS then run_pipe t2 (tl (words ! i)) else t2, bufs'))"

subsection \<open>What running a command keeps\<close>

text \<open>The terminal stays well formed, with its line, its tree and its environment.\<close>

definition kept :: "('f, 'o) term \<Rightarrow> ('f, 'o) term \<Rightarrow> bool" where
  "kept t t' \<longleftrightarrow> term_wf t' \<and> left t' = left t \<and> right t' = right t \<and> cmd_tree t' = cmd_tree t
     \<and> env t' = env t \<and> name t' = name t \<and> fd t' = fd t \<and> escape t' = escape t"

text \<open>What is assumed of the handlers, of the option tables and of the shell.\<close>

definition handlers_ok :: "('f, 'o, 'b) handler \<Rightarrow> bool" where
  "handlers_ok run \<longleftrightarrow> (\<forall>f t bufs. term_wf t \<longrightarrow> kept t (fst (snd (run f t bufs))))"

definition table_ok :: "'b cmdoptattr \<Rightarrow> bool" where
  "table_ok a \<longleftrightarrow> length (attr_list a) < 2 ^ 24
     \<and> list_all (\<lambda>x. case attr_key x of None \<Rightarrow> True | Some k \<Rightarrow> short k \<and> cstring k) (attr_list a)"

fun read_ok :: "read_result \<Rightarrow> bool" where
  "read_ok (Read_data d) \<longleftrightarrow> 0 < length d \<and> length d \<le> 128"
| "read_ok Read_eintr \<longleftrightarrow> True"
| "read_ok (Read_error m) \<longleftrightarrow> short m"

fun shell_run_ok :: "shell_run \<Rightarrow> bool" where
  "shell_run_ok (Pipe_fails m) \<longleftrightarrow> short m"
| "shell_run_ok (Fork_fails m) \<longleftrightarrow> short m"
| "shell_run_ok (Shell wr mem answer) \<longleftrightarrow> (\<forall>bs. list_all read_ok (answer bs))"

definition shell_ok :: "env \<Rightarrow> bool" where
  "shell_ok e \<longleftrightarrow> (\<forall>n cmd. shell_run_ok (shell e n cmd))"

lemma kept_refl: "term_wf t \<Longrightarrow> kept t t"
  by (simp add: kept_def)

lemma kept_trans: "kept t t' \<Longrightarrow> kept t' t'' \<Longrightarrow> kept t t''"
  by (simp add: kept_def)

lemma kept_wf: "kept t t' \<Longrightarrow> term_wf t'"
  by (simp add: kept_def)

lemma edited_kept: "edited t (left t) (right t) e t' \<Longrightarrow> kept t t'"
  by (simp add: edited_def kept_def same_frame_def)

lemma same_line_wf:
  assumes "term_wf t" "buf t' = buf t" "in_cp t' = in_cp t" "in_len t' = in_len t" "in_max t' = in_max t"
  shows "line_wf t'" "left t' = left t" "right t' = right t"
proof -
  show lr: "left t' = left t" "right t' = right t" using assms by (simp_all add: left_def right_def)
  show "line_wf t'" using assms unfolding term_wf_def line_wf_def lr by simp
qed

lemma out_kept: "term_wf t \<Longrightarrow> stream_wf s \<Longrightarrow> kept t (t\<lparr>out := s, ticks := n\<rparr>)"
  using same_line_wf [of t "t\<lparr>out := s, ticks := n\<rparr>"] by (simp add: kept_def term_wf_def)

lemma opts_kept: "term_wf t \<Longrightarrow> cmdopt_wf opt \<Longrightarrow> opts_short opt \<Longrightarrow> kept t (t\<lparr>opts := opt\<rparr>)"
  using same_line_wf [of t "t\<lparr>opts := opt\<rparr>"] by (simp add: kept_def term_wf_def)

lemma hist_kept: "term_wf t \<Longrightarrow> hist_fits h \<Longrightarrow> kept t (t\<lparr>hist := h\<rparr>)"
  using same_line_wf [of t "t\<lparr>hist := h\<rparr>"] by (simp add: kept_def term_wf_def)

lemma stop_kept: "term_wf t \<Longrightarrow> kept t (t\<lparr>stop := b\<rparr>)"
  using same_line_wf [of t "t\<lparr>stop := b\<rparr>"] by (simp add: kept_def term_wf_def)

lemma wrote_kept: "term_wf t \<Longrightarrow> kept t (wrote t d bs)"
  using same_line_wf [of t "wrote t d bs"] by (simp add: kept_def term_wf_def wrote_def)

lemma print_kept: "term_wf t \<Longrightarrow> length s < INT_MAX \<Longrightarrow> kept t (term_print t s)"
  by (rule edited_kept [OF term_print_edited])

lemma flush_kept: "term_wf t \<Longrightarrow> kept t (term_flush t)"
proof -
  assume t: "term_wf t"
  obtain n s where f: "stream_flush (writev (env t) (ticks t)) (tmp_mem (env t) (ticks t)) (out t) = (n, s)" by fastforce
  have "stream_wf s" using stream_flush_spec(1) [of "out t"] t f by (metis snd_conv term_wf_def)
  note k = out_kept [OF t this, of "Suc (ticks t)"]
  from kept_trans [OF k wrote_kept [OF kept_wf [OF k]]] show ?thesis by (simp add: term_flush_def f)
qed

lemma length_CRLF [simp]: "length CRLF = 2"
  by (simp add: CRLF_def)

lemmas short_simps = short_def INT_MAX_def INBUF_def

lemma argv_short: "term_wf t \<Longrightarrow> i < length (argv (opts t)) \<Longrightarrow> length (argv (opts t) ! i) < 2 ^ 24"
  by (simp add: term_wf_def opts_short_def list_all_length short_def)

lemma parse_attrs_kept:
  assumes "term_wf t" "i + length as \<le> 2 ^ 24"
    and "list_all (\<lambda>x. case attr_key x of None \<Rightarrow> True | Some k \<Rightarrow> short k \<and> cstring k) as"
  shows "kept t (fst (snd (parse_attrs i as t b)))"
  using assms
proof (induction as arbitrary: i t b)
  case Nil
  then show ?case by (simp add: kept_refl)
next
  case (Cons a as)
  have IH: "kept t (fst (snd (parse_attrs (Suc i) as t' b')))" if "kept t t'" for t' b'
    using kept_trans [OF that Cons.IH [OF kept_wf [OF that]]] Cons.prems(2,3) by simp
  note same = IH [OF kept_refl [OF Cons.prems(1)]]
  show ?case
  proof (cases "0 \<le> attr_index a \<and> attr_index a < int (length (argv (opts t)))")
    case True
    then have "length (argv (opts t) ! nat (attr_index a)) < 2 ^ 24" by (intro argv_short [OF Cons.prems(1)]) (simp add: nat_less_iff)
    then have "kept t (term_print t (''invalid option '' @ argv (opts t) ! nat (attr_index a) @ ''.'' @ CRLF))"
      by (intro print_kept [OF Cons.prems(1)]) (simp add: INT_MAX_def)
    with True same show ?thesis by (simp add: Let_def split: prod.split)
  next
    case out: False
    show ?thesis
    proof (cases "attr_key a")
      case None
      have "length (dec i) < 2 ^ 25" using length_digits [of 10 i] Cons.prems(2) by simp
      then have "kept t (term_print t (''invalid attribute at '' @ dec i @ [CHR 0x0A]))"
        by (intro print_kept [OF Cons.prems(1)]) (simp add: INT_MAX_def)
      from IH [OF this] out None show ?thesis by auto
    next
      case (Some k)
      then have k: "short k" "cstring k" using Cons.prems(3) by auto
      have wf: "ht_wf cstring (kpairs (opts t))" using Cons.prems(1) by (simp add: term_wf_def cmdopt_wf_def)
      have v: "kept t (term_print t (''invalid keyword '' @ k @ '':'' @ v @ ''.'' @ CRLF))"
        if "ht_map (kpairs (opts t)) k = Some v" for v
      proof -
        have "short v" using that Cons.prems(1) by (auto simp: term_wf_def opts_short_def)
        with k(1) show ?thesis by (intro print_kept [OF Cons.prems(1)]) (simp add: short_simps)
      qed
      show ?thesis
        using out Some hashtable_get_map [OF wf k(2)] same v by (auto split: option.split prod.split)
    qed
  qed
qed

lemma cmdopt_parse_kept:
  assumes "term_wf t" "\<forall>a. table_ok (attrs a)"
  shows "kept t (fst (snd (cmdopt_parse attrs t oa bufs)))"
proof (cases oa)
  case (Some a)
  have "kept t (fst (snd (parse_attrs 0 (attr_list (attrs a)) t b)))" for b
    using assms(2) by (intro parse_attrs_kept [OF assms(1)]) (auto simp: table_ok_def less_imp_le)
  with Some show ?thesis by (simp add: cmdopt_parse_def Let_def kept_refl assms(1) case_prod_beta)
qed (simp add: cmdopt_parse_def kept_refl assms(1))

lemma pipe_reads_kept: "term_wf t \<Longrightarrow> list_all read_ok rs \<Longrightarrow> kept t (snd (pipe_reads rs t))"
proof (induction rs t rule: pipe_reads.induct)
  case (3 m rs t)
  then show ?case by (auto intro!: print_kept simp: short_simps)
next
  case (4 d rs t)
  have d: "length d \<le> INBUF" using 4(3) by (simp add: INBUF_def)
  note k = edited_kept [OF out_put_edited [OF 4(2) d]]
  from kept_trans [OF k 4(1) [OF kept_wf [OF k]]] 4(3) show ?case by simp
qed (auto intro: kept_refl)

lemma cmd_pipe_kept:
  assumes "term_wf t" "shell_ok (env t)"
  shows "kept t (snd (cmd_pipe t cmd))"
proof -
  have ok: "shell_run_ok (shell (env t) (ticks t) cmd)" using assms(2) by (simp add: shell_ok_def)
  show ?thesis
  proof (cases "shell (env t) (ticks t) cmd")
    case (Shell wr mem answer)
    obtain n s where f: "stream_flush wr mem (out t) = (n, s)" by fastforce
    have "stream_wf s" using stream_flush_spec(1) [of "out t"] assms(1) f by (metis snd_conv term_wf_def)
    note k = out_kept [OF assms(1) this, of "Suc (ticks t)"]
    from kept_trans [OF k pipe_reads_kept [OF kept_wf [OF k]]] ok Shell f show ?thesis
      by (simp add: cmd_pipe_def)
  qed (use ok assms(1) in \<open>auto simp: cmd_pipe_def short_simps intro!: print_kept\<close>)
qed

lemma next_key_sub: "next_key s = (Some w, r) \<Longrightarrow> set w \<subseteq> set s \<and> set r \<subseteq> set s \<and> length w \<le> length s"
proof -
  assume h: "next_key s = (Some w, r)"
  define p where "p = dropWhile isspace s"
  let ?P = "\<lambda>c. c \<noteq> CHR ''|'' \<and> \<not> isspace c"
  have p: "set p \<subseteq> set s" "length p \<le> length s"
    by (auto simp: p_def length_dropWhile_le dest: set_dropWhileD)
  have "w = p \<and> r = [] \<or> w = takeWhile ?P p \<and> r = dropWhile ?P p"
    using h by (auto simp: next_key_def p_def [symmetric] Let_def split: list.splits if_splits)
  moreover have "set (takeWhile ?P p) \<subseteq> set p" "set (dropWhile ?P p) \<subseteq> set p" "length (takeWhile ?P p) \<le> length p"
    by (auto simp: length_takeWhile_le dest: set_takeWhileD set_dropWhileD)
  ultimately show ?thesis using p by fastforce
qed

lemma line_words_sub: "w \<in> set (line_words s) \<Longrightarrow> set w \<subseteq> set s \<and> length w \<le> length s"
proof (induction s rule: line_words.induct)
  case (1 s)
  obtain k r where n: "next_key s = (k, r)" by fastforce
  show ?case
  proof (cases k)
    case None
    with 1(2) n show ?thesis by (subst (asm) line_words.simps) simp
  next
    case (Some v)
    with n have v: "next_key s = (Some v, r)" by simp
    have "w = v \<or> w \<in> set (line_words r)" using 1(2) v by (subst (asm) line_words.simps) simp
    then show ?thesis
      using next_key_sub [OF v] 1(1) [OF v [symmetric] refl] next_key_shorter [OF v] by auto
  qed
qed

lemma line_get_args_words: "line_get_args al l = Inr ws \<Longrightarrow> ws = line_words l"
  by (auto simp: line_get_args_def Let_def split: if_splits)

lemma cmdopt_clear_short: "cmdopt_wf opt \<Longrightarrow> opts_short (cmdopt_clear opt)"
  using cmdopt_clear_wf [of opt] by (simp add: opts_short_def)

lemma clear_kept: "term_wf t \<Longrightarrow> kept t (t\<lparr>opts := cmdopt_clear (opts t)\<rparr>)"
  by (rule opts_kept) (auto simp: term_wf_def cmdopt_clear_wf cmdopt_clear_short)

text \<open>The search of a command among at most 64 words is safe and leaves short options.\<close>

lemma search_opts:
  assumes "term_wf t" "argv (opts t) = []" "0 < i" "i \<le> length words" "length words \<le> MAXARGC"
    and "list_all (\<lambda>w. cstring w \<and> short w) words"
  obtains r st where "cmd_search (cmd_tree t) MAXARGC i words (children (cmd_tree t ! 0))
      \<lparr>found = None, wordi = 0, args = argv (opts t), pairs = Some (kpairs (opts t))\<rparr> = Some (r, st)"
    "cmdopt_wf \<lparr>argv = args st, kpairs = the (pairs st)\<rparr>" "opts_short \<lparr>argv = args st, kpairs = the (pairs st)\<rparr>"
    "r \<in> {0, CMD_ERR_NO_MATCH}" "r = 0 \<longrightarrow> node_ok (cmd_tree t) (found st)"
proof -
  let ?st = "\<lparr>found = None, wordi = 0, args = argv (opts t), pairs = Some (kpairs (opts t))\<rparr> :: search"
  have tw: "tree_wf (cmd_tree t)" "0 < length (cmd_tree t)" "ht_wf cstring (kpairs (opts t))" "opts_short (opts t)"
    using assms(1) by (auto simp: term_wf_def tree_wf_def cmdopt_wf_def)
  have wf: "search_wf MAXARGC i words ?st" "wordi ?st < i"
    using assms tw(3) by (auto simp: search_wf_def list_all_iff)
  obtain r st where s: "cmd_search (cmd_tree t) MAXARGC i words (children (cmd_tree t ! 0)) ?st = Some (r, st)"
    "search_wf MAXARGC i words st" "passed words ?st st" "r \<in> {0, CMD_ERR_NO_MATCH}" "r = 0 \<longrightarrow> node_ok (cmd_tree t) (found st)"
    using cmd_search_ok [OF tw(1) _ wf, of "children (cmd_tree t ! 0)"] children_range [OF tw(1,2)] by auto
  obtain h where h: "pairs st = Some h" using s(3) by (auto simp: passed_def)
  obtain xs where xs: "args st = xs" "subseq xs (slice 0 (wordi st) words)" using s(3) assms(2) by (auto simp: passed_def)
  have "set (args st) \<subseteq> set (slice 0 (wordi st) words)" unfolding xs(1) using list_emb_set [OF xs(2)] by auto
  then have sub: "set (args st) \<subseteq> set words" by (auto simp: slice_def dest: in_set_takeD)
  have "length (args st) \<le> MAXARGC" "ht_wf cstring h" using s(2) h by (auto simp: search_wf_def)
  moreover have "short k \<and> short v" if "ht_map h k = Some v" for k v
  proof -
    have "ht_map (kpairs (opts t)) k = Some v \<or> k \<in> set words \<and> (v = ''1'' \<or> v \<in> set words)"
      using s(3) that h by (auto simp: passed_def pairs_from_def pair_map_def)
    moreover have "short ''1''" by (simp add: short_def)
    ultimately show ?thesis using tw(4) assms(6) unfolding opts_short_def list_all_iff by blast
  qed
  moreover have "list_all short (args st)" using sub assms(6) by (auto simp: list_all_iff)
  ultimately show thesis using that [OF s(1)] h s(4,5) by (simp add: cmdopt_wf_def opts_short_def)
qed

lemma run_command_kept:
  assumes "term_wf t" "argv (opts t) = []" "0 < i" "i \<le> length words" "length words \<le> MAXARGC"
    and "list_all (\<lambda>w. cstring w \<and> short w) words" "\<forall>a. table_ok (attrs a)" "handlers_ok run"
  shows "kept t (fst (snd (run_command attrs run t bufs i words)))"
proof -
  obtain r st where s: "cmd_search (cmd_tree t) MAXARGC i words (children (cmd_tree t ! 0))
      \<lparr>found = None, wordi = 0, args = argv (opts t), pairs = Some (kpairs (opts t))\<rparr> = Some (r, st)"
    "cmdopt_wf \<lparr>argv = args st, kpairs = the (pairs st)\<rparr>" "opts_short \<lparr>argv = args st, kpairs = the (pairs st)\<rparr>"
    by (rule search_opts [OF assms(1-6)])
  define t1 where "t1 = t\<lparr>opts := \<lparr>argv = args st, kpairs = the (pairs st)\<rparr>\<rparr>"
  have k1: "kept t t1" unfolding t1_def using s(2,3) by (intro opts_kept [OF assms(1)])
  have k2: "kept t (fst (snd (cmdopt_parse attrs t1 oa bufs)))" for oa
    using kept_trans [OF k1 cmdopt_parse_kept [OF kept_wf [OF k1] assms(7)]] .
  have k3: "kept t (fst (snd (run f (fst (snd (cmdopt_parse attrs t1 oa bufs))) bufs')))" for f oa bufs'
    by (rule kept_trans [OF k2]) (use kept_wf [OF k2] assms(8) in \<open>unfold handlers_ok_def, blast\<close>)
  show ?thesis
    using k1 k2 k3 by (auto simp: run_command_def s(1) Let_def t1_def [symmetric] case_prod_beta split: option.split)
qed

lemma report_kept: "term_wf t \<Longrightarrow> short l \<Longrightarrow> kept t (report ret l t)"
  by (auto simp: report_def short_simps intro!: print_kept kept_refl)

text \<open>No part of the line is a filter by a regular expression.\<close>

definition no_filter :: "string \<Rightarrow> bool" where
  "no_filter l \<longleftrightarrow> list_all (\<lambda>w. hd w = CHR ''|'' \<longrightarrow> include_filter (tl w) = None) (line_words l)"

lemma cmd_execute_kept:
  assumes "term_wf t" "argv (opts t) = []" "cstring l" "short l" "length (line_words l) \<le> MAXARGC" "no_filter l"
    and "\<forall>a. table_ok (attrs a)" "handlers_ok run" "shell_ok (env t)"
  shows "kept t (fst (snd (cmd_execute attrs run t bufs l)))"
proof (cases "line_get_args (cmd_mem (env t) (ticks t)) l")
  case (Inl e)
  then show ?thesis by (simp add: cmd_execute_def kept_refl assms(1))
next
  case (Inr words)
  note ws = line_get_args_words [OF Inr]
  have short: "list_all (\<lambda>w. cstring w \<and> short w) words"
    using line_words_sub [of _ l] assms(3,4) unfolding ws list_all_iff cstring_def short_def by fastforce
  let ?i = "length (takeWhile (\<lambda>w. hd w \<noteq> CHR ''|'') words)"
  have i: "?i \<le> length words" by (rule length_takeWhile_le)
  have bar: "kept t' (run_pipe t' (tl (words ! ?i)))" if "term_wf t'" "shell_ok (env t')" "?i < length words" for t'
  proof -
    have "hd (words ! ?i) = CHR ''|''" using nth_length_takeWhile [OF that(3)] by simp
    moreover have "words ! ?i \<in> set (line_words l)" using nth_mem [OF that(3)] ws by simp
    ultimately have "include_filter (tl (words ! ?i)) = None" using assms(6) by (auto simp: no_filter_def list_all_iff)
    then show ?thesis using cmd_pipe_kept [OF that(1,2)] by (simp add: run_pipe_def)
  qed
  show ?thesis
  proof (cases "words = [] \<or> ?i = 0")
    case True
    have "kept t (term_print t (''% Invalid command - '' @ l @ ''.'' @ CRLF))"
      using assms(4) by (intro print_kept [OF assms(1)]) (simp add: short_simps)
    with True Inr show ?thesis by (auto simp: cmd_execute_def Let_def kept_refl assms(1))
  next
    case False
    obtain ret t1 b' where r: "run_command attrs run t bufs ?i words = (ret, t1, b')" by (metis prod_cases3)
    have k1: "kept t t1"
      using run_command_kept [OF assms(1,2) _ i _ short assms(7,8), of bufs] False assms(5) ws r by simp
    let ?t2 = "report ret l (t1\<lparr>opts := cmdopt_clear (opts t1)\<rparr>)"
    note c = clear_kept [OF kept_wf [OF k1]]
    have k2: "kept t ?t2" using kept_trans [OF k1 kept_trans [OF c report_kept [OF kept_wf [OF c] assms(4)]]] .
    moreover have "kept t (run_pipe ?t2 (tl (words ! ?i)))" if "?i < length words"
      using kept_trans [OF k2 bar [OF kept_wf [OF k2] _ that]] assms(9) k2 by (simp add: kept_def)
    ultimately show ?thesis using False Inr r by (auto simp: cmd_execute_def Let_def)
  qed
qed

subsection \<open>A fresh terminal\<close>

lemma fresh_term_wf:
  assumes "buf t = replicate INBUF NUL" "in_cp t = 0" "in_len t = 0" "in_max t = INBUF" "out t = stream_new"
    and "hist t = the (history_create True)" "cmdopt_create m1 m2 m3 = Some (opts t)" "tree_wf (cmd_tree t)"
    and "tree_short (cmd_tree t)" "short (name t)" "\<not> fault t"
  shows "term_wf t" "left t = []" "right t = []"
proof -
  have b: "buf t = [] @ [] @ NUL # replicate (INBUF - 1) NUL" by (simp add: assms(1) INBUF_def flip: replicate_Suc)
  have "length (buf t) = INBUF" using assms(1) by simp
  note l = line_wfI [OF b _ _ this assms(4)]
  show "left t = []" "right t = []" using l assms(2,3) by simp_all
  have "hist_fits (hist t)"
    using history_create_wf [of "hist t"] by (simp add: assms(6) history_create_def hist_fits_def)
  then show "term_wf t"
    using l(1) assms cmdopt_create_wf [OF assms(7)] by (simp add: term_wf_def opts_short_def)
qed

text \<open>A fresh terminal with the commands \<open>quit\<close> and \<open>list\<close>, in an environment where all is well.\<close>

definition sample_env :: env where
  "sample_env = \<lparr>put_mem = \<lambda>_ _. True, tmp_mem = \<lambda>_. True, cmd_mem = \<lambda>_ _. True,
     writev = \<lambda>_ iov. int (length (concat iov)), shell = \<lambda>_ _. Pipe_fails ''no pipe'',
     regexp = \<lambda>re. Inr (\<lambda>l. if l = re then 1 else 0)\<rparr>"

definition sample_term :: "(nat, unit) term" where
  "sample_term = \<lparr>fd = 0, buf = replicate INBUF NUL, in_cp = 0, in_len = 0, in_max = INBUF, out = stream_new,
     hist = the (history_create True), escape = 0, stop = False, name = ''Chaconne'', cmd_tree = sample_tree,
     opts = the (cmdopt_create True True True), env = sample_env, ticks = 0, written = \<lambda>_. [], fault = False\<rparr>"

definition sample_run :: "(nat, unit, unit) handler" where
  "sample_run f t bufs = (0, t, bufs)"

lemma sample_opts: "cmdopt_create True True True = Some (opts sample_term)"
  by (simp add: sample_term_def cmdopt_create_def hashtable_create_def attr_ok_def cmdopt_attr_def)

lemma sample_argv: "argv (opts sample_term) = []"
  by (rule cmdopt_create_wf(3) [OF sample_opts])

lemma sample_term_wf: "term_wf sample_term"
proof (rule fresh_term_wf(1))
  show "tree_short (cmd_tree sample_term)"
    by (simp add: sample_term_def sample_tree_def tree_short_def cmd_node_new_def short_def)
  show "cmdopt_create True True True = Some (opts sample_term)" by (rule sample_opts)
qed (simp_all add: sample_term_def sample_tree_wf short_def)

lemma sample_run_ok: "handlers_ok sample_run"
  by (simp add: handlers_ok_def sample_run_def kept_refl)

lemma sample_command:
  "list_all plain_word [''list'']" "walk (cmd_tree sample_term) 0 [''list''] = Some 2"
  "path_plain (cmd_tree sample_term) [''list'']" "func (cmd_tree sample_term ! 2) = Some 2" "optattr (cmd_tree sample_term ! 2) = None"
proof -
  have t: "cmd_tree sample_term = sample_tree" by (simp add: sample_term_def)
  show "list_all plain_word [''list'']"
    by (simp add: plain_word_def word_char_def isspace_def cstring_def token_type_of_def less_eq_char_def of_char_def)
  show "path_plain (cmd_tree sample_term) [''list'']" by (auto simp: path_plain_def strict_prefix_def prefix_Cons)
  show "walk (cmd_tree sample_term) 0 [''list''] = Some 2"
    by (simp add: t sample_tree_def cmd_node_new_def has_key_def strcmp_eq_0_iff cstring_def)
  show "func (cmd_tree sample_term ! 2) = Some 2" "optattr (cmd_tree sample_term ! 2) = None"
    by (simp_all add: t sample_tree_def cmd_node_new_def)
qed

subsection \<open>Properties\<close>

text \<open>A line of literal words that lead to a node with a handler runs that handler.\<close>

lemma run_command_literal:
  assumes "term_wf t" "argv (opts t) = []" "ws \<noteq> []" "list_all plain_word ws" "list_all cstring vs" "length ws \<le> MAXARGC"
    and "walk (cmd_tree t) 0 ws = Some q" "path_plain (cmd_tree t) ws"
    and "func (cmd_tree t ! q) = Some f" "optattr (cmd_tree t ! q) = None"
  shows "run_command attrs run t bufs (length ws) (ws @ vs)
     = run f (t\<lparr>opts := (opts t)\<lparr>argv := walk_args (cmd_tree t) 0 ws\<rparr>\<rparr>) bufs \<and> subseq (walk_args (cmd_tree t) 0 ws) ws"
proof -
  let ?st = "\<lparr>found = None, wordi = 0, args = argv (opts t), pairs = Some (kpairs (opts t))\<rparr> :: search"
  have tw: "tree_wf (cmd_tree t)" "0 < length (cmd_tree t)" "ht_wf cstring (kpairs (opts t))"
    using assms(1) by (auto simp: term_wf_def tree_wf_def cmdopt_wf_def)
  have lit: "list_all (\<lambda>w. cstring w \<and> token_type_of w = TOKEN_LITERAL) ws"
    using assms(4) by (auto simp: plain_word_def list_all_iff)
  have wf: "search_wf MAXARGC (length ws) (ws @ vs) ?st" "wordi ?st < length ws"
    using assms(2,3,5,6) lit tw(3) by (auto simp: search_wf_def list_all_iff)
  obtain st where s: "cmd_search (cmd_tree t) MAXARGC (length ws) (ws @ vs) (children (cmd_tree t ! 0)) ?st = Some (0, st)"
    "found st = Some q" "wordi st = length ws" "pairs st = pairs ?st" "args st = walk_args (cmd_tree t) 0 ws"
    using cmd_search_walk [OF tw(1,2) assms(3) lit assms(7) assms(8) [unfolded path_plain_def] wf(1)] assms(2) by (auto simp: slice_def)
  then have "subseq (walk_args (cmd_tree t) 0 ws) ws"
    using cmd_search_ok [OF tw(1) _ wf, of "children (cmd_tree t ! 0)"] children_range [OF tw(1,2)] assms(2)
    by (auto simp: passed_def slice_def)
  then show ?thesis using s assms(9,10) by (cases "opts t") (simp add: run_command_def Let_def cmdopt_parse_def)
qed

lemma plain_no_bar: "list_all plain_word ws \<Longrightarrow> takeWhile (\<lambda>w. hd w \<noteq> CHR ''|'') (ws @ vs) = ws @ takeWhile (\<lambda>w. hd w \<noteq> CHR ''|'') vs"
  using line_get_args_plain(2) [of "\<lambda>_. True" ws] by (intro takeWhile_append2) auto

lemma cmd_execute_words:
  assumes "line_get_args (cmd_mem (env t) (ticks t)) l = Inr (ws @ vs)" "list_all plain_word ws" "ws \<noteq> []"
    and "vs = [] \<or> hd (hd vs) = CHR ''|''"
  shows "cmd_execute attrs run t bufs l = (case run_command attrs run t bufs (length ws) (ws @ vs) of
     (r, t1, b) \<Rightarrow> let t2 = report r l (t1\<lparr>opts := cmdopt_clear (opts t1)\<rparr>)
       in (r, if vs \<noteq> [] \<and> r = CMD_SUCCESS then run_pipe t2 (tl (hd vs)) else t2, b))"
proof -
  have tw: "takeWhile (\<lambda>w. hd w \<noteq> CHR ''|'') (ws @ vs) = ws"
    using plain_no_bar [OF assms(2), of vs] assms(4) by (cases vs) auto
  have "ws @ vs \<noteq> []" "length ws \<noteq> 0" "(ws @ vs) ! length ws = hd vs \<or> vs = []" "length ws < length (ws @ vs) \<longleftrightarrow> vs \<noteq> []"
    using assms(3) by (auto simp: hd_conv_nth nth_append)
  then show ?thesis unfolding cmd_execute_def assms(1) sum.case Let_def tw
    by (auto split: prod.split)
qed

lemma include_filter_re:
  assumes "re \<noteq> []" "hd re \<noteq> CHR '' ''" "last re \<noteq> CHR '' ''"
  shows "include_filter ('' include '' @ re) = Some re"
proof -
  have "strip_head_blank re = re" "strip_tail_blank re = re"
    using assms by (cases re; simp add: strip_head_blank_def)
      (use assms in \<open>cases re rule: rev_cases; simp add: strip_tail_blank_def\<close>)
  moreover from this have "dropWhile (\<lambda>c. c = CHR '' '') re = re" by (simp add: strip_head_blank_def)
  moreover have "\<exists>x \<in> set re. x \<noteq> CHR '' ''" by (rule bexI [of _ "hd re"]) (use assms(1,2) in simp_all)
  ultimately show ?thesis using assms(1)
    by (simp add: include_filter_def Let_def strip_head_blank_def strncmp_def strcmp_refl)
qed

text \<open>
  C8. Typing a command runs its handler: for a line of literal words that lead to a node
  with a handler and without an option table, \<open>cmd_execute\<close> calls just this handler, once,
  with the words that choose between alternatives as arguments, returns its result, reports an error that the
  result stands for, and clears the options.
\<close>

theorem cmd_execute_runs_handler:
  assumes "term_wf t" "argv (opts t) = []" "\<forall>n i. cmd_mem (env t) n i" "ws \<noteq> []" "list_all plain_word ws" "length ws \<le> MAXARGC"
    and "walk (cmd_tree t) 0 ws = Some q" "path_plain (cmd_tree t) ws"
    and "func (cmd_tree t ! q) = Some f" "optattr (cmd_tree t ! q) = None"
  shows "cmd_execute attrs run t bufs (join_words ws) =
     (case run f (t\<lparr>opts := (opts t)\<lparr>argv := walk_args (cmd_tree t) 0 ws\<rparr>\<rparr>) bufs of
        (r, t1, b) \<Rightarrow> (r, report r (join_words ws) (t1\<lparr>opts := cmdopt_clear (opts t1)\<rparr>), b))"
proof -
  have "run_command attrs run t bufs (length ws) ws = run f (t\<lparr>opts := (opts t)\<lparr>argv := walk_args (cmd_tree t) 0 ws\<rparr>\<rparr>) bufs"
    using run_command_literal [OF assms(1,2,4,5) _ assms(6-10), of "[]" attrs run bufs] by auto
  moreover have "line_get_args (cmd_mem (env t) (ticks t)) (join_words ws) = Inr (ws @ [])"
    using line_get_args_plain(1) [OF _ assms(5)] assms(3) by simp
  ultimately show ?thesis
    using cmd_execute_words [of t "join_words ws" ws "[]" attrs run bufs] assms(4,5) by (simp add: Let_def)
qed

theorem cmd_execute_runs_handler_witness:
  "cmd_execute (\<lambda>_. undefined) sample_run sample_term undefined ''list''
     = (0, sample_term\<lparr>opts := cmdopt_clear ((opts sample_term)\<lparr>argv := walk_args (cmd_tree sample_term) 0 [''list'']\<rparr>)\<rparr>, undefined)"
  using cmd_execute_runs_handler [OF sample_term_wf sample_argv _ _ sample_command(1) _ sample_command(2-5),
      of "\<lambda>_. undefined" sample_run undefined]
  by (simp add: sample_run_def report_def cmd_codes MAXARGC_def del: walk_args.simps) (simp add: sample_term_def sample_env_def del: walk_args.simps)



end
