(* ===== verification/Term_Read.thy ===== *)
theory Term_Read
  imports Cmd_Execute
begin

unbundle bit_operations_syntax

section \<open>Reading keys (cli-term.c)\<close>

text \<open>
  The keys of the terminal: the control characters and escape sequences of the line
  editor, completion, description and execution of the line.  The calls that change the
  event mask of the terminal's descriptor are collected in a list.
\<close>

definition line_of :: "('f, 'o) term \<Rightarrow> string" where
  "line_of t = takeWhile (\<lambda>c. c \<noteq> NUL) (buf t)"

text \<open>\<open>%-*s\<close>\<close>

definition pad :: "nat \<Rightarrow> string \<Rightarrow> string" where
  "pad w s = s @ replicate (w - length s) (CHR '' '')"

definition show_line :: "('f, 'o) term \<Rightarrow> ('f, 'o) term" where
  "show_line t = term_redraw_line (term_prompt t)"

subsection \<open>Completion and description\<close>

fun complete_list :: "nat \<Rightarrow> string list \<Rightarrow> ('f, 'o) term \<Rightarrow> ('f, 'o) term" where
  "complete_list i [] t = t"
| "complete_list i (k # ks) t =
     complete_list (Suc i) ks (term_print (if i \<noteq> 0 \<and> i mod 5 = 0 then term_print t CRLF else t) (pad 16 k))"

definition term_complete_command :: "('f, 'o) term \<Rightarrow> ('f, 'o) term" where
  "term_complete_command t =
     (let t1 = term_print t CRLF; al = cmd_mem (env t1) (ticks t1) in
      case cmd_complete (\<lambda>i. al (i + 2)) (al 0) (al 1) (cmd_tree t1) (line_of t1) of
        None \<Rightarrow> crash t1
      | Some (ret, keys) \<Rightarrow>
          if ret = CMD_ERR_NO_MATCH then show_line (term_print t1 (''% No matched command.'' @ CRLF))
          else if ret = CMD_COMPLETE_FULL_MATCH then
            term_self_insert (term_insert_word_overwrite (term_backward_pure_word (show_line t1)) (keys ! 0)) (CHR '' '')
          else if ret = CMD_COMPLETE_MATCH then
            term_insert_word_overwrite (term_backward_pure_word (show_line t1)) (keys ! 0)
          else if ret = CMD_COMPLETE_LIST_MATCH then show_line (term_print (complete_list 0 keys t1) CRLF)
          else show_line t1)"

fun describe_list :: "nat \<Rightarrow> (string \<times> string) list \<Rightarrow> ('f, 'o) term \<Rightarrow> ('f, 'o) term" where
  "describe_list w [] t = t"
| "describe_list w ((k, d) # kds) t = describe_list w kds (term_print t (''  '' @ pad w k @ ''  '' @ d @ CRLF))"

definition desc_width :: "(string \<times> string) list \<Rightarrow> nat" where
  "desc_width kds = foldl (\<lambda>w kd. if w < length (fst kd) then length (fst kd) else w) 0 kds"

text \<open>
  When the allocations behind the description fail, the number of keys is set and the
  array of the keys is not.
\<close>

definition term_describe_command :: "('f, 'o) term \<Rightarrow> ('f, 'o) term" where
  "term_describe_command t =
     (let al = cmd_mem (env t) (ticks t) in
      case cmd_describe (\<lambda>i. al (i + 1)) (al 0) (cmd_tree t) (line_of t) of
        None \<Rightarrow> crash t
      | Some (ret, kds, cr) \<Rightarrow>
          let t1 = term_print t CRLF in
          if ret = CMD_ERR_NO_MATCH then show_line (term_print t1 (''% No matched command.'' @ [CHR 0x0A]))
          else if ret = CMD_ERR_SYSTEM then crash t1
          else let t2 = describe_list (desc_width kds) kds t1
               in show_line (if cr then term_print t2 (''  '' @ ''<cr>'' @ CRLF) else t2))"

subsection \<open>Execution\<close>

definition term_execute ::
    "('o \<Rightarrow> 'b cmdoptattr) \<Rightarrow> ('f, 'o, 'b) handler \<Rightarrow> ('f, 'o) term \<Rightarrow> ('o \<Rightarrow> 'b) \<Rightarrow> ('f, 'o) term \<times> ('o \<Rightarrow> 'b)" where
  "term_execute attrs run t bufs =
     (let t1 = term_flush (term_print t CRLF) in
      case cmd_execute attrs run t1 bufs (line_of t1) of
        (_, t2, bufs') \<Rightarrow>
          let t3 = t2\<lparr>hist := history_add (tmp_mem (env t2) (ticks t2)) (hist t2) (line_of t2)\<rparr>;
              t4 = poke (t3\<lparr>in_cp := 0, in_len := 0\<rparr>) 0 NUL
          in (term_prompt t4, bufs'))"

subsection \<open>Keys\<close>

definition TERM_NORMAL :: nat where "TERM_NORMAL = 0"

definition TERM_PRE_ESCAPE :: nat where "TERM_PRE_ESCAPE = 1"

definition TERM_ESCAPE :: nat where "TERM_ESCAPE = 2"

definition ESCAPE :: byte where "ESCAPE = CHR 0x1B"

definition CTRL_DEL :: byte where "CTRL_DEL = CHR 0x7F"

text \<open>The macro \<open>CTRL(c)\<close> is \<open>c - '@'\<close>.\<close>

definition CTRL :: "char \<Rightarrow> byte" where
  "CTRL c = char_of (of_char c - 64 :: nat)"

definition printable :: "byte \<Rightarrow> bool" where
  "printable c \<longleftrightarrow> 31 < (of_char c :: nat) \<and> (of_char c :: nat) < 127"

definition read_escape :: "('f, 'o) term \<Rightarrow> byte \<Rightarrow> ('f, 'o) term" where
  "read_escape t c =
     (if c = CHR ''A'' then term_previous_line t
      else if c = CHR ''B'' then term_next_line t
      else if c = CHR ''C'' then term_forward_char t
      else if c = CHR ''D'' then term_backward_char t
      else t)\<lparr>escape := TERM_NORMAL\<rparr>"

definition read_pre_escape :: "('f, 'o) term \<Rightarrow> byte \<Rightarrow> ('f, 'o) term" where
  "read_pre_escape t c =
     (if c = CHR ''b'' then (term_backward_word t)\<lparr>escape := TERM_NORMAL\<rparr>
      else if c = CHR ''f'' then (term_forward_word t)\<lparr>escape := TERM_NORMAL\<rparr>
      else if c = CHR ''d'' then (term_forward_kill_word t)\<lparr>escape := TERM_NORMAL\<rparr>
      else if c = CTRL (CHR ''H'') \<or> c = CTRL_DEL then (term_backward_kill_word t)\<lparr>escape := TERM_NORMAL\<rparr>
      else if c = CHR ''['' then t\<lparr>escape := TERM_ESCAPE\<rparr>
      else t\<lparr>escape := TERM_NORMAL\<rparr>)"

text \<open>The keys of the normal state that edit the line, and the others.\<close>

definition read_edit :: "('f, 'o) term \<Rightarrow> byte \<Rightarrow> ('f, 'o) term" where
  "read_edit t c =
     (if c = CTRL (CHR ''B'') then term_backward_char t
      else if c = CTRL (CHR ''F'') then term_forward_char t
      else if c = CTRL (CHR ''H'') \<or> c = CTRL_DEL then term_delete_backward_char t
      else if c = CTRL (CHR ''D'') then term_delete_char t
      else if c = CTRL (CHR ''A'') then term_beginning_of_line t
      else if c = CTRL (CHR ''E'') then term_end_of_line t
      else if c = CTRL (CHR ''N'') then term_next_line t
      else if c = CTRL (CHR ''P'') then term_previous_line t
      else if c = CTRL (CHR ''U'') then term_kill_line_from_beginning t
      else if c = CTRL (CHR ''K'') then term_kill_line t
      else if c = CTRL (CHR ''W'') then term_forward_kill_word t
      else if c = ESCAPE then t\<lparr>escape := TERM_PRE_ESCAPE\<rparr>
      else if printable c then term_self_insert t c
      else t)"

definition term_read ::
    "('o \<Rightarrow> 'b cmdoptattr) \<Rightarrow> ('f, 'o, 'b) handler \<Rightarrow> ('f, 'o) term \<Rightarrow> ('o \<Rightarrow> 'b) \<Rightarrow> byte \<Rightarrow> ('f, 'o) term \<times> ('o \<Rightarrow> 'b)" where
  "term_read attrs run t bufs c =
     (if escape t = TERM_ESCAPE then (read_escape t c, bufs)
      else if escape t = TERM_PRE_ESCAPE then (read_pre_escape t c, bufs)
      else if c = CHR ''?'' then (term_describe_command t, bufs)
      else if c = CHR 0x09 then (term_complete_command t, bufs)
      else if c = CHR 0x0A \<or> c = CHR 0x0D then term_execute attrs run t bufs
      else (read_edit t c, bufs))"

subsection \<open>Events of the descriptor\<close>

definition EVENT_READABLE :: "32 word" where "EVENT_READABLE = 1"

definition EVENT_WRITABLE :: "32 word" where "EVENT_WRITABLE = 2"

definition EVENT_HANGUP :: "32 word" where "EVENT_HANGUP = 4"

definition EVENT_ERROR :: "32 word" where "EVENT_ERROR = 8"

text \<open>
  \<open>inp\<close> is the byte that \<open>read\<close> gives, if it gives one; otherwise the program exits, which
  is the result \<open>None\<close>.
\<close>

definition term_handle_input ::
    "('o \<Rightarrow> 'b cmdoptattr) \<Rightarrow> ('f, 'o, 'b) handler \<Rightarrow> ('f, 'o) term \<Rightarrow> ('o \<Rightarrow> 'b) \<Rightarrow> 32 word \<Rightarrow> byte option
       \<Rightarrow> (('f, 'o) term \<times> ('o \<Rightarrow> 'b) \<times> 32 word list) option" where
  "term_handle_input attrs run t bufs msk inp =
     (let m = (if msk AND EVENT_HANGUP \<noteq> 0 then msk OR (EVENT_WRITABLE OR EVENT_READABLE) else msk);
          (t1, ups) = (if m AND EVENT_WRITABLE \<noteq> 0 then (term_flush t, [EVENT_READABLE]) else (t, []))
      in if m AND EVENT_READABLE \<noteq> 0 then
           (case inp of
              None \<Rightarrow> None
            | Some c \<Rightarrow>
                (case term_read attrs run t1 bufs c of (t2, bufs') \<Rightarrow> Some (t2, bufs', ups @ [EVENT_WRITABLE])))
         else Some (t1, bufs, ups))"

subsection \<open>Creating and destroying a terminal\<close>

definition TERM_DEFAULT_NAME :: string where
  "TERM_DEFAULT_NAME = ''Chaconne''"

definition term_help_prompt :: "('f, 'o) term \<Rightarrow> ('f, 'o) term" where
  "term_help_prompt t = term_print t (CRLF @ ''? - help, TAB - completion, list - all commands'' @ CRLF @ CRLF)"

text \<open>
  \<open>mem\<close> says which allocations succeed, \<open>src\<close> whether the descriptor can be added to the
  event loop.  A tree that could not be allocated is the empty list.  Following a null
  pointer while the tree is built is the result \<open>None\<close>; \<open>Some None\<close> is a null pointer
  returned.
\<close>

definition term_create ::
    "alloc \<Rightarrow> alloc \<Rightarrow> bool \<Rightarrow> env \<Rightarrow> ('f, 'o) cmd_elem list \<Rightarrow> ('f, 'o) cmd_elem list \<Rightarrow> int \<Rightarrow> string option
       \<Rightarrow> ('f, 'o) term option option" where
  "term_create mem tree_mem src e common section d nm =
     (if \<not> (mem 0 \<and> mem 1 \<and> mem 2) then Some None
      else case history_create (mem 3) of
        None \<Rightarrow> Some None
      | Some h \<Rightarrow>
          if \<not> src then Some None
          else case cmdopt_create (mem 4) (mem 5) (mem 6) of
            None \<Rightarrow> Some None
          | Some opt \<Rightarrow>
              (case cmd_tree_build tree_mem (mem 7) common section of
                 None \<Rightarrow> None
               | Some tr \<Rightarrow>
                   Some (Some (term_prompt (term_help_prompt
                     \<lparr>fd = d, buf = replicate INBUF NUL, in_cp = 0, in_len = 0, in_max = INBUF, out = stream_new, hist = h,
                      escape = TERM_NORMAL, stop = False,
                      name = (if nm = None \<or> nm = Some [] then TERM_DEFAULT_NAME else the nm),
                      cmd_tree = (case tr of None \<Rightarrow> [] | Some (_, u) \<Rightarrow> u), opts = opt, env = e, ticks = 0,
                      written = \<lambda>_. [], fault = False\<rparr>)))))"

text \<open>What \<open>term_destroy\<close> frees: the nodes of the tree, the pairs of the options and the lines of the history.\<close>

definition term_destroy :: "('f, 'o) term \<Rightarrow> (addr list \<times> (string, string) release list \<times> string list) option" where
  "term_destroy t =
     (case cmd_tree_delete (Suc (length (cmd_tree t))) (cmd_tree t) [0] of
        None \<Rightarrow> None
      | Some ns \<Rightarrow> Some (ns, cmdopt_destroy (opts t), history_destroy (hist t)))"

text \<open>\<open>term_quit\<close>, \<open>term_want_exit\<close> and \<open>term_show_history\<close>.\<close>

definition term_quit :: "('f, 'o) term \<Rightarrow> ('f, 'o) term" where
  "term_quit t = t\<lparr>stop := True\<rparr>"

definition term_want_exit :: "('f, 'o) term \<Rightarrow> bool" where
  "term_want_exit t = stop t"

definition term_show_history :: "nat \<Rightarrow> ('f, 'o) term \<Rightarrow> ('f, 'o) term" where
  "term_show_history fuel t =
     (case history_print fuel (hist t) of
        None \<Rightarrow> crash t
      | Some ls \<Rightarrow> fold (\<lambda>l t. term_print t (''  '' @ l @ [CHR 0x0A])) ls t)"

end
