(* ===== verification/Line_Editor.thy ===== *)
theory Line_Editor
  imports Term_Read
begin

section \<open>The keys refine an abstract line editor\<close>

text \<open>
  The abstract editor has the text before and behind the cursor, the lines of the history
  with the position in them, and the state of the escape sequence reader.  Every sequence
  of editing keys acts on the terminal as on the abstract editor, and keeps the screen in
  step with the line.
\<close>

record editor =
  before :: string
  behind :: string
  recall :: "string list"
  depth :: nat
  mode :: nat

definition editor_of :: "('f, 'o) term \<Rightarrow> editor" where
  "editor_of t = \<lparr>before = left t, behind = right t, recall = hist_lines (hist t), depth = hist_back (hist t), mode = escape t\<rparr>"

definition ed_left :: "editor \<Rightarrow> editor" where
  "ed_left e = (if before e = [] then e else e\<lparr>before := butlast (before e), behind := last (before e) # behind e\<rparr>)"

definition ed_right :: "editor \<Rightarrow> editor" where
  "ed_right e = (if behind e = [] then e else e\<lparr>before := before e @ [hd (behind e)], behind := tl (behind e)\<rparr>)"

definition ed_older :: "editor \<Rightarrow> editor" where
  "ed_older e = (if depth e < length (recall e)
     then e\<lparr>before := recall e ! (length (recall e) - 1 - depth e), behind := [], depth := Suc (depth e)\<rparr> else e)"

definition ed_newer :: "editor \<Rightarrow> editor" where
  "ed_newer e = (if depth e = 0 then e
     else e\<lparr>before := (if depth e = 1 then [] else recall e ! (length (recall e) + 1 - depth e)), behind := [], depth := depth e - 1\<rparr>)"

definition ed_insert :: "byte \<Rightarrow> editor \<Rightarrow> editor" where
  "ed_insert c e = (if length (before e) + length (behind e) + 1 < INBUF then e\<lparr>before := before e @ [c]\<rparr> else e)"

definition ed_word_left :: "editor \<Rightarrow> editor" where
  "ed_word_left e = e\<lparr>before := strip_word (before e), behind := drop (length (strip_word (before e))) (before e @ behind e)\<rparr>"

definition ed_word_right :: "editor \<Rightarrow> editor" where
  "ed_word_right e = e\<lparr>before := take (length (before e @ behind e) - length (skip_word (behind e))) (before e @ behind e),
     behind := skip_word (behind e)\<rparr>"

definition ed_key :: "byte \<Rightarrow> editor \<Rightarrow> editor" where
  "ed_key c e =
     (if mode e = TERM_ESCAPE then
        (if c = CHR ''A'' then ed_older e else if c = CHR ''B'' then ed_newer e
         else if c = CHR ''C'' then ed_right e else if c = CHR ''D'' then ed_left e else e)\<lparr>mode := TERM_NORMAL\<rparr>
      else if mode e = TERM_PRE_ESCAPE then
        (if c = CHR ''b'' then ed_word_left e else if c = CHR ''f'' then ed_word_right e
         else if c = CHR ''d'' then e\<lparr>behind := skip_word (behind e)\<rparr>
         else if c = CTRL (CHR ''H'') \<or> c = CTRL_DEL then e\<lparr>before := strip_word (before e)\<rparr>
         else e)\<lparr>mode := (if c = CHR ''['' then TERM_ESCAPE else TERM_NORMAL)\<rparr>
      else if c = CTRL (CHR ''B'') then ed_left e
      else if c = CTRL (CHR ''F'') then ed_right e
      else if c = CTRL (CHR ''H'') \<or> c = CTRL_DEL then e\<lparr>before := butlast (before e)\<rparr>
      else if c = CTRL (CHR ''D'') then e\<lparr>behind := tl (behind e)\<rparr>
      else if c = CTRL (CHR ''A'') then e\<lparr>before := [], behind := before e @ behind e\<rparr>
      else if c = CTRL (CHR ''E'') then e\<lparr>before := before e @ behind e, behind := []\<rparr>
      else if c = CTRL (CHR ''N'') then ed_newer e
      else if c = CTRL (CHR ''P'') then ed_older e
      else if c = CTRL (CHR ''U'') then e\<lparr>before := [], behind := []\<rparr>
      else if c = CTRL (CHR ''K'') then e\<lparr>behind := []\<rparr>
      else if c = CTRL (CHR ''W'') then e\<lparr>behind := skip_word (behind e)\<rparr>
      else if c = ESCAPE then e\<lparr>mode := TERM_PRE_ESCAPE\<rparr>
      else if printable c then ed_insert c e
      else e)"

text \<open>The keys that only edit, whatever the state of the escape sequence reader.\<close>

definition editing :: "byte \<Rightarrow> bool" where
  "editing c \<longleftrightarrow> c \<notin> {CHR ''?'', CHR 0x09, CHR 0x0A, CHR 0x0D}"

subsection \<open>One key\<close>

text \<open>
  From \<open>t\<close> to \<open>t'\<close> the output, if memory suffices and the recalled lines can be drawn,
  turns the old line on the screen into the new one.
\<close>

definition follows :: "('f, 'o) term \<Rightarrow> ('f, 'o) term \<Rightarrow> bool" where
  "follows t t' \<longleftrightarrow> term_wf t' \<and> fd t' = fd t \<and> env t' = env t \<and> cmd_tree t' = cmd_tree t \<and> opts t' = opts t
     \<and> hist_lines (hist t') = hist_lines (hist t)
     \<and> (mem_ok t \<longrightarrow> list_all clean (hist_lines (hist t)) \<longrightarrow>
          (\<exists>e. stream_bytes (out t') = stream_bytes (out t) @ e \<and> draws (left t) (right t) e (left t') (right t')))"

lemma follows_refl: "term_wf t \<Longrightarrow> follows t t"
  unfolding follows_def draws_def by (auto intro: exI [of _ "[]"])

lemma follows_trans: "follows t t' \<Longrightarrow> follows t' t'' \<Longrightarrow> follows t t''"
  unfolding follows_def mem_ok_def using draws_trans by fastforce

lemma edit_step_follows: "edit_step t l r t' \<Longrightarrow> follows t t'"
  by (auto simp: edit_step_def follows_def edited_def same_frame_def)

lemma edit_step_editor: "edit_step t l r t' \<Longrightarrow> editor_of t' = (editor_of t)\<lparr>before := l, behind := r\<rparr>"
  using edit_stepD [of t l r t'] by (simp add: editor_of_def same_frame_def)

text \<open>The terminal \<open>t'\<close> is \<open>t\<close> after the abstract operation \<open>f\<close>.\<close>

definition acts :: "(editor \<Rightarrow> editor) \<Rightarrow> ('f, 'o) term \<Rightarrow> ('f, 'o) term \<Rightarrow> bool" where
  "acts f t t' \<longleftrightarrow> follows t t' \<and> editor_of t' = f (editor_of t)"

lemma acts_step: "edit_step t l r t' \<Longrightarrow> f (editor_of t) = (editor_of t)\<lparr>before := l, behind := r\<rparr> \<Longrightarrow> acts f t t'"
  by (simp add: acts_def edit_step_follows edit_step_editor)

lemma acts_refl: "term_wf t \<Longrightarrow> f (editor_of t) = editor_of t \<Longrightarrow> acts f t t"
  by (simp add: acts_def follows_refl)

lemma editor_of_sel [simp]: "before (editor_of t) = left t" "behind (editor_of t) = right t"
  "recall (editor_of t) = hist_lines (hist t)" "depth (editor_of t) = hist_back (hist t)" "mode (editor_of t) = escape t"
  by (simp_all add: editor_of_def)

lemma editor_update [simp]: "(e :: editor)\<lparr>before := before e\<rparr> = e" "(e :: editor)\<lparr>behind := behind e\<rparr> = e"
  by simp_all

lemma mode_acts:
  assumes "acts f t t'"
  shows "acts (\<lambda>e. (f e)\<lparr>mode := m\<rparr>) t (t'\<lparr>escape := m\<rparr>)"
proof -
  have lr: "left (t'\<lparr>escape := m\<rparr>) = left t'" "right (t'\<lparr>escape := m\<rparr>) = right t'" by (simp_all add: left_def right_def)
  from assms have "term_wf t'" by (simp add: acts_def follows_def)
  then have "term_wf (t'\<lparr>escape := m\<rparr>)" by (simp add: term_wf_def line_wf_def lr)
  moreover have "editor_of (t'\<lparr>escape := m\<rparr>) = (editor_of t')\<lparr>mode := m\<rparr>" by (simp add: editor_of_def lr)
  ultimately show ?thesis using assms unfolding acts_def follows_def by (simp add: lr)
qed

lemma cursor_ends:
  assumes "term_wf t"
  shows "left t = [] \<Longrightarrow> in_cp t = 0" "right t = [] \<Longrightarrow> in_cp t = in_len t"
  using before_cursor(1) [OF assms] behind_cursor(1) [OF assms] by simp_all

lemma left_acts: "term_wf t \<Longrightarrow> acts ed_left t (term_backward_char t)"
proof (cases "left t" rule: rev_cases)
  case Nil
  assume t: "term_wf t"
  then have "term_backward_char t = t" using cursor_ends(1) [OF t Nil] by (simp add: term_backward_char_def)
  with t Nil show ?thesis by (simp add: acts_refl ed_left_def)
next
  case (snoc l x)
  assume t: "term_wf t"
  show ?thesis by (rule acts_step [OF backward_step [OF t snoc]]) (simp add: ed_left_def snoc)
qed

lemma right_acts: "term_wf t \<Longrightarrow> acts ed_right t (term_forward_char t)"
proof (cases "right t")
  case Nil
  assume t: "term_wf t"
  then have "term_forward_char t = t" using cursor_ends(2) [OF t Nil] by (simp add: term_forward_char_def)
  with t Nil show ?thesis by (simp add: acts_refl ed_right_def)
next
  case (Cons x r)
  assume t: "term_wf t"
  show ?thesis by (rule acts_step [OF forward_step [OF t Cons]]) (simp add: ed_right_def Cons)
qed

lemma rubout_acts: "term_wf t \<Longrightarrow> acts (\<lambda>e. e\<lparr>before := butlast (before e)\<rparr>) t (term_delete_backward_char t)"
proof (cases "left t" rule: rev_cases)
  case Nil
  assume t: "term_wf t"
  then have "term_delete_backward_char t = t" using cursor_ends(1) [OF t Nil] by (simp add: term_delete_backward_char_def)
  moreover have "(editor_of t)\<lparr>before := []\<rparr> = editor_of t" by (simp add: editor_of_def Nil)
  ultimately show ?thesis using t Nil by (simp add: acts_refl)
next
  case (snoc l x)
  assume t: "term_wf t"
  show ?thesis by (rule acts_step [OF delete_backward_step [OF t snoc]]) (simp add: snoc editor_of_def)
qed

lemma delete_acts: "term_wf t \<Longrightarrow> acts (\<lambda>e. e\<lparr>behind := tl (behind e)\<rparr>) t (term_delete_char t)"
proof (cases "right t")
  case Nil
  assume t: "term_wf t"
  then have "term_delete_char t = t" using cursor_ends(2) [OF t Nil] by (simp add: term_delete_char_def)
  moreover have "(editor_of t)\<lparr>behind := []\<rparr> = editor_of t" by (simp add: editor_of_def Nil)
  ultimately show ?thesis using t Nil by (simp add: acts_refl)
next
  case (Cons x r)
  assume t: "term_wf t"
  show ?thesis by (rule acts_step [OF delete_step [OF t Cons]]) (simp add: Cons editor_of_def)
qed

lemma insert_acts: "term_wf t \<Longrightarrow> printable c \<Longrightarrow> acts (ed_insert c) t (term_self_insert t c)"
proof (cases "length (left t) + length (right t) + 1 < INBUF")
  case True
  assume t: "term_wf t" and c: "printable c"
  have "c \<noteq> NUL" "c \<noteq> BS" using c by (auto simp: printable_def BS_def)
  from acts_step [OF insert_step [OF t this True], of "ed_insert c"] True show ?thesis
    by (simp add: ed_insert_def editor_of_def)
next
  case False
  assume t: "term_wf t"
  from self_insert_full [OF t False] t False show ?thesis by (simp add: acts_refl ed_insert_def)
qed

lemma recall_acts:
  assumes "term_wf t" "hist_fits h" "hist_lines h = hist_lines (hist t)" "l = [] \<or> l \<in> set (hist_lines h)"
  shows "acts (\<lambda>e. e\<lparr>before := l, behind := [], depth := hist_back h\<rparr>) t (term_history_print (t\<lparr>hist := h\<rparr>) l)"
proof -
  let ?t = "t\<lparr>hist := h\<rparr>"
  have lr: "left ?t = left t" "right ?t = right t" by (simp_all add: left_def right_def)
  have wf: "term_wf ?t" using kept_wf [OF hist_kept [OF assms(1,2)]] .
  have "cstring l" "length l < INBUF" using assms(2,4) by (auto simp: hist_fits_def list_all_iff INBUF_def)
  then obtain e where e: "edited ?t l [] e (term_history_print ?t l)" "clean l \<Longrightarrow> draws (left t) (right t) e l []"
    using history_print_edited [OF wf] lr by metis
  from e(1) have f: "term_wf (term_history_print ?t l)" "left (term_history_print ?t l) = l" "right (term_history_print ?t l) = []"
    "same_frame ?t (term_history_print ?t l)" "mem_ok ?t \<longrightarrow> stream_bytes (out (term_history_print ?t l)) = stream_bytes (out t) @ e"
    by (simp_all add: edited_def)
  have cl: "clean l" if "list_all clean (hist_lines (hist t))" using that assms(3,4) by (auto simp: list_all_iff)
  show ?thesis unfolding acts_def follows_def
    using f e(2) cl assms(3) by (auto simp: same_frame_def mem_ok_def editor_of_def)
qed

lemma older_acts: "term_wf t \<Longrightarrow> acts ed_older t (term_previous_line t)"
proof -
  assume t: "term_wf t"
  let ?h = "hist t"
  have h: "hist_wf ?h" "hist_fits ?h" using t by (auto simp: term_wf_def hist_fits_def)
  show ?thesis
  proof (cases "hist_back ?h < length (hist_lines ?h)")
    case True
    let ?l = "hist_lines ?h ! (length (hist_lines ?h) - 1 - hist_back ?h)"
    obtain h' where h': "history_previous ?h = (Some ?l, h')" "hist_wf h'" "hist_lines h' = hist_lines ?h" "hist_back h' = Suc (hist_back ?h)"
      using history_previous_spec [OF h(1)] True by auto
    have "hist_fits h'" using h(2) h'(2,3) by (simp add: hist_fits_def)
    from recall_acts [OF t this h'(3), of ?l] True h' show ?thesis
      by (simp add: acts_def ed_older_def term_previous_line_def)
  next
    case False
    then have "history_previous ?h = (None, ?h)" using history_previous_spec [OF h(1)] by simp
    with False t show ?thesis by (simp add: acts_refl ed_older_def term_previous_line_def)
  qed
qed

lemma newer_acts: "term_wf t \<Longrightarrow> acts ed_newer t (term_next_line t)"
proof -
  assume t: "term_wf t"
  let ?h = "hist t"
  have h: "hist_wf ?h" "hist_fits ?h" using t by (auto simp: term_wf_def hist_fits_def)
  show ?thesis
  proof (cases "hist_back ?h = 0")
    case False
    let ?l = "if hist_back ?h = 1 then [] else hist_lines ?h ! (length (hist_lines ?h) + 1 - hist_back ?h)"
    obtain h' where h': "history_next ?h = (Some ?l, h')" "hist_wf h'" "hist_lines h' = hist_lines ?h" "hist_back h' = hist_back ?h - 1"
      using history_next_spec [OF h(1)] False by auto
    have "hist_fits h'" using h(2) h'(2,3) by (simp add: hist_fits_def)
    moreover have "hist_back ?h \<le> length (hist_lines ?h)" using h(1) by (simp add: hist_wf_def)
    then have "?l = [] \<or> ?l \<in> set (hist_lines h')" using h'(3) False by auto
    ultimately show ?thesis using recall_acts [OF t _ h'(3), of ?l] False h'
      by (simp add: acts_def ed_newer_def term_next_line_def)
  next
    case True
    then have "history_next ?h = (None, ?h)" using history_next_spec [OF h(1)] by simp
    with True t show ?thesis by (simp add: acts_refl ed_newer_def term_next_line_def)
  qed
qed

lemma acts_cong: "acts f t t' \<Longrightarrow> f (editor_of t) = g (editor_of t) \<Longrightarrow> acts g t t'"
  by (simp add: acts_def)

lemma escape_acts: "term_wf t \<Longrightarrow> escape t = TERM_ESCAPE \<Longrightarrow> acts (ed_key c) t (read_escape t c)"
  unfolding read_escape_def
  by (rule acts_cong [OF mode_acts [of "\<lambda>e. if c = CHR ''A'' then ed_older e else if c = CHR ''B'' then ed_newer e
        else if c = CHR ''C'' then ed_right e else if c = CHR ''D'' then ed_left e else e"]])
    (simp_all add: older_acts newer_acts right_acts left_acts acts_refl ed_key_def)

lemma word_acts:
  assumes "term_wf t"
  shows "acts ed_word_left t (term_backward_word t)" "acts ed_word_right t (term_forward_word t)"
    "acts (\<lambda>e. e\<lparr>behind := skip_word (behind e)\<rparr>) t (term_forward_kill_word t)"
    "acts (\<lambda>e. e\<lparr>before := strip_word (before e)\<rparr>) t (term_backward_kill_word t)"
  by (rule acts_step [OF backward_word_step [OF assms]] acts_step [OF forward_word_step [OF assms]]
      acts_step [OF forward_kill_word_step [OF assms]] acts_step [OF backward_kill_word_step [OF assms]],
      simp add: ed_word_left_def ed_word_right_def editor_of_def)+

lemma line_acts:
  assumes "term_wf t"
  shows "acts (\<lambda>e. e\<lparr>before := [], behind := before e @ behind e\<rparr>) t (term_beginning_of_line t)"
    "acts (\<lambda>e. e\<lparr>before := before e @ behind e, behind := []\<rparr>) t (term_end_of_line t)"
    "acts (\<lambda>e. e\<lparr>before := [], behind := []\<rparr>) t (term_kill_line_from_beginning t)"
    "acts (\<lambda>e. e\<lparr>behind := []\<rparr>) t (term_kill_line t)"
  by (rule acts_step [OF beginning_step [OF assms]] acts_step [OF end_step [OF assms]]
      acts_step [OF kill_from_beginning_step [OF assms]] acts_step [OF kill_step [OF assms]],
      simp add: editor_of_def)+

lemma CTRL_H: "CTRL (CHR ''H'') = CHR 0x08"
  by (simp add: CTRL_def char_of_def bit_0)

lemma pre_escape_acts:
  assumes "term_wf t" "escape t = TERM_PRE_ESCAPE"
  shows "acts (ed_key c) t (read_pre_escape t c)"
proof -
  note ops = word_acts [OF assms(1)] acts_refl [of t "\<lambda>e. e", OF assms(1) refl]
  have "acts (\<lambda>e. (if c = CHR ''b'' then ed_word_left e else if c = CHR ''f'' then ed_word_right e
         else if c = CHR ''d'' then e\<lparr>behind := skip_word (behind e)\<rparr>
         else if c = CTRL (CHR ''H'') \<or> c = CTRL_DEL then e\<lparr>before := strip_word (before e)\<rparr>
         else e)\<lparr>mode := (if c = CHR ''['' then TERM_ESCAPE else TERM_NORMAL)\<rparr>) t (read_pre_escape t c)"
    using ops [THEN mode_acts] by (simp add: read_pre_escape_def CTRL_H CTRL_DEL_def)
  then show ?thesis by (rule acts_cong) (simp add: ed_key_def assms(2) TERM_ESCAPE_def TERM_PRE_ESCAPE_def)
qed

lemma edit_acts:
  assumes "term_wf t" "escape t \<noteq> TERM_ESCAPE" "escape t \<noteq> TERM_PRE_ESCAPE"
  shows "acts (ed_key c) t (read_edit t c)"
proof -
  note ops = left_acts right_acts rubout_acts delete_acts newer_acts older_acts line_acts word_acts(3) insert_acts
    acts_refl [of t "\<lambda>e. e"] mode_acts [OF acts_refl [of t "\<lambda>e. e"]]
  have k: "acts (\<lambda>e. if c = CTRL (CHR ''B'') then ed_left e else if c = CTRL (CHR ''F'') then ed_right e
      else if c = CTRL (CHR ''H'') \<or> c = CTRL_DEL then e\<lparr>before := butlast (before e)\<rparr>
      else if c = CTRL (CHR ''D'') then e\<lparr>behind := tl (behind e)\<rparr>
      else if c = CTRL (CHR ''A'') then e\<lparr>before := [], behind := before e @ behind e\<rparr>
      else if c = CTRL (CHR ''E'') then e\<lparr>before := before e @ behind e, behind := []\<rparr>
      else if c = CTRL (CHR ''N'') then ed_newer e else if c = CTRL (CHR ''P'') then ed_older e
      else if c = CTRL (CHR ''U'') then e\<lparr>before := [], behind := []\<rparr>
      else if c = CTRL (CHR ''K'') then e\<lparr>behind := []\<rparr>
      else if c = CTRL (CHR ''W'') then e\<lparr>behind := skip_word (behind e)\<rparr>
      else if c = ESCAPE then e\<lparr>mode := TERM_PRE_ESCAPE\<rparr>
      else if printable c then ed_insert c e else e) t (read_edit t c)"
    unfolding read_edit_def using assms(1) by (simp add: ops)
  show ?thesis by (rule acts_cong [OF k]) (simp add: ed_key_def assms(2,3))
qed

lemma key_acts:
  assumes "term_wf t" "editing c"
  shows "acts (ed_key c) t (fst (term_read attrs run t bufs c))" "snd (term_read attrs run t bufs c) = bufs"
  using escape_acts [OF assms(1), of c] pre_escape_acts [OF assms(1), of c] edit_acts [OF assms(1), of c] assms(2)
  by (auto simp: term_read_def editing_def)

subsection \<open>Sequences of keys\<close>

text \<open>The terminal reads a sequence of bytes, one after the other.\<close>

fun term_reads ::
    "('o \<Rightarrow> 'b cmdoptattr) \<Rightarrow> ('f, 'o, 'b) handler \<Rightarrow> byte list \<Rightarrow> ('f, 'o) term \<times> ('o \<Rightarrow> 'b) \<Rightarrow> ('f, 'o) term \<times> ('o \<Rightarrow> 'b)" where
  "term_reads attrs run [] s = s"
| "term_reads attrs run (c # cs) s = term_reads attrs run cs (term_read attrs run (fst s) (snd s) c)"

lemma acts_trans: "acts f t t' \<Longrightarrow> acts g t' t'' \<Longrightarrow> acts (\<lambda>e. g (f e)) t t''"
  using follows_trans by (auto simp: acts_def)

lemma term_reads_acts:
  "term_wf t \<Longrightarrow> list_all editing cs \<Longrightarrow>
     acts (fold ed_key cs) t (fst (term_reads attrs run cs (t, bufs))) \<and> snd (term_reads attrs run cs (t, bufs)) = bufs"
proof (induction cs arbitrary: t)
  case Nil
  then show ?case by (simp add: acts_refl)
next
  case (Cons c cs)
  define t1 where "t1 = fst (term_read attrs run t bufs c)"
  have k: "acts (ed_key c) t t1" "term_read attrs run t bufs c = (t1, bufs)"
    using key_acts [OF Cons.prems(1), of c attrs run bufs] Cons.prems(2) by (auto simp: t1_def prod_eq_iff)
  have "term_wf t1" using k(1) by (simp add: acts_def follows_def)
  from Cons.IH [OF this] acts_trans [OF k(1), of "fold ed_key cs"] Cons.prems(2) k(2) show ?case by (simp add: o_def)
qed

subsection \<open>Properties\<close>

text \<open>
  C2. The line editor refines its specification: any sequence of editing keys, including
  escape sequences and the keys that recall lines of the history, keeps the terminal well
  formed (no access outside the 8192 bytes of the line, whatever allocations fail), runs no
  command, and changes the line, the cursor, the position in the history and the state of
  the escape sequence reader as the abstract editor does.
\<close>

theorem editor_refines:
  assumes "term_wf t" "list_all editing cs"
  shows "\<exists>t'. term_reads attrs run cs (t, bufs) = (t', bufs) \<and> term_wf t' \<and> editor_of t' = fold ed_key cs (editor_of t)"
  using term_reads_acts [OF assms, of attrs run bufs] by (auto simp: acts_def follows_def prod_eq_iff)

theorem editor_refines_witness:
  "\<exists>t'. term_reads (\<lambda>_. undefined) sample_run [CHR ''a'', CHR 0x02, CHR ''b''] (sample_term, undefined) = (t', undefined)
     \<and> left t' = ''b'' \<and> right t' = ''a''"
proof -
  let ?e = "editor_of sample_term"
  have l: "left sample_term = []" "right sample_term = []" "escape sample_term = 0"
    by (simp_all add: sample_term_def left_def right_def slice_def)
  have c: "CTRL (CHR ''B'') = CHR 0x02" "CTRL (CHR ''F'') = CHR 0x06" "CTRL (CHR ''D'') = CHR 0x04" "CTRL (CHR ''A'') = CHR 0x01"
    "CTRL (CHR ''E'') = CHR 0x05" "CTRL (CHR ''N'') = CHR 0x0E" "CTRL (CHR ''P'') = CHR 0x10" "CTRL (CHR ''U'') = CHR 0x15"
    "CTRL (CHR ''K'') = CHR 0x0B" "CTRL (CHR ''W'') = CHR 0x17" by (simp_all add: CTRL_def char_of_def bit_0)
  have "fold ed_key [CHR ''a'', CHR 0x02, CHR ''b''] ?e = ?e\<lparr>before := ''b'', behind := ''a''\<rparr>"
    by (simp add: ed_key_def ed_insert_def ed_left_def l c CTRL_H CTRL_DEL_def ESCAPE_def printable_def
        TERM_ESCAPE_def TERM_PRE_ESCAPE_def INBUF_def)
  moreover have "list_all editing [CHR ''a'', CHR 0x02, CHR ''b'']" by (simp add: editing_def)
  ultimately obtain t' where t': "term_reads (\<lambda>_. undefined) sample_run [CHR ''a'', CHR 0x02, CHR ''b''] (sample_term, undefined) = (t', undefined)"
    "editor_of t' = ?e\<lparr>before := ''b'', behind := ''a''\<rparr>"
    using editor_refines [OF sample_term_wf, of "[CHR ''a'', CHR 0x02, CHR ''b'']" "\<lambda>_. undefined" sample_run undefined] by auto
  then have "left t' = ''b''" "right t' = ''a''" using editor_of_sel(1,2) [of t'] by simp_all
  with t'(1) show ?thesis by blast
qed

text \<open>
  C10. What is on the screen is what is in the buffer: when the row of the screen shows the
  prompt and the line with the cursor in its place, and memory suffices, then after any
  sequence of editing keys the bytes put out turn it into a row that shows the prompt and
  the new line, with the cursor in its new place and blanks behind.
\<close>

theorem screen_shows_line:
  assumes "term_wf t" "list_all editing cs" "mem_ok t" "clean (left t @ right t)" "list_all clean (hist_lines (hist t))"
    and "shows_line p (left t) (right t) rw"
  shows "\<exists>t' e. fst (term_reads attrs run cs (t, bufs)) = t' \<and> stream_bytes (out t') = stream_bytes (out t) @ e
     \<and> shows_line p (left t') (right t') (fold putch e rw)"
  using term_reads_acts [OF assms(1,2), of attrs run bufs] assms(3-6) unfolding acts_def follows_def draws_def by blast

theorem screen_shows_line_witness:
  "\<exists>t' e. fst (term_reads (\<lambda>_. undefined) sample_run [CHR ''a'', CHR 0x02] (sample_term, undefined)) = t'
     \<and> stream_bytes (out t') = e \<and> shows_line ''Chaconne > '' (left t') (right t') (fold putch e (''Chaconne > '', 11))"
proof -
  have l: "left sample_term = []" "right sample_term = []" "stream_bytes (out sample_term) = []" "mem_ok sample_term"
    "hist_lines (hist sample_term) = []"
    using history_create_wf [of "hist sample_term"]
    by (simp_all add: sample_term_def left_def right_def slice_def mem_ok_def sample_env_def history_create_def)
  have "shows_line ''Chaconne > '' [] [] (''Chaconne > '', 11)" by (simp add: shows_line_def blanks_def)
  moreover have "list_all editing [CHR ''a'', CHR 0x02]" by (simp add: editing_def)
  ultimately show ?thesis
    using screen_shows_line [OF sample_term_wf, of "[CHR ''a'', CHR 0x02]" "''Chaconne > ''" _ "\<lambda>_. undefined" sample_run undefined] l
    by fastforce
qed

end
