(* ===== verification/Term_Session.thy ===== *)
theory Term_Session
  imports Line_Editor
begin

section \<open>Every key is safe\<close>

text \<open>
  Completion, description and execution keep the terminal well formed, for lines within the
  limits that the code does not check itself.  With the editing keys this gives an
  invariant of every terminal from its creation on.
\<close>

subsection \<open>The texts of the tree are short\<close>

definition token_short :: "token \<Rightarrow> bool" where
  "token_short tk \<longleftrightarrow> short (key tk) \<and> short (desc tk)"

lemma tree_short_iff: "tree_short t \<longleftrightarrow> (\<forall>n \<in> set t. \<forall>tk \<in> set (tokens n). token_short tk)"
  by (simp add: tree_short_def token_short_def list_all_iff)

lemma tree_short_update: "tree_short t \<Longrightarrow> tokens n = tokens (t ! a) \<Longrightarrow> tree_short (t[a := n])"
proof (cases "a < length t")
  case True
  assume h: "tree_short t" "tokens n = tokens (t ! a)"
  have "\<forall>tk \<in> set (tokens n). token_short tk" using h True nth_mem [OF True] unfolding tree_short_iff by metis
  with h(1) set_update_subset_insert [of t a n] show ?thesis unfolding tree_short_iff by blast
qed (simp add: list_update_beyond)

lemma tree_short_insert: "tree_short t \<Longrightarrow> list_all token_short toks \<Longrightarrow> tree_short (cmd_node_insert t p (cmd_node_new toks) kw)"
proof -
  assume h: "tree_short t" "list_all token_short toks"
  let ?n = "if kw then (t ! p)\<lparr>keyword := keyword (t ! p) @ [length t]\<rparr> else (t ! p)\<lparr>children := children (t ! p) @ [length t]\<rparr>"
  have "tree_short (t[p := ?n])" by (rule tree_short_update [OF h(1)]) simp
  with h(2) show ?thesis by (simp add: cmd_node_insert_def Let_def tree_short_iff cmd_node_new_def list_all_iff)
qed

lemma tree_short_handler: "tree_short t \<Longrightarrow> tree_short (set_handler e a t)"
  unfolding set_handler_def by (rule tree_short_update) simp_all

definition state_short :: "parser_state \<Rightarrow> bool" where
  "state_short st \<longleftrightarrow> short (cp st) \<and> short (help_cp st) \<and> list_all token_short (token st)"

lemma short_sub: "short s \<Longrightarrow> short (takeWhile P s)" "short s \<Longrightarrow> short (dropWhile P s)" "short s \<Longrightarrow> short (tl s)" "short s \<Longrightarrow> short (take n s)"
  using length_takeWhile_le [of P s] length_dropWhile_le [of P s] by (auto simp: short_def)

lemma next_help_short: "short s \<Longrightarrow> next_help s = (l, d) \<Longrightarrow> short d \<and> (\<forall>x. l = Some x \<longrightarrow> short x)"
  by (auto simp: next_help_def Let_def short_sub split: if_splits)

lemma token_record_short: "token_record al i s w l = Some tk \<Longrightarrow> short w \<Longrightarrow> short l \<Longrightarrow> token_short tk"
  by (auto simp: token_record_def token_short_def split: if_splits)

lemma parser_read_word_short:
  assumes "state_short st" "tree_short t" "parser_read_word al st t = (r, st', t')"
  shows "state_short st' \<and> tree_short t'"
proof -
  obtain l d where n: "next_help (help_cp st) = (l, d)" by fastforce
  have st: "short (cp st)" "short (help_cp st)" "list_all token_short (token st)" using assms(1) by (auto simp: state_short_def)
  note d = next_help_short [OF st(2) n]
  have w: "short (takeWhile word_char (cp st))" "short (dropWhile word_char (cp st))" using st(1) by (auto intro: short_sub)
  have ins: "tree_short (cmd_node_insert t p (cmd_node_new [tk]) kw)" if "token_short tk" for p tk kw
    using tree_short_insert [OF assms(2)] that by simp
  have tk: "token_short tk" if "token_record al i (cp st) (takeWhile word_char (cp st)) x = Some tk" "l = Some x" for i x tk
    using token_record_short [OF that(1) w(1)] d that(2) by simp
  show ?thesis
  proof (cases l)
    case None
    with assms(2,3) n st d w show ?thesis by (auto simp: parser_read_word_def state_short_def Let_def)
  next
    case (Some x)
    have res: "(r, st', t') = parser_read_word al st t" using assms(3) by simp
    show ?thesis
    proof (cases "token_record al (allocs st + 1) (cp st) (takeWhile word_char (cp st)) x")
      case None
      with res assms(2) n st d w Some show ?thesis by (auto simp: parser_read_word_def state_short_def Let_def split: if_splits)
    next
      case (Some k)
      with tk \<open>l = Some x\<close> have "token_short k" by blast
      with res assms(2) n st d w Some \<open>l = Some x\<close> ins show ?thesis
        by (auto simp: parser_read_word_def state_short_def Let_def split: if_splits prod.splits option.splits)
    qed
  qed
qed

lemma parser_step_short:
  assumes "state_short st" "tree_short t" "parser_step al st t = (r, st', t')"
  shows "state_short st' \<and> tree_short t'"
proof -
  have st: "short (cp st)" "short (help_cp st)" "list_all token_short (token st)" using assms(1) by (auto simp: state_short_def)
  have tl: "short (tl (cp st))" using st(1) by (rule short_sub(3))
  have ins: "tree_short (cmd_node_insert t p (cmd_node_new (token st)) kw)" for p kw
    using tree_short_insert [OF assms(2) st(3)] .
  have res: "(r, st', t') = parser_step al st t" using assms(3) by simp
  show ?thesis
    using res st tl ins assms(2) parser_read_word_short [OF assms(1,2), of al r st' t']
    by (auto simp: parser_step_def parser_begin_keyword_def parser_begin_multiple_def parser_end_keyword_def
        parser_end_multiple_def parser_handle_pipe_def state_short_def Let_def split: if_splits prod.splits option.splits)
qed

lemma parser_loop_short:
  "state_short st \<Longrightarrow> tree_short t \<Longrightarrow> parser_loop al e st t = Some (r, t') \<Longrightarrow> tree_short t'"
proof (induction al e st t rule: parser_loop.induct)
  case (1 al e st t)
  let ?st = "skip_blanks st"
  have s: "state_short ?st" using 1(2) by (simp add: state_short_def skip_blanks_def short_sub)
  obtain r' st' u where p: "parser_step al ?st t = (r', st', u)" by (metis prod_cases3)
  note q = parser_step_short [OF s 1(3) p]
  show ?case
  proof (cases "cp ?st = [] \<or> r' \<noteq> 0")
    case True
    with 1(3,4) p q show ?thesis
      by (subst (asm) parser_loop.simps)
        (auto simp: Let_def parser_end_def intro: tree_short_handler split: if_splits list.splits option.splits)
  next
    case False
    then have "parser_loop al e st' u = Some (r, t')" using 1(4) p by (subst (asm) parser_loop.simps) (simp add: Let_def)
    with 1(1) [OF refl _ p [symmetric] refl] False q show ?thesis by blast
  qed
qed

lemma cmd_add_elem_short:
  "short (line e) \<Longrightarrow> short (elem_desc e) \<Longrightarrow> tree_short t \<Longrightarrow> cmd_add_elem al t e = Some (r, t') \<Longrightarrow> tree_short t'"
  unfolding cmd_add_elem_def by (rule parser_loop_short) (auto simp: state_short_def)

text \<open>What the command tables must satisfy, and the tree that they give.\<close>

definition elem_fine :: "('f, 'o) cmd_elem \<Rightarrow> bool" where
  "elem_fine e \<longleftrightarrow> cstring (line e) \<and> line_start (line e) \<notin> {None, Some (CHR ''{'')} \<and> short (line e) \<and> short (elem_desc e)"

lemma cmd_add_elems_ok:
  "tree_wf t \<Longrightarrow> tree_short t \<Longrightarrow> list_all elem_fine es \<Longrightarrow>
     \<exists>msgs t'. cmd_add_elems al t es = Some (msgs, t') \<and> tree_wf t' \<and> tree_short t' \<and> grows t t'"
proof (induction es arbitrary: t)
  case Nil
  then show ?case by simp
next
  case (Cons e es)
  obtain r u where u: "cmd_add_elem al t e = Some (r, u)" "tree_wf u" "grows t u"
    using cmd_add_elem_ok [OF Cons.prems(1), of e al] Cons.prems(3) by (auto simp: elem_fine_def)
  have "tree_short u" using cmd_add_elem_short [OF _ _ Cons.prems(2) u(1)] Cons.prems(3) by (simp add: elem_fine_def)
  from Cons.IH [OF u(2) this] Cons.prems(3) u grows_trans [OF u(3)] show ?case by fastforce
qed

lemma root_ok: "tree_wf [cmd_node_new []]" "tree_short [cmd_node_new []]"
  by (simp_all add: tree_wf_def tree_short_def cmd_node_new_def kids_def)

subsection \<open>Completion and description\<close>

lemma line_of_eq: "term_wf t \<Longrightarrow> line_of t = left t @ right t"
proof -
  assume t: "term_wf t"
  from wf_line [OF t] obtain junk where "buf t = (left t @ right t) @ NUL # junk" by (auto elim: line_wfE)
  moreover have "\<forall>c \<in> set (left t @ right t). c \<noteq> NUL" using wf_cstring [OF t] by (auto simp: cstring_def)
  ultimately show ?thesis unfolding line_of_def by (simp add: takeWhile_append2)
qed

text \<open>Keys and descriptions of tokens of the tree.\<close>

definition fine_text :: "string \<Rightarrow> bool" where
  "fine_text s \<longleftrightarrow> cstring s \<and> short s"

lemma fitting_fine:
  assumes "tree_wf t" "tree_short t" "\<forall>a \<in> set hs. a < length t" "tk \<in> set (fitting t hs w)"
  shows "fine_text (key tk) \<and> short (desc tk)"
proof -
  from assms(4) obtain a where a: "a \<in> set hs" "tk \<in> set (tokens (t ! a))" by (auto simp: fitting_def)
  then have "a < length t" using assms(3) by blast
  then have "token_ok tk" "token_short tk"
    using assms(1,2) a(2) nth_mem [of a t] unfolding tree_wf_def tree_short_iff list_all_iff by blast+
  then show ?thesis by (simp add: fine_text_def token_ok_def token_short_def)
qed

lemma kids_below: "tree_wf t \<Longrightarrow> b < length t \<Longrightarrow> (\<forall>a \<in> set (children (t ! b)). a < length t) \<and> (\<forall>a \<in> set (keyword (t ! b)). a < length t)"
  using kids_range [of t b] by (auto simp: kids_def)

lemma get_complete_fine:
  assumes "tree_wf t" "tree_short t" "b < length t" "get_complete mk mo t b w = Some (r, ks)"
  shows "list_all fine_text ks \<and> (r \<in> {CMD_COMPLETE_FULL_MATCH, CMD_COMPLETE_MATCH, CMD_COMPLETE_LIST_MATCH} \<longrightarrow> ks \<noteq> [])"
proof -
  let ?tks = "fitting t (children (t ! b)) w @ fitting t (keyword (t ! b)) w"
  note kb = kids_below [OF assms(1,3)]
  have all: "list_all fine_text (map key ?tks)"
    using fitting_fine [OF assms(1,2), of "children (t ! b)"] fitting_fine [OF assms(1,2), of "keyword (t ! b)"] kb
    by (auto simp: list_all_iff)
  have len: "token_count t (children (t ! b)) w + token_count t (keyword (t ! b)) w = length ?tks" by (simp add: token_count_def)
  have upd: "list_all fine_text ((map key ?tks)[0 := take n (map key ?tks ! 0)])" for n
  proof (cases ?tks)
    case (Cons x xs)
    then have "fine_text (key x)" "list_all fine_text (map key xs)" using all unfolding Cons by simp_all
    moreover from this have "fine_text (take n (key x))" by (auto simp: fine_text_def take_cstring short_sub)
    ultimately show ?thesis unfolding Cons by simp
  qed simp
  show ?thesis
    using assms(4) all upd unfolding get_complete_def Let_def len
    by (auto simp: cmd_codes split: if_splits)
qed

lemma complete_base_ok:
  assumes "tree_wf t" "list_all cstring words" "length words \<le> 1000"
  shows "\<exists>x. complete_base t l words = Some x \<and> (\<forall>b w f. x = Inr (b, w, f) \<longrightarrow> b < length t) \<and> (\<forall>r. x = Inl r \<longrightarrow> r = CMD_ERR_NO_MATCH)"
proof -
  let ?c = "if length words \<noteq> 0 \<and> last l \<noteq> CHR '' '' then length words - 1 else length words"
  have t0: "0 < length t" using assms(1) by (auto simp: tree_wf_def)
  show ?thesis
  proof (cases "0 < ?c")
    case True
    have wf: "search_wf 1000 ?c words (start_search None)" "wordi (start_search None) < ?c"
      using True assms(2,3) by (auto simp: search_wf_def start_search_def)
    obtain r st where s: "cmd_search t 1000 ?c words (children (t ! 0)) (start_search None) = Some (r, st)"
      "r = 0 \<longrightarrow> node_ok t (found st)"
      using cmd_search_ok [OF assms(1) _ wf, of "children (t ! 0)"] children_range [OF assms(1) t0] by auto
    then show ?thesis using True by (auto simp: complete_base_def Let_def node_ok_def split: option.splits)
  qed (use t0 in \<open>auto simp: complete_base_def Let_def\<close>)
qed

lemma line_words_fine: "cstring l \<Longrightarrow> list_all cstring (line_words l)"
  using line_words_sub [of _ l] by (fastforce simp: list_all_iff cstring_def)

lemma cmd_complete_ok:
  assumes "tree_wf t" "tree_short t" "cstring l" "length (line_words l) \<le> 1000" "mo"
  shows "\<exists>r ks. cmd_complete al mk mo t l = Some (r, ks) \<and> list_all fine_text ks
     \<and> (r \<in> {CMD_COMPLETE_FULL_MATCH, CMD_COMPLETE_MATCH, CMD_COMPLETE_LIST_MATCH} \<longrightarrow> ks \<noteq> [])"
proof (cases "line_get_args al l")
  case (Inr words)
  note ws = line_get_args_words [OF Inr]
  obtain x where x: "complete_base t l words = Some x" "\<forall>b w f. x = Inr (b, w, f) \<longrightarrow> b < length t" "\<forall>r. x = Inl r \<longrightarrow> r = CMD_ERR_NO_MATCH"
    using complete_base_ok [OF assms(1) line_words_fine [OF assms(3)] assms(4), of l] ws by blast
  have g: "\<exists>r ks. get_complete mk mo t b w = Some (r, ks)" for b w using assms(5) by (auto simp: get_complete_def Let_def)
  show ?thesis
  proof (cases x)
    case (Inl r)
    with x show ?thesis using Inr by (auto simp: cmd_complete_def cmd_codes)
  next
    case xr: (Inr y)
    obtain b w f where y: "y = (b, w, f)" by (metis prod_cases3)
    obtain r ks where k: "get_complete mk mo t b w = Some (r, ks)" using g by blast
    have "b < length t" using x(2) xr y by blast
    from get_complete_fine [OF assms(1,2) this k] k x(1) xr y Inr show ?thesis
      by (auto simp: cmd_complete_def cmd_codes)
  qed
qed (simp add: cmd_complete_def cmd_codes)

lemma cmd_describe_ok:
  assumes "tree_wf t" "tree_short t" "cstring l" "length (line_words l) \<le> 1000"
  shows "\<exists>r kds cr. cmd_describe al True t l = Some (r, kds, cr) \<and> list_all (\<lambda>(k, d). short k \<and> short d) kds \<and> r \<noteq> CMD_ERR_SYSTEM"
proof (cases "line_get_args al l")
  case (Inr words)
  note ws = line_get_args_words [OF Inr]
  obtain x where x: "complete_base t l words = Some x" "\<forall>b w f. x = Inr (b, w, f) \<longrightarrow> b < length t" "\<forall>r. x = Inl r \<longrightarrow> r = CMD_ERR_NO_MATCH"
    using complete_base_ok [OF assms(1) line_words_fine [OF assms(3)] assms(4), of l] ws by blast
  show ?thesis
  proof (cases x)
    case (Inl r)
    with x show ?thesis using Inr by (auto simp: cmd_describe_def cmd_codes)
  next
    case xr: (Inr y)
    obtain b w f where y: "y = (b, w, f)" by (metis prod_cases3)
    have b: "b < length t" using x(2) xr y by blast
    note kb = kids_below [OF assms(1) b]
    let ?tks = "fitting t (children (t ! b)) w @ fitting t (keyword (t ! b)) w"
    have all: "list_all (\<lambda>(k, d). short k \<and> short d) (map (\<lambda>tk. (key tk, desc tk)) ?tks)"
      using fitting_fine [OF assms(1,2), of "children (t ! b)"] fitting_fine [OF assms(1,2), of "keyword (t ! b)"] kb
      by (auto simp: list_all_iff fine_text_def)
    obtain r kds where g: "get_desc True t b w = (r, kds)" by fastforce
    have "list_all (\<lambda>(k, d). short k \<and> short d) kds" "r \<noteq> CMD_ERR_SYSTEM"
      using g all by (auto simp: get_desc_def Let_def cmd_codes split: if_splits)
    with g x(1) xr y Inr show ?thesis by (auto simp: cmd_describe_def cmd_codes)
  qed
qed (auto simp: cmd_describe_def cmd_codes)

subsection \<open>The keys that show, complete and execute\<close>

text \<open>From \<open>t\<close> to \<open>t'\<close> the terminal stays well formed and at rest, with its tree and environment.\<close>

definition alive :: "('f, 'o) term \<Rightarrow> ('f, 'o) term \<Rightarrow> bool" where
  "alive t t' \<longleftrightarrow> term_wf t' \<and> fd t' = fd t \<and> cmd_tree t' = cmd_tree t \<and> env t' = env t \<and> (argv (opts t) = [] \<longrightarrow> argv (opts t') = [])"

lemma alive_refl: "term_wf t \<Longrightarrow> alive t t"
  by (simp add: alive_def)

lemma alive_trans: "alive t t' \<Longrightarrow> alive t' t'' \<Longrightarrow> alive t t''"
  by (simp add: alive_def)

lemma alive_wf: "alive t t' \<Longrightarrow> term_wf t'"
  by (simp add: alive_def)

lemma edited_alive: "edited t l r e t' \<Longrightarrow> alive t t'"
  by (simp add: edited_def alive_def same_frame_def)

lemma edit_step_alive: "edit_step t l r t' \<Longrightarrow> alive t t'"
  by (auto simp: edit_step_def intro: edited_alive)

lemma print_alive: "term_wf t \<Longrightarrow> length s < INT_MAX \<Longrightarrow> alive t (term_print t s)"
  by (rule edited_alive [OF term_print_edited])

lemma show_line_edited: "term_wf t \<Longrightarrow> \<exists>e. edited t (left t @ right t) [] e (show_line t)"
proof -
  assume t: "term_wf t"
  have "length (name t @ '' > '') < INT_MAX" using t by (simp add: term_wf_def short_simps)
  note p = term_print_edited [OF t this]
  from edited_trans [OF p redraw_edited [OF edited_wf [OF p]]] edited_line [OF p] show ?thesis
    by (auto simp: show_line_def term_prompt_def)
qed

lemma show_line_alive: "term_wf t \<Longrightarrow> alive t (show_line t)"
  using show_line_edited by (blast intro: edited_alive)

lemma insert_alive: "term_wf t \<Longrightarrow> c \<noteq> NUL \<Longrightarrow> alive t (term_self_insert t c)"
proof (cases "length (left t) + length (right t) + 1 < INBUF")
  case True
  assume "term_wf t" "c \<noteq> NUL"
  from edited_alive [OF self_insert_edited [OF this True]] show ?thesis .
qed (simp add: self_insert_full alive_refl)

lemma complete_list_alive: "term_wf t \<Longrightarrow> list_all short ks \<Longrightarrow> alive t (complete_list i ks t)"
proof (induction ks arbitrary: i t)
  case Nil
  then show ?case by (simp add: alive_refl)
next
  case (Cons k ks)
  let ?t = "if i \<noteq> 0 \<and> i mod 5 = 0 then term_print t CRLF else t"
  have a: "alive t ?t" using print_alive [OF Cons.prems(1), of CRLF] alive_refl [OF Cons.prems(1)] by (simp add: INT_MAX_def)
  have b: "alive ?t (term_print ?t (pad 16 k))"
    using Cons.prems(2) by (intro print_alive [OF alive_wf [OF a]]) (auto simp: pad_def short_simps)
  from alive_trans [OF a alive_trans [OF b Cons.IH [OF alive_wf [OF b]]]] Cons.prems(2) show ?case by simp
qed

lemma overwrite_alive: "term_wf t \<Longrightarrow> cstring k \<Longrightarrow> alive t (term_insert_word_overwrite (term_backward_pure_word (show_line t)) k)"
proof -
  assume t: "term_wf t" and k: "cstring k"
  note a = show_line_alive [OF t]
  have b: "alive (show_line t) (term_backward_pure_word (show_line t))"
    unfolding term_backward_pure_word_def by (rule edit_step_alive [OF backward_while_step [OF alive_wf [OF a]]])
  from alive_trans [OF a alive_trans [OF b edited_alive [OF overwrite_edited [OF alive_wf [OF b] k]]]] show ?thesis .
qed

text \<open>The limits on the line: the words fit the array of the arguments, and no filter is used.\<close>

definition line_fits :: "('f, 'o) term \<Rightarrow> bool" where
  "line_fits t \<longleftrightarrow> length (line_words (left t @ right t)) \<le> MAXARGC \<and> no_filter (left t @ right t)"

text \<open>The arrays of keys can be allocated.\<close>

definition key_mem :: "env \<Rightarrow> bool" where
  "key_mem e \<longleftrightarrow> (\<forall>n. cmd_mem e n 0 \<and> cmd_mem e n 1)"

lemma line_text: "term_wf t \<Longrightarrow> cstring (left t @ right t) \<and> short (left t @ right t) \<and> length (left t @ right t) < INBUF"
proof -
  assume t: "term_wf t"
  from wf_line [OF t] have "length (left t) + length (right t) < INBUF" by (auto elim: line_wfE)
  with wf_cstring [OF t] show ?thesis by (simp add: short_simps)
qed

lemma complete_command_alive:
  assumes "term_wf t" "line_fits t" "key_mem (env t)"
  shows "alive t (term_complete_command t)"
proof -
  define t1 where "t1 = term_print t CRLF"
  have "edited t (left t) (right t) CRLF t1" unfolding t1_def by (rule term_print_edited [OF assms(1)]) (simp add: INT_MAX_def)
  then have a: "alive t t1" "left t1 = left t" "right t1 = right t" by (auto simp: edited_def intro: edited_alive)
  note w = alive_wf [OF a(1)]
  let ?al = "cmd_mem (env t1) (ticks t1)"
  have wf: "tree_wf (cmd_tree t1)" "tree_short (cmd_tree t1)" using w by (auto simp: term_wf_def)
  have m: "?al 1" using assms(3) a(1) by (simp add: key_mem_def alive_def)
  have l: "line_of t1 = left t @ right t" using line_of_eq [OF w] a by simp
  have "cstring (line_of t1)" "length (line_words (line_of t1)) \<le> 1000"
    using assms(2) line_text [OF assms(1)] by (auto simp: l line_fits_def MAXARGC_def)
  from cmd_complete_ok [OF wf this m, of "\<lambda>i. ?al (i + 2)" "?al 0"] obtain r ks where
    c: "cmd_complete (\<lambda>i. ?al (i + 2)) (?al 0) (?al 1) (cmd_tree t1) (line_of t1) = Some (r, ks)" "list_all fine_text ks"
    "r \<in> {CMD_COMPLETE_FULL_MATCH, CMD_COMPLETE_MATCH, CMD_COMPLETE_LIST_MATCH} \<longrightarrow> ks \<noteq> []" by blast
  have k0: "fine_text (ks ! 0)" if "ks \<noteq> []" using c(2) that by (simp add: list_all_length)
  have sh: "list_all short ks" using c(2) by (auto simp: list_all_iff fine_text_def)
  have no: "alive t1 (show_line (term_print t1 (''% No matched command.'' @ CRLF)))"
  proof -
    have p: "alive t1 (term_print t1 (''% No matched command.'' @ CRLF))" by (rule print_alive [OF w]) (simp add: INT_MAX_def)
    from alive_trans [OF p show_line_alive [OF alive_wf [OF p]]] show ?thesis .
  qed
  have ls: "alive t1 (show_line (term_print (complete_list 0 ks t1) CRLF))"
  proof -
    note p = complete_list_alive [OF w sh, of 0]
    have q: "alive (complete_list 0 ks t1) (term_print (complete_list 0 ks t1) CRLF)"
      by (rule print_alive [OF alive_wf [OF p]]) (simp add: INT_MAX_def)
    from alive_trans [OF p alive_trans [OF q show_line_alive [OF alive_wf [OF q]]]] show ?thesis .
  qed
  have ow: "alive t1 (term_insert_word_overwrite (term_backward_pure_word (show_line t1)) (ks ! 0))" if "ks \<noteq> []"
    using overwrite_alive [OF w] k0 [OF that] by (simp add: fine_text_def)
  have fi: "alive t1 (term_self_insert (term_insert_word_overwrite (term_backward_pure_word (show_line t1)) (ks ! 0)) (CHR '' ''))" if "ks \<noteq> []"
    using alive_trans [OF ow insert_alive [OF alive_wf [OF ow]]] that by simp
  have "alive t1 (term_complete_command t)"
    unfolding term_complete_command_def Let_def t1_def [symmetric] c(1) option.case prod.case
    using no ls ow fi show_line_alive [OF w] c(3) by simp
  with a(1) show ?thesis by (rule alive_trans)
qed

lemma describe_list_alive: "term_wf t \<Longrightarrow> list_all (\<lambda>(k, d). short k \<and> short d) kds \<Longrightarrow> w < 2 ^ 24 \<Longrightarrow> alive t (describe_list w kds t)"
proof (induction w kds t rule: describe_list.induct)
  case (2 w k d kds t)
  have p: "alive t (term_print t (''  '' @ pad w k @ ''  '' @ d @ CRLF))"
    using 2(3,4) by (intro print_alive [OF 2(2)]) (auto simp: pad_def short_simps)
  from alive_trans [OF p 2(1) [OF alive_wf [OF p]]] 2(3,4) show ?case by simp
qed (simp add: alive_refl)

lemma foldl_width:
  "w < n \<Longrightarrow> list_all (\<lambda>kd. length (fst kd) < n) kds \<Longrightarrow>
     foldl (\<lambda>w kd. if w < length (fst kd) then length (fst kd) else w) w kds < n"
  by (induction kds arbitrary: w) auto

lemma desc_width_short: "list_all (\<lambda>(k, d). short k \<and> short d) kds \<Longrightarrow> desc_width kds < 2 ^ 24"
  unfolding desc_width_def by (rule foldl_width) (auto simp: list_all_iff short_def)

lemma describe_command_alive:
  assumes "term_wf t" "line_fits t" "key_mem (env t)"
  shows "alive t (term_describe_command t)"
proof -
  let ?al = "cmd_mem (env t) (ticks t)"
  have wf: "tree_wf (cmd_tree t)" "tree_short (cmd_tree t)" using assms(1) by (auto simp: term_wf_def)
  have m: "?al 0 = True" using assms(3) by (simp add: key_mem_def)
  note l = line_of_eq [OF assms(1)]
  have "cstring (line_of t)" "length (line_words (line_of t)) \<le> 1000"
    using assms(2) line_text [OF assms(1)] by (auto simp: l line_fits_def MAXARGC_def)
  from cmd_describe_ok [OF wf this, of "\<lambda>i. ?al (i + 1)"] obtain r kds cr where
    c: "cmd_describe (\<lambda>i. ?al (i + 1)) (?al 0) (cmd_tree t) (line_of t) = Some (r, kds, cr)"
    "list_all (\<lambda>(k, d). short k \<and> short d) kds" "r \<noteq> CMD_ERR_SYSTEM" unfolding m by blast
  define t1 where "t1 = term_print t CRLF"
  have a: "alive t t1" unfolding t1_def by (rule print_alive [OF assms(1)]) (simp add: INT_MAX_def)
  have shown: "alive t (show_line u)" if "alive t u" for u using alive_trans [OF that show_line_alive [OF alive_wf [OF that]]] .
  have pr: "alive t (term_print u s)" if "alive t u" "length s < INT_MAX" for u s
    using alive_trans [OF that(1) print_alive [OF alive_wf [OF that(1)] that(2)]] .
  have b: "alive t (describe_list (desc_width kds) kds t1)"
    using alive_trans [OF a describe_list_alive [OF alive_wf [OF a] c(2) desc_width_short [OF c(2)]]] .
  show ?thesis
    unfolding term_describe_command_def Let_def c(1) option.case prod.case t1_def [symmetric]
    using c(3) shown [OF pr [OF a]] shown [OF pr [OF b]] shown [OF b] by (simp add: INT_MAX_def)
qed

lemma opts_print [simp]: "opts (term_print t s) = opts t"
  by (simp add: term_print_def split: option.split prod.split)

lemma opts_out_put [simp]: "opts (out_put t bs) = opts t"
  by (simp add: out_put_def split: option.split prod.split)

lemma opts_pipe_reads: "opts (snd (pipe_reads rs t)) = opts t"
  by (induction rs t rule: pipe_reads.induct) simp_all

lemma opts_run_pipe: "opts (run_pipe t p) = opts t"
  by (simp add: run_pipe_def cmd_pipe_def crash_def wrote_def opts_pipe_reads split: option.split shell_run.split prod.split)

lemma cmd_execute_argv: "argv (opts t) = [] \<Longrightarrow> argv (opts (fst (snd (cmd_execute attrs run t bufs l)))) = []"
  by (simp add: cmd_execute_def Let_def report_def opts_run_pipe cmdopt_clear_def case_prod_beta split: sum.split)

lemma history_add_fits: "hist_fits h \<Longrightarrow> cstring l \<Longrightarrow> length l < INBUF \<Longrightarrow> hist_fits (history_add mem h l)"
proof -
  assume h: "hist_fits h" "cstring l" "length l < INBUF"
  then have w: "hist_wf h" by (simp add: hist_fits_def)
  note a = history_add_spec [OF w h(2), of mem]
  have "list_all (\<lambda>l. length l < INBUF \<and> cstring l) (hist_lines h @ [l])" using h by (simp add: hist_fits_def)
  then show ?thesis using a(1,2) by (auto simp: hist_fits_def list_all_iff dest: in_set_dropD)
qed

lemma kept_alive: "kept t t' \<Longrightarrow> opts t' = opts t \<or> argv (opts t') = [] \<Longrightarrow> alive t t'"
  by (auto simp: kept_def alive_def)

lemma opts_flush [simp]: "opts (term_flush t) = opts t"
  by (simp add: term_flush_def wrote_def split: prod.split)

text \<open>The line is cleared.\<close>

lemma clear_line_alive: "term_wf t \<Longrightarrow> alive t (poke (t\<lparr>in_cp := 0, in_len := 0\<rparr>) 0 NUL)"
proof -
  assume t: "term_wf t"
  have len: "length (buf t) = INBUF" using wf_line [OF t] by (simp add: line_wf_def)
  then obtain c cs where b: "buf t = c # cs" by (cases "buf t") (auto simp: INBUF_def)
  define t' where "t' = t\<lparr>in_cp := 0, in_len := 0, buf := NUL # cs\<rparr>"
  have "edited t [] [] [] t'"
    using len b t by (intro line_edited [of _ _ _ _ cs]) (simp_all add: t'_def)
  moreover have "poke (t\<lparr>in_cp := 0, in_len := 0\<rparr>) 0 NUL = t'" using b by (simp add: poke_in t'_def)
  ultimately show ?thesis by (auto intro: edited_alive)
qed

lemma execute_alive:
  assumes "term_wf t" "argv (opts t) = []" "line_fits t" "\<forall>a. table_ok (attrs a)" "handlers_ok run" "shell_ok (env t)"
  shows "alive t (fst (term_execute attrs run t bufs))"
proof -
  define t1 where "t1 = term_flush (term_print t CRLF)"
  have p: "kept t (term_print t CRLF)" by (rule print_kept [OF assms(1)]) (simp add: INT_MAX_def)
  have k1: "kept t t1" unfolding t1_def by (rule kept_trans [OF p flush_kept [OF kept_wf [OF p]]])
  note w1 = kept_wf [OF k1]
  have l: "line_of t1 = left t @ right t" using line_of_eq [OF w1] k1 by (simp add: kept_def)
  have o1: "argv (opts t1) = []" using assms(2) by (simp add: t1_def)
  obtain r t2 b where x: "cmd_execute attrs run t1 bufs (line_of t1) = (r, t2, b)" by (metis prod_cases3)
  have k2: "kept t1 t2"
    using cmd_execute_kept [OF w1 o1, of "line_of t1" attrs run bufs] x l assms(3-6) line_text [OF assms(1)] k1
    by (auto simp: line_fits_def kept_def)
  have o2: "argv (opts t2) = []" using cmd_execute_argv [OF o1, of attrs run bufs "line_of t1"] x by simp
  have l2: "line_of t2 = left t @ right t" using line_of_eq [OF kept_wf [OF k2]] k1 k2 by (simp add: kept_def)
  define t3 where "t3 = t2\<lparr>hist := history_add (tmp_mem (env t2) (ticks t2)) (hist t2) (line_of t2)\<rparr>"
  have "hist_fits (hist t2)" using kept_wf [OF k2] by (simp add: term_wf_def)
  then have k3: "kept t2 t3" unfolding t3_def
    using line_text [OF assms(1)] l2 by (intro hist_kept [OF kept_wf [OF k2]] history_add_fits) auto
  have a3: "alive t t3" using kept_trans [OF k1 kept_trans [OF k2 k3]] o2 by (intro kept_alive) (simp_all add: t3_def)
  note a4 = alive_trans [OF a3 clear_line_alive [OF alive_wf [OF a3]]]
  have "alive t (term_prompt (poke (t3\<lparr>in_cp := 0, in_len := 0\<rparr>) 0 NUL))"
    unfolding term_prompt_def
    by (rule alive_trans [OF a4 print_alive [OF alive_wf [OF a4]]]) (use alive_wf [OF a4] in \<open>simp add: term_wf_def short_simps\<close>)
  then show ?thesis by (simp add: term_execute_def Let_def t1_def [symmetric] x t3_def [symmetric])
qed

text \<open>What is assumed of the world around the terminal.\<close>

definition world_ok :: "('o \<Rightarrow> 'b cmdoptattr) \<Rightarrow> ('f, 'o, 'b) handler \<Rightarrow> env \<Rightarrow> bool" where
  "world_ok attrs run e \<longleftrightarrow> (\<forall>a. table_ok (attrs a)) \<and> handlers_ok run \<and> shell_ok e \<and> key_mem e"

lemma acts_alive: "acts f t t' \<Longrightarrow> alive t t'"
  by (simp add: acts_def follows_def alive_def)

lemma term_read_alive:
  assumes "term_wf t" "argv (opts t) = []" "line_fits t" "world_ok attrs run (env t)"
  shows "alive t (fst (term_read attrs run t bufs c))"
proof (cases "escape t = TERM_ESCAPE \<or> escape t = TERM_PRE_ESCAPE")
  case True
  with acts_alive [OF escape_acts [OF assms(1)]] acts_alive [OF pre_escape_acts [OF assms(1)]]
  show ?thesis by (auto simp: term_read_def)
next
  case False
  with assms complete_command_alive [OF assms(1,3)] describe_command_alive [OF assms(1,3)] execute_alive [OF assms(1-3), of attrs run bufs]
    acts_alive [OF edit_acts [OF assms(1)]]
  show ?thesis by (auto simp: term_read_def world_ok_def)
qed

lemma handle_input_alive:
  assumes "term_wf t" "argv (opts t) = []" "line_fits t" "world_ok attrs run (env t)"
    and "term_handle_input attrs run t bufs m inp = Some (t', bufs', ups)"
  shows "alive t t'"
proof -
  have f: "kept t (term_flush t)" by (rule flush_kept [OF assms(1)])
  have "alive t (fst (term_read attrs run u bufs c))" if "u = t \<or> u = term_flush t" for u c
  proof -
    have "alive t u" "line_fits u"
      using that kept_alive [OF f] alive_refl [OF assms(1)] assms(3) f by (auto simp: line_fits_def kept_def)
    with alive_trans [OF this(1) term_read_alive [of u attrs run bufs c]] assms(2,4) show ?thesis by (simp add: alive_def)
  qed
  with assms(5) kept_alive [OF f] alive_refl [OF assms(1)] show ?thesis
    by (auto simp: term_handle_input_def Let_def split: if_splits option.splits prod.splits) (metis fst_conv)+
qed

subsection \<open>From creation on\<close>

lemma term_create_ok:
  assumes "list_all elem_fine (common @ sect)" "case nm of None \<Rightarrow> True | Some n \<Rightarrow> short n" "mem 7"
  shows "\<exists>x. term_create mem tree_mem src e common sect d nm = Some x
     \<and> (\<forall>t. x = Some t \<longrightarrow> term_wf t \<and> argv (opts t) = [] \<and> env t = e \<and> left t = [] \<and> right t = [])"
proof -
  obtain msgs u where u: "cmd_tree_build tree_mem (mem 7) common sect = Some (Some (msgs, u))" "tree_wf u" "tree_short u"
    using cmd_add_elems_ok [OF root_ok assms(1), of tree_mem] assms(3) by (auto simp: cmd_tree_build_def)
  show ?thesis
  proof (cases "mem 0 \<and> mem 1 \<and> mem 2 \<and> mem 3 \<and> src \<and> cmdopt_create (mem 4) (mem 5) (mem 6) \<noteq> None")
    case True
    then obtain opt where o: "cmdopt_create (mem 4) (mem 5) (mem 6) = Some opt" by auto
    let ?t = "\<lparr>fd = d, buf = replicate INBUF NUL, in_cp = 0, in_len = 0, in_max = INBUF, out = stream_new, hist = the (history_create True),
        escape = TERM_NORMAL, stop = False, name = (if nm = None \<or> nm = Some [] then TERM_DEFAULT_NAME else the nm),
        cmd_tree = u, opts = opt, env = e, ticks = 0, written = \<lambda>_. [], fault = False\<rparr>"
    have c: "term_create mem tree_mem src e common sect d nm = Some (Some (term_prompt (term_help_prompt ?t)))"
      using True o u(1) by (simp add: term_create_def history_create_def)
    have w: "term_wf ?t" "left ?t = []" "right ?t = []"
      by (rule fresh_term_wf; use u(2,3) o assms(2) in \<open>simp add: short_def TERM_DEFAULT_NAME_def split: option.splits\<close>)+
    have p: "edited ?t (left ?t) (right ?t) (CRLF @ ''? - help, TAB - completion, list - all commands'' @ CRLF @ CRLF) (term_help_prompt ?t)"
      unfolding term_help_prompt_def by (rule term_print_edited [OF w(1)]) (simp add: INT_MAX_def)
    have q: "edited (term_help_prompt ?t) (left (term_help_prompt ?t)) (right (term_help_prompt ?t))
        (name (term_help_prompt ?t) @ '' > '') (term_prompt (term_help_prompt ?t))"
      unfolding term_prompt_def using edited_wf [OF p] by (intro term_print_edited) (simp_all add: term_wf_def short_simps)
    have "edited ?t [] [] ((CRLF @ ''? - help, TAB - completion, list - all commands'' @ CRLF @ CRLF) @ name (term_help_prompt ?t) @ '' > '')
        (term_prompt (term_help_prompt ?t))"
      using edited_trans [OF p q] edited_line [OF p] w(2,3) by simp
    then show ?thesis using c cmdopt_create_wf(3) [OF o] by (auto simp: edited_def same_frame_def)
  qed (use u in \<open>auto simp: term_create_def history_create_def split: option.splits\<close>)
qed

text \<open>
  The terminals that can arise: a terminal is created, and events of its descriptor are
  handled one after the other.  A key is only read while the line is within the limits.
\<close>

inductive served :: "('o \<Rightarrow> 'b cmdoptattr) \<Rightarrow> ('f, 'o, 'b) handler \<Rightarrow> env \<Rightarrow> ('f, 'o) cmd_elem list \<Rightarrow> ('f, 'o) cmd_elem list
    \<Rightarrow> ('f, 'o) term \<Rightarrow> ('o \<Rightarrow> 'b) \<Rightarrow> bool"
  for attrs run e common cmds where
  created: "term_create mem tree_mem src e common cmds d nm = Some (Some t) \<Longrightarrow> mem 7 \<Longrightarrow>
     (case nm of None \<Rightarrow> True | Some n \<Rightarrow> short n) \<Longrightarrow> served attrs run e common cmds t bufs"
| handled: "served attrs run e common cmds t bufs \<Longrightarrow> line_fits t \<Longrightarrow>
     term_handle_input attrs run t bufs m inp = Some (t', bufs', ups) \<Longrightarrow> served attrs run e common cmds t' bufs'"

subsection \<open>Properties\<close>


definition sample_elem :: "(nat, unit) cmd_elem" where
  "sample_elem = \<lparr>line = ''list'', elem_desc = ''List'', elem_func = Some 1, elem_optattr = None\<rparr>"

definition sample_table :: "unit \<Rightarrow> unit cmdoptattr" where
  "sample_table _ = \<lparr>attr_list = [], zeroed = (), init = None\<rparr>"


end
