(* ===== verification/Commands.thy ===== *)
theory Commands
  imports Term_Session Comparator
begin

section \<open>The commands (cli-command.c, calc\_cmd.c, test.c, cli-tree.c)\<close>

text \<open>
  The handlers of the built-in commands, as functions of the terminal, and their entries in the
  command tables.  Outside the model, as the fields of \<open>world\<close>, are the status that
  \<open>system\<close> returns, whether the calculator returns, and the outcome of the test
  processes.  The commands of cpuid.c and mdio.c are \<open>Cmd_other\<close>.
\<close>

datatype command =
    List_commands | Quit_terminal | Exit_terminal | Show_history | Show_cmdtree
  | Cmd_system | Cmd_keyword | Cmd_calc_exp | Cmd_test | Cmd_other nat

datatype opt_table = Keyword_optattr

datatype child = Exited int | Killed int

record test =
  test_name :: string
  test_group :: string

record keywordopt =
  subcmd :: "string option"
  number :: int
  eleven :: bool

type_synonym cmd_term = "(command, opt_table) term"
type_synonym cmd_bufs = "opt_table \<Rightarrow> keywordopt"
type_synonym cmd_table = "(command, opt_table) cmd_elem list"

record world =
  system_status :: "nat \<Rightarrow> string \<Rightarrow> int"
  errno_text :: "nat \<Rightarrow> string"
  calc_returns :: "string \<Rightarrow> bool"
  tests :: "test list"
  outcome :: "test \<Rightarrow> child"
  other_cmd :: "nat \<Rightarrow> cmd_term \<Rightarrow> int \<times> cmd_term"

subsection \<open>Listing the commands\<close>

definition elem_compare :: "('f, 'o) cmd_elem \<Rightarrow> ('f, 'o) cmd_elem \<Rightarrow> int" where
  "elem_compare a b = strcmp (line a) (line b)"

text \<open>\<open>qsort\<close> of the C library.\<close>

fun insort_by :: "('a \<Rightarrow> 'a \<Rightarrow> int) \<Rightarrow> 'a \<Rightarrow> 'a list \<Rightarrow> 'a list" where
  "insort_by cmp x [] = [x]"
| "insort_by cmp x (y # ys) = (if cmp x y \<le> 0 then x # y # ys else y # insort_by cmp x ys)"

definition qsort :: "('a \<Rightarrow> 'a \<Rightarrow> int) \<Rightarrow> 'a list \<Rightarrow> 'a list" where
  "qsort cmp xs = foldr (insort_by cmp) xs []"

definition cmd_list_elems :: "('f, 'o) cmd_elem list \<Rightarrow> ('f, 'o) cmd_elem list \<Rightarrow> ('f, 'o) term \<Rightarrow> ('f, 'o) term" where
  "cmd_list_elems common sect t =
     (if \<not> tmp_mem (env t) (ticks t) then t
      else fold (\<lambda>e t. term_print t (''  '' @ line e @ CRLF)) (common @ qsort elem_compare sect) t)"

subsection \<open>Dumping the tree\<close>

text \<open>\<open>stream_puts\<close> with its result.\<close>

definition puts :: "('f, 'o) term \<Rightarrow> string \<Rightarrow> int \<times> ('f, 'o) term" where
  "puts t str =
     (case stream_vputs (put_mem (env t) (ticks t)) (tmp_mem (env t) (ticks t)) (out t) str of
        None \<Rightarrow> (0, t\<lparr>fault := True, ticks := Suc (ticks t)\<rparr>)
      | Some (r, s) \<Rightarrow> (r, t\<lparr>out := s, ticks := Suc (ticks t)\<rparr>))"

definition LS_MAX :: nat where "LS_MAX = 32"

record ls =
  ls_width :: "int list"
  ls_more :: "bool list"

definition dump_indent :: "ls \<Rightarrow> nat \<Rightarrow> bool \<Rightarrow> bool \<Rightarrow> ('f, 'o) term \<Rightarrow> ('f, 'o) term" where
  "dump_indent l level final opt t =
     fold (\<lambda>i t.
       let t = ((\<lambda>t. term_print t '' '') ^^ nat (ls_width l ! i + 1)) t
       in term_print t (if i + 1 = level then (if opt then ''*-'' else if final then ''`-'' else ''|-'')
                        else if ls_more l ! (i + 1) then ''| '' else ''  '')) [0..<level] t"

fun dump_tokens :: "bool \<Rightarrow> token list \<Rightarrow> int \<Rightarrow> ('f, 'o) term \<Rightarrow> int \<times> ('f, 'o) term" where
  "dump_tokens first [] len t = (len, t)"
| "dump_tokens first (tk # tks) len t =
     (case puts t (if first then key tk else CHR ''|'' # key tk) of (r, t) \<Rightarrow> dump_tokens False tks (len + r) t)"

text \<open>
  \<open>_cmd_tree_dump\<close>, with a bound on the depth of the recursion.  The arrays of \<open>struct ls\<close> have
  32 elements, and the level is not checked.
\<close>

fun cmd_tree_dump ::
    "nat \<Rightarrow> ('f, 'o) tree \<Rightarrow> nat \<Rightarrow> bool \<Rightarrow> bool \<Rightarrow> bool \<Rightarrow> addr \<Rightarrow> ('f, 'o) term \<times> ls \<Rightarrow> ('f, 'o) term \<times> ls" where
  "cmd_tree_dump 0 tr level first final opt a (t, l) = (crash t, l)"
| "cmd_tree_dump (Suc k) tr level first final opt a (t, l) =
     (if LS_MAX \<le> level then (crash t, l)
      else
        let n = tr ! a;
            t = (if first then t else dump_indent l level final opt t);
            (len, t) = (if level = 0 then puts t ''cmd'' else dump_tokens True (tokens n) 0 t);
            under_keyword = (case parent n of None \<Rightarrow> False | Some p \<Rightarrow> keyword (tr ! p) \<noteq> []);
            l = l\<lparr>ls_width := (ls_width l)[level := len], ls_more := (ls_more l)[level := under_keyword \<or> \<not> final]\<rparr>;
            t = (if children n = [] \<and> keyword n = [] then term_print t CRLF else t);
            st = fold (\<lambda>(i, c) (t, l).
                   cmd_tree_dump k tr (level + 1) (i = 0) (i + 1 = length (children n)) False c
                     (if i = 0 then term_print t (if length (children n) > 1 then ''-+-'' else ''---'') else t, l))
                 (enumerate 0 (children n)) (t, l)
        in fold (\<lambda>(i, c) (t, l).
             cmd_tree_dump k tr (level + 1) (children n = [] \<and> i = 0) (i + 1 = length (keyword n)) True c
               (if children n = [] \<and> i = 0 then term_print t ''-*-'' else t, l))
             (enumerate 0 (keyword n)) st)"

definition cmd_tree_travel :: "('f, 'o) tree \<Rightarrow> ('f, 'o) term \<Rightarrow> ('f, 'o) term" where
  "cmd_tree_travel tr t =
     (if tr = [] then t
      else fst (cmd_tree_dump (Suc LS_MAX) tr 0 True True False 0 (t, \<lparr>ls_width = replicate LS_MAX 0, ls_more = replicate LS_MAX False\<rparr>)))"

subsection \<open>Handlers\<close>

definition list_commands :: "cmd_table \<Rightarrow> cmd_table \<Rightarrow> cmd_term \<Rightarrow> int \<times> cmd_term" where
  "list_commands common sect t = (0, cmd_list_elems common sect t)"

definition quit_terminal :: "cmd_term \<Rightarrow> int \<times> cmd_term" where
  "quit_terminal t = (0, term_quit (term_flush (out_putc t (CHR 0x04))))"

definition exit_terminal :: "cmd_term \<Rightarrow> int \<times> cmd_term" where
  "exit_terminal t = (0, term_quit (term_flush t))"

definition show_history :: "cmd_term \<Rightarrow> int \<times> cmd_term" where
  "show_history t = (0, term_show_history (TERM_MAXHIST + 2) t)"

definition show_cmdtree :: "cmd_term \<Rightarrow> int \<times> cmd_term" where
  "show_cmdtree t = (0, cmd_tree_travel (cmd_tree t) t)"

text \<open>The loop of \<open>sprintf\<close> calls into a buffer of \<open>cap\<close> bytes, behind the text \<open>acc\<close>; \<open>None\<close> writes behind its end.\<close>

fun sprintf_args :: "nat \<Rightarrow> string \<Rightarrow> string list \<Rightarrow> string option" where
  "sprintf_args cap acc [] = Some acc"
| "sprintf_args cap acc (w # ws) =
     (if length (acc @ '' '' @ w) + 1 > cap then None else sprintf_args cap (acc @ '' '' @ w) ws)"

fun join_args :: "nat \<Rightarrow> string list \<Rightarrow> string option" where
  "join_args cap [] = Some []"
| "join_args cap (w # ws) = (if length w + 1 > cap then None else sprintf_args cap w ws)"

definition SYSBUF :: nat where "SYSBUF = 1024"

definition WIFSIGNALED :: "int \<Rightarrow> bool" where
  "WIFSIGNALED i \<longleftrightarrow> i mod 128 \<noteq> 0 \<and> i mod 128 \<noteq> 127"

text \<open>The number of a signal is printed as a string: its format \<open>%s\<close> follows it as a pointer.\<close>

definition cmd_system :: "world \<Rightarrow> cmd_term \<Rightarrow> int \<times> cmd_term" where
  "cmd_system W t =
     (if argv (opts t) = [] then (0, t)
      else case join_args SYSBUF (argv (opts t)) of
        None \<Rightarrow> (0, crash t)
      | Some b \<Rightarrow>
          let i = system_status W (ticks t) b in
          if i = -1 then (CMD_ERR_SYSTEM, term_print t (''system error: '' @ errno_text W (ticks t) @ CRLF))
          else if WIFSIGNALED i then (CMD_ERR_SYSTEM, crash t)
          else (0, t))"

definition kpair_dump :: "string \<Rightarrow> string \<Rightarrow> ('f, 'o) term \<Rightarrow> ('f, 'o) term" where
  "kpair_dump k v t = term_print t (''  '' @ k @ '': '' @ v @ ''.'' @ CRLF)"

definition print_args :: "('f, 'o) term \<Rightarrow> ('f, 'o) term" where
  "print_args t =
     (let n = hashtable_count (kpairs (opts t));
          as = argv (opts t);
          t = (if as = [] then t
               else fold (\<lambda>(i, w) t. term_print t (''  '' @ dec i @ '': '' @ w @ ''.'' @ CRLF)) (enumerate 0 as)
                      (term_print t (''argc '' @ dec (length as) @ CRLF)))
      in if n = 0 then t
         else hashtable_travel (kpairs (opts t)) kpair_dump (term_print t (''keywords '' @ dec n @ CRLF)))"

text \<open>The decimal text of an \<open>int\<close>, and \<open>strtol\<close> with base 10, stored to an \<open>int\<close>.\<close>

definition dec_int :: "int \<Rightarrow> string" where
  "dec_int i = (if i < 0 then CHR ''-'' # dec (nat (- i)) else dec (nat i))"

definition strtol :: "string \<Rightarrow> int" where
  "strtol s =
     (let r = dropWhile isspace s;
          sgn = (r \<noteq> [] \<and> (hd r = CHR ''-'' \<or> hd r = CHR ''+''));
          v = int (value_of 10 (takeWhile (is_digit 10) (if sgn then tl r else r)))
      in if sgn \<and> hd r = CHR ''-'' then max (- (2 ^ 63)) (- v) else min (2 ^ 63 - 1) v)"

definition keywordopt_init :: "keywordopt \<Rightarrow> keywordopt" where
  "keywordopt_init k = k\<lparr>subcmd := None, number := -1, eleven := False\<rparr>"

definition set_strptr :: "string \<Rightarrow> keywordopt \<Rightarrow> int \<times> keywordopt" where
  "set_strptr s k = (0, k\<lparr>subcmd := Some s\<rparr>)"

definition set_i32 :: "string \<Rightarrow> keywordopt \<Rightarrow> int \<times> keywordopt" where
  "set_i32 s k = (0, k\<lparr>number := sint (word_of_int (strtol s) :: 32 word)\<rparr>)"

definition set_bool :: "string \<Rightarrow> keywordopt \<Rightarrow> int \<times> keywordopt" where
  "set_bool s k = (0, k\<lparr>eleven := True\<rparr>)"

definition keyword_attrs :: "keywordopt optattr list" where
  "keyword_attrs =
     [\<lparr>attr_index = 0, attr_key = None, attr_set = set_strptr\<rparr>,
      \<lparr>attr_index = -1, attr_key = Some ''third'', attr_set = set_i32\<rparr>,
      \<lparr>attr_index = -1, attr_key = Some ''eleven'', attr_set = set_bool\<rparr>]"

definition keyword_optattr :: "opt_table \<Rightarrow> keywordopt cmdoptattr" where
  "keyword_optattr x =
     \<lparr>attr_list = keyword_attrs, zeroed = \<lparr>subcmd = None, number = 0, eleven = False\<rparr>, init = Some keywordopt_init\<rparr>"

definition cmd_keyword :: "cmd_term \<Rightarrow> cmd_bufs \<Rightarrow> int \<times> cmd_term" where
  "cmd_keyword t bufs =
     (let k = bufs Keyword_optattr;
          t = print_args t;
          t = term_print t (''subcmd '' @ (case subcmd k of None \<Rightarrow> ''(null)'' | Some s \<Rightarrow> s) @ ''.'' @ CRLF);
          t = term_print t (''number '' @ dec_int (number k) @ ''.'' @ CRLF)
      in (0, term_print t (''eleven '' @ (if eleven k then ''1'' else ''0'') @ ''.'' @ CRLF)))"

definition cmd_calc_exp :: "world \<Rightarrow> cmd_term \<Rightarrow> int \<times> cmd_term" where
  "cmd_calc_exp W t =
     (if argv (opts t) = [] then (0, term_print t (''expect an expression'' @ CRLF))
      else case join_args SYSBUF (argv (opts t)) of
        None \<Rightarrow> (0, crash t)
      | Some b \<Rightarrow> (0, if calc_returns W b then t else crash t))"

definition selected :: "string option \<Rightarrow> string option \<Rightarrow> test \<Rightarrow> bool" where
  "selected nm gr x \<longleftrightarrow>
     \<not> (case nm of None \<Rightarrow> False | Some s \<Rightarrow> strcmp s (test_name x) \<noteq> 0) \<and>
     \<not> (case gr of None \<Rightarrow> False | Some s \<Rightarrow> strcmp s (test_group x) \<noteq> 0)"

fun run_tests :: "world \<Rightarrow> string option \<Rightarrow> string option \<Rightarrow> test list \<Rightarrow> nat \<times> nat \<Rightarrow> nat \<times> nat" where
  "run_tests W nm gr [] (cnt, pass) = (cnt, pass)"
| "run_tests W nm gr (x # xs) (cnt, pass) =
     (if selected nm gr x then run_tests W nm gr xs (cnt + 1, if outcome W x = Exited 0 then pass + 1 else pass)
      else run_tests W nm gr xs (cnt, pass))"

definition cmd_test :: "world \<Rightarrow> cmd_term \<Rightarrow> int \<times> cmd_term" where
  "cmd_test W t =
     (case (hashtable_get (kpairs (opts t)) ''-name'', hashtable_get (kpairs (opts t)) ''-group'') of
        (Some nm, Some gr) \<Rightarrow> (case run_tests W nm gr (tests W) (0, 0) of (cnt, pass) \<Rightarrow> (if pass = cnt then 0 else 1, t))
      | _ \<Rightarrow> (0, crash t))"

subsection \<open>Tables\<close>

definition common_cmds :: cmd_table where
  "common_cmds =
     [\<lparr>line = ''list'', elem_desc = ''List all defined commands'' @ [CHR 0x0A], elem_func = Some List_commands, elem_optattr = None\<rparr>,
      \<lparr>line = ''quit'', elem_desc = ''Exit current terminal'' @ [CHR 0x0A], elem_func = Some Quit_terminal, elem_optattr = None\<rparr>,
      \<lparr>line = ''exit'', elem_desc = ''Exit current terminal'' @ [CHR 0x0A], elem_func = Some Exit_terminal, elem_optattr = None\<rparr>]"

fun help_lines :: "string list \<Rightarrow> string" where
  "help_lines [] = []"
| "help_lines (s # ss) = s @ CHR 0x0A # help_lines ss"

definition cmd_section :: cmd_table where
  "cmd_section =
     [\<lparr>line = ''show history'', elem_desc = help_lines [''Show running system information'', ''Display ther command history''],
       elem_func = Some Show_history, elem_optattr = None\<rparr>,
      \<lparr>line = ''show cmdtree'', elem_desc = help_lines [''Show running system information'', ''Dump command tree (for debug)''],
       elem_func = Some Show_cmdtree, elem_optattr = None\<rparr>,
      \<lparr>line = ''system .ARGS'', elem_desc = help_lines [''system shell'', ''command argument list''],
       elem_func = Some Cmd_system, elem_optattr = None\<rparr>,
      \<lparr>line = ''keyword (t1|t2) {first|second|third INT} stage {ten|eleven|twelve}'',
       elem_desc = help_lines [''keyword example'', ''branch 1'', ''branch 2'', ''first'', ''second'', ''third'', ''FILE'', ''stage'', ''ten'', ''eleven'', ''twelve''],
       elem_func = Some Cmd_keyword, elem_optattr = Some Keyword_optattr\<rparr>,
      \<lparr>line = ''calc .EXP'', elem_desc = help_lines [''calculator'', ''arithmetic expression''],
       elem_func = Some Cmd_calc_exp, elem_optattr = None\<rparr>,
      \<lparr>line = ''test {-name TEST|-group GROUP}'',
       elem_desc = help_lines [''system test'', ''name option'', ''specify test name'', ''group option'', ''specify group name''],
       elem_func = Some Cmd_test, elem_optattr = None\<rparr>]"

text \<open>The function of a command, with the tables \<open>sect\<close> that the linker collects.\<close>

definition run_cmd :: "world \<Rightarrow> cmd_table \<Rightarrow> (command, opt_table, keywordopt) handler" where
  "run_cmd W sect f t bufs =
     (let (r, t') =
        (case f of
           List_commands \<Rightarrow> list_commands common_cmds sect t
         | Quit_terminal \<Rightarrow> quit_terminal t
         | Exit_terminal \<Rightarrow> exit_terminal t
         | Show_history \<Rightarrow> show_history t
         | Show_cmdtree \<Rightarrow> show_cmdtree t
         | Cmd_system \<Rightarrow> cmd_system W t
         | Cmd_keyword \<Rightarrow> cmd_keyword t bufs
         | Cmd_calc_exp \<Rightarrow> cmd_calc_exp W t
         | Cmd_test \<Rightarrow> cmd_test W t
         | Cmd_other i \<Rightarrow> other_cmd W i t)
      in (r, t', bufs))"

subsection \<open>Sorting\<close>

interpretation elem_order: comparator elem_compare "\<lambda>e. cstring (line e)"
proof unfold_locales
  fix a b c :: "('f, 'o) cmd_elem"
  assume ab: "cstring (line a)" "cstring (line b)"
  show "elem_compare a b \<le> 0 \<or> elem_compare b a \<le> 0"
    unfolding elem_compare_def by (rule strcmp_order.cmp_total [OF ab])
  assume "cstring (line c)" "elem_compare a b \<le> 0" "elem_compare b c \<le> 0"
  with ab show "elem_compare a c \<le> 0" unfolding elem_compare_def by (rule strcmp_order.cmp_trans)
qed

lemma mset_insort_by: "mset (insort_by cmp x xs) = add_mset x (mset xs)"
  by (induction xs) auto

lemma mset_qsort: "mset (qsort cmp xs) = mset xs"
  by (induction xs) (simp_all add: qsort_def mset_insort_by)

lemma set_qsort: "set (qsort cmp xs) = set xs"
  using mset_qsort mset_eq_setD by metis

context comparator
begin

lemma insort_by_sorted:
  assumes "valid x" "\<forall>y \<in> set ys. valid y" "sorted_wrt (\<lambda>a b. cmp a b \<le> 0) ys"
  shows "sorted_wrt (\<lambda>a b. cmp a b \<le> 0) (insort_by cmp x ys)"
  using assms
proof (induction ys)
  case (Cons y ys)
  have set: "set (insort_by cmp x ys) = insert x (set ys)"
    using mset_insort_by [of cmp x ys] by (metis set_mset_add_mset_insert set_mset_mset)
  show ?case
  proof (cases "cmp x y \<le> 0")
    case True
    with Cons.prems show ?thesis by (auto intro: cmp_trans [of x y])
  next
    case False
    then have "cmp y x \<le> 0" using cmp_gt [of x y] Cons.prems by simp
    with False Cons set show ?thesis by auto
  qed
qed simp

lemma qsort_sorted: "\<forall>x \<in> set xs. valid x \<Longrightarrow> sorted_wrt (\<lambda>a b. cmp a b \<le> 0) (qsort cmp xs)"
proof (induction xs)
  case (Cons x xs)
  then show ?case using insort_by_sorted [of x "qsort cmp xs"] set_qsort [of cmp xs] by (simp add: qsort_def)
qed (simp add: qsort_def)

end

subsection \<open>Joining the arguments\<close>

lemma sprintf_args_spec:
  "length acc < cap \<Longrightarrow> sprintf_args cap acc ws =
     (let b = acc @ concat (map (\<lambda>w. '' '' @ w) ws) in if length b < cap then Some b else None)"
  by (induction ws arbitrary: acc) (auto simp: Let_def)

lemma join_words_concat: "join_words (w # ws) = w @ concat (map (\<lambda>w. '' '' @ w) ws)"
  by (induction ws arbitrary: w) auto

lemma join_args_spec:
  "ws \<noteq> [] \<Longrightarrow> join_args cap ws = (if length (join_words ws) < cap then Some (join_words ws) else None)"
  by (cases ws) (auto simp: sprintf_args_spec join_words_concat Let_def)

subsection \<open>What the handlers keep\<close>

lemma fold_kept:
  assumes "term_wf t" "\<And>x u. x \<in> set xs \<Longrightarrow> term_wf u \<Longrightarrow> kept u (f x u)"
  shows "kept t (fold f xs t)"
  using assms
proof (induction xs arbitrary: t)
  case (Cons x xs)
  have k: "kept t (f x t)" using Cons.prems by simp
  have "kept (f x t) (fold f xs (f x t))" by (rule Cons.IH [OF kept_wf [OF k]]) (use Cons.prems(2) in simp)
  with k show ?case using kept_trans by simp
qed (simp add: kept_refl)

lemma term_print_puts: "term_print t s = snd (puts t s)"
  by (simp add: term_print_def puts_def split: option.split)

lemma putc_kept:
  assumes "term_wf t"
  shows "kept t (out_putc t c)"
proof -
  have w: "stream_wf (out t)" using assms by (simp add: term_wf_def)
  then obtain r s where "stream_put (put_mem (env t) (ticks t)) (out t) [c] = Some (r, s)" "stream_wf s"
    using stream_put_total [OF w, of "[c]" "put_mem (env t) (ticks t)"] by (auto simp: BUFSIZE_def)
  then show ?thesis using out_kept [OF assms] by (simp add: out_putc_def out_put_def)
qed

lemma quit_kept: "term_wf t \<Longrightarrow> kept t (snd (quit_terminal t)) \<and> stop (snd (quit_terminal t))"
  using kept_trans [OF putc_kept kept_trans [OF flush_kept [OF kept_wf [OF putc_kept]] stop_kept [OF kept_wf [OF flush_kept [OF kept_wf [OF putc_kept]]]]]]
  by (simp add: quit_terminal_def term_quit_def)

lemma exit_kept: "term_wf t \<Longrightarrow> kept t (snd (exit_terminal t)) \<and> stop (snd (exit_terminal t))"
  using kept_trans [OF flush_kept stop_kept [OF kept_wf [OF flush_kept]]] by (simp add: exit_terminal_def term_quit_def)

lemma list_kept:
  assumes "term_wf t" "\<forall>e \<in> set (common @ sect). short (line e)"
  shows "kept t (cmd_list_elems common sect t)"
proof -
  have "kept t (fold (\<lambda>e t. term_print t (''  '' @ line e @ CRLF)) (common @ qsort elem_compare sect) t)"
  proof (rule fold_kept [OF assms(1)])
    fix e and u :: "('a, 'b) term"
    assume e: "e \<in> set (common @ qsort elem_compare sect)" and u: "term_wf u"
    have "short (line e)" using assms(2) e by (auto simp: set_qsort)
    then show "kept u (term_print u (''  '' @ line e @ CRLF))" by (intro print_kept [OF u]) (simp add: short_simps)
  qed
  then show ?thesis by (simp add: cmd_list_elems_def kept_refl [OF assms(1)])
qed

lemma show_history_kept: "term_wf t \<Longrightarrow> kept t (snd (show_history t))"
proof -
  assume t: "term_wf t"
  then have h: "hist_wf (hist t)" "list_all (\<lambda>l. length l < INBUF \<and> cstring l) (hist_lines (hist t))"
    by (simp_all add: term_wf_def hist_fits_def)
  have "kept t (fold (\<lambda>l t. term_print t (''  '' @ l @ [CHR 0x0A])) (hist_lines (hist t)) t)"
    using h(2) by (intro fold_kept [OF t] print_kept) (auto simp: list_all_iff INT_MAX_def INBUF_def)
  then show ?thesis by (simp add: show_history_def term_show_history_def history_print_spec [OF h(1)])
qed

text \<open>The dump of a tree whose nodes are less than 32 levels deep stays inside the arrays.\<close>

fun shallow :: "nat \<Rightarrow> ('f, 'o) tree \<Rightarrow> addr \<Rightarrow> bool" where
  "shallow 0 tr a \<longleftrightarrow> False"
| "shallow (Suc k) tr a \<longleftrightarrow> a < length tr \<and> list_all (shallow k tr) (children (tr ! a)) \<and> list_all (shallow k tr) (keyword (tr ! a))"

lemma fold_kept_fst:
  assumes "term_wf t" "\<And>x u l. x \<in> set xs \<Longrightarrow> term_wf u \<Longrightarrow> kept u (fst (f x (u, l)))"
  shows "kept t (fst (fold f xs (t, l)))"
  using assms
proof (induction xs arbitrary: t l)
  case (Cons x xs)
  have k: "kept t (fst (f x (t, l)))" using Cons.prems by simp
  have "kept (fst (f x (t, l))) (fst (fold f xs (fst (f x (t, l)), snd (f x (t, l)))))"
    by (rule Cons.IH [OF kept_wf [OF k]]) (use Cons.prems(2) in simp)
  with k show ?case using kept_trans by simp
qed (simp add: kept_refl)

lemma spaces_kept: "term_wf t \<Longrightarrow> kept t (((\<lambda>t. term_print t '' '') ^^ n) t)"
proof (induction n)
  case (Suc n)
  note k = Suc.IH [OF Suc.prems]
  show ?case using kept_trans [OF k print_kept [OF kept_wf [OF k]]] by (simp add: INT_MAX_def)
qed (simp add: kept_refl)

lemma dump_indent_kept: "term_wf t \<Longrightarrow> kept t (dump_indent l level final opt t)"
  unfolding dump_indent_def Let_def
proof (rule fold_kept, assumption)
  fix i and u :: "('a, 'b) term"
  assume "term_wf u"
  note k = spaces_kept [OF this, of "nat (ls_width l ! i + 1)"]
  show "kept u (term_print (((\<lambda>t. term_print t '' '') ^^ nat (ls_width l ! i + 1)) u)
      (if i + 1 = level then (if opt then ''*-'' else if final then ''`-'' else ''|-'')
       else if ls_more l ! (i + 1) then ''| '' else ''  ''))"
    by (rule kept_trans [OF k print_kept [OF kept_wf [OF k]]]) (simp add: INT_MAX_def)
qed

lemma puts_kept: "term_wf t \<Longrightarrow> length s < INT_MAX \<Longrightarrow> kept t (snd (puts t s))"
  using print_kept by (simp add: term_print_puts)

lemma dump_tokens_kept:
  "term_wf t \<Longrightarrow> list_all (\<lambda>tk. short (key tk)) tks \<Longrightarrow> kept t (snd (dump_tokens first tks len t))"
proof (induction first tks len t rule: dump_tokens.induct)
  case (2 first tk tks len t)
  obtain r u where p: "puts t (if first then key tk else CHR ''|'' # key tk) = (r, u)" by fastforce
  have k: "kept t u"
    using puts_kept [OF 2(2), of "if first then key tk else CHR ''|'' # key tk"] 2(3) p by (simp add: short_simps)
  from kept_trans [OF k 2(1) [OF p [symmetric] kept_wf [OF k]]] 2(3) p show ?case by simp
qed (simp add: kept_refl)

lemma cmd_tree_dump_kept:
  assumes "shallow k tr a" "k \<le> F" "level + k \<le> LS_MAX" "tree_short tr" "term_wf t"
  shows "kept t (fst (cmd_tree_dump F tr level first final opt a (t, l)))"
  using assms(1-3,5)
proof (induction k arbitrary: F level first final opt a t l)
  case (Suc k)
  then obtain F' where F: "F = Suc F'" "k \<le> F'" by (cases F) auto
  have a: "a < length tr" "list_all (shallow k tr) (children (tr ! a))" "list_all (shallow k tr) (keyword (tr ! a))"
    using Suc.prems(1) by simp_all
  have lv: "\<not> LS_MAX \<le> level" "level + 1 + k \<le> LS_MAX" using Suc.prems(3) by simp_all
  define t1 where "t1 = (if first then t else dump_indent l level final opt t)"
  have k1: "kept t t1" unfolding t1_def using dump_indent_kept [OF Suc.prems(4)] kept_refl [OF Suc.prems(4)] by simp
  obtain len t2 where p: "(if level = 0 then puts t1 ''cmd'' else dump_tokens True (tokens (tr ! a)) 0 t1) = (len, t2)" by fastforce
  have "list_all (\<lambda>tk. short (key tk)) (tokens (tr ! a))"
    using assms(4) a(1) by (auto simp: tree_short_def list_all_iff dest: nth_mem)
  then have "kept t1 t2"
    using p puts_kept [OF kept_wf [OF k1], of "''cmd''"] dump_tokens_kept [OF kept_wf [OF k1], of "tokens (tr ! a)" True 0]
    by (auto simp: INT_MAX_def split: if_splits)
  then have k2: "kept t t2" using kept_trans [OF k1] by blast
  define t3 where "t3 = (if children (tr ! a) = [] \<and> keyword (tr ! a) = [] then term_print t2 CRLF else t2)"
  have k3: "kept t t3"
    unfolding t3_def using k2 kept_trans [OF k2 print_kept [OF kept_wf [OF k2], of CRLF]] by (simp add: INT_MAX_def)
  have sub: "kept u (fst (cmd_tree_dump F' tr (level + 1) fs fn op c (if b then term_print u s else u, l')))"
    if "term_wf u" "shallow k tr c" "length s < INT_MAX" for u fs fn op c b s l'
    using that Suc.IH [OF that(2) F(2) lv(2)] kept_trans [OF print_kept [OF that(1,3)]] kept_wf [OF print_kept [OF that(1,3)]] by simp
  have en: "(i, c) \<in> set (enumerate 0 xs) \<Longrightarrow> c \<in> set xs" for i c and xs :: "addr list"
    by (auto simp: in_set_enumerate_eq)
  define cf where "cf = (\<lambda>(i, c) (t, l). cmd_tree_dump F' tr (level + 1) (i = 0) (i + 1 = length (children (tr ! a))) False c
      (if i = 0 then term_print t (if length (children (tr ! a)) > 1 then ''-+-'' else ''---'') else t, l))"
  define kf where "kf = (\<lambda>(i, c) (t, l). cmd_tree_dump F' tr (level + 1) (children (tr ! a) = [] \<and> i = 0) (i + 1 = length (keyword (tr ! a))) True c
      (if children (tr ! a) = [] \<and> i = 0 then term_print t ''-*-'' else t, l))"
  have c: "kept u (fst (cf x (u, l')))" if "x \<in> set (enumerate 0 (children (tr ! a)))" "term_wf u" for x u l'
  proof -
    obtain i c where x: "x = (i, c)" by (cases x)
    then have "shallow k tr c" using that(1) en a(2) by (simp add: list_all_iff)
    then show ?thesis unfolding cf_def x prod.case by (intro sub [OF that(2)]) (simp_all add: INT_MAX_def)
  qed
  have kw: "kept u (fst (kf x (u, l')))" if "x \<in> set (enumerate 0 (keyword (tr ! a)))" "term_wf u" for x u l'
  proof -
    obtain i c where x: "x = (i, c)" by (cases x)
    then have "shallow k tr c" using that(1) en a(3) by (simp add: list_all_iff)
    then show ?thesis unfolding kf_def x prod.case by (intro sub [OF that(2)]) (simp_all add: INT_MAX_def)
  qed
  define l1 where "l1 = l\<lparr>ls_width := (ls_width l)[level := len],
      ls_more := (ls_more l)[level := (case parent (tr ! a) of None \<Rightarrow> False | Some p \<Rightarrow> keyword (tr ! p) \<noteq> []) \<or> \<not> final]\<rparr>"
  define st where "st = fold cf (enumerate 0 (children (tr ! a))) (t3, l1)"
  have k4: "kept t (fst st)" unfolding st_def by (rule kept_trans [OF k3 fold_kept_fst [OF kept_wf [OF k3] c]])
  have "kept t (fst (fold kf (enumerate 0 (keyword (tr ! a))) (fst st, snd st)))"
    by (rule kept_trans [OF k4 fold_kept_fst [OF kept_wf [OF k4] kw]])
  moreover have "cmd_tree_dump F tr level first final opt a (t, l) = fold kf (enumerate 0 (keyword (tr ! a))) st"
    unfolding F(1) st_def cf_def kf_def using lv(1)
    by (simp only: cmd_tree_dump.simps if_False Let_def t1_def [symmetric] p prod.case t3_def [symmetric] l1_def [symmetric])
  ultimately show ?case by simp
qed simp

lemma show_cmdtree_kept:
  assumes "term_wf t" "shallow LS_MAX (cmd_tree t) 0"
  shows "kept t (snd (show_cmdtree t))"
  using cmd_tree_dump_kept [OF assms(2), of "Suc LS_MAX" 0 t] assms(1) kept_refl [OF assms(1)]
  by (simp add: show_cmdtree_def cmd_tree_travel_def term_wf_def del: cmd_tree_dump.simps)

subsection \<open>A terminal with a typed command\<close>

definition quit_elem :: "(command, opt_table) cmd_elem" where
  "quit_elem = \<lparr>line = ''quit'', elem_desc = help_text [''Exit''], elem_func = Some Quit_terminal, elem_optattr = None\<rparr>"

definition quit_term :: "(command, opt_table) tree \<Rightarrow> cmd_term" where
  "quit_term tr =
     \<lparr>fd = 0, buf = ''quit'' @ replicate (INBUF - 4) NUL, in_cp = 4, in_len = 4, in_max = INBUF, out = stream_new,
      hist = the (history_create True), escape = TERM_NORMAL, stop = False, name = ''x'', cmd_tree = tr,
      opts = the (cmdopt_create True True True), env = sample_env, ticks = 0, written = \<lambda>_. [], fault = False\<rparr>"

lemma quit_term_wf:
  assumes "tree_wf tr" "tree_short tr"
  shows "term_wf (quit_term tr)" "left (quit_term tr) @ right (quit_term tr) = ''quit''" "argv (opts (quit_term tr)) = []"
proof -
  let ?t = "quit_term tr"
  have b: "buf ?t = ''quit'' @ [] @ NUL # replicate (INBUF - 5) NUL"
    by (simp add: quit_term_def INBUF_def flip: replicate_Suc)
  have m: "in_max ?t = INBUF" "length (buf ?t) = INBUF" "in_cp ?t = length ''quit''" "in_len ?t = length ''quit'' + length []"
    by (simp_all add: quit_term_def INBUF_def)
  note l = line_wfI [OF b m(3,4) m(2,1)]
  show "left ?t @ right ?t = ''quit''" using l by simp
  have "hist_fits (hist ?t)"
    using history_create_wf [of "hist ?t"] by (simp add: quit_term_def history_create_def hist_fits_def)
  moreover obtain opt where o: "cmdopt_create True True True = Some opt" using sample_opts by auto
  ultimately show "term_wf ?t"
    using l(1) assms cmdopt_create_wf [OF o] by (simp add: term_wf_def opts_short_def quit_term_def short_def)
  show "argv (opts ?t) = []" using cmdopt_create_wf [OF o] o by (simp add: quit_term_def)
qed

definition sample_world :: world where
  "sample_world = \<lparr>system_status = \<lambda>_ _. 0, errno_text = \<lambda>_. [], calc_returns = \<lambda>_. True, tests = [], outcome = \<lambda>_. Exited 0,
     other_cmd = \<lambda>_ t. (0, t)\<rparr>"

subsection \<open>The shell command\<close>

lemma term_print_fault: "term_wf t \<Longrightarrow> length s < INT_MAX \<Longrightarrow> \<not> fault (term_print t s)"
  using kept_wf [OF print_kept, of t s] unfolding term_wf_def by blast

text \<open>
  C39. The \<open>system\<close> command passes its arguments to the shell, joined by blanks, and is safe
  exactly for joined arguments of less than 1024 bytes that do not end by a signal: a longer
  line, which the terminal accepts, writes behind the buffer, and the number of
  the signal is followed as a pointer.
\<close>

theorem cmd_system_bounds:
  assumes "term_wf t" "argv (opts t) \<noteq> []" "short (errno_text W (ticks t))"
  shows "fault (snd (cmd_system W t)) \<longleftrightarrow>
     1024 \<le> length (join_words (argv (opts t))) \<or>
     (system_status W (ticks t) (join_words (argv (opts t))) \<noteq> -1 \<and> WIFSIGNALED (system_status W (ticks t) (join_words (argv (opts t)))))"
proof -
  have "\<not> fault t" using assms(1) by (simp add: term_wf_def)
  moreover have "\<not> fault (term_print t (''system error: '' @ errno_text W (ticks t) @ CRLF))"
    using assms(3) by (intro term_print_fault [OF assms(1)]) (simp add: short_simps)
  ultimately show ?thesis
    using assms(2) by (auto simp: cmd_system_def join_args_spec SYSBUF_def crash_def Let_def)
qed

theorem cmd_system_bounds_witness:
  "\<not> fault (snd (cmd_system sample_world ((quit_term [cmd_node_new []])\<lparr>opts := (the (cmdopt_create True True True))\<lparr>argv := [''ls'']\<rparr>\<rparr>)))"
proof -
  let ?q = "quit_term [cmd_node_new []]" and ?o = "(the (cmdopt_create True True True))\<lparr>argv := [''ls'']\<rparr>"
  obtain opt where o: "cmdopt_create True True True = Some opt" using sample_opts by auto
  note w = cmdopt_create_wf [OF o]
  have "cmdopt_wf ?o" "opts_short ?o"
    using w o by (auto simp: cmdopt_wf_def opts_short_def MAXARGC_def cstring_def short_def)
  then have "term_wf (?q\<lparr>opts := ?o\<rparr>)" using kept_wf [OF opts_kept [OF quit_term_wf(1) [OF root_ok]]] by blast
  from cmd_system_bounds [OF this, of sample_world] show ?thesis by (simp add: sample_world_def short_def WIFSIGNALED_def)
qed

subsection \<open>Leaving the terminal\<close>

lemma stop_simps [simp]:
  "stop (term_print t s) = stop t" "stop (term_prompt t) = stop t" "stop (poke t i c) = stop t"
  by (auto simp: term_print_def term_prompt_def poke_def touch_def split: option.splits)

lemma quit_executed:
  assumes "term_wf t" "argv (opts t) = []" "line_of t = ''quit''" "\<forall>n i. cmd_mem (env t) n i"
    and "walk (cmd_tree t) 0 [''quit''] = Some q" "func (cmd_tree t ! q) = Some Quit_terminal" "optattr (cmd_tree t ! q) = None"
  shows "\<exists>t2. cmd_execute attrs (run_cmd W sect) t bufs ''quit'' = (CMD_SUCCESS, t2, bufs) \<and> stop t2 \<and> kept t t2 \<and> argv (opts t2) = []"
proof -
  have pl: "list_all plain_word [''quit'']"
    by (simp add: plain_word_def word_char_def isspace_def cstring_def token_type_of_def less_eq_char_def of_char_def)
  have pp: "path_plain (cmd_tree t) [''quit'']" by (auto simp: path_plain_def strict_prefix_def prefix_Cons)
  let ?xs = "walk_args (cmd_tree t) 0 [''quit'']" and ?t1 = "t\<lparr>opts := (opts t)\<lparr>argv := walk_args (cmd_tree t) 0 [''quit'']\<rparr>\<rparr>"
  have rc: "run_command attrs (run_cmd W sect) t bufs (length [''quit'']) ([''quit''] @ []) = run_cmd W sect Quit_terminal ?t1 bufs"
      "subseq ?xs [''quit'']"
    using run_command_literal [OF assms(1,2) _ pl _ _ assms(5) pp assms(6,7), of "[]" attrs "run_cmd W sect" bufs] by (simp_all add: MAXARGC_def)
  have "set ?xs \<subseteq> {''quit''}" "length ?xs \<le> 1" using list_emb_set [OF rc(2)] list_emb_length [OF rc(2)] by auto
  then have k1: "kept t ?t1"
    using assms(1) by (intro opts_kept) (auto simp: term_wf_def cmdopt_wf_def opts_short_def list_all_iff short_def MAXARGC_def cstring_def)
  obtain t2 where t2: "quit_terminal ?t1 = (0, t2)" "stop t2" "kept ?t1 t2"
    using quit_kept [OF kept_wf [OF k1]] by (simp add: quit_terminal_def)
  have "line_get_args (cmd_mem (env t) (ticks t)) ''quit'' = Inr ([''quit''] @ [])"
    using line_get_args_plain(1) [OF _ pl] assms(4) by simp
  from cmd_execute_words [OF this pl, of attrs "run_cmd W sect" bufs]
  have "cmd_execute attrs (run_cmd W sect) t bufs ''quit'' = (0, t2\<lparr>opts := cmdopt_clear (opts t2)\<rparr>, bufs)"
    unfolding rc(1) using t2(1) by (simp add: run_cmd_def Let_def report_def cmd_codes)
  moreover have "kept t (t2\<lparr>opts := cmdopt_clear (opts t2)\<rparr>)"
    using kept_trans [OF k1 kept_trans [OF t2(3) clear_kept [OF kept_wf [OF t2(3)]]]] .
  ultimately show ?thesis using t2(2) by (simp add: cmd_codes cmdopt_clear_def)
qed



end
