(* ===== verification/Linked_List.thy ===== *)
theory Linked_List
  imports Prelude "HOL-Library.Monad_Syntax"
begin

section \<open>Doubly linked lists (list.h)\<close>

text \<open>
  A store gives every list head and every entry its two pointers; 0 is the null pointer,
  and following it is the result \<open>None\<close>.  A list is represented by a circular chain
  through its head; the operations are shown to act on the represented list and to leave
  every other list alone.
\<close>

type_synonym link = nat

record links =
  nxt :: "link \<Rightarrow> link"
  prv :: "link \<Rightarrow> link"

definition NULL :: link where "NULL = 0"

definition get_next :: "links \<Rightarrow> link \<Rightarrow> link option" where
  "get_next s a = (if a = NULL then None else Some (nxt s a))"

definition get_prev :: "links \<Rightarrow> link \<Rightarrow> link option" where
  "get_prev s a = (if a = NULL then None else Some (prv s a))"

definition set_next :: "link \<Rightarrow> link \<Rightarrow> links \<Rightarrow> links option" where
  "set_next a v s = (if a = NULL then None else Some (s\<lparr>nxt := (nxt s)(a := v)\<rparr>))"

definition set_prev :: "link \<Rightarrow> link \<Rightarrow> links \<Rightarrow> links option" where
  "set_prev a v s = (if a = NULL then None else Some (s\<lparr>prv := (prv s)(a := v)\<rparr>))"

definition INIT_LIST_HEAD :: "link \<Rightarrow> links \<Rightarrow> links option" where
  "INIT_LIST_HEAD p s = do { s \<leftarrow> set_next p p s; set_prev p p s }"

definition list_add_between :: "link \<Rightarrow> link \<Rightarrow> link \<Rightarrow> links \<Rightarrow> links option" where
  "list_add_between new prev next s =
     do { s \<leftarrow> set_prev next new s; s \<leftarrow> set_next new next s; s \<leftarrow> set_prev new prev s; set_next prev new s }"

definition list_add :: "link \<Rightarrow> link \<Rightarrow> links \<Rightarrow> links option" where
  "list_add new h s = do { n \<leftarrow> get_next s h; list_add_between new h n s }"

definition list_add_tail :: "link \<Rightarrow> link \<Rightarrow> links \<Rightarrow> links option" where
  "list_add_tail new h s = do { p \<leftarrow> get_prev s h; list_add_between new p h s }"

definition list_del_between :: "link \<Rightarrow> link \<Rightarrow> links \<Rightarrow> links option" where
  "list_del_between prev next s = do { s \<leftarrow> set_prev next prev s; set_next prev next s }"

definition list_del :: "link \<Rightarrow> links \<Rightarrow> links option" where
  "list_del e s =
     do { p \<leftarrow> get_prev s e; n \<leftarrow> get_next s e; s \<leftarrow> list_del_between p n s; s \<leftarrow> set_next e NULL s; set_prev e NULL s }"

definition list_del_init :: "link \<Rightarrow> links \<Rightarrow> links option" where
  "list_del_init e s =
     do { p \<leftarrow> get_prev s e; n \<leftarrow> get_next s e; s \<leftarrow> list_del_between p n s; INIT_LIST_HEAD e s }"

definition list_empty :: "link \<Rightarrow> links \<Rightarrow> bool" where
  "list_empty h s \<longleftrightarrow> nxt s h = h"

definition list_splice_between :: "link \<Rightarrow> link \<Rightarrow> link \<Rightarrow> links \<Rightarrow> links option" where
  "list_splice_between l prev next s =
     do { first \<leftarrow> get_next s l; last \<leftarrow> get_prev s l;
          s \<leftarrow> set_prev first prev s; s \<leftarrow> set_next prev first s; s \<leftarrow> set_next last next s; set_prev next last s }"

definition list_splice :: "link \<Rightarrow> link \<Rightarrow> links \<Rightarrow> links option" where
  "list_splice l h s = (if list_empty l s then Some s else do { n \<leftarrow> get_next s h; list_splice_between l h n s })"

definition list_splice_tail :: "link \<Rightarrow> link \<Rightarrow> links \<Rightarrow> links option" where
  "list_splice_tail l h s = (if list_empty l s then Some s else do { p \<leftarrow> get_prev s h; list_splice_between l p h s })"

definition list_splice_tail_init :: "link \<Rightarrow> link \<Rightarrow> links \<Rightarrow> links option" where
  "list_splice_tail_init l h s =
     (if list_empty l s then Some s
      else do { p \<leftarrow> get_prev s h; s \<leftarrow> list_splice_between l p h s; INIT_LIST_HEAD l s })"

definition list_splice_init :: "link \<Rightarrow> link \<Rightarrow> links \<Rightarrow> links option" where
  "list_splice_init l h s =
     (if list_empty l s then Some s
      else do { n \<leftarrow> get_next s h; s \<leftarrow> list_splice_between l h n s; INIT_LIST_HEAD l s })"

text \<open>\<open>list_for_each\<close>: the entries visited from \<open>pos\<close> on; the first argument bounds their number.\<close>

fun list_for_each :: "nat \<Rightarrow> links \<Rightarrow> link \<Rightarrow> link \<Rightarrow> link list option" where
  "list_for_each 0 s pos h = None"
| "list_for_each (Suc k) s pos h =
     (if pos = h then Some [] else do { n \<leftarrow> get_next s pos; map_option ((#) pos) (list_for_each k s n h) })"

subsection \<open>Representation\<close>

text \<open>Neighbours of \<open>xs\<close> point at each other; a list is a chain from its head back to it.\<close>

fun chain :: "links \<Rightarrow> link list \<Rightarrow> bool" where
  "chain s (x # y # zs) \<longleftrightarrow> nxt s x = y \<and> prv s y = x \<and> chain s (y # zs)"
| "chain s zs \<longleftrightarrow> True"

definition dll :: "links \<Rightarrow> link \<Rightarrow> link list \<Rightarrow> bool" where
  "dll s h xs \<longleftrightarrow> chain s (h # xs @ [h]) \<and> distinct (h # xs) \<and> NULL \<notin> set (h # xs)"

text \<open>Outside the set \<open>A\<close> the stores agree.\<close>

definition untouched :: "link set \<Rightarrow> links \<Rightarrow> links \<Rightarrow> bool" where
  "untouched A s s' \<longleftrightarrow> (\<forall>a. a \<notin> A \<longrightarrow> nxt s' a = nxt s a \<and> prv s' a = prv s a)"

lemmas link_ops = get_next_def get_prev_def set_next_def set_prev_def

lemma chain_append:
  "xs \<noteq> [] \<Longrightarrow> ys \<noteq> [] \<Longrightarrow>
   chain s (xs @ ys) \<longleftrightarrow> chain s xs \<and> chain s ys \<and> nxt s (last xs) = hd ys \<and> prv s (hd ys) = last xs"
proof (induction xs)
  case (Cons x xs)
  then show ?case by (cases xs; cases ys) auto
qed simp

lemma chain_cong:
  assumes "chain s xs" "\<forall>x \<in> set (butlast xs). nxt s' x = nxt s x" "\<forall>x \<in> set (tl xs). prv s' x = prv s x"
  shows "chain s' xs"
  using assms by (induction s xs rule: chain.induct) (auto split: if_splits)

lemma chain_first: "chain s (h # xs @ [b]) \<Longrightarrow> nxt s h = hd (xs @ [b])"
  by (cases xs) auto

lemma chain_last: "chain s (h # xs @ [b]) \<Longrightarrow> prv s b = last (h # xs)"
  using chain_append [of "h # xs" "[b]" s] by simp

lemma dll_untouched:
  assumes "dll s h xs" "untouched A s s'" "set (h # xs) \<inter> A = {}"
  shows "dll s' h xs"
proof -
  have "\<forall>x \<in> set (h # xs). nxt s' x = nxt s x \<and> prv s' x = prv s x" using assms(2,3) by (auto simp: untouched_def)
  moreover have "chain s (h # xs @ [h])" using assms(1) by (simp add: dll_def)
  ultimately have "chain s' (h # xs @ [h])" using chain_cong [of s "h # xs @ [h]" s'] by (auto simp: butlast_append)
  with assms(1) show ?thesis by (simp add: dll_def)
qed

lemma untouched_mono: "untouched A s s' \<Longrightarrow> A \<subseteq> B \<Longrightarrow> untouched B s s'"
  by (auto simp: untouched_def)

lemma untouched_trans: "untouched A s s' \<Longrightarrow> untouched A s' s'' \<Longrightarrow> untouched A s s''"
  by (auto simp: untouched_def)

lemma dll_empty: "dll s h xs \<Longrightarrow> list_empty h s \<longleftrightarrow> xs = []"
  by (cases xs) (auto simp: dll_def list_empty_def)

lemma dll_ends:
  assumes "dll s h xs"
  shows "nxt s h = hd (xs @ [h])" "prv s h = last (h # xs)" "h \<noteq> NULL"
  using assms chain_first [of s h xs h] chain_last [of s h xs h] by (auto simp: dll_def)

lemma chain_parts:
  assumes "chain s (h # as @ bs @ [h])"
  shows "chain s (h # as)" "chain s (bs @ [h])" "nxt s (last (h # as)) = hd (bs @ [h])" "prv s (hd (bs @ [h])) = last (h # as)"
  using chain_append [of "h # as" "bs @ [h]" s] assms by simp_all

text \<open>Writes at the border between two parts of a chain leave both parts.\<close>

lemma chain_border:
  assumes "chain s (h # as)" "chain s (bs @ [h])" "distinct (h # as @ bs)"
    and "\<And>x. x \<in> set (h # as @ bs) \<Longrightarrow> x \<noteq> last (h # as) \<Longrightarrow> nxt s' x = nxt s x"
    and "\<And>x. x \<in> set (h # as @ bs) \<Longrightarrow> x \<noteq> hd (bs @ [h]) \<Longrightarrow> prv s' x = prv s x"
  shows "chain s' (h # as)" "chain s' (bs @ [h])"
proof -
  have "\<forall>x \<in> set (butlast (h # as)). x \<in> set (h # as @ bs) \<and> x \<noteq> last (h # as)"
    using assms(3) by (cases as rule: rev_cases) (auto simp: butlast_append)
  moreover have "\<forall>x \<in> set (tl (h # as)). x \<in> set (h # as @ bs) \<and> x \<noteq> hd (bs @ [h])" using assms(3) by (cases bs) auto
  ultimately show "chain s' (h # as)" using assms(4,5) by (intro chain_cong [OF assms(1)]) blast+
  have "\<forall>x \<in> set (butlast (bs @ [h])). x \<in> set (h # as @ bs) \<and> x \<noteq> last (h # as)"
    using assms(3) last_in_set [of "h # as"] by (auto simp del: last.simps)
  moreover have "\<forall>x \<in> set (tl (bs @ [h])). x \<in> set (h # as @ bs) \<and> x \<noteq> hd (bs @ [h])" using assms(3) by (cases bs) auto
  ultimately show "chain s' (bs @ [h])" using assms(4,5) by (intro chain_cong [OF assms(2)]) blast+
qed

lemma border_nodes:
  assumes "NULL \<notin> set (h # as @ bs)"
  shows "last (h # as) \<in> set (h # as)" "last (h # as) \<noteq> NULL" "hd (bs @ [h]) \<in> set (h # bs)" "hd (bs @ [h]) \<noteq> NULL"
proof -
  show "last (h # as) \<in> set (h # as)" by (rule last_in_set) simp
  with assms show "last (h # as) \<noteq> NULL" by (auto simp del: last.simps)
  show "hd (bs @ [h]) \<in> set (h # bs)" by (cases bs) auto
  with assms show "hd (bs @ [h]) \<noteq> NULL" by (auto simp del: hd_append)
qed

lemma INIT_LIST_HEAD_dll:
  assumes "p \<noteq> NULL"
  shows "\<exists>s'. INIT_LIST_HEAD p s = Some s' \<and> dll s' p [] \<and> untouched {p} s s'"
  using assms by (auto simp: INIT_LIST_HEAD_def link_ops dll_def untouched_def)

subsection \<open>Adding\<close>

lemma add_between_ok:
  assumes "dll s h (as @ bs)" "new \<notin> set (h # as @ bs)" "new \<noteq> NULL"
  shows "\<exists>s'. list_add_between new (last (h # as)) (hd (bs @ [h])) s = Some s' \<and> dll s' h (as @ new # bs) \<and>
              untouched (set (new # h # as @ bs)) s s'"
proof -
  define p n where "p = last (h # as)" and "n = hd (bs @ [h])"
  have wf: "distinct (h # as @ bs)" "NULL \<notin> set (h # as @ bs)" and c: "chain s (h # as @ bs @ [h])"
    using assms(1) by (auto simp: dll_def)
  note b = border_nodes [OF wf(2), folded p_def n_def]
  define s' where "s' = s\<lparr>prv := (prv s)(n := new, new := p), nxt := (nxt s)(new := n, p := new)\<rparr>"
  have ch: "chain s' (h # as)" "chain s' (bs @ [h])"
    using assms(2) b by (auto simp del: last.simps hd_append intro!: chain_border [OF chain_parts(1,2) [OF c] wf(1)]
        simp: s'_def simp flip: p_def n_def)
  have ne: "new \<noteq> p" "new \<noteq> n" using assms(2) b(1,3) by auto
  have "chain s' ([new] @ (bs @ [h]))" using ch(2) ne unfolding n_def
    by (subst chain_append) (simp_all add: s'_def n_def)
  then have "chain s' ((h # as) @ [new] @ (bs @ [h]))" using ch(1) ne unfolding p_def
    by (subst chain_append) (simp_all add: s'_def p_def)
  then have "dll s' h (as @ new # bs)" using wf assms(2,3) by (auto simp: dll_def)
  moreover have "list_add_between new p n s = Some s'" using b assms(3) by (simp add: list_add_between_def link_ops s'_def)
  moreover have "untouched (set (new # h # as @ bs)) s s'" using b by (auto simp: untouched_def s'_def)
  ultimately show ?thesis unfolding p_def n_def by blast
qed

lemma list_add_dll:
  assumes "dll s h xs" "new \<notin> set (h # xs)" "new \<noteq> NULL"
  shows "\<exists>s'. list_add new h s = Some s' \<and> dll s' h (new # xs) \<and> untouched (set (new # h # xs)) s s'"
proof -
  have "list_add new h s = list_add_between new (last [h]) (hd (xs @ [h])) s"
    using dll_ends(1,3) [OF assms(1)] by (simp add: list_add_def get_next_def)
  with add_between_ok [of s h "[]" xs new] assms show ?thesis by (simp del: last.simps hd_append)
qed

lemma list_add_tail_dll:
  assumes "dll s h xs" "new \<notin> set (h # xs)" "new \<noteq> NULL"
  shows "\<exists>s'. list_add_tail new h s = Some s' \<and> dll s' h (xs @ [new]) \<and> untouched (set (new # h # xs)) s s'"
proof -
  have "list_add_tail new h s = list_add_between new (last (h # xs)) (hd ([] @ [h])) s"
    using dll_ends(2,3) [OF assms(1)] by (simp add: list_add_tail_def get_prev_def)
  with add_between_ok [of s h xs "[]" new] assms show ?thesis by (simp del: last.simps hd_append)
qed

subsection \<open>Removing\<close>

lemma del_between_ok:
  assumes "dll s h (as @ e # bs)"
  shows "\<exists>s'. list_del_between (last (h # as)) (hd (bs @ [h])) s = Some s' \<and> dll s' h (as @ bs) \<and>
              untouched (set (h # as @ bs)) s s' \<and> prv s e = last (h # as) \<and> nxt s e = hd (bs @ [h])"
proof -
  define p n where "p = last (h # as)" and "n = hd (bs @ [h])"
  have wf: "distinct (h # as @ bs)" "NULL \<notin> set (h # as @ bs)" and c: "chain s (h # as @ (e # bs) @ [h])"
    using assms by (auto simp: dll_def)
  note b = border_nodes [OF wf(2), folded p_def n_def]
  have e: "chain s (h # as)" "chain s (bs @ [h])" "prv s e = p" "nxt s e = n"
    using chain_parts [OF c] chain_append [of "[e]" "bs @ [h]" s] by (simp_all add: p_def n_def)
  define s' where "s' = s\<lparr>prv := (prv s)(n := p), nxt := (nxt s)(p := n)\<rparr>"
  have "chain s' (h # as)" "chain s' (bs @ [h])"
    by (auto simp del: last.simps hd_append intro!: chain_border [OF e(1,2) wf(1)]
        simp: s'_def simp flip: p_def n_def)
  then have "chain s' ((h # as) @ (bs @ [h]))"
    by (subst chain_append) (simp_all add: s'_def p_def n_def)
  then have "dll s' h (as @ bs)" using wf by (auto simp: dll_def)
  moreover have "list_del_between p n s = Some s'" using b by (simp add: list_del_between_def link_ops s'_def)
  moreover have "untouched (set (h # as @ bs)) s s'" using b by (auto simp: untouched_def s'_def)
  ultimately show ?thesis using e unfolding p_def n_def by blast
qed

lemma list_del_dll:
  assumes "dll s h (as @ e # bs)"
  shows "\<exists>s'. list_del e s = Some s' \<and> dll s' h (as @ bs) \<and> untouched (set (h # as @ e # bs)) s s' \<and>
              nxt s' e = NULL \<and> prv s' e = NULL"
proof -
  obtain s1 where s1: "list_del_between (last (h # as)) (hd (bs @ [h])) s = Some s1" "dll s1 h (as @ bs)"
      "untouched (set (h # as @ bs)) s s1" "prv s e = last (h # as)" "nxt s e = hd (bs @ [h])"
    using del_between_ok [OF assms] by blast
  define s2 where "s2 = s1\<lparr>nxt := (nxt s1)(e := NULL), prv := (prv s1)(e := NULL)\<rparr>"
  have e: "e \<noteq> NULL" "e \<notin> set (h # as @ bs)" using assms by (auto simp: dll_def)
  then have "list_del e s = Some s2" using s1 by (simp add: list_del_def link_ops s2_def)
  moreover have "untouched {e} s1 s2" by (simp add: untouched_def s2_def)
  with s1(2) e(2) have "dll s2 h (as @ bs)" by (auto intro: dll_untouched)
  moreover have "untouched (set (h # as @ e # bs)) s s2" using s1(3) by (auto simp: untouched_def s2_def)
  ultimately show ?thesis by (simp add: s2_def)
qed

lemma list_del_init_dll:
  assumes "dll s h (as @ e # bs)"
  shows "\<exists>s'. list_del_init e s = Some s' \<and> dll s' h (as @ bs) \<and> untouched (set (h # as @ e # bs)) s s' \<and> dll s' e []"
proof -
  obtain s1 where s1: "list_del_between (last (h # as)) (hd (bs @ [h])) s = Some s1" "dll s1 h (as @ bs)"
      "untouched (set (h # as @ bs)) s s1" "prv s e = last (h # as)" "nxt s e = hd (bs @ [h])"
    using del_between_ok [OF assms] by blast
  have e: "e \<noteq> NULL" "e \<notin> set (h # as @ bs)" using assms by (auto simp: dll_def)
  obtain s2 where s2: "INIT_LIST_HEAD e s1 = Some s2" "dll s2 e []" "untouched {e} s1 s2"
    using INIT_LIST_HEAD_dll [OF e(1)] by blast
  have "list_del_init e s = Some s2" using s1 s2 e by (simp add: list_del_init_def link_ops)
  moreover have "dll s2 h (as @ bs)" using s1(2) s2(3) e(2) by (auto intro: dll_untouched)
  moreover have "untouched (set (h # as @ e # bs)) s s2" using s1(3) s2(3) by (auto simp: untouched_def)
  ultimately show ?thesis using s2(2) by blast
qed

subsection \<open>Splicing and walking\<close>

lemma splice_between_ok:
  assumes "dll s l xs" "xs \<noteq> []" "dll s h (as @ bs)" "set (l # xs) \<inter> set (h # as @ bs) = {}"
  shows "\<exists>s'. list_splice_between l (last (h # as)) (hd (bs @ [h])) s = Some s' \<and> dll s' h (as @ xs @ bs) \<and>
              untouched (set (h # as @ xs @ bs)) s s'"
proof -
  define p n where "p = last (h # as)" and "n = hd (bs @ [h])"
  have wf: "distinct (h # as @ bs)" "NULL \<notin> set (h # as @ bs)" and c: "chain s (h # as @ bs @ [h])"
    and xs: "distinct xs" "NULL \<notin> set xs" "l \<noteq> NULL" and cx: "chain s (l # xs @ [l])"
    using assms(1,3) by (auto simp: dll_def)
  note b = border_nodes [OF wf(2), folded p_def n_def]
  have x: "nxt s l = hd xs" "prv s l = last xs" "hd xs \<noteq> NULL" "last xs \<noteq> NULL" "hd xs \<in> set xs" "last xs \<in> set xs"
    using dll_ends [OF assms(1)] assms(2) xs(2) hd_in_set last_in_set by fastforce+
  define s' where "s' = s\<lparr>prv := (prv s)(hd xs := p, n := last xs), nxt := (nxt s)(p := hd xs, last xs := n)\<rparr>"
  have out: "p \<notin> set xs" "n \<notin> set xs" using b(1,3) assms(4) by auto
  have ch: "chain s' (h # as)" "chain s' (bs @ [h])"
    using assms(4) x(5,6) by (auto simp del: last.simps hd_append intro!: chain_border [OF chain_parts(1,2) [OF c] wf(1)]
        simp: s'_def simp flip: p_def n_def)
  have "chain s xs" using cx chain_append [of "[l]" "xs @ [l]" s] chain_append [of xs "[l]" s] assms(2) by simp
  moreover have "\<forall>y \<in> set (butlast xs). y \<noteq> last xs \<and> y \<in> set xs" "\<forall>y \<in> set (tl xs). y \<noteq> hd xs \<and> y \<in> set xs"
    using xs(1) assms(2) by (metis append_butlast_last_id distinct_butlast not_distinct_conv_prefix in_set_butlastD,
        metis distinct.simps(2) list.collapse list.set_sel(2))
  then have "\<forall>y \<in> set (butlast xs). nxt s' y = nxt s y" "\<forall>y \<in> set (tl xs). prv s' y = prv s y"
    using out by (auto simp: s'_def)
  ultimately have "chain s' xs" by (rule chain_cong)
  moreover have "nxt s' p = hd xs" "prv s' (hd xs) = p" "nxt s' (last xs) = n" "prv s' n = last xs"
    using out x(5,6) by (auto simp: s'_def)
  moreover note ch chain_append [of xs "bs @ [h]" s'] chain_append [of "h # as" "xs @ bs @ [h]" s'] assms(2)
  ultimately have "chain s' ((h # as) @ xs @ bs @ [h])" by (simp add: p_def n_def)
  then have "dll s' h (as @ xs @ bs)" using wf xs assms(4) by (auto simp: dll_def)
  moreover have "list_splice_between l p n s = Some s'"
    using b x xs(3) by (simp add: list_splice_between_def link_ops s'_def)
  moreover have "untouched (set (h # as @ xs @ bs)) s s'" using b x by (auto simp: untouched_def s'_def)
  ultimately show ?thesis unfolding p_def n_def by blast
qed

lemma for_each_dll:
  assumes "chain s (xs @ [h])" "h \<notin> set xs" "NULL \<notin> set xs" "length xs < k"
  shows "list_for_each k s (hd (xs @ [h])) h = Some xs"
  using assms
proof (induction xs arbitrary: k)
  case Nil
  then show ?case by (cases k) auto
next
  case (Cons x xs)
  then obtain k' where "k = Suc k'" by (cases k) auto
  with Cons show ?case by (cases xs) (auto simp: get_next_def)
qed

subsection \<open>Stores of several lists\<close>

text \<open>
  \<open>M\<close> gives the entries of every list head in use; the lists share no node.
\<close>

definition store_ok :: "links \<Rightarrow> (link \<rightharpoonup> link list) \<Rightarrow> bool" where
  "store_ok s M \<longleftrightarrow> (\<forall>h xs. M h = Some xs \<longrightarrow> dll s h xs) \<and>
     (\<forall>h h' xs ys. M h = Some xs \<longrightarrow> M h' = Some ys \<longrightarrow> h \<noteq> h' \<longrightarrow> set (h # xs) \<inter> set (h' # ys) = {})"

definition used :: "(link \<rightharpoonup> link list) \<Rightarrow> link set" where
  "used M = {a. \<exists>h xs. M h = Some xs \<and> a \<in> set (h # xs)}"

datatype list_op =
    Init link
  | Add link link
  | Add_tail link link
  | Del link
  | Del_init link
  | Splice link link
  | Splice_tail link link
  | Splice_init link link
  | Splice_tail_init link link

fun run_op :: "list_op \<Rightarrow> links \<Rightarrow> links option" where
  "run_op (Init p) s = INIT_LIST_HEAD p s"
| "run_op (Add n h) s = list_add n h s"
| "run_op (Add_tail n h) s = list_add_tail n h s"
| "run_op (Del e) s = list_del e s"
| "run_op (Del_init e) s = list_del_init e s"
| "run_op (Splice l h) s = list_splice l h s"
| "run_op (Splice_tail l h) s = list_splice_tail l h s"
| "run_op (Splice_init l h) s = list_splice_init l h s"
| "run_op (Splice_tail_init l h) s = list_splice_tail_init l h s"

definition without :: "link \<Rightarrow> (link \<rightharpoonup> link list) \<Rightarrow> link \<rightharpoonup> link list" where
  "without e M = (\<lambda>h. map_option (removeAll e) (M h))"

text \<open>What an operation is to do on lists; a list that was spliced without \<open>init\<close> is given up.\<close>

fun op_effect :: "list_op \<Rightarrow> (link \<rightharpoonup> link list) \<Rightarrow> link \<rightharpoonup> link list" where
  "op_effect (Init p) M = M(p \<mapsto> [])"
| "op_effect (Add n h) M = M(h \<mapsto> n # the (M h))"
| "op_effect (Add_tail n h) M = M(h \<mapsto> the (M h) @ [n])"
| "op_effect (Del e) M = (without e M)(e := None)"
| "op_effect (Del_init e) M = (without e M)(e \<mapsto> [])"
| "op_effect (Splice l h) M = M(h \<mapsto> the (M l) @ the (M h), l := None)"
| "op_effect (Splice_tail l h) M = M(h \<mapsto> the (M h) @ the (M l), l := None)"
| "op_effect (Splice_init l h) M = M(h \<mapsto> the (M l) @ the (M h), l \<mapsto> [])"
| "op_effect (Splice_tail_init l h) M = M(h \<mapsto> the (M h) @ the (M l), l \<mapsto> [])"

text \<open>Its precondition: new nodes are in no list, a removed one is in a list or linked to
  itself, heads are heads.\<close>

fun op_allowed :: "list_op \<Rightarrow> (link \<rightharpoonup> link list) \<Rightarrow> bool" where
  "op_allowed (Init p) M \<longleftrightarrow> p \<noteq> NULL \<and> p \<notin> used M"
| "op_allowed (Add n h) M \<longleftrightarrow> M h \<noteq> None \<and> n \<noteq> NULL \<and> n \<notin> used M"
| "op_allowed (Add_tail n h) M \<longleftrightarrow> M h \<noteq> None \<and> n \<noteq> NULL \<and> n \<notin> used M"
| "op_allowed (Del e) M \<longleftrightarrow> e \<in> used M \<and> M e \<in> {None, Some []}"
| "op_allowed (Del_init e) M \<longleftrightarrow> e \<in> used M \<and> M e \<in> {None, Some []}"
| "op_allowed (Splice l h) M \<longleftrightarrow> M l \<noteq> None \<and> M h \<noteq> None \<and> l \<noteq> h"
| "op_allowed (Splice_tail l h) M \<longleftrightarrow> M l \<noteq> None \<and> M h \<noteq> None \<and> l \<noteq> h"
| "op_allowed (Splice_init l h) M \<longleftrightarrow> M l \<noteq> None \<and> M h \<noteq> None \<and> l \<noteq> h"
| "op_allowed (Splice_tail_init l h) M \<longleftrightarrow> M l \<noteq> None \<and> M h \<noteq> None \<and> l \<noteq> h"

lemma store_okD: "store_ok s M \<Longrightarrow> M h = Some xs \<Longrightarrow> dll s h xs"
  by (simp add: store_ok_def)

lemma store_ok_disjoint:
  "store_ok s M \<Longrightarrow> M h = Some xs \<Longrightarrow> M h' = Some ys \<Longrightarrow> h \<noteq> h' \<Longrightarrow> set (h # xs) \<inter> set (h' # ys) = {}"
  unfolding store_ok_def by blast

lemma used_iff: "a \<in> used M \<longleftrightarrow> (\<exists>h xs. M h = Some xs \<and> a \<in> set (h # xs))"
  by (simp add: used_def)

lemma store_ok_update:
  assumes "store_ok s M" "untouched A s s'" "dll s' h xs'" "set (h # xs') \<union> A \<subseteq> B"
    and "\<And>h' ys. M h' = Some ys \<Longrightarrow> h' \<noteq> h \<Longrightarrow> set (h' # ys) \<inter> B = {}"
  shows "store_ok s' (M(h \<mapsto> xs'))"
proof -
  have other: "dll s' h' ys \<and> set (h' # ys) \<inter> set (h # xs') = {}" if "M h' = Some ys" "h' \<noteq> h" for h' ys
  proof -
    have d: "set (h' # ys) \<inter> B = {}" using assms(5) that by blast
    then have "set (h' # ys) \<inter> A = {}" using assms(4) by blast
    then have "dll s' h' ys" using dll_untouched [OF store_okD [OF assms(1) that(1)] assms(2)] by blast
    with d assms(4) show ?thesis by blast
  qed
  show ?thesis unfolding store_ok_def
  proof (intro conjI allI impI)
    fix k xs
    assume "(M(h \<mapsto> xs')) k = Some xs"
    then show "dll s' k xs" using assms(3) other by (auto split: if_splits)
  next
    fix k k' xs ys
    assume k: "(M(h \<mapsto> xs')) k = Some xs" "(M(h \<mapsto> xs')) k' = Some ys" "k \<noteq> k'"
    consider "k = h" | "k' = h" | "k \<noteq> h" "k' \<noteq> h" by blast
    then show "set (k # xs) \<inter> set (k' # ys) = {}"
    proof cases
      case 1
      with k other [of k' ys] show ?thesis by auto
    next
      case 2
      with k other [of k xs] show ?thesis by auto
    next
      case 3
      with k store_ok_disjoint [OF assms(1)] show ?thesis by simp
    qed
  qed
qed

lemma store_ok_drop: "store_ok s M \<Longrightarrow> store_ok s (M(h := None))"
  by (simp add: store_ok_def)

lemma store_ok_untouched:
  assumes "store_ok s M" "untouched A s s'" "A \<inter> used M = {}"
  shows "store_ok s' M"
proof -
  have "dll s' h xs" if "M h = Some xs" for h xs
  proof (rule dll_untouched [OF store_okD [OF assms(1) that] assms(2)])
    show "set (h # xs) \<inter> A = {}" using assms(3) that by (fastforce simp: used_def)
  qed
  with assms(1) show ?thesis by (simp add: store_ok_def)
qed

lemma not_used: "a \<notin> used M \<Longrightarrow> M h = Some xs \<Longrightarrow> a \<notin> set (h # xs)"
  by (auto simp: used_def)

lemma store_ok_add:
  assumes "store_ok s M" "M h = Some xs" "new \<notin> used M" "dll s' h xs'" "set xs' = insert new (set xs)"
    and "untouched (set (new # h # xs)) s s'"
  shows "store_ok s' (M(h \<mapsto> xs'))"
proof (rule store_ok_update [OF assms(1,6,4), where B = "set (new # h # xs)"])
  show "set (h # xs') \<union> set (new # h # xs) \<subseteq> set (new # h # xs)" using assms(5) by auto
next
  fix h' ys
  assume "M h' = Some ys" "h' \<noteq> h"
  then show "set (h' # ys) \<inter> set (new # h # xs) = {}"
    using store_ok_disjoint [OF assms(1) _ assms(2)] not_used [OF assms(3)] by fastforce
qed

lemma store_ok_init:
  assumes "store_ok s M" "p \<noteq> NULL" "p \<notin> used M"
  shows "\<exists>s'. INIT_LIST_HEAD p s = Some s' \<and> store_ok s' (M(p \<mapsto> [])) \<and> untouched {p} s s'"
proof -
  obtain s' where s': "INIT_LIST_HEAD p s = Some s'" "dll s' p []" "untouched {p} s s'"
    using INIT_LIST_HEAD_dll [OF assms(2)] by blast
  have "store_ok s' (M(p \<mapsto> []))"
    by (rule store_ok_update [OF assms(1) s'(3,2), where B = "{p}"]) (use not_used [OF assms(3)] in auto)
  with s' show ?thesis by blast
qed

lemma without_in:
  assumes "store_ok s M" "M h = Some (as @ e # bs)"
  shows "without e M = M(h \<mapsto> as @ bs)"
proof
  fix k
  have d: "e \<notin> set (as @ bs)" using store_okD [OF assms] by (auto simp: dll_def)
  show "without e M k = (M(h \<mapsto> as @ bs)) k"
  proof (cases "k = h")
    case True
    with assms(2) d show ?thesis by (simp add: without_def)
  next
    case False
    then have "e \<notin> set ys" if "M k = Some ys" for ys using store_ok_disjoint [OF assms(1) that assms(2)] by auto
    with False show ?thesis by (cases "M k") (auto simp: without_def)
  qed
qed

lemma store_ok_shrink:
  assumes "store_ok s M" "M h = Some xs" "dll s' h xs'" "set xs' \<subseteq> set xs" "untouched (set (h # xs)) s s'"
  shows "store_ok s' (M(h \<mapsto> xs'))"
proof (rule store_ok_update [OF assms(1,5,3), where B = "set (h # xs)"])
  show "set (h # xs') \<union> set (h # xs) \<subseteq> set (h # xs)" using assms(4) by auto
qed (use store_ok_disjoint [OF assms(1) _ assms(2)] in blast)

lemma used_cases:
  assumes "e \<in> used M" "M e \<in> {None, Some []}"
  obtains "M e = Some []" | h as bs where "M h = Some (as @ e # bs)" "h \<noteq> e" "M e = None"
proof (cases "M e")
  case None
  from assms(1) obtain h xs where h: "M h = Some xs" "e \<in> set (h # xs)" unfolding used_iff by blast
  with None have "h \<noteq> e" by auto
  moreover obtain as bs where "xs = as @ e # bs" using h(2) \<open>h \<noteq> e\<close> by (auto dest: split_list)
  ultimately show ?thesis using None h(1) that(2) by blast
qed (use assms(2) that(1) in auto)

lemma splice_any:
  assumes ok: "store_ok s M" and M: "M l = Some xs" "M h = Some (as @ bs)" "l \<noteq> h" "xs \<noteq> []"
  shows "\<exists>s'. list_splice_between l (last (h # as)) (hd (bs @ [h])) s = Some s' \<and>
              store_ok s' (M(h \<mapsto> as @ xs @ bs, l := None)) \<and> l \<notin> used (M(h \<mapsto> as @ xs @ bs, l := None))"
proof -
  have dj: "set (l # xs) \<inter> set (h # as @ bs) = {}" using store_ok_disjoint [OF ok M(1-3)] .
  obtain s' where s': "list_splice_between l (last (h # as)) (hd (bs @ [h])) s = Some s'" "dll s' h (as @ xs @ bs)"
      "untouched (set (h # as @ xs @ bs)) s s'"
    using splice_between_ok [OF store_okD [OF ok M(1)] M(4) store_okD [OF ok M(2)] dj] by blast
  have "store_ok s' ((M(l := None))(h \<mapsto> as @ xs @ bs))"
  proof (rule store_ok_update [OF store_ok_drop [OF ok] s'(3,2), where B = "set (h # as @ xs @ bs)"])
    fix h' ys
    assume "(M(l := None)) h' = Some ys" "h' \<noteq> h"
    then have "M h' = Some ys" "h' \<noteq> l" "h' \<noteq> h" by (auto split: if_splits)
    then show "set (h' # ys) \<inter> set (h # as @ xs @ bs) = {}"
      using store_ok_disjoint [OF ok _ M(1)] store_ok_disjoint [OF ok _ M(2)] by fastforce
  qed auto
  moreover have "(M(l := None))(h \<mapsto> as @ xs @ bs) = M(h \<mapsto> as @ xs @ bs, l := None)" using M(3) by (rule fun_upd_twist)
  moreover have "l \<notin> set (k # ys)" if "M k = Some ys" "k \<noteq> l" for k ys using store_ok_disjoint [OF ok that(1) M(1) that(2)] by auto
  then have "l \<notin> used (M(h \<mapsto> as @ xs @ bs, l := None))"
    using dj store_okD [OF ok M(1)] by (auto simp: used_def dll_def split: if_splits)
  ultimately show ?thesis using s'(1) by auto
qed

lemma list_add_refines:
  assumes "store_ok s M" "op_allowed (Add n h) M"
  shows "\<exists>s'. list_add n h s = Some s' \<and> store_ok s' (op_effect (Add n h) M)"
proof -
  obtain xs where xs: "M h = Some xs" and n: "n \<noteq> NULL" "n \<notin> used M" using assms(2) by auto
  obtain s' where s': "list_add n h s = Some s'" "dll s' h (n # xs)" "untouched (set (n # h # xs)) s s'"
    using list_add_dll [OF store_okD [OF assms(1) xs] not_used [OF n(2) xs] n(1)] by blast
  have "store_ok s' (M(h \<mapsto> n # xs))" by (rule store_ok_add [OF assms(1) xs n(2) s'(2) _ s'(3)]) simp
  with s'(1) xs show ?thesis by simp
qed

lemma list_add_tail_refines:
  assumes "store_ok s M" "op_allowed (Add_tail n h) M"
  shows "\<exists>s'. list_add_tail n h s = Some s' \<and> store_ok s' (op_effect (Add_tail n h) M)"
proof -
  obtain xs where xs: "M h = Some xs" and n: "n \<noteq> NULL" "n \<notin> used M" using assms(2) by auto
  obtain s' where s': "list_add_tail n h s = Some s'" "dll s' h (xs @ [n])" "untouched (set (n # h # xs)) s s'"
    using list_add_tail_dll [OF store_okD [OF assms(1) xs] not_used [OF n(2) xs] n(1)] by blast
  have "store_ok s' (M(h \<mapsto> xs @ [n]))" by (rule store_ok_add [OF assms(1) xs n(2) s'(2) _ s'(3)]) simp
  with s'(1) xs show ?thesis by simp
qed

text \<open>A node linked to itself is unlinked from itself, which changes nothing.\<close>

lemma without_self:
  assumes "store_ok s M" "M e = Some []"
  shows "without e M = M"
proof
  fix k
  have "e \<notin> set xs" if "M k = Some xs" for xs
    using that store_ok_disjoint [OF assms(1) that assms(2)] assms(2) by (cases "k = e") auto
  then show "without e M k = M k" by (cases "M k") (auto simp: without_def)
qed

lemma del_self:
  assumes "dll s e []"
  shows "list_del_between e e s = Some s" "get_prev s e = Some e" "get_next s e = Some e"
proof -
  have "s\<lparr>prv := (prv s)(e := e), nxt := (nxt s)(e := e)\<rparr> = s"
    using assms fun_upd_triv [of "prv s" e] fun_upd_triv [of "nxt s" e] by (simp add: dll_def)
  then show "list_del_between e e s = Some s" "get_prev s e = Some e" "get_next s e = Some e"
    using assms by (auto simp: list_del_between_def link_ops dll_def)
qed

lemma used_without: "e \<notin> used ((without e M)(e := None))"
  by (auto simp: used_def without_def split: if_splits)

lemma list_del_refines:
  assumes "store_ok s M" "op_allowed (Del e) M"
  shows "\<exists>s'. list_del e s = Some s' \<and> store_ok s' (op_effect (Del e) M)"
proof -
  have "e \<in> used M" "M e \<in> {None, Some []}" using assms(2) by auto
  then show ?thesis
  proof (cases rule: used_cases)
    case 1
    then have d: "dll s e []" using store_okD [OF assms(1)] by blast
    define s' where "s' = s\<lparr>nxt := (nxt s)(e := NULL), prv := (prv s)(e := NULL)\<rparr>"
    have "list_del e s = Some s'" using d del_self [OF d] by (simp add: list_del_def set_next_def set_prev_def s'_def dll_def)
    moreover have "untouched {e} s s'" by (simp add: untouched_def s'_def)
    then have "store_ok s' (M(e := None))"
      using used_without [of e M] without_self [OF assms(1) 1]
      by (intro store_ok_untouched [OF store_ok_drop [OF assms(1)]]) auto
    ultimately show ?thesis using without_self [OF assms(1) 1] by simp
  next
    case (2 h as bs)
    obtain s' where s': "list_del e s = Some s'" "dll s' h (as @ bs)" "untouched (set (h # as @ e # bs)) s s'"
      using list_del_dll [OF store_okD [OF assms(1) 2(1)]] by blast
    have "store_ok s' (M(h \<mapsto> as @ bs))" by (rule store_ok_shrink [OF assms(1) 2(1) s'(2) _ s'(3)]) auto
    moreover have "op_effect (Del e) M = M(h \<mapsto> as @ bs)"
      using 2 without_in [OF assms(1) 2(1)] by (auto simp: fun_eq_iff)
    ultimately show ?thesis using s'(1) by simp
  qed
qed

lemma list_del_init_refines:
  assumes "store_ok s M" "op_allowed (Del_init e) M"
  shows "\<exists>s'. list_del_init e s = Some s' \<and> store_ok s' (op_effect (Del_init e) M)"
proof -
  have e: "e \<in> used M" "M e \<in> {None, Some []}" using assms(2) by auto
  let ?M = "(without e M)(e := None)"
  have "\<exists>p n s1. get_prev s e = Some p \<and> get_next s e = Some n \<and> list_del_between p n s = Some s1 \<and> store_ok s1 ?M \<and> e \<noteq> NULL"
    using e
  proof (cases rule: used_cases)
    case 1
    then have d: "dll s e []" using store_okD [OF assms(1)] by blast
    then show ?thesis
      using del_self [OF d] without_self [OF assms(1) 1] store_ok_drop [OF assms(1)] by (auto simp: dll_def)
  next
    case (2 h as bs)
    have d: "dll s h (as @ e # bs)" using store_okD [OF assms(1) 2(1)] .
    obtain s1 where s1: "list_del_between (last (h # as)) (hd (bs @ [h])) s = Some s1" "dll s1 h (as @ bs)"
        "untouched (set (h # as @ bs)) s s1" "prv s e = last (h # as)" "nxt s e = hd (bs @ [h])"
      using del_between_ok [OF d] by blast
    have "untouched (set (h # as @ e # bs)) s s1" using s1(3) by (rule untouched_mono) auto
    then have "store_ok s1 (M(h \<mapsto> as @ bs))" by (intro store_ok_shrink [OF assms(1) 2(1) s1(2)]) auto
    moreover have "?M = M(h \<mapsto> as @ bs)" using 2 without_in [OF assms(1) 2(1)] by (auto simp: fun_eq_iff)
    moreover have "e \<noteq> NULL" using d by (auto simp: dll_def)
    ultimately show ?thesis using s1(1,4,5) by (simp add: get_prev_def get_next_def)
  qed
  then obtain p n s1 where s1: "get_prev s e = Some p" "get_next s e = Some n" "list_del_between p n s = Some s1" "store_ok s1 ?M" "e \<noteq> NULL"
    by blast
  then show ?thesis using store_ok_init [OF s1(4,5) used_without] by (auto simp: list_del_init_def)
qed

lemma splice_empty:
  assumes "store_ok s M" "M l = Some xs" "list_empty l s"
  shows "xs = []"
  using dll_empty [OF store_okD [OF assms(1,2)]] assms(3) by simp

lemma list_splice_refines:
  assumes "store_ok s M" "op_allowed (Splice l h) M"
  shows "\<exists>s'. list_splice l h s = Some s' \<and> store_ok s' (op_effect (Splice l h) M)"
    "\<exists>s'. list_splice_init l h s = Some s' \<and> store_ok s' (op_effect (Splice_init l h) M)"
proof -
  obtain xs ys where M: "M l = Some xs" "M h = Some ys" "l \<noteq> h" using assms(2) by auto
  have "(\<exists>s'. list_splice l h s = Some s' \<and> store_ok s' (op_effect (Splice l h) M)) \<and>
        (\<exists>s'. list_splice_init l h s = Some s' \<and> store_ok s' (op_effect (Splice_init l h) M))"
  proof (cases "list_empty l s")
    case True
    then have "xs = []" using splice_empty [OF assms(1) M(1)] by blast
    then have "M(h \<mapsto> xs @ ys, l \<mapsto> xs) = M" "M(h \<mapsto> xs @ ys, l := None) = M(l := None)" using M by (auto simp: fun_eq_iff)
    then show ?thesis using True M assms(1) store_ok_drop [OF assms(1), of l] \<open>xs = []\<close>
      by (simp add: list_splice_def list_splice_init_def)
  next
    case False
    then have "xs \<noteq> []" using dll_empty [OF store_okD [OF assms(1) M(1)]] by simp
    then obtain s1 where s1: "list_splice_between l h (hd (ys @ [h])) s = Some s1"
        "store_ok s1 (M(h \<mapsto> xs @ ys, l := None))" "l \<notin> used (M(h \<mapsto> xs @ ys, l := None))"
      using splice_any [of s M l xs h "[]" ys] assms(1) M by auto
    have l: "l \<noteq> NULL" "nxt s h = hd (ys @ [h])" "h \<noteq> NULL" using dll_ends store_okD [OF assms(1)] M by blast+
    show ?thesis using False M s1 l store_ok_init [OF s1(2) l(1) s1(3)]
      by (auto simp: list_splice_def list_splice_init_def get_next_def)
  qed
  then show "\<exists>s'. list_splice l h s = Some s' \<and> store_ok s' (op_effect (Splice l h) M)"
    "\<exists>s'. list_splice_init l h s = Some s' \<and> store_ok s' (op_effect (Splice_init l h) M)" by blast+
qed

lemma list_splice_tail_refines:
  assumes "store_ok s M" "op_allowed (Splice_tail l h) M"
  shows "\<exists>s'. list_splice_tail l h s = Some s' \<and> store_ok s' (op_effect (Splice_tail l h) M)"
    "\<exists>s'. list_splice_tail_init l h s = Some s' \<and> store_ok s' (op_effect (Splice_tail_init l h) M)"
proof -
  obtain xs ys where M: "M l = Some xs" "M h = Some ys" "l \<noteq> h" using assms(2) by auto
  have "(\<exists>s'. list_splice_tail l h s = Some s' \<and> store_ok s' (op_effect (Splice_tail l h) M)) \<and>
        (\<exists>s'. list_splice_tail_init l h s = Some s' \<and> store_ok s' (op_effect (Splice_tail_init l h) M))"
  proof (cases "list_empty l s")
    case True
    then have "xs = []" using splice_empty [OF assms(1) M(1)] by blast
    then have "M(h \<mapsto> ys @ xs, l \<mapsto> xs) = M" "M(h \<mapsto> ys @ xs, l := None) = M(l := None)" using M by (auto simp: fun_eq_iff)
    then show ?thesis using True M assms(1) store_ok_drop [OF assms(1), of l] \<open>xs = []\<close>
      by (simp add: list_splice_tail_def list_splice_tail_init_def)
  next
    case False
    then have "xs \<noteq> []" using dll_empty [OF store_okD [OF assms(1) M(1)]] by simp
    then obtain s1 where s1: "list_splice_between l (last (h # ys)) h s = Some s1"
        "store_ok s1 (M(h \<mapsto> ys @ xs, l := None))" "l \<notin> used (M(h \<mapsto> ys @ xs, l := None))"
      using splice_any [of s M l xs h ys "[]"] assms(1) M by auto
    have l: "l \<noteq> NULL" "prv s h = last (h # ys)" "h \<noteq> NULL" using dll_ends store_okD [OF assms(1)] M by blast+
    show ?thesis using False M s1 l store_ok_init [OF s1(2) l(1) s1(3)]
      by (auto simp: list_splice_tail_def list_splice_tail_init_def get_prev_def simp del: last.simps)
  qed
  then show "\<exists>s'. list_splice_tail l h s = Some s' \<and> store_ok s' (op_effect (Splice_tail l h) M)"
    "\<exists>s'. list_splice_tail_init l h s = Some s' \<and> store_ok s' (op_effect (Splice_tail_init l h) M)" by blast+
qed

text \<open>A program of list operations, and the precondition of every step of it.\<close>

fun run_ops :: "list_op list \<Rightarrow> links \<Rightarrow> links option" where
  "run_ops [] s = Some s"
| "run_ops (p # ps) s = do { s \<leftarrow> run_op p s; run_ops ps s }"

fun ops_allowed :: "list_op list \<Rightarrow> (link \<rightharpoonup> link list) \<Rightarrow> bool" where
  "ops_allowed [] M \<longleftrightarrow> True"
| "ops_allowed (p # ps) M \<longleftrightarrow> op_allowed p M \<and> ops_allowed ps (op_effect p M)"

lemma run_op_refines:
  assumes "store_ok s M" "op_allowed p M"
  shows "\<exists>s'. run_op p s = Some s' \<and> store_ok s' (op_effect p M)"
proof (cases p)
  case (Init a)
  with assms store_ok_init [of s M a] show ?thesis by auto
qed (use assms list_add_refines list_add_tail_refines list_del_refines list_del_init_refines list_splice_refines
    list_splice_tail_refines in auto)

lemma run_ops_refines:
  assumes "store_ok s M" "ops_allowed ps M"
  shows "\<exists>s'. run_ops ps s = Some s' \<and> store_ok s' (fold op_effect ps M)"
  using assms
proof (induction ps arbitrary: s M)
  case (Cons p ps)
  then obtain s1 where "run_op p s = Some s1" "store_ok s1 (op_effect p M)" using run_op_refines [of s M p] by auto
  with Cons show ?case by simp
qed simp

text \<open>
  C9. list.h implements lists: on a store whose heads represent disjoint lists, every sequence
  of initialisations, insertions at either end, removals and splices that respects the
  preconditions runs without following a null pointer, and the resulting store represents
  exactly the lists that the same operations give on sequences, with no node shared; emptiness
  tests and \<open>list_for_each\<close> walks of any head report its sequence in order.
\<close>

theorem list_ops_refine_sequences:
  assumes "store_ok s M" "ops_allowed ps M"
  shows "\<exists>s'. run_ops ps s = Some s' \<and> store_ok s' (fold op_effect ps M) \<and>
           (\<forall>h xs. fold op_effect ps M h = Some xs \<longrightarrow>
              (list_empty h s' \<longleftrightarrow> xs = []) \<and> list_for_each (Suc (length xs)) s' (nxt s' h) h = Some xs)"
proof -
  obtain s' where s': "run_ops ps s = Some s'" "store_ok s' (fold op_effect ps M)" using run_ops_refines [OF assms] by blast
  have "(list_empty h s' \<longleftrightarrow> xs = []) \<and> list_for_each (Suc (length xs)) s' (nxt s' h) h = Some xs"
    if "fold op_effect ps M h = Some xs" for h xs
  proof -
    have d: "dll s' h xs" using store_okD [OF s'(2) that] .
    then have "chain s' (xs @ [h])" by (cases xs) (auto simp: dll_def)
    with d show ?thesis using dll_empty [OF d] for_each_dll [of s' xs h "Suc (length xs)"] dll_ends(1) [OF d]
      by (simp add: dll_def del: list_for_each.simps)
  qed
  with s' show ?thesis by blast
qed

definition sample_links :: links where
  "sample_links = \<lparr>nxt = \<lambda>_. 0, prv = \<lambda>_. 0\<rparr>"

lemma sample_links_ok: "store_ok sample_links Map.empty"
  by (simp add: store_ok_def)

theorem list_ops_refine_sequences_witness:
  "\<exists>s'. run_ops [Init 1, Init 2, Add 5 1, Add_tail 6 1, Add_tail 7 2, Del 5, Splice_tail_init 2 1] sample_links = Some s' \<and>
        list_for_each 3 s' (nxt s' 1) 1 = Some [6, 7] \<and> list_empty 2 s'"
proof -
  let ?ps = "[Init 1, Init 2, Add 5 1, Add_tail 6 1, Add_tail 7 2, Del 5, Splice_tail_init 2 1]"
  have "ops_allowed ?ps Map.empty" by (auto simp: used_def NULL_def without_def)
  moreover have "fold op_effect ?ps Map.empty 1 = Some [6, 7]" "fold op_effect ?ps Map.empty 2 = Some []"
    by (simp_all add: without_def)
  moreover obtain s' where "run_ops ?ps sample_links = Some s'"
      "\<forall>h xs. fold op_effect ?ps Map.empty h = Some xs \<longrightarrow>
        (list_empty h s' \<longleftrightarrow> xs = []) \<and> list_for_each (Suc (length xs)) s' (nxt s' h) h = Some xs"
    using list_ops_refine_sequences [OF sample_links_ok calculation(1)] by (elim exE conjE)
  ultimately have "run_ops ?ps sample_links = Some s'" "list_for_each (Suc (length [6::nat, 7])) s' (nxt s' 1) 1 = Some [6, 7]" "list_empty 2 s'"
    by blast+
  then show ?thesis by (intro exI [of _ s']) (simp add: eval_nat_numeral del: list_for_each.simps run_ops.simps)
qed

end
