(* ===== verification/Event_Loop.thy ===== *)
theory Event_Loop
  imports Linked_List
begin

section \<open>The event loop (event-loop.h, event-loop.c)\<close>

text \<open>
  The loop owns event sources on the heap; a source is named by the address of its list node,
  and the three lists of the loop are lists of list.h with the fixed heads \<open>CHECK\<close>, \<open>IDLE\<close>
  and \<open>DESTROY\<close>.  The kernel's interest list maps a descriptor to the source it was added
  with and its events.  Results of system calls and of \<open>malloc\<close> are arguments, where the
  address 0 is a failed allocation.  A callback is a function that, from the state of the
  loop, says which operations of the loop it calls and what it returns.  Following a null
  pointer or a freed source is a crash.  Ghost fields record the closed descriptors and the
  callbacks made.
\<close>

abbreviation CHECK :: link where "CHECK \<equiv> 2"
abbreviation IDLE :: link where "IDLE \<equiv> 3"
abbreviation DESTROY :: link where "DESTROY \<equiv> 4"

datatype 'f source_kind = Fd_source 'f int | Timer_source 'f | Signal_source 'f int | Idle_source 'f

record 'f event_source =
  interface :: "'f source_kind"
  src_fd :: int

record 'f event_loop =
  interest :: "int \<Rightarrow> (link \<times> nat) option"
  node :: links
  heap :: "(link \<times> 'f event_source) list"
  closed :: "int list"
  calls :: "(link \<times> nat) list"

datatype 'a progress = Crash | Fuel | Done 'a

subsection \<open>Event masks\<close>

definition EPOLLIN :: nat where "EPOLLIN = 1"
definition EPOLLOUT :: nat where "EPOLLOUT = 4"
definition EPOLLERR :: nat where "EPOLLERR = 8"
definition EPOLLHUP :: nat where "EPOLLHUP = 16"

text \<open>The bits \<open>EVENT_READABLE\<close>, \<open>EVENT_WRITABLE\<close>, \<open>EVENT_HANGUP\<close> and \<open>EVENT_ERROR\<close> are 0 to 3.\<close>

definition epoll_mask :: "nat \<Rightarrow> nat" where
  "epoll_mask m = (if bit m 0 then EPOLLIN else 0) + (if bit m 1 then EPOLLOUT else 0)"

definition event_mask :: "nat \<Rightarrow> nat" where
  "event_mask ev =
     (if bit ev 0 then 1 else 0) + (if bit ev 2 then 2 else 0) + (if bit ev 4 then 4 else 0) + (if bit ev 3 then 8 else 0)"

subsection \<open>Sources\<close>

text \<open>The source pointer that is returned, or the null pointer.\<close>

type_synonym 'f add_result = "(link \<times> 'f event_loop) option"

definition add_source :: "link \<Rightarrow> 'f event_source \<Rightarrow> nat \<Rightarrow> bool \<Rightarrow> 'f event_loop \<Rightarrow> 'f add_result" where
  "add_source a s msk ctl L =
     (if src_fd s < 0 then Some (NULL, L)
      else do {
        n \<leftarrow> INIT_LIST_HEAD a (node L);
        if ctl \<and> interest L (src_fd s) = None
        then Some (a, L\<lparr>node := n, heap := (a, s) # heap L, interest := (interest L)(src_fd s \<mapsto> (a, epoll_mask msk))\<rparr>)
        else Some (NULL, L\<lparr>node := n, closed := closed L @ [src_fd s]\<rparr>) })"

text \<open>The descriptor and whether it was closed; \<open>g\<close> and \<open>s\<close> are the success of the two \<open>fcntl\<close> calls.\<close>

definition set_cloexec_or_close :: "int \<Rightarrow> bool \<Rightarrow> bool \<Rightarrow> int \<times> int list" where
  "set_cloexec_or_close fd g s = (if fd = -1 then (-1, []) else if g \<and> s then (fd, []) else (-1, [fd]))"

text \<open>The results of \<open>F_DUPFD_CLOEXEC\<close>, whether it failed with \<open>EINVAL\<close>, and of \<open>F_DUPFD\<close>.\<close>

definition os_dupfd_cloexec :: "int \<Rightarrow> bool \<Rightarrow> int \<Rightarrow> bool \<Rightarrow> bool \<Rightarrow> int \<times> int list" where
  "os_dupfd_cloexec r1 einval r2 g s =
     (if r1 \<ge> 0 then (r1, []) else if \<not> einval then (-1, []) else set_cloexec_or_close r2 g s)"

definition os_epoll_create_cloexec :: "int \<Rightarrow> bool \<Rightarrow> int \<Rightarrow> bool \<Rightarrow> bool \<Rightarrow> int \<times> int list" where
  "os_epoll_create_cloexec r1 einval r2 g s =
     (if r1 \<ge> 0 then (r1, []) else if \<not> einval then (-1, []) else set_cloexec_or_close r2 g s)"

definition event_loop_add_fd :: "link \<Rightarrow> int \<Rightarrow> bool \<Rightarrow> nat \<Rightarrow> 'f \<Rightarrow> int \<Rightarrow> bool \<Rightarrow> 'f event_loop \<Rightarrow> 'f add_result" where
  "event_loop_add_fd a fd nodupfd msk f dup ctl L =
     (if a = NULL then Some (NULL, L)
      else add_source a \<lparr>interface = Fd_source f fd, src_fd = (if nodupfd then fd else dup)\<rparr> msk ctl L)"

definition event_loop_add_timer :: "link \<Rightarrow> 'f \<Rightarrow> int \<Rightarrow> bool \<Rightarrow> 'f event_loop \<Rightarrow> 'f add_result" where
  "event_loop_add_timer a f tfd ctl L =
     (if a = NULL then Some (NULL, L) else add_source a \<lparr>interface = Timer_source f, src_fd = tfd\<rparr> 1 ctl L)"

definition event_loop_add_signal :: "link \<Rightarrow> int \<Rightarrow> 'f \<Rightarrow> int \<Rightarrow> bool \<Rightarrow> 'f event_loop \<Rightarrow> 'f add_result" where
  "event_loop_add_signal a sig f sfd ctl L =
     (if a = NULL then Some (NULL, L) else add_source a \<lparr>interface = Signal_source f sig, src_fd = sfd\<rparr> 1 ctl L)"

definition event_loop_add_idle :: "link \<Rightarrow> 'f \<Rightarrow> 'f event_loop \<Rightarrow> 'f add_result" where
  "event_loop_add_idle a f L =
     (if a = NULL then Some (NULL, L)
      else do {
        n \<leftarrow> list_add_tail a IDLE (node L);
        Some (a, L\<lparr>node := n, heap := (a, \<lparr>interface = Idle_source f, src_fd = -1\<rparr>) # heap L\<rparr>) })"

definition event_source_fd_update :: "link \<Rightarrow> nat \<Rightarrow> bool \<Rightarrow> 'f event_loop \<Rightarrow> (int \<times> 'f event_loop) option" where
  "event_source_fd_update a msk ctl L =
     (case map_of (heap L) a of None \<Rightarrow> None
      | Some s \<Rightarrow>
          if ctl \<and> interest L (src_fd s) \<noteq> None
          then Some (0, L\<lparr>interest := (interest L)(src_fd s \<mapsto> (a, epoll_mask msk))\<rparr>)
          else Some (-1, L))"

text \<open>The seconds and nanoseconds of a delay; C division truncates towards zero.\<close>

definition event_source_timer_update :: "int \<Rightarrow> bool \<Rightarrow> int \<times> (int \<times> int)" where
  "event_source_timer_update ms ok =
     ((if ok then 0 else -1), (sgn ms * (\<bar>ms\<bar> div 1000), sgn ms * (\<bar>ms\<bar> mod 1000) * 1000 * 1000))"

definition event_source_check :: "link \<Rightarrow> 'f event_loop \<Rightarrow> 'f event_loop option" where
  "event_source_check a L =
     (case map_of (heap L) a of None \<Rightarrow> None
      | Some s \<Rightarrow> map_option (\<lambda>n. L\<lparr>node := n\<rparr>) (list_add_tail a CHECK (node L)))"

text \<open>Closing the descriptor of a source: not that of the owner of a descriptor that was not duplicated.\<close>

definition drop_fd :: "link \<Rightarrow> 'f event_source \<Rightarrow> 'f event_loop \<Rightarrow> 'f event_loop" where
  "drop_fd a s L =
     (if src_fd s \<ge> 0 then
        (let L = L\<lparr>interest := (interest L)(src_fd s := None)\<rparr>;
             keep = (case interface s of Fd_source f fd \<Rightarrow> fd = src_fd s | _ \<Rightarrow> False)
         in if keep then L
            else L\<lparr>closed := closed L @ [src_fd s], heap := map (\<lambda>(b, t). (b, if b = a then t\<lparr>src_fd := -1\<rparr> else t)) (heap L)\<rparr>)
      else L)"

definition event_source_remove :: "link \<Rightarrow> 'f event_loop \<Rightarrow> 'f event_loop option" where
  "event_source_remove a L =
     (case map_of (heap L) a of None \<Rightarrow> None
      | Some s \<Rightarrow>
          let L = drop_fd a s L in
          do { n \<leftarrow> list_del a (node L); n \<leftarrow> list_add_tail a DESTROY n; Some (L\<lparr>node := n\<rparr>) })"

subsection \<open>Callbacks\<close>

datatype 'f loop_op =
    Add_fd link int bool nat 'f int bool
  | Add_timer link 'f int bool
  | Add_signal link int 'f int bool
  | Add_idle link 'f
  | Update_fd link nat bool
  | Check link
  | Remove link

datatype callback_arg = On_fd int nat | On_timer | On_signal int | On_idle

type_synonym 'f callbacks = "'f \<Rightarrow> callback_arg \<Rightarrow> 'f event_loop \<Rightarrow> 'f loop_op list \<times> int"

fun run_loop_op :: "'f loop_op \<Rightarrow> 'f event_loop \<Rightarrow> 'f event_loop option" where
  "run_loop_op (Add_fd a fd nd m f d c) L = map_option snd (event_loop_add_fd a fd nd m f d c L)"
| "run_loop_op (Add_timer a f tfd c) L = map_option snd (event_loop_add_timer a f tfd c L)"
| "run_loop_op (Add_signal a sig f sfd c) L = map_option snd (event_loop_add_signal a sig f sfd c L)"
| "run_loop_op (Add_idle a f) L = map_option snd (event_loop_add_idle a f L)"
| "run_loop_op (Update_fd a m c) L = map_option snd (event_source_fd_update a m c L)"
| "run_loop_op (Check a) L = event_source_check a L"
| "run_loop_op (Remove a) L = event_source_remove a L"

fun run_loop_ops :: "'f loop_op list \<Rightarrow> 'f event_loop \<Rightarrow> 'f event_loop option" where
  "run_loop_ops [] L = Some L"
| "run_loop_ops (p # ps) L = do { L \<leftarrow> run_loop_op p L; run_loop_ops ps L }"

definition callback :: "'f callbacks \<Rightarrow> 'f \<Rightarrow> callback_arg \<Rightarrow> 'f event_loop \<Rightarrow> (int \<times> 'f event_loop) option" where
  "callback cb f arg L = (case cb f arg L of (ps, r) \<Rightarrow> map_option (\<lambda>L. (r, L)) (run_loop_ops ps L))"

text \<open>The \<open>dispatch\<close> function of a source; that of an idle source is a null pointer.\<close>

definition dispatch_source :: "'f callbacks \<Rightarrow> link \<Rightarrow> nat \<Rightarrow> 'f event_loop \<Rightarrow> (int \<times> 'f event_loop) option" where
  "dispatch_source cb a ev L =
     (case map_of (heap L) a of None \<Rightarrow> None
      | Some s \<Rightarrow>
          let L = L\<lparr>calls := calls L @ [(a, ev)]\<rparr> in
          case interface s of
            Fd_source f fd \<Rightarrow> callback cb f (On_fd fd (event_mask ev)) L
          | Timer_source f \<Rightarrow> callback cb f On_timer L
          | Signal_source f sig \<Rightarrow> callback cb f (On_signal sig) L
          | Idle_source f \<Rightarrow> None)"

subsection \<open>Dispatching\<close>

definition event_loop_process_destroy_list :: "'f event_loop \<Rightarrow> 'f event_loop option" where
  "event_loop_process_destroy_list L =
     do {
       p \<leftarrow> get_next (node L) DESTROY;
       as \<leftarrow> list_for_each (Suc (length (heap L))) (node L) p DESTROY;
       if \<forall>a \<in> set as. map_of (heap L) a \<noteq> None then
         do { n \<leftarrow> INIT_LIST_HEAD DESTROY (node L); Some (L\<lparr>node := n, heap := filter (\<lambda>(a, s). a \<notin> set as) (heap L)\<rparr>) }
       else None }"

fun event_loop_dispatch_idle :: "'f callbacks \<Rightarrow> nat \<Rightarrow> 'f event_loop \<Rightarrow> 'f event_loop progress" where
  "event_loop_dispatch_idle cb 0 L = (if list_empty IDLE (node L) then Done L else Fuel)"
| "event_loop_dispatch_idle cb (Suc k) L =
     (if list_empty IDLE (node L) then Done L
      else let a = nxt (node L) IDLE in
           case map_of (heap L) a of None \<Rightarrow> Crash
           | Some s \<Rightarrow>
               (case interface s of
                  Idle_source f \<Rightarrow>
                    (case callback cb f On_idle (L\<lparr>calls := calls L @ [(a, 0)]\<rparr>) of None \<Rightarrow> Crash
                     | Some (r, L) \<Rightarrow>
                         (case event_source_remove a L of None \<Rightarrow> Crash | Some L \<Rightarrow> event_loop_dispatch_idle cb k L))
                | _ \<Rightarrow> Crash))"

fun dispatch_events :: "'f callbacks \<Rightarrow> (link \<times> nat) list \<Rightarrow> 'f event_loop \<Rightarrow> 'f event_loop option" where
  "dispatch_events cb [] L = Some L"
| "dispatch_events cb ((a, ev) # es) L =
     (case map_of (heap L) a of None \<Rightarrow> None
      | Some s \<Rightarrow>
          if src_fd s \<noteq> -1
          then (case dispatch_source cb a ev L of None \<Rightarrow> None | Some (r, L) \<Rightarrow> dispatch_events cb es L)
          else dispatch_events cb es L)"

text \<open>The walk of \<open>list_for_each_entry_safe\<close> at \<open>pos\<close>, whose successor \<open>n\<close> was read before.\<close>

fun check_walk :: "'f callbacks \<Rightarrow> nat \<Rightarrow> link \<Rightarrow> link \<Rightarrow> bool \<Rightarrow> 'f event_loop \<Rightarrow> (bool \<times> 'f event_loop) progress" where
  "check_walk cb 0 pos n r L = Fuel"
| "check_walk cb (Suc k) pos n r L =
     (if pos = CHECK then Done (r, L)
      else case dispatch_source cb pos 0 L of None \<Rightarrow> Crash
           | Some (v, L) \<Rightarrow>
               (case get_next (node L) n of None \<Rightarrow> Crash
                | Some n' \<Rightarrow> check_walk cb k n n' (r \<or> v \<noteq> 0) L))"

definition post_dispatch_check :: "'f callbacks \<Rightarrow> nat \<Rightarrow> 'f event_loop \<Rightarrow> (bool \<times> 'f event_loop) progress" where
  "post_dispatch_check cb k L =
     (case get_next (node L) CHECK of None \<Rightarrow> Crash
      | Some p \<Rightarrow> (case get_next (node L) p of None \<Rightarrow> Crash | Some n \<Rightarrow> check_walk cb k p n False L))"

fun recheck :: "'f callbacks \<Rightarrow> nat \<Rightarrow> 'f event_loop \<Rightarrow> 'f event_loop progress" where
  "recheck cb 0 L = Fuel"
| "recheck cb (Suc k) L =
     (case post_dispatch_check cb (Suc k) L of Crash \<Rightarrow> Crash | Fuel \<Rightarrow> Fuel
      | Done (r, L) \<Rightarrow> if r then recheck cb k L else Done L)"

definition event_loop_dispatch ::
  "'f callbacks \<Rightarrow> ('f event_loop \<Rightarrow> (link \<times> nat) list option) \<Rightarrow> nat \<Rightarrow> 'f event_loop \<Rightarrow> (int \<times> 'f event_loop) progress" where
  "event_loop_dispatch cb epoll_wait k L =
     (case event_loop_dispatch_idle cb k L of Crash \<Rightarrow> Crash | Fuel \<Rightarrow> Fuel
      | Done L \<Rightarrow>
          (case epoll_wait L of None \<Rightarrow> Done (-1, L)
           | Some es \<Rightarrow>
               (case dispatch_events cb es L of None \<Rightarrow> Crash
                | Some L \<Rightarrow>
                    (case event_loop_process_destroy_list L of None \<Rightarrow> Crash
                     | Some L \<Rightarrow>
                         (case event_loop_dispatch_idle cb k L of Crash \<Rightarrow> Crash | Fuel \<Rightarrow> Fuel
                          | Done L \<Rightarrow>
                              (case recheck cb k L of Crash \<Rightarrow> Crash | Fuel \<Rightarrow> Fuel | Done L \<Rightarrow> Done (0, L)))))))"

text \<open>The new loop on any memory, when the descriptor of \<open>epoll_create1\<close> is not negative.\<close>

definition event_loop_create :: "bool \<Rightarrow> int \<Rightarrow> links \<Rightarrow> 'f event_loop option option" where
  "event_loop_create m epfd n =
     (if \<not> m \<or> epfd < 0 then Some None
      else do {
        n \<leftarrow> INIT_LIST_HEAD CHECK n; n \<leftarrow> INIT_LIST_HEAD IDLE n; n \<leftarrow> INIT_LIST_HEAD DESTROY n;
        Some (Some \<lparr>interest = Map.empty, node = n, heap = [], closed = [], calls = []\<rparr>) })"

definition event_loop_destroy :: "int \<Rightarrow> 'f event_loop \<Rightarrow> 'f event_loop option" where
  "event_loop_destroy epfd L = map_option (\<lambda>L. L\<lparr>closed := closed L @ [epfd]\<rparr>) (event_loop_process_destroy_list L)"

subsection \<open>Invariant\<close>

definition heads :: "link set" where "heads = {CHECK, IDLE, DESTROY}"

text \<open>
  The lists of the store: the three lists of the loop, and the sources \<open>ss\<close> that are in no
  list and linked to themselves.
\<close>

definition lists_map :: "link list \<Rightarrow> link list \<Rightarrow> link list \<Rightarrow> link list \<Rightarrow> link \<rightharpoonup> link list" where
  "lists_map cs js ds ss h =
     (if h = CHECK then Some cs else if h = IDLE then Some js else if h = DESTROY then Some ds
      else if h \<in> set ss then Some [] else None)"

definition is_idle :: "'f event_source \<Rightarrow> bool" where
  "is_idle s \<longleftrightarrow> (\<exists>f. interface s = Idle_source f)"

text \<open>
  Every source on the heap is in exactly one list or on its own, idle sources are those of
  the idle list, and a descriptor that the kernel watches belongs to a source that was not
  removed and that still has this descriptor.
\<close>

definition loop_lists :: "'f event_loop \<Rightarrow> link list \<Rightarrow> link list \<Rightarrow> link list \<Rightarrow> link list \<Rightarrow> bool" where
  "loop_lists L cs js ds ss \<longleftrightarrow>
     store_ok (node L) (lists_map cs js ds ss) \<and> set ss \<inter> heads = {} \<and>
     distinct (map fst (heap L)) \<and> fst ` set (heap L) = set (cs @ js @ ds @ ss) \<and>
     (\<forall>a \<in> set js. \<exists>s. map_of (heap L) a = Some s \<and> is_idle s) \<and>
     (\<forall>a \<in> set (cs @ ss). \<exists>s. map_of (heap L) a = Some s \<and> \<not> is_idle s) \<and>
     (\<forall>fd a m. interest L fd = Some (a, m) \<longrightarrow> 0 \<le> fd \<and> a \<in> set (cs @ ss) \<and> (\<exists>s. map_of (heap L) a = Some s \<and> src_fd s = fd))"

lemma loop_listsD:
  assumes "loop_lists L cs js ds ss"
  shows "store_ok (node L) (lists_map cs js ds ss)" "set ss \<inter> heads = {}" "distinct (map fst (heap L))"
    "fst ` set (heap L) = set (cs @ js @ ds @ ss)"
    "a \<in> set js \<Longrightarrow> \<exists>s. map_of (heap L) a = Some s \<and> is_idle s"
    "a \<in> set (cs @ ss) \<Longrightarrow> \<exists>s. map_of (heap L) a = Some s \<and> \<not> is_idle s"
    "interest L fd = Some (a, m) \<Longrightarrow> 0 \<le> fd \<and> a \<in> set (cs @ ss) \<and> (\<exists>s. map_of (heap L) a = Some s \<and> src_fd s = fd)"
  using assms unfolding loop_lists_def by blast+

lemma loop_listsI:
  assumes "store_ok (node L) (lists_map cs js ds ss)" "set ss \<inter> heads = {}" "distinct (map fst (heap L))"
    "fst ` set (heap L) = set (cs @ js @ ds @ ss)"
    "\<And>a. a \<in> set js \<Longrightarrow> \<exists>s. map_of (heap L) a = Some s \<and> is_idle s"
    "\<And>a. a \<in> set (cs @ ss) \<Longrightarrow> \<exists>s. map_of (heap L) a = Some s \<and> \<not> is_idle s"
    "\<And>fd a m. interest L fd = Some (a, m) \<Longrightarrow> 0 \<le> fd \<and> a \<in> set (cs @ ss) \<and> (\<exists>s. map_of (heap L) a = Some s \<and> src_fd s = fd)"
  shows "loop_lists L cs js ds ss"
  unfolding loop_lists_def using assms by blast

lemma heads_simps [simp]: "CHECK \<in> heads" "IDLE \<in> heads" "DESTROY \<in> heads"
  by (simp_all add: heads_def)

lemma lists_map_heads [simp]:
  "lists_map cs js ds ss CHECK = Some cs" "lists_map cs js ds ss IDLE = Some js" "lists_map cs js ds ss DESTROY = Some ds"
  by (simp_all add: lists_map_def)

lemma lists_map_Some:
  "lists_map cs js ds ss h = Some xs \<Longrightarrow>
   h = CHECK \<and> xs = cs \<or> h = IDLE \<and> xs = js \<or> h = DESTROY \<and> xs = ds \<or> h \<in> set ss \<and> xs = []"
  by (simp add: lists_map_def split: if_splits)

lemma lists_map_self: "a \<in> set ss \<Longrightarrow> set ss \<inter> heads = {} \<Longrightarrow> lists_map cs js ds ss a = Some []"
  by (auto simp: lists_map_def heads_def)

lemma used_lists_map:
  assumes "set ss \<inter> heads = {}"
  shows "used (lists_map cs js ds ss) = heads \<union> set (cs @ js @ ds @ ss)"
proof (intro equalityI subsetI)
  fix a
  assume "a \<in> used (lists_map cs js ds ss)"
  then obtain h xs where "lists_map cs js ds ss h = Some xs" "a \<in> set (h # xs)" unfolding used_iff by blast
  then show "a \<in> heads \<union> set (cs @ js @ ds @ ss)" using lists_map_Some by (fastforce simp: heads_def)
next
  fix a
  assume "a \<in> heads \<union> set (cs @ js @ ds @ ss)"
  then consider "a \<in> set (CHECK # cs)" | "a \<in> set (IDLE # js)" | "a \<in> set (DESTROY # ds)" | "a \<in> set ss" by (auto simp: heads_def)
  then show "a \<in> used (lists_map cs js ds ss)"
  proof cases
    case 1
    then show ?thesis unfolding used_iff using lists_map_heads(1) by blast
  next
    case 2
    then show ?thesis unfolding used_iff using lists_map_heads(2) by blast
  next
    case 3
    then show ?thesis unfolding used_iff using lists_map_heads(3) by blast
  next
    case 4
    then have "lists_map cs js ds ss a = Some []" "a \<in> set [a]" using lists_map_self assms by simp_all
    then show ?thesis unfolding used_iff by blast
  qed
qed

text \<open>Sources are no heads and are in one place only.\<close>

lemma loop_lists_places:
  assumes "loop_lists L cs js ds ss"
  shows "(set (cs @ js @ ds @ ss)) \<inter> heads = {}" "set cs \<inter> set js = {}" "set cs \<inter> set ds = {}" "set js \<inter> set ds = {}"
    "set ss \<inter> set (cs @ js @ ds) = {}" "NULL \<notin> set (cs @ js @ ds @ ss)"
proof -
  let ?M = "lists_map cs js ds ss"
  note ok = loop_listsD(1) [OF assms] and ss = loop_listsD(2) [OF assms]
  have d: "set (CHECK # cs) \<inter> set (IDLE # js) = {}" "set (CHECK # cs) \<inter> set (DESTROY # ds) = {}"
    "set (IDLE # js) \<inter> set (DESTROY # ds) = {}"
    by (rule store_ok_disjoint [OF ok]; simp)+
  have dl: "dll (node L) CHECK cs" "dll (node L) IDLE js" "dll (node L) DESTROY ds" by (rule store_okD [OF ok]; simp)+
  have s: "a \<noteq> NULL \<and> a \<notin> set (cs @ js @ ds)" if "a \<in> set ss" for a
  proof -
    have a: "?M a = Some []" "a \<noteq> CHECK" "a \<noteq> IDLE" "a \<noteq> DESTROY" using that ss lists_map_self by (auto simp: heads_def)
    have "a \<notin> set cs" using store_ok_disjoint [OF ok a(1) lists_map_heads(1) a(2)] by simp
    moreover have "a \<notin> set js" using store_ok_disjoint [OF ok a(1) lists_map_heads(2) a(3)] by simp
    moreover have "a \<notin> set ds" using store_ok_disjoint [OF ok a(1) lists_map_heads(3) a(4)] by simp
    ultimately show ?thesis using store_okD [OF ok a(1)] by (simp add: dll_def)
  qed
  show "(set (cs @ js @ ds @ ss)) \<inter> heads = {}" using d dl ss unfolding heads_def dll_def by auto
  show "set cs \<inter> set js = {}" "set cs \<inter> set ds = {}" "set js \<inter> set ds = {}" using d by auto
  show "set ss \<inter> set (cs @ js @ ds) = {}" using s by blast
  show "NULL \<notin> set (cs @ js @ ds @ ss)" using dl s unfolding dll_def by auto
qed

subsection \<open>Removal\<close>

lemma map_of_update: "map_of (map (\<lambda>(b, t). (b, if b = a then f t else t)) xs) b = (if b = a then map_option f (map_of xs b) else map_of xs b)"
  by (induction xs) auto

lemma map_fst_update: "map fst (map (\<lambda>(b, t). (b, if b = a then f t else t)) xs) = map fst xs"
  by (induction xs) auto

lemma drop_fd_fields: "node (drop_fd a s L) = node L" "map fst (heap (drop_fd a s L)) = map fst (heap L)" "calls (drop_fd a s L) = calls L"
  by (simp_all add: drop_fd_def Let_def map_fst_update del: map_map)

lemma drop_fd_interest:
  "interest (drop_fd a s L) = (if 0 \<le> src_fd s then (interest L)(src_fd s := None) else interest L)"
  by (simp add: drop_fd_def Let_def)

lemma drop_fd_other: "b \<noteq> a \<Longrightarrow> map_of (heap (drop_fd a s L)) b = map_of (heap L) b"
  by (simp add: drop_fd_def Let_def map_of_update)

lemma drop_fd_idle: "map_of (heap L) b = Some t \<Longrightarrow> \<exists>t'. map_of (heap (drop_fd a s L)) b = Some t' \<and> is_idle t' = is_idle t"
  by (auto simp: drop_fd_def Let_def map_of_update is_idle_def)

lemma remove_map:
  assumes "a \<notin> heads"
  shows "op_effect (Add_tail a DESTROY) (op_effect (Del a) (lists_map cs js ds ss)) =
    lists_map (removeAll a cs) (removeAll a js) (removeAll a ds @ [a]) (removeAll a ss)"
proof
  fix h
  show "op_effect (Add_tail a DESTROY) (op_effect (Del a) (lists_map cs js ds ss)) h =
      lists_map (removeAll a cs) (removeAll a js) (removeAll a ds @ [a]) (removeAll a ss) h"
    using assms by (cases "h = a") (simp_all add: without_def lists_map_def heads_def)
qed

lemma event_source_remove_lists:
  assumes L: "loop_lists L cs js ds ss" and a: "a \<in> fst ` set (heap L)"
  shows "\<exists>L'. event_source_remove a L = Some L' \<and> calls L' = calls L \<and>
     loop_lists L' (removeAll a cs) (removeAll a js) (removeAll a ds @ [a]) (removeAll a ss)"
proof -
  let ?M = "lists_map cs js ds ss"
  note pl = loop_lists_places [OF L]
  obtain s where s: "map_of (heap L) a = Some s" using a by (metis map_of_eq_None_iff not_Some_eq)
  note ok = loop_listsD(1) [OF L] and ss = loop_listsD(2) [OF L]
  have ah: "a \<in> set (cs @ js @ ds @ ss)" using loop_listsD(4) [OF L] a by simp
  then have nh: "a \<notin> heads" "a \<noteq> NULL" using pl by auto
  have "op_allowed (Del a) ?M" using ah nh used_lists_map [OF ss] by (auto simp: lists_map_def heads_def)
  then obtain n1 where n1: "list_del a (node L) = Some n1" "store_ok n1 (op_effect (Del a) ?M)"
    using list_del_refines [OF ok] by blast
  have "op_allowed (Add_tail a DESTROY) (op_effect (Del a) ?M)"
    using used_without [of a ?M] nh by (auto simp: without_def heads_def)
  then obtain n2 where n2: "list_add_tail a DESTROY n1 = Some n2"
      "store_ok n2 (lists_map (removeAll a cs) (removeAll a js) (removeAll a ds @ [a]) (removeAll a ss))"
    using list_add_tail_refines [OF n1(2)] remove_map [OF nh(1)] by metis
  let ?L = "(drop_fd a s L)\<lparr>node := n2\<rparr>"
  have r: "event_source_remove a L = Some ?L"
    using s n1(1) n2(1) by (simp add: event_source_remove_def Let_def drop_fd_fields)
  have keys: "map fst (heap ?L) = map fst (heap L)" by (simp add: drop_fd_fields)
  have "loop_lists ?L (removeAll a cs) (removeAll a js) (removeAll a ds @ [a]) (removeAll a ss)"
  proof (rule loop_listsI)
    show "distinct (map fst (heap ?L))" unfolding keys by (rule loop_listsD(3) [OF L])
    have "fst ` set (heap ?L) = set (cs @ js @ ds @ ss)" using loop_listsD(4) [OF L] keys by (metis set_map)
    then show "fst ` set (heap ?L) = set (removeAll a cs @ removeAll a js @ (removeAll a ds @ [a]) @ removeAll a ss)" using ah by auto
  next
    fix b assume "b \<in> set (removeAll a js)"
    then obtain t where "map_of (heap L) b = Some t" "is_idle t" using loop_listsD(5) [OF L, of b] by auto
    then show "\<exists>t. map_of (heap ?L) b = Some t \<and> is_idle t" using drop_fd_idle [of L b t a s] by auto
  next
    fix b assume "b \<in> set (removeAll a cs @ removeAll a ss)"
    then obtain t where "map_of (heap L) b = Some t" "\<not> is_idle t" using loop_listsD(6) [OF L, of b] by auto
    then show "\<exists>t. map_of (heap ?L) b = Some t \<and> \<not> is_idle t" using drop_fd_idle [of L b t a s] by auto
  next
    fix fd b m assume "interest ?L fd = Some (b, m)"
    then have i: "interest L fd = Some (b, m)" "0 \<le> src_fd s \<longrightarrow> fd \<noteq> src_fd s" by (auto simp: drop_fd_interest split: if_splits)
    have w: "0 \<le> fd" "b \<in> set (cs @ ss)" "\<exists>t. map_of (heap L) b = Some t \<and> src_fd t = fd" using loop_listsD(7) [OF L i(1)] by simp_all
    then have "b \<noteq> a" using i(2) s by fastforce
    with w show "0 \<le> fd \<and> b \<in> set (removeAll a cs @ removeAll a ss) \<and> (\<exists>t. map_of (heap ?L) b = Some t \<and> src_fd t = fd)"
      using drop_fd_other [of b a s L] by auto
  qed (use n2(2) ss in auto)
  then show ?thesis using r by (simp add: drop_fd_fields)
qed

subsection \<open>Operations\<close>

text \<open>No source is freed, and every source stays of its kind.\<close>

definition keeps :: "'f event_loop \<Rightarrow> 'f event_loop \<Rightarrow> bool" where
  "keeps L L' \<longleftrightarrow> (\<forall>a s. map_of (heap L) a = Some s \<longrightarrow> (\<exists>s'. map_of (heap L') a = Some s' \<and> interface s' = interface s))"

lemma keeps_refl [simp]: "keeps L L"
  by (simp add: keeps_def)

lemma keeps_trans: "keeps L L' \<Longrightarrow> keeps L' L'' \<Longrightarrow> keeps L L''"
  by (fastforce simp: keeps_def)

lemma keeps_key: "keeps L L' \<Longrightarrow> a \<in> fst ` set (heap L) \<Longrightarrow> a \<in> fst ` set (heap L')"
  unfolding keeps_def by (metis map_of_eq_None_iff not_None_eq)

definition fresh :: "link \<Rightarrow> 'f event_loop \<Rightarrow> bool" where
  "fresh a L \<longleftrightarrow> a \<noteq> NULL \<and> a \<notin> heads \<and> a \<notin> fst ` set (heap L)"

text \<open>The loop without sources to check, as this program uses it, with the idle sources \<open>js\<close>.\<close>

definition idles :: "'f event_loop \<Rightarrow> link list \<Rightarrow> bool" where
  "idles L js \<longleftrightarrow> (\<exists>ds ss. loop_lists L [] js ds ss)"

definition quiet :: "'f event_loop \<Rightarrow> bool" where
  "quiet L \<longleftrightarrow> (\<exists>js. idles L js)"

lemma fresh_used: "loop_lists L cs js ds ss \<Longrightarrow> fresh a L \<Longrightarrow> a \<notin> used (lists_map cs js ds ss)"
  using used_lists_map [of ss cs js ds] loop_listsD(2,4) [of L cs js ds ss] by (auto simp: fresh_def)

lemma loop_lists_new:
  assumes L: "loop_lists L cs js ds ss" and a: "fresh a L" and s: "\<not> is_idle s" "0 \<le> src_fd s" "interest L (src_fd s) = None"
    and n: "store_ok n ((lists_map cs js ds ss)(a \<mapsto> []))"
  shows "loop_lists (L\<lparr>node := n, heap := (a, s) # heap L, interest := (interest L)(src_fd s \<mapsto> (a, m))\<rparr>) cs js ds (a # ss)"
    (is "loop_lists ?L _ _ _ _")
proof (rule loop_listsI)
  have fr: "a \<notin> heads" "a \<notin> set (cs @ js @ ds @ ss)" using a loop_listsD(4) [OF L] by (auto simp: fresh_def)
  have "(lists_map cs js ds ss)(a \<mapsto> []) = lists_map cs js ds (a # ss)" using fr by (auto simp: lists_map_def heads_def)
  then show "store_ok (node ?L) (lists_map cs js ds (a # ss))" using n by simp
  show "set (a # ss) \<inter> heads = {}" using fr loop_listsD(2) [OF L] by simp
  show "distinct (map fst (heap ?L))" "fst ` set (heap ?L) = set (cs @ js @ ds @ (a # ss))"
    using a loop_listsD(3,4) [OF L] by (auto simp: fresh_def)
  show "\<exists>t. map_of (heap ?L) b = Some t \<and> is_idle t" if "b \<in> set js" for b
    using loop_listsD(5) [OF L that] that fr by auto
  show "\<exists>t. map_of (heap ?L) b = Some t \<and> \<not> is_idle t" if "b \<in> set (cs @ (a # ss))" for b
    using loop_listsD(6) [OF L, of b] that s(1) by auto
  show "0 \<le> fd \<and> b \<in> set (cs @ (a # ss)) \<and> (\<exists>t. map_of (heap ?L) b = Some t \<and> src_fd t = fd)"
    if "interest ?L fd = Some (b, m')" for fd b m'
  proof (cases "fd = src_fd s")
    case True
    with that s(2) show ?thesis by simp
  next
    case False
    then have "interest L fd = Some (b, m')" using that by simp
    with loop_listsD(7) [OF L] fr show ?thesis by fastforce
  qed
qed

lemma loop_lists_node:
  "loop_lists L cs js ds ss \<Longrightarrow> store_ok n (lists_map cs js ds ss) \<Longrightarrow> loop_lists (L\<lparr>node := n, closed := c\<rparr>) cs js ds ss"
  by (rule loop_listsI) (use loop_listsD [of L cs js ds ss] in auto)

lemma fresh_None: "fresh a L \<Longrightarrow> map_of (heap L) a = None"
  by (simp add: fresh_def map_of_eq_None_iff)

lemma add_source_idles:
  assumes L: "idles L js" and a: "fresh a L" and s: "\<not> is_idle s"
  shows "\<exists>r L'. add_source a s m ctl L = Some (r, L') \<and> idles L' js \<and> keeps L L'"
proof (cases "src_fd s < 0")
  case True
  with L show ?thesis by (simp add: add_source_def)
next
  case fd: False
  obtain ds ss where ls: "loop_lists L [] js ds ss" using L unfolding idles_def by blast
  let ?M = "lists_map [] js ds ss"
  obtain n where n: "INIT_LIST_HEAD a (node L) = Some n" "store_ok n (?M(a \<mapsto> []))"
    using store_ok_init [OF loop_listsD(1) [OF ls] _ fresh_used [OF ls a]] a by (auto simp: fresh_def)
  show ?thesis
  proof (cases "ctl \<and> interest L (src_fd s) = None")
    case True
    with fd n have r: "add_source a s m ctl L =
        Some (a, L\<lparr>node := n, heap := (a, s) # heap L, interest := (interest L)(src_fd s \<mapsto> (a, epoll_mask m))\<rparr>)"
      by (simp add: add_source_def)
    have "keeps L (L\<lparr>node := n, heap := (a, s) # heap L, interest := (interest L)(src_fd s \<mapsto> (a, epoll_mask m))\<rparr>)"
      using fresh_None [OF a] by (auto simp: keeps_def)
    moreover note loop_lists_new [OF ls a s _ _ n(2), of "epoll_mask m"]
    ultimately show ?thesis using r True fd unfolding idles_def by fastforce
  next
    case False
    have "lists_map [] js ds ss a = None" using a loop_listsD(4) [OF ls] by (auto simp: lists_map_def fresh_def heads_def)
    then have "store_ok n ?M" using store_ok_drop [OF n(2), of a] by (metis fun_upd_triv fun_upd_upd)
    then have "idles (L\<lparr>node := n, closed := closed L @ [src_fd s]\<rparr>) js" using loop_lists_node [OF ls] unfolding idles_def by blast
    with False fd n show ?thesis by (auto simp: add_source_def keeps_def)
  qed
qed

lemma loop_lists_calls: "loop_lists (L\<lparr>calls := c\<rparr>) cs js ds ss \<longleftrightarrow> loop_lists L cs js ds ss"
  by (simp add: loop_lists_def)

lemma idles_calls [simp]: "idles (L\<lparr>calls := c\<rparr>) js \<longleftrightarrow> idles L js"
  by (simp add: idles_def loop_lists_calls)

lemma event_loop_add_idle_lists:
  assumes ls: "loop_lists L cs js ds ss" and a: "fresh a L"
  shows "\<exists>n. event_loop_add_idle a f L = Some (a, L\<lparr>node := n, heap := (a, \<lparr>interface = Idle_source f, src_fd = -1\<rparr>) # heap L\<rparr>) \<and>
    loop_lists (L\<lparr>node := n, heap := (a, \<lparr>interface = Idle_source f, src_fd = -1\<rparr>) # heap L\<rparr>) cs (js @ [a]) ds ss"
proof -
  let ?M = "lists_map cs js ds ss"
  have ne: "a \<noteq> NULL" "a \<notin> heads" "a \<notin> set (cs @ js @ ds @ ss)" using a loop_listsD(4) [OF ls] by (auto simp: fresh_def)
  have "op_allowed (Add_tail a IDLE) ?M" using fresh_used [OF ls a] ne(1) by simp
  then obtain n where n: "list_add_tail a IDLE (node L) = Some n" "store_ok n (op_effect (Add_tail a IDLE) ?M)"
    using list_add_tail_refines [OF loop_listsD(1) [OF ls]] by blast
  have "op_effect (Add_tail a IDLE) ?M = lists_map cs (js @ [a]) ds ss" by (auto simp: lists_map_def)
  then have st: "store_ok n (lists_map cs (js @ [a]) ds ss)" using n(2) by simp
  have "loop_lists (L\<lparr>node := n, heap := (a, \<lparr>interface = Idle_source f, src_fd = -1\<rparr>) # heap L\<rparr>) cs (js @ [a]) ds ss" (is "loop_lists ?L _ _ _ _")
  proof (rule loop_listsI)
    show "distinct (map fst (heap ?L))" "fst ` set (heap ?L) = set (cs @ (js @ [a]) @ ds @ ss)"
      using a loop_listsD(3,4) [OF ls] by (auto simp: fresh_def)
    show "\<exists>t. map_of (heap ?L) b = Some t \<and> is_idle t" if "b \<in> set (js @ [a])" for b
      using loop_listsD(5) [OF ls, of b] that by (auto simp: is_idle_def)
    show "\<exists>t. map_of (heap ?L) b = Some t \<and> \<not> is_idle t" if "b \<in> set (cs @ ss)" for b
      using loop_listsD(6) [OF ls that] that ne(3) by auto
    show "0 \<le> fd \<and> b \<in> set (cs @ ss) \<and> (\<exists>t. map_of (heap ?L) b = Some t \<and> src_fd t = fd)" if "interest ?L fd = Some (b, m)" for fd b m
      using loop_listsD(7) [OF ls, of fd b m] that ne(3) by auto
  qed (use st loop_listsD(2) [OF ls] in auto)
  then show ?thesis using n(1) ne(1) by (intro exI [of _ n]) (simp add: event_loop_add_idle_def)
qed

lemma event_loop_add_idle_idles:
  assumes "idles L js" "fresh a L"
  shows "\<exists>r L'. event_loop_add_idle a f L = Some (r, L') \<and> idles L' (js @ [a]) \<and> keeps L L'"
proof -
  obtain ds ss where ls: "loop_lists L [] js ds ss" using assms(1) unfolding idles_def by blast
  obtain n where n: "event_loop_add_idle a f L = Some (a, L\<lparr>node := n, heap := (a, \<lparr>interface = Idle_source f, src_fd = -1\<rparr>) # heap L\<rparr>)"
      "loop_lists (L\<lparr>node := n, heap := (a, \<lparr>interface = Idle_source f, src_fd = -1\<rparr>) # heap L\<rparr>) [] (js @ [a]) ds ss"
    using event_loop_add_idle_lists [OF ls assms(2)] by blast
  moreover have "keeps L (L\<lparr>node := n, heap := (a, \<lparr>interface = Idle_source f, src_fd = -1\<rparr>) # heap L\<rparr>)"
    using fresh_None [OF assms(2)] by (auto simp: keeps_def)
  ultimately show ?thesis unfolding idles_def by blast
qed

text \<open>The kernel's entry for the descriptor of \<open>a\<close>, if there is one, is that of \<open>a\<close>.\<close>

definition own_entry :: "link \<Rightarrow> 'f event_loop \<Rightarrow> bool" where
  "own_entry a L \<longleftrightarrow> (case map_of (heap L) a of None \<Rightarrow> False
     | Some s \<Rightarrow> (case interest L (src_fd s) of None \<Rightarrow> True | Some (b, m) \<Rightarrow> b = a))"

lemma event_source_fd_update_idles:
  assumes "idles L js" "own_entry a L"
  shows "\<exists>r L'. event_source_fd_update a m ctl L = Some (r, L') \<and> idles L' js \<and> keeps L L'"
proof -
  obtain ds ss where ls: "loop_lists L [] js ds ss" using assms(1) unfolding idles_def by blast
  obtain s where s: "map_of (heap L) a = Some s" "\<And>b m. interest L (src_fd s) = Some (b, m) \<Longrightarrow> b = a"
    using assms(2) by (auto simp: own_entry_def split: option.splits prod.splits)
  show ?thesis
  proof (cases "ctl \<and> interest L (src_fd s) \<noteq> None")
    case True
    then obtain m0 where m0: "interest L (src_fd s) = Some (a, m0)" using s(2) by auto
    have "loop_lists (L\<lparr>interest := (interest L)(src_fd s \<mapsto> (a, epoll_mask m))\<rparr>) [] js ds ss" (is "loop_lists ?L _ _ _ _")
    proof (rule loop_listsI)
      fix fd b m'
      assume "interest ?L fd = Some (b, m')"
      then obtain m1 where "interest L fd = Some (b, m1)" using m0 by (auto split: if_splits)
      from loop_listsD(7) [OF ls this]
      show "0 \<le> fd \<and> b \<in> set ([] @ ss) \<and> (\<exists>t. map_of (heap ?L) b = Some t \<and> src_fd t = fd)" by simp
    qed (use loop_listsD(1-6) [OF ls] in auto)
    then have "idles ?L js" unfolding idles_def by blast
    with True s show ?thesis by (auto simp: event_source_fd_update_def keeps_def)
  next
    case False
    then show ?thesis using s assms(1) by (auto simp: event_source_fd_update_def)
  qed
qed

lemma drop_fd_kind: "map_of (heap L) b = Some t \<Longrightarrow> \<exists>t'. map_of (heap (drop_fd a s L)) b = Some t' \<and> interface t' = interface t"
  by (auto simp: drop_fd_def Let_def map_of_update)

lemma remove_keeps: "event_source_remove a L = Some L' \<Longrightarrow> keeps L L'"
  using drop_fd_kind [of L]
  by (auto simp: event_source_remove_def Let_def keeps_def split: option.splits bind_splits) 

lemma event_source_remove_idles:
  assumes "idles L js" "a \<in> fst ` set (heap L)"
  shows "\<exists>L'. event_source_remove a L = Some L' \<and> idles L' (removeAll a js) \<and> keeps L L' \<and> calls L' = calls L"
proof -
  obtain ds ss where ls: "loop_lists L [] js ds ss" using assms(1) unfolding idles_def by blast
  obtain L' where "event_source_remove a L = Some L'" "calls L' = calls L" "loop_lists L' [] (removeAll a js) (removeAll a ds @ [a]) (removeAll a ss)"
    using event_source_remove_lists [OF ls assms(2)] by auto
  then show ?thesis using remove_keeps unfolding idles_def by blast
qed

subsection \<open>Callbacks keep the invariant\<close>

text \<open>
  What a callback may do: name sources that are not freed, and add sources at addresses that
  \<open>malloc\<close> returned.
\<close>

definition new_addr :: "link \<Rightarrow> 'f event_loop \<Rightarrow> bool" where
  "new_addr a L \<longleftrightarrow> a = NULL \<or> fresh a L"

fun loop_op_ok :: "'f loop_op \<Rightarrow> 'f event_loop \<Rightarrow> bool" where
  "loop_op_ok (Add_fd a fd nd m f d c) L \<longleftrightarrow> new_addr a L"
| "loop_op_ok (Add_timer a f tfd c) L \<longleftrightarrow> new_addr a L"
| "loop_op_ok (Add_signal a sig f sfd c) L \<longleftrightarrow> new_addr a L"
| "loop_op_ok (Add_idle a f) L \<longleftrightarrow> new_addr a L"
| "loop_op_ok (Update_fd a m c) L \<longleftrightarrow> own_entry a L"
| "loop_op_ok (Check a) L \<longleftrightarrow> False"
| "loop_op_ok (Remove a) L \<longleftrightarrow> a \<in> fst ` set (heap L)"

fun loop_ops_ok :: "'f loop_op list \<Rightarrow> 'f event_loop \<Rightarrow> bool" where
  "loop_ops_ok [] L \<longleftrightarrow> True"
| "loop_ops_ok (p # ps) L \<longleftrightarrow> loop_op_ok p L \<and> (case run_loop_op p L of None \<Rightarrow> True | Some L' \<Rightarrow> loop_ops_ok ps L')"

definition callbacks_ok :: "'f callbacks \<Rightarrow> bool" where
  "callbacks_ok cb \<longleftrightarrow> (\<forall>f arg L. quiet L \<longrightarrow> loop_ops_ok (fst (cb f arg L)) L)"

text \<open>The idle sources after an operation.\<close>

fun op_idles :: "'f loop_op \<Rightarrow> link list \<Rightarrow> link list" where
  "op_idles (Add_idle a f) js = (if a = NULL then js else js @ [a])"
| "op_idles (Remove a) js = removeAll a js"
| "op_idles p js = js"

lemma run_loop_op_idles:
  assumes "idles L js" "loop_op_ok p L"
  shows "\<exists>L'. run_loop_op p L = Some L' \<and> idles L' (op_idles p js) \<and> keeps L L'"
proof (cases p)
  case (Add_fd a fd nd m f d c)
  then show ?thesis
    using assms add_source_idles [OF assms(1), of a "\<lparr>interface = Fd_source f fd, src_fd = (if nd then fd else d)\<rparr>" m c]
    by (auto simp: event_loop_add_fd_def new_addr_def is_idle_def)
next
  case (Add_timer a f tfd c)
  then show ?thesis
    using assms add_source_idles [OF assms(1), of a "\<lparr>interface = Timer_source f, src_fd = tfd\<rparr>" 1 c]
    by (auto simp: event_loop_add_timer_def new_addr_def is_idle_def)
next
  case (Add_signal a sig f sfd c)
  then show ?thesis
    using assms add_source_idles [OF assms(1), of a "\<lparr>interface = Signal_source f sig, src_fd = sfd\<rparr>" 1 c]
    by (auto simp: event_loop_add_signal_def new_addr_def is_idle_def)
next
  case (Add_idle a f)
  then show ?thesis
    using assms event_loop_add_idle_idles [OF assms(1), of a f] by (auto simp: new_addr_def event_loop_add_idle_def fresh_def)
next
  case (Update_fd a m c)
  then show ?thesis using assms event_source_fd_update_idles [OF assms(1), of a m c] by auto
next
  case (Check a)
  then show ?thesis using assms(2) by simp
next
  case (Remove a)
  then show ?thesis using assms event_source_remove_idles [OF assms(1), of a] by auto
qed

lemma run_loop_ops_idles:
  assumes "idles L js" "loop_ops_ok ps L"
  shows "\<exists>L'. run_loop_ops ps L = Some L' \<and> idles L' (fold op_idles ps js) \<and> keeps L L'"
  using assms
proof (induction ps arbitrary: L js)
  case (Cons p ps)
  then obtain L1 where L1: "run_loop_op p L = Some L1" "idles L1 (op_idles p js)" "keeps L L1"
    using run_loop_op_idles [of L js p] by auto
  then obtain L' where "run_loop_ops ps L1 = Some L'" "idles L' (fold op_idles ps (op_idles p js))" "keeps L1 L'"
    using Cons.IH [OF L1(2)] Cons.prems(2) by auto
  with L1 show ?case using keeps_trans by auto
qed auto

lemma callback_idles:
  assumes "callbacks_ok cb" "idles L js"
  shows "\<exists>r L'. callback cb f arg L = Some (r, L') \<and> idles L' (fold op_idles (fst (cb f arg L)) js) \<and> keeps L L'"
proof -
  have "loop_ops_ok (fst (cb f arg L)) L" using assms unfolding callbacks_ok_def quiet_def by blast
  from run_loop_ops_idles [OF assms(2) this] show ?thesis by (cases "cb f arg L") (auto simp: callback_def)
qed

subsection \<open>Dispatching keeps the invariant\<close>

definition active :: "'f event_loop \<Rightarrow> link \<Rightarrow> bool" where
  "active L a \<longleftrightarrow> (\<exists>s. map_of (heap L) a = Some s \<and> \<not> is_idle s)"

lemma keeps_active: "keeps L L' \<Longrightarrow> active L a \<Longrightarrow> active L' a"
  unfolding keeps_def active_def is_idle_def by metis

lemma keeps_calls: "keeps (L\<lparr>calls := c\<rparr>) L' \<longleftrightarrow> keeps L L'"
  by (simp add: keeps_def)

lemma dispatch_source_quiet:
  assumes "callbacks_ok cb" "quiet L" "active L a"
  shows "\<exists>r L'. dispatch_source cb a ev L = Some (r, L') \<and> quiet L' \<and> keeps L L'"
proof -
  obtain s where s: "map_of (heap L) a = Some s" "\<not> is_idle s" using assms(3) unfolding active_def by blast
  obtain js where js: "idles (L\<lparr>calls := calls L @ [(a, ev)]\<rparr>) js" using assms(2) unfolding quiet_def by auto
  have "\<exists>r L'. callback cb f arg (L\<lparr>calls := calls L @ [(a, ev)]\<rparr>) = Some (r, L') \<and> quiet L' \<and> keeps L L'" for f arg
    using callback_idles [OF assms(1) js, of f arg] keeps_calls unfolding quiet_def by metis
  with s show ?thesis by (cases "interface s") (auto simp: dispatch_source_def is_idle_def)
qed

lemma dispatch_events_quiet:
  assumes "callbacks_ok cb" "quiet L" "\<forall>(a, ev) \<in> set es. active L a"
  shows "\<exists>L'. dispatch_events cb es L = Some L' \<and> quiet L' \<and> keeps L L'"
  using assms(2,3)
proof (induction es arbitrary: L)
  case (Cons e es)
  obtain a ev where e: "e = (a, ev)" by (cases e)
  have a: "active L a" and es: "\<forall>(b, v) \<in> set es. active L b" using Cons.prems(2) e by auto
  then obtain s where s: "map_of (heap L) a = Some s" unfolding active_def by blast
  show ?case
  proof (cases "src_fd s = -1")
    case True
    then show ?thesis using s e Cons.IH [OF Cons.prems(1) es] by simp
  next
    case False
    obtain r L1 where L1: "dispatch_source cb a ev L = Some (r, L1)" "quiet L1" "keeps L L1"
      using dispatch_source_quiet [OF assms(1) Cons.prems(1) a] by blast
    have "\<forall>(b, v) \<in> set es. active L1 b" using es keeps_active [OF L1(3)] by blast
    with Cons.IH [OF L1(2)] obtain L' where "dispatch_events cb es L1 = Some L'" "quiet L'" "keeps L1 L'" by blast
    then show ?thesis using False s e L1 keeps_trans by auto
  qed
qed auto

lemma map_of_filter_out: "map_of (filter (\<lambda>(a, s). a \<notin> A) xs) a = (if a \<in> A then None else map_of xs a)"
  by (induction xs) auto

lemma process_destroy_list_lists:
  assumes L: "loop_lists L cs js ds ss"
  shows "\<exists>n. event_loop_process_destroy_list L = Some (L\<lparr>node := n, heap := filter (\<lambda>(a, s). a \<notin> set ds) (heap L)\<rparr>) \<and>
     loop_lists (L\<lparr>node := n, heap := filter (\<lambda>(a, s). a \<notin> set ds) (heap L)\<rparr>) cs js [] ss"
proof -
  let ?M = "lists_map cs js ds ss"
  note pl = loop_lists_places [OF L] and ok = loop_listsD(1) [OF L]
  have dl: "dll (node L) DESTROY ds" using store_okD [OF ok] by simp
  have "distinct ds" "set ds \<subseteq> fst ` set (heap L)" using dl loop_listsD(4) [OF L] by (auto simp: dll_def)
  then have "length ds \<le> length (heap L)"
    by (metis card_image_le card_length card_mono distinct_card finite_set finite_imageI le_trans)
  moreover have "chain (node L) (ds @ [DESTROY])" using dl by (cases ds) (auto simp: dll_def)
  ultimately have walk: "list_for_each (Suc (length (heap L))) (node L) (nxt (node L) DESTROY) DESTROY = Some ds"
    using for_each_dll [of "node L" ds DESTROY "Suc (length (heap L))"] dl dll_ends(1) [OF dl] by (auto simp: dll_def)
  have "\<forall>a \<in> set ds. map_of (heap L) a \<noteq> None" using loop_listsD(4) [OF L] by (auto simp: map_of_eq_None_iff)
  moreover have "DESTROY \<notin> used (?M(DESTROY := None))"
    using pl(1) loop_listsD(2) [OF L] lists_map_Some [of cs js ds ss] by (fastforce simp: used_def split: if_splits)
  then obtain n where n: "INIT_LIST_HEAD DESTROY (node L) = Some n" "store_ok n (?M(DESTROY \<mapsto> []))"
    using store_ok_init [OF store_ok_drop [OF ok, of DESTROY], where p = DESTROY] by (auto simp: NULL_def)
  ultimately have r: "event_loop_process_destroy_list L = Some (L\<lparr>node := n, heap := filter (\<lambda>(a, s). a \<notin> set ds) (heap L)\<rparr>)"
    using walk by (simp add: event_loop_process_destroy_list_def get_next_def NULL_def)
  have "loop_lists (L\<lparr>node := n, heap := filter (\<lambda>(a, s). a \<notin> set ds) (heap L)\<rparr>) cs js [] ss" (is "loop_lists ?L _ _ _ _")
  proof (rule loop_listsI)
    have "?M(DESTROY \<mapsto> []) = lists_map cs js [] ss" by (auto simp: lists_map_def)
    then show "store_ok (node ?L) (lists_map cs js [] ss)" using n(2) by simp
    show "distinct (map fst (heap ?L))" using loop_listsD(3) [OF L] by (simp add: distinct_map_filter)
    have "fst ` set (heap ?L) = fst ` set (heap L) - set ds" by force
    then show "fst ` set (heap ?L) = set (cs @ js @ [] @ ss)" using loop_listsD(4) [OF L] pl(3-5) by auto
    show "\<exists>t. map_of (heap ?L) b = Some t \<and> is_idle t" if "b \<in> set js" for b
      using loop_listsD(5) [OF L that] that pl(4) by (auto simp: map_of_filter_out)
    show "\<exists>t. map_of (heap ?L) b = Some t \<and> \<not> is_idle t" if "b \<in> set (cs @ ss)" for b
      using loop_listsD(6) [OF L that] that pl(3,5) by (auto simp: map_of_filter_out)
    show "0 \<le> fd \<and> b \<in> set (cs @ ss) \<and> (\<exists>t. map_of (heap ?L) b = Some t \<and> src_fd t = fd)" if "interest ?L fd = Some (b, m)" for fd b m
      using loop_listsD(7) [OF L, of fd b m] that pl(3,5) by (auto simp: map_of_filter_out)
  qed (use loop_listsD(2) [OF L] in auto)
  with r show ?thesis by blast
qed

lemma process_destroy_list_idles:
  assumes "idles L js"
  shows "\<exists>L'. event_loop_process_destroy_list L = Some L' \<and> idles L' js"
  using assms process_destroy_list_lists unfolding idles_def by blast

lemma list_empty_idles: "idles L js \<Longrightarrow> list_empty IDLE (node L) \<longleftrightarrow> js = []"
  using store_okD [OF loop_listsD(1)] dll_empty lists_map_heads(2) unfolding idles_def by metis

lemma first_idle:
  assumes "idles L (a # js)"
  shows "nxt (node L) IDLE = a" "\<exists>s f. map_of (heap L) a = Some s \<and> interface s = Idle_source f" "a \<in> fst ` set (heap L)" "a \<notin> set js"
proof -
  obtain ds ss where ls: "loop_lists L [] (a # js) ds ss" using assms unfolding idles_def by blast
  have "dll (node L) IDLE (a # js)" using store_okD [OF loop_listsD(1) [OF ls] lists_map_heads(2)] .
  then show "nxt (node L) IDLE = a" "a \<notin> set js" using dll_ends(1) by (auto simp: dll_def)
  show "\<exists>s f. map_of (heap L) a = Some s \<and> interface s = Idle_source f" using loop_listsD(5) [OF ls, of a] by (auto simp: is_idle_def)
  then show "a \<in> fst ` set (heap L)" by (metis image_eqI fst_conv map_of_SomeD)
qed

text \<open>One round of the idle loop: the callback of the first idle source, and its removal.\<close>

lemma dispatch_idle_step:
  assumes cb: "callbacks_ok cb" and L: "idles L (a # js)"
  shows "\<exists>f L1. (\<exists>s. map_of (heap L) a = Some s \<and> interface s = Idle_source f) \<and>
    idles L1 (removeAll a (fold op_idles (fst (cb f On_idle (L\<lparr>calls := calls L @ [(a, 0)]\<rparr>))) (a # js))) \<and> keeps L L1 \<and>
    event_loop_dispatch_idle cb (Suc k) L = event_loop_dispatch_idle cb k L1 \<and>
    (\<exists>r L0. callback cb f On_idle (L\<lparr>calls := calls L @ [(a, 0)]\<rparr>) = Some (r, L0) \<and> calls L1 = calls L0)"
proof -
  obtain s f where s: "map_of (heap L) a = Some s" "interface s = Idle_source f" using first_idle(2) [OF L] by blast
  let ?L = "L\<lparr>calls := calls L @ [(a, 0)]\<rparr>"
  have "idles ?L (a # js)" using L by simp
  then obtain r L0 where L0: "callback cb f On_idle ?L = Some (r, L0)"
      "idles L0 (fold op_idles (fst (cb f On_idle ?L)) (a # js))" "keeps ?L L0"
    using callback_idles [OF cb, of ?L "a # js" f On_idle] by blast
  have k: "keeps L L0" using L0(3) keeps_calls by blast
  have "a \<in> fst ` set (heap L0)" using keeps_key [OF k] first_idle(3) [OF L] by simp
  then obtain L1 where L1: "event_source_remove a L0 = Some L1" "keeps L0 L1" "calls L1 = calls L0"
      "idles L1 (removeAll a (fold op_idles (fst (cb f On_idle ?L)) (a # js)))"
    using event_source_remove_idles [OF L0(2)] by blast
  have "event_loop_dispatch_idle cb (Suc k) L = event_loop_dispatch_idle cb k L1"
    using s L0(1) L1(1) list_empty_idles [OF L] first_idle(1) [OF L] by (simp add: Let_def)
  then show ?thesis using s L0(1) L1(3,4) keeps_trans [OF k L1(2)] by blast
qed

lemma dispatch_idle_quiet:
  assumes cb: "callbacks_ok cb" and L: "idles L js"
  shows "event_loop_dispatch_idle cb k L = Fuel \<or>
    (\<exists>L'. event_loop_dispatch_idle cb k L = Done L' \<and> idles L' [] \<and> keeps L L')"
  using L
proof (induction k arbitrary: L js)
  case 0
  then show ?case using list_empty_idles [of L js] by auto
next
  case (Suc k)
  show ?case
  proof (cases js)
    case Nil
    then show ?thesis using Suc.prems list_empty_idles [of L js] by simp
  next
    case (Cons a js')
    obtain js1 L1 where L1: "idles L1 js1" "keeps L L1" "event_loop_dispatch_idle cb (Suc k) L = event_loop_dispatch_idle cb k L1"
      using dispatch_idle_step [OF cb, of L a js' k] Suc.prems Cons by blast
    show ?thesis using Suc.IH [OF L1(1)] L1(2,3) keeps_trans [OF L1(2)] by metis
  qed
qed

lemma recheck_quiet: "quiet L \<Longrightarrow> recheck cb (Suc k) L = Done L"
proof -
  assume "quiet L"
  then obtain js ds ss where ls: "loop_lists L [] js ds ss" unfolding quiet_def idles_def by blast
  have "dll (node L) CHECK []" using store_okD [OF loop_listsD(1) [OF ls] lists_map_heads(1)] .
  then have "nxt (node L) CHECK = CHECK" using dll_ends(1) by fastforce
  then show ?thesis by (simp add: post_dispatch_check_def get_next_def NULL_def)
qed

text \<open>What the kernel promises of \<open>epoll_wait\<close>: the pointer of an event is that of a watched source.\<close>

definition reports_watched :: "('f event_loop \<Rightarrow> (link \<times> nat) list option) \<Rightarrow> bool" where
  "reports_watched w \<longleftrightarrow> (\<forall>L es. w L = Some es \<longrightarrow> (\<forall>(a, ev) \<in> set es. \<exists>fd m. interest L fd = Some (a, m)))"

lemma watched_active: "quiet L \<Longrightarrow> interest L fd = Some (a, m) \<Longrightarrow> active L a"
  unfolding quiet_def idles_def active_def using loop_listsD(6,7) by blast

lemma event_loop_dispatch_quiet:
  assumes cb: "callbacks_ok cb" and w: "reports_watched w" and L: "quiet L"
  shows "event_loop_dispatch cb w (Suc k) L = Fuel \<or> (\<exists>r L'. event_loop_dispatch cb w (Suc k) L = Done (r, L') \<and> idles L' [])"
proof -
  obtain js where js: "idles L js" using L unfolding quiet_def by blast
  consider "event_loop_dispatch_idle cb (Suc k) L = Fuel"
    | L1 where "event_loop_dispatch_idle cb (Suc k) L = Done L1" "idles L1 []" using dispatch_idle_quiet [OF cb js] by blast
  then show ?thesis
  proof cases
    case 1
    then show ?thesis by (simp add: event_loop_dispatch_def)
  next
    case (2 L1)
    then have q1: "quiet L1" unfolding quiet_def by blast
    show ?thesis
    proof (cases "w L1")
      case None
      then show ?thesis using 2 by (simp add: event_loop_dispatch_def)
    next
      case (Some es)
      have "\<forall>(a, ev) \<in> set es. active L1 a" using w Some watched_active [OF q1] unfolding reports_watched_def by blast
      then obtain L2 js2 where L2: "dispatch_events cb es L1 = Some L2" "idles L2 js2"
        using dispatch_events_quiet [OF cb q1] unfolding quiet_def by blast
      then obtain L3 where L3: "event_loop_process_destroy_list L2 = Some L3" "idles L3 js2"
        using process_destroy_list_idles by blast
      have "recheck cb (Suc k) L' = Done L'" if "idles L' []" for L' using that recheck_quiet unfolding quiet_def by blast
      then show ?thesis using dispatch_idle_quiet [OF cb L3(2), of "Suc k"] 2(1) Some L2(1) L3(1)
        by (auto simp: event_loop_dispatch_def simp del: event_loop_dispatch_idle.simps recheck.simps)
    qed
  qed
qed

lemma used_singles:
  "IDLE \<notin> used [CHECK \<mapsto> []]" "DESTROY \<notin> used [CHECK \<mapsto> [], IDLE \<mapsto> []]" "IDLE \<noteq> NULL" "DESTROY \<noteq> NULL"
  by (auto simp: used_iff NULL_def split: if_splits)

lemma event_loop_create_idles:
  assumes "0 \<le> epfd"
  shows "\<exists>L. event_loop_create True epfd n = Some (Some L) \<and> idles L [] \<and> heap L = [] \<and> interest L = Map.empty"
proof -
  have e: "store_ok n Map.empty" by (simp add: store_ok_def)
  obtain n1 where n1: "INIT_LIST_HEAD CHECK n = Some n1" "store_ok n1 [CHECK \<mapsto> []]"
    using store_ok_init [OF e, where p = CHECK] by (auto simp: used_def NULL_def)
  obtain n2 where n2: "INIT_LIST_HEAD IDLE n1 = Some n2" "store_ok n2 [CHECK \<mapsto> [], IDLE \<mapsto> []]"
    using store_ok_init [OF n1(2), where p = IDLE] used_singles by metis
  obtain n3 where n3: "INIT_LIST_HEAD DESTROY n2 = Some n3" "store_ok n3 [CHECK \<mapsto> [], IDLE \<mapsto> [], DESTROY \<mapsto> []]"
    using store_ok_init [OF n2(2), where p = DESTROY] used_singles by metis
  let ?L = "\<lparr>interest = Map.empty, node = n3, heap = [], closed = [], calls = []\<rparr>"
  have "[CHECK \<mapsto> [], IDLE \<mapsto> [], DESTROY \<mapsto> []] = lists_map [] [] [] []" by (auto simp: lists_map_def)
  then have "loop_lists ?L [] [] [] []" using n3(2) by (intro loop_listsI) auto
  then show ?thesis using assms n1(1) n2(1) n3(1) unfolding idles_def by (auto simp: event_loop_create_def)
qed

subsection \<open>The life of a loop\<close>

text \<open>
  The states of a loop: created, then changed by the operations the program calls on it and by
  the dispatches that return.
\<close>

inductive reachable :: "'f callbacks \<Rightarrow> ('f event_loop \<Rightarrow> (link \<times> nat) list option) \<Rightarrow> 'f event_loop \<Rightarrow> bool" for cb w where
  created: "event_loop_create True epfd n = Some (Some L) \<Longrightarrow> reachable cb w L"
| operation: "reachable cb w L \<Longrightarrow> loop_op_ok p L \<Longrightarrow> run_loop_op p L = Some L' \<Longrightarrow> reachable cb w L'"
| dispatched: "reachable cb w L \<Longrightarrow> event_loop_dispatch cb w (Suc k) L = Done (r, L') \<Longrightarrow> reachable cb w L'"

lemma created_quiet:
  assumes "event_loop_create m epfd n = Some (Some L)"
  shows "quiet L"
proof -
  have "m" "0 \<le> epfd" using assms by (auto simp: event_loop_create_def split: if_splits)
  then obtain L' :: "'a event_loop" where "event_loop_create m epfd n = Some (Some L')" "idles L' []" using event_loop_create_idles [of epfd n] by auto
  then show ?thesis using assms by (auto simp: quiet_def)
qed

lemma reachable_quiet:
  assumes "callbacks_ok cb" "reports_watched w" "reachable cb w L"
  shows "quiet L"
  using assms(3)
proof (induction rule: reachable.induct)
  case (created epfd n L)
  then show ?case by (rule created_quiet)
next
  case (operation L p L')
  then show ?case using run_loop_op_idles [of L _ p] unfolding quiet_def by fastforce
next
  case (dispatched L k r L')
  then show ?case using event_loop_dispatch_quiet [OF assms(1,2), of L k] unfolding quiet_def by auto
qed

text \<open>
  C4. Once created, a loop is never corrupted: whatever sources the program and its callbacks add,
  update and remove, in whatever order the events arrive, a dispatch never follows a freed
  source, a null pointer or a broken list link.  It does not return when a callback keeps
  adding idle sources; when it returns, no idle source is left, and every
  descriptor that the kernel watches belongs to a source that is not freed.
\<close>

theorem event_loop_dispatch_safe:
  assumes "callbacks_ok cb" "reports_watched w" "reachable cb w L"
  shows "event_loop_dispatch cb w (Suc k) L \<noteq> Crash \<and>
    (\<forall>r L'. event_loop_dispatch cb w (Suc k) L = Done (r, L') \<longrightarrow>
       list_empty IDLE (node L') \<and> (\<forall>fd a m. interest L' fd = Some (a, m) \<longrightarrow> (\<exists>s. map_of (heap L') a = Some s \<and> src_fd s = fd)))"
proof -
  have "list_empty IDLE (node L') \<and> (\<forall>fd a m. interest L' fd = Some (a, m) \<longrightarrow> (\<exists>s. map_of (heap L') a = Some s \<and> src_fd s = fd))"
    if "idles L' []" for L' :: "'a event_loop"
    using that list_empty_idles loop_listsD(7) unfolding idles_def by blast
  then show ?thesis using event_loop_dispatch_quiet [OF assms(1,2) reachable_quiet [OF assms], of k] by auto
qed

definition sample_callbacks :: "nat callbacks" where
  "sample_callbacks f arg L = (case arg of On_fd fd m \<Rightarrow> ([Add_idle (if 20 \<in> fst ` set (heap L) then 0 else 20) 7], 0) | _ \<Rightarrow> ([], 0))"

definition sample_wait :: "nat event_loop \<Rightarrow> (link \<times> nat) list option" where
  "sample_wait L = (case interest L 5 of None \<Rightarrow> None | Some (a, m) \<Rightarrow> Some [(a, m)])"

lemma sample_callbacks_ok: "callbacks_ok sample_callbacks" "reports_watched sample_wait"
  by (auto simp: callbacks_ok_def sample_callbacks_def new_addr_def fresh_def heads_def NULL_def reports_watched_def sample_wait_def
      split: callback_arg.splits option.splits)

theorem event_loop_dispatch_safe_witness:
  "\<exists>L1 L2. event_loop_create True 3 sample_links = Some (Some L1) \<and> run_loop_op (Add_fd 10 5 True 1 6 0 True) L1 = Some L2 \<and>
     event_loop_dispatch sample_callbacks sample_wait (Suc 1) L2 \<noteq> Crash"
proof -
  obtain L1 :: "nat event_loop" where L1: "event_loop_create True 3 sample_links = Some (Some L1)" "idles L1 []" "heap L1 = []"
    using event_loop_create_idles [of 3 sample_links] by auto
  have ok: "loop_op_ok (Add_fd 10 5 True 1 6 0 True) L1" using L1(3) by (simp add: new_addr_def fresh_def heads_def NULL_def)
  then obtain L2 where L2: "run_loop_op (Add_fd 10 5 True 1 6 0 True) L1 = Some L2" using run_loop_op_idles [OF L1(2)] by blast
  have "reachable sample_callbacks sample_wait L2"
    using reachable.operation [OF reachable.created [OF L1(1)] ok L2] .
  then show ?thesis using event_loop_dispatch_safe [OF sample_callbacks_ok] L1(1) L2 by blast
qed

subsection \<open>Idle sources run once, in order\<close>

lemma run_loop_op_calls: "run_loop_op p L = Some L' \<Longrightarrow> calls L' = calls L"
  by (cases p)
    (auto simp: event_loop_add_fd_def event_loop_add_timer_def event_loop_add_signal_def event_loop_add_idle_def add_source_def
       event_source_fd_update_def event_source_check_def event_source_remove_def Let_def drop_fd_fields bind_eq_Some_conv
       split: if_splits option.splits)

lemma run_loop_ops_calls: "run_loop_ops ps L = Some L' \<Longrightarrow> calls L' = calls L"
  by (induction ps arbitrary: L) (auto simp: bind_eq_Some_conv dest: run_loop_op_calls)

lemma callback_calls: "callback cb f arg L = Some (r, L') \<Longrightarrow> calls L' = calls L"
  by (auto simp: callback_def split: prod.splits dest: run_loop_ops_calls)

text \<open>Idle callbacks that neither add nor remove idle sources.\<close>

definition idle_stable :: "'f callbacks \<Rightarrow> bool" where
  "idle_stable cb \<longleftrightarrow> (\<forall>f L js. idles L js \<longrightarrow> fold op_idles (fst (cb f On_idle L)) js = js)"

text \<open>
  C21. When the idle callbacks leave the idle list alone, the idle loop ends after as many rounds
  as there are idle sources, has called each of them exactly once, in the order in which they
  were added, and leaves the idle list empty.
\<close>

theorem idle_callbacks_run_once:
  assumes "callbacks_ok cb" "idle_stable cb" "idles L js" "length js \<le> k"
  shows "\<exists>L'. event_loop_dispatch_idle cb k L = Done L' \<and> calls L' = calls L @ map (\<lambda>a. (a, 0)) js \<and> list_empty IDLE (node L')"
  using assms(3,4)
proof (induction js arbitrary: L k)
  case Nil
  then show ?case using list_empty_idles [of L "[]"] by (cases k) auto
next
  case (Cons a js)
  then obtain k' where k: "k = Suc k'" "length js \<le> k'" by (cases k) auto
  let ?L = "L\<lparr>calls := calls L @ [(a, 0)]\<rparr>"
  obtain f L1 r L0 where L1: "idles L1 (removeAll a (fold op_idles (fst (cb f On_idle ?L)) (a # js)))"
      "event_loop_dispatch_idle cb (Suc k') L = event_loop_dispatch_idle cb k' L1"
      "callback cb f On_idle ?L = Some (r, L0)" "calls L1 = calls L0"
    using dispatch_idle_step [OF assms(1) Cons.prems(1), of k'] by blast
  have "fold op_idles (fst (cb f On_idle ?L)) (a # js) = a # js"
    using assms(2) Cons.prems(1) unfolding idle_stable_def by (metis idles_calls)
  then have "idles L1 js" using L1(1) first_idle(4) [OF Cons.prems(1)] by simp
  moreover have "calls L1 = calls L @ [(a, 0)]" using L1(4) callback_calls [OF L1(3)] by simp
  ultimately show ?case using Cons.IH [of L1 k'] L1(2) k by simp
qed

lemma sample_idle_stable: "idle_stable sample_callbacks"
  by (simp add: idle_stable_def sample_callbacks_def)

theorem idle_callbacks_run_once_witness:
  "\<exists>L1 L2 L3. event_loop_create True 3 sample_links = Some (Some L1) \<and>
     run_loop_ops [Add_idle 30 7, Add_idle 31 8] L1 = Some L2 \<and>
     event_loop_dispatch_idle sample_callbacks 2 L2 = Done L3 \<and> calls L3 = calls L2 @ [(30, 0), (31, 0)]"
proof -
  obtain L1 :: "nat event_loop" where L1: "event_loop_create True 3 sample_links = Some (Some L1)" "idles L1 []" "heap L1 = []"
    using event_loop_create_idles [of 3 sample_links] by auto
  have "loop_ops_ok [Add_idle 30 7, Add_idle 31 8] L1"
    using L1(3) by (auto simp: new_addr_def fresh_def heads_def NULL_def event_loop_add_idle_def bind_eq_Some_conv split: option.splits)
  then obtain L2 where L2: "run_loop_ops [Add_idle 30 7, Add_idle 31 8] L1 = Some L2" "idles L2 [30, 31]"
    using run_loop_ops_idles [OF L1(2)] by (fastforce simp: NULL_def)
  from idle_callbacks_run_once [OF sample_callbacks_ok(1) sample_idle_stable L2(2), of 2]
  show ?thesis using L1(1) L2(1) by (auto simp del: run_loop_ops.simps)
qed

subsection \<open>Events of removed sources\<close>

lemma drop_fd_fd:
  assumes "map_of (heap L) a = Some s" "0 \<le> src_fd s"
  shows "\<exists>t. map_of (heap (drop_fd a s L)) a = Some t \<and> interface t = interface s \<and>
     src_fd t = (if \<exists>f. interface s = Fd_source f (src_fd s) then src_fd s else -1)"
  using assms by (cases "interface s") (auto simp: drop_fd_def Let_def map_of_update)

text \<open>
  C38. An event that was fetched for a source which an earlier callback of the same dispatch
  removed is skipped when the loop had its own descriptor for the source, as for timers, signals
  and duplicated descriptors.  A source that uses the caller's descriptor keeps it when it is
  removed, and its callback still runs.
\<close>

theorem removed_source_events:
  assumes "map_of (heap L) a = Some s" "0 \<le> src_fd s" "event_source_remove a L = Some L'"
  shows "dispatch_events cb ((a, ev) # es) L' =
    (if \<exists>f. interface s = Fd_source f (src_fd s)
     then (case dispatch_source cb a ev L' of None \<Rightarrow> None | Some (r, L'') \<Rightarrow> dispatch_events cb es L'')
     else dispatch_events cb es L')"
proof -
  have "heap L' = heap (drop_fd a s L)" using assms(1,3) by (auto simp: event_source_remove_def Let_def bind_eq_Some_conv)
  then show ?thesis using drop_fd_fd [OF assms(1,2)] assms(2) by auto
qed

theorem removed_source_events_witness:
  "\<exists>L1 L2 L3. event_loop_create True 3 sample_links = Some (Some L1) \<and>
     run_loop_op (Add_timer 10 6 5 True) L1 = Some L2 \<and> event_source_remove 10 L2 = Some L3 \<and>
     dispatch_events sample_callbacks [(10, 1)] L3 = Some L3"
proof -
  obtain L1 :: "nat event_loop" where L1: "event_loop_create True 3 sample_links = Some (Some L1)" "idles L1 []" "heap L1 = []" "interest L1 = Map.empty"
    using event_loop_create_idles [of 3 sample_links] by auto
  have ok: "loop_op_ok (Add_timer 10 6 5 True) L1" using L1(3) by (simp add: new_addr_def fresh_def heads_def NULL_def)
  then obtain L2 where L2: "run_loop_op (Add_timer 10 6 5 True) L1 = Some L2" "idles L2 []"
    using run_loop_op_idles [OF L1(2)] by fastforce
  have s: "map_of (heap L2) 10 = Some \<lparr>interface = Timer_source 6, src_fd = 5\<rparr>"
    using L2(1) L1(3,4) by (auto simp: event_loop_add_timer_def add_source_def bind_eq_Some_conv NULL_def)
  then have "10 \<in> fst ` set (heap L2)" by (metis image_eqI fst_conv map_of_SomeD)
  then obtain L3 where L3: "event_source_remove 10 L2 = Some L3" using event_source_remove_idles [OF L2(2)] by blast
  from removed_source_events [OF s _ L3, of sample_callbacks 1 "[]"] show ?thesis using L1(1) L2(1) L3 by auto
qed

end
