(* ===== verification/Server.thy ===== *)
theory Server
  imports Commands Event_Loop
begin

section \<open>The server (main.c)\<close>

text \<open>
  The server accepts connections and gives each of up to eight clients a terminal; after every
  dispatch it closes the terminals that want to exit.  A client is its terminal together
  with the event source of its descriptor, and the state of the server is
  \<open>struct zebra_server\<close> with the event loop.  What the system calls and \<open>malloc\<close> return is a
  \<open>conn\<close>.  Ghost fields record the accepted descriptors; the closed ones are those that
  the event loop records.  Following a null pointer or a freed source is the result \<open>None\<close>.
\<close>

datatype server_func = Zebra_accept | Term_handle_input

type_synonym loop = "server_func event_loop"

record ('f, 'o) client =
  cterm :: "('f, 'o) term"
  csource :: link

record ('f, 'o) zebra_server =
  source :: link
  zloop :: loop
  zfd :: int
  clients :: "('f, 'o) client option list"
  accepted :: "int list"

record conn =
  cfd :: int
  errno :: int
  update_ok :: bool
  src_addr :: link
  ctl_ok :: bool
  conn_mem :: alloc
  conn_tree_mem :: alloc

definition MAX_NR_CLIENTS :: nat where "MAX_NR_CLIENTS = 8"

definition close_fd :: "int \<Rightarrow> loop \<Rightarrow> loop" where
  "close_fd d L = L\<lparr>closed := closed L @ [d]\<rparr>"

subsection \<open>Terminals on the loop\<close>

text \<open>\<open>term_create\<close> with the source it adds to the loop and removes again when a later allocation fails.\<close>

definition term_open ::
    "alloc \<Rightarrow> alloc \<Rightarrow> link \<Rightarrow> bool \<Rightarrow> env \<Rightarrow> ('f, 'o) cmd_elem list \<Rightarrow> ('f, 'o) cmd_elem list \<Rightarrow> int \<Rightarrow> string option \<Rightarrow> loop
       \<Rightarrow> (('f, 'o) client option \<times> loop) option" where
  "term_open mem tree_mem a ctl e common sect d nm L =
     (if \<not> (mem 0 \<and> mem 1 \<and> mem 2 \<and> mem 3) then Some (None, L)
      else case event_loop_add_fd a d True 2 Term_handle_input 0 ctl L of
        None \<Rightarrow> None
      | Some (p, L) \<Rightarrow>
          if p = NULL then Some (None, L)
          else case term_create mem tree_mem True e common sect d nm of
            None \<Rightarrow> None
          | Some None \<Rightarrow> map_option (\<lambda>L. (None, L)) (event_source_remove p L)
          | Some (Some t) \<Rightarrow> Some (Some \<lparr>cterm = t, csource = p\<rparr>, L))"

definition term_close :: "('f, 'o) client \<Rightarrow> loop \<Rightarrow> loop option" where
  "term_close c L = (case term_destroy (cterm c) of None \<Rightarrow> None | Some _ \<Rightarrow> event_source_remove (csource c) L)"

subsection \<open>Accepting\<close>

text \<open>The result and the descriptors that are closed; \<open>sock\<close> is -1 when \<open>socket\<close> fails.\<close>

definition server_create :: "int \<Rightarrow> int \<Rightarrow> bool \<Rightarrow> bool \<Rightarrow> int \<times> int list" where
  "server_create sock err bound listening =
     (if sock = -1 then (- err, [])
      else if \<not> bound then (- err, [sock])
      else if \<not> listening then (- err, [sock])
      else (sock, []))"

fun free_slot :: "'a option list \<Rightarrow> nat option" where
  "free_slot [] = None"
| "free_slot (None # cs) = Some 0"
| "free_slot (Some c # cs) = map_option Suc (free_slot cs)"

definition zebra_accept ::
    "env \<Rightarrow> ('f, 'o) cmd_elem list \<Rightarrow> ('f, 'o) cmd_elem list \<Rightarrow> conn \<Rightarrow> ('f, 'o) zebra_server \<Rightarrow> (int \<times> ('f, 'o) zebra_server) option" where
  "zebra_accept e common sect c z =
     (case event_source_fd_update (source z) 1 (update_ok c) (zloop z) of
        None \<Rightarrow> None
      | Some (_, L) \<Rightarrow>
          if cfd c = -1 then Some (- errno c, z\<lparr>zloop := L\<rparr>)
          else
            let z = z\<lparr>accepted := accepted z @ [cfd c]\<rparr> in
            (case free_slot (clients z) of
               None \<Rightarrow> Some (0, z\<lparr>zloop := close_fd (cfd c) L\<rparr>)
             | Some i \<Rightarrow>
                 (case term_open (conn_mem c) (conn_tree_mem c) (src_addr c) (ctl_ok c) e common sect (cfd c) (Some ''remote'') L of
                    None \<Rightarrow> None
                  | Some (None, L) \<Rightarrow> Some (-1, z\<lparr>zloop := close_fd (cfd c) L\<rparr>)
                  | Some (Some t, L) \<Rightarrow> Some (0, z\<lparr>zloop := L, clients := (clients z)[i := Some t]\<rparr>))))"

subsection \<open>Closing\<close>

definition reap :: "nat \<Rightarrow> ('f, 'o) zebra_server \<Rightarrow> ('f, 'o) zebra_server option" where
  "reap i z =
     (case clients z ! i of
        None \<Rightarrow> Some z
      | Some c \<Rightarrow>
          if term_want_exit (cterm c)
          then map_option (\<lambda>L. z\<lparr>zloop := close_fd (fd (cterm c)) L, clients := (clients z)[i := None]\<rparr>) (term_close c (zloop z))
          else Some z)"

fun reap_all :: "nat list \<Rightarrow> ('f, 'o) zebra_server \<Rightarrow> ('f, 'o) zebra_server option" where
  "reap_all [] z = Some z"
| "reap_all (i # is) z = do { z \<leftarrow> reap i z; reap_all is z }"

fun close_all :: "('f, 'o) client option list \<Rightarrow> loop \<Rightarrow> loop option" where
  "close_all [] L = Some L"
| "close_all (None # cs) L = close_all cs L"
| "close_all (Some c # cs) L = do { L \<leftarrow> term_close c L; close_all cs (close_fd (fd (cterm c)) L) }"

definition zebra_server_destroy :: "('f, 'o) zebra_server \<Rightarrow> loop option" where
  "zebra_server_destroy z =
     do { L \<leftarrow> close_all (clients z) (zloop z); L \<leftarrow> event_source_remove (source z) L; Some (close_fd (zfd z) L) }"

subsection \<open>The program\<close>

record startup =
  loop_mem :: bool
  epfd :: int
  memory :: links
  sock :: int
  sock_err :: int
  bound :: bool
  listening :: bool
  zsrc :: link
  zctl :: bool
  tconn :: conn

text \<open>Up to the main loop: the server and the local terminal, \<open>Inl\<close> when the program exits.\<close>

definition main_start ::
    "env \<Rightarrow> ('f, 'o) cmd_elem list \<Rightarrow> ('f, 'o) cmd_elem list \<Rightarrow> startup \<Rightarrow> (int + ('f, 'o) zebra_server \<times> ('f, 'o) client) option" where
  "main_start e common sect s =
     (case event_loop_create (loop_mem s) (epfd s) (memory s) of
        None \<Rightarrow> None
      | Some None \<Rightarrow> Some (Inl 1)
      | Some (Some L) \<Rightarrow>
          let (d, cl) = server_create (sock s) (sock_err s) (bound s) (listening s) in
          if d = -1 then Some (Inl 1)
          else case event_loop_add_fd (zsrc s) d True 1 Zebra_accept 0 (zctl s) L of
            None \<Rightarrow> None
          | Some (p, L) \<Rightarrow>
              (case term_open (conn_mem (tconn s)) (conn_tree_mem (tconn s)) (src_addr (tconn s)) (ctl_ok (tconn s)) e common sect 0 None L of
                 None \<Rightarrow> None
               | Some (None, L) \<Rightarrow> Some (Inl 1)
               | Some (Some t, L) \<Rightarrow>
                   Some (Inr (\<lparr>source = p, zloop = L, zfd = d, clients = replicate MAX_NR_CLIENTS None, accepted = []\<rparr>, t))))"

text \<open>Behind the main loop; the last descriptor closed is that of the event loop.\<close>

definition main_end :: "int \<Rightarrow> ('f, 'o) zebra_server \<Rightarrow> ('f, 'o) client \<Rightarrow> loop option" where
  "main_end ep z t =
     do { L \<leftarrow> zebra_server_destroy z; L \<leftarrow> term_close t L; event_loop_destroy ep L }"

subsection \<open>Sources that hold their descriptor\<close>

text \<open>The source \<open>p\<close> watches the descriptor \<open>d\<close> of its owner, which the loop did not duplicate.\<close>

definition holds :: "loop \<Rightarrow> link \<Rightarrow> int \<Rightarrow> bool" where
  "holds L p d \<longleftrightarrow> (\<exists>f m. map_of (heap L) p = Some \<lparr>interface = Fd_source f d, src_fd = d\<rparr> \<and> interest L d = Some (p, m))"

lemma holds_inj: "holds L p d \<Longrightarrow> holds L p d' \<Longrightarrow> d = d'" "holds L p d \<Longrightarrow> holds L p' d \<Longrightarrow> p = p'"
  by (auto simp: holds_def)

lemma close_fd_simps [simp]:
  "heap (close_fd d L) = heap L" "interest (close_fd d L) = interest L" "closed (close_fd d L) = closed L @ [d]"
  "holds (close_fd d L) p d' \<longleftrightarrow> holds L p d'" "idles (close_fd d L) js \<longleftrightarrow> idles L js"
  by (auto simp: close_fd_def holds_def idles_def loop_lists_def)

lemma update_holds:
  assumes "idles L js" "holds L p d"
  shows "\<exists>r L'. event_source_fd_update p m ctl L = Some (r, L') \<and> idles L' js \<and> closed L' = closed L \<and>
    heap L' = heap L \<and> (\<forall>d. interest L d = None \<longrightarrow> interest L' d = None) \<and> (\<forall>q d'. holds L q d' \<longrightarrow> holds L' q d')"
proof -
  have o: "own_entry p L" using assms(2) by (auto simp: holds_def own_entry_def)
  obtain r L' where u: "event_source_fd_update p m ctl L = Some (r, L')" "idles L' js"
    using event_source_fd_update_idles [OF assms(1) o] by blast
  moreover have "closed L' = closed L \<and> heap L' = heap L \<and> (\<forall>d. interest L d = None \<longrightarrow> interest L' d = None) \<and>
      (\<forall>q d'. holds L q d' \<longrightarrow> holds L' q d')"
    using u(1) assms(2) by (auto simp: event_source_fd_update_def holds_def split: if_splits)
  ultimately show ?thesis by blast
qed

lemma add_fd_holds:
  assumes "idles L js" "new_addr a L" "a \<noteq> NULL \<and> 0 \<le> d \<longrightarrow> ctl \<and> interest L d = None"
  shows "\<exists>r L'. event_loop_add_fd a d True m f 0 ctl L = Some (r, L') \<and> idles L' js \<and> closed L' = closed L \<and>
    (r = NULL \<and> L' = L \<or> r = a \<and> holds L' a d \<and> a \<noteq> NULL) \<and> (\<forall>q d'. holds L q d' \<longrightarrow> holds L' q d')"
proof (cases "a = NULL \<or> d < 0")
  case True
  with assms(1) show ?thesis by (auto simp: event_loop_add_fd_def add_source_def)
next
  case False
  let ?s = "\<lparr>interface = Fd_source f d, src_fd = d\<rparr>"
  have a: "fresh a L" using assms(2) False by (simp add: new_addr_def)
  obtain r L' where r: "add_source a ?s m ctl L = Some (r, L')" "idles L' js"
    using add_source_idles [OF assms(1) a, of ?s m ctl] by (auto simp: is_idle_def)
  moreover obtain n where "r = a" "L' = L\<lparr>node := n, heap := (a, ?s) # heap L, interest := (interest L)(d \<mapsto> (a, epoll_mask m))\<rparr>"
    using r(1) False assms(3) by (auto simp: add_source_def bind_eq_Some_conv split: if_splits)
  moreover have "interest L d = None" using assms(3) False by simp
  ultimately show ?thesis using False fresh_None [OF a] by (auto simp: event_loop_add_fd_def holds_def)
qed

lemma remove_holds:
  assumes "idles L js" "holds L p d"
  shows "\<exists>L'. event_source_remove p L = Some L' \<and> idles L' (removeAll p js) \<and> closed L' = closed L \<and>
    (\<forall>q d'. d' \<noteq> d \<longrightarrow> holds L q d' \<longrightarrow> holds L' q d')"
proof -
  obtain f m where p: "map_of (heap L) p = Some \<lparr>interface = Fd_source f d, src_fd = d\<rparr>" "interest L d = Some (p, m)"
    using assms(2) by (auto simp: holds_def)
  obtain ds ss where "loop_lists L [] js ds ss" using assms(1) unfolding idles_def by blast
  then have "0 \<le> d" using loop_listsD(7) p(2) by blast
  then have d: "drop_fd p \<lparr>interface = Fd_source f d, src_fd = d\<rparr> L = L\<lparr>interest := (interest L)(d := None)\<rparr>"
    by (simp add: drop_fd_def)
  have "p \<in> fst ` set (heap L)" using p(1) by (metis image_eqI fst_conv map_of_SomeD)
  then obtain L' where r: "event_source_remove p L = Some L'" "idles L' (removeAll p js)"
    using event_source_remove_idles [OF assms(1)] by blast
  obtain n where "L' = L\<lparr>interest := (interest L)(d := None), node := n\<rparr>"
    using r(1) p(1) d by (auto simp: event_source_remove_def Let_def bind_eq_Some_conv)
  with r show ?thesis by (auto simp: holds_def)
qed

lemma destroy_list_holds:
  assumes "idles L js"
  shows "\<exists>L'. event_loop_process_destroy_list L = Some L' \<and> idles L' js \<and> closed L' = closed L \<and> (\<forall>q d. holds L q d \<longrightarrow> holds L' q d)"
proof -
  obtain ds ss where ls: "loop_lists L [] js ds ss" using assms unfolding idles_def by blast
  obtain n where n: "event_loop_process_destroy_list L = Some (L\<lparr>node := n, heap := filter (\<lambda>(a, s). a \<notin> set ds) (heap L)\<rparr>)"
      "loop_lists (L\<lparr>node := n, heap := filter (\<lambda>(a, s). a \<notin> set ds) (heap L)\<rparr>) [] js [] ss"
    using process_destroy_list_lists [OF ls] by blast
  have "holds (L\<lparr>node := n, heap := filter (\<lambda>(a, s). a \<notin> set ds) (heap L)\<rparr>) q d" if "holds L q d" for q d
  proof -
    have "q \<in> set ss" using that loop_listsD(7) [OF ls] by (fastforce simp: holds_def)
    then have "q \<notin> set ds" using loop_lists_places(5) [OF ls] by auto
    with that show ?thesis by (simp add: holds_def map_of_filter_out)
  qed
  with n show ?thesis unfolding idles_def by auto
qed

subsection \<open>Opening and closing a terminal\<close>

lemma fd_term_print [simp]: "fd (term_print t s) = fd t"
  by (simp add: term_print_def split: option.split)

lemma term_create_fd: "term_create mem tree_mem src e common sect d nm = Some (Some t) \<Longrightarrow> fd t = d"
  by (auto simp: term_create_def term_prompt_def term_help_prompt_def split: if_splits option.splits)

lemma term_open_ok:
  assumes "idles L []" "new_addr a L" "interest L d = None" "a \<noteq> NULL \<and> 0 \<le> d \<longrightarrow> ctl"
    and "list_all elem_fine (common @ sect)" "case nm of None \<Rightarrow> True | Some n \<Rightarrow> short n" "mem 7"
  shows "\<exists>r L'. term_open mem tree_mem a ctl e common sect d nm L = Some (r, L') \<and> idles L' [] \<and> closed L' = closed L \<and>
    (\<forall>q d'. holds L q d' \<longrightarrow> holds L' q d') \<and>
    (\<forall>c. r = Some c \<longrightarrow> holds L' (csource c) d \<and> fd (cterm c) = d \<and> term_wf (cterm c) \<and> argv (opts (cterm c)) = [] \<and> env (cterm c) = e)"
proof (cases "mem 0 \<and> mem 1 \<and> mem 2 \<and> mem 3")
  case False
  then show ?thesis using assms(1) by (simp add: term_open_def)
next
  case True
  obtain p L1 where L1: "event_loop_add_fd a d True 2 Term_handle_input 0 ctl L = Some (p, L1)" "idles L1 []" "closed L1 = closed L"
      "p = NULL \<and> L1 = L \<or> p = a \<and> holds L1 a d \<and> a \<noteq> NULL" "\<forall>q d'. holds L q d' \<longrightarrow> holds L1 q d'"
    using add_fd_holds [OF assms(1,2), of d ctl 2 Term_handle_input] assms(3,4) by blast
  obtain x where x: "term_create mem tree_mem True e common sect d nm = Some x"
      "\<forall>t. x = Some t \<longrightarrow> term_wf t \<and> argv (opts t) = [] \<and> env t = e"
    using term_create_ok [where mem = mem and tree_mem = tree_mem and src = True and e = e and d = d, OF assms(5-7)] by blast
  have ne: "d' \<noteq> d" if "holds L q d'" for q d' using that assms(3) by (auto simp: holds_def)
  show ?thesis
  proof (cases "p = NULL")
    case True
    then show ?thesis using L1 \<open>mem 0 \<and> mem 1 \<and> mem 2 \<and> mem 3\<close> by (auto simp: term_open_def)
  next
    case False
    then have p: "p = a" "holds L1 a d" using L1(4) by auto
    show ?thesis
    proof (cases x)
      case None
      obtain L2 where "event_source_remove p L1 = Some L2" "idles L2 []" "closed L2 = closed L1"
          "\<forall>q d'. d' \<noteq> d \<longrightarrow> holds L1 q d' \<longrightarrow> holds L2 q d'"
        using remove_holds [OF L1(2) p(2)] p(1) by auto
      then show ?thesis using True False L1 x None ne by (auto simp: term_open_def)
    next
      case (Some t)
      then show ?thesis using True False L1 p x term_create_fd [of mem tree_mem True e common sect d nm t] by (auto simp: term_open_def)
    qed
  qed
qed

lemma term_close_ok:
  assumes "idles L []" "holds L (csource c) d" "term_wf (cterm c)"
  shows "\<exists>L'. term_close c L = Some L' \<and> idles L' [] \<and> closed L' = closed L \<and> (\<forall>q d'. d' \<noteq> d \<longrightarrow> holds L q d' \<longrightarrow> holds L' q d')"
proof -
  have "tree_wf (cmd_tree (cterm c))" using assms(3) by (simp add: term_wf_def)
  then obtain fs where "term_destroy (cterm c) = Some fs" using cmd_tree_delete_once
    by (fastforce simp: term_destroy_def simp del: cmd_tree_delete.simps)
  then show ?thesis using remove_holds [OF assms(1,2)] by (simp add: term_close_def)
qed

subsection \<open>Invariant\<close>

abbreviation client_fd :: "('f, 'o) client \<Rightarrow> int" where "client_fd c \<equiv> fd (cterm c)"

definition live :: "'a option list \<Rightarrow> 'a list" where
  "live cs = List.map_filter id cs"

lemma live_simps [simp]: "live [] = []" "live (None # cs) = live cs" "live (Some c # cs) = c # live cs" "live (as @ bs) = live as @ live bs"
  "live (replicate n None) = []"
  by (induction n) (simp_all add: live_def map_filter_def)

text \<open>A client in order: its source watches its descriptor, and its terminal is well formed.\<close>

definition client_ok :: "env \<Rightarrow> loop \<Rightarrow> ('f, 'o) client \<Rightarrow> bool" where
  "client_ok e L c \<longleftrightarrow> holds L (csource c) (client_fd c) \<and> term_wf (cterm c) \<and> argv (opts (cterm c)) = [] \<and> env (cterm c) = e"

definition server_inv :: "env \<Rightarrow> ('f, 'o) zebra_server \<Rightarrow> ('f, 'o) client \<Rightarrow> bool" where
  "server_inv e z t \<longleftrightarrow>
     length (clients z) = MAX_NR_CLIENTS \<and> idles (zloop z) [] \<and> holds (zloop z) (source z) (zfd z) \<and>
     distinct (zfd z # client_fd t # map client_fd (live (clients z))) \<and>
     (\<forall>c \<in> set (t # live (clients z)). client_ok e (zloop z) c) \<and>
     mset (accepted z) = mset (closed (zloop z)) + mset (map client_fd (live (clients z)))"

lemma client_ok_mono:
  "client_ok e L c \<Longrightarrow> (\<And>q d. d = client_fd c \<Longrightarrow> holds L q d \<Longrightarrow> holds L' q d) \<Longrightarrow> client_ok e L' c"
  by (simp add: client_ok_def)

lemma slot_split:
  assumes "i < length cs"
  shows "\<exists>as bs. cs = as @ cs ! i # bs \<and> (\<forall>y. cs[i := y] = as @ y # bs)"
  using id_take_nth_drop [OF assms] upd_conv_take_nth_drop [OF assms] by blast

lemma live_nth: "i < length cs \<Longrightarrow> cs ! i = Some c \<Longrightarrow> c \<in> set (live cs)"
  using slot_split [of i cs] by (metis in_set_conv_decomp live_simps(3,4))

lemma free_slot_nth: "free_slot cs = Some i \<Longrightarrow> i < length cs \<and> cs ! i = None"
  by (induction cs arbitrary: i rule: free_slot.induct) auto

lemma server_inv_loop:
  assumes "server_inv e z t" "idles L [] " "closed L = closed (zloop z)" "\<forall>q d. holds (zloop z) q d \<longrightarrow> holds L q d"
  shows "server_inv e (z\<lparr>zloop := L\<rparr>) t"
  using assms by (auto simp: server_inv_def intro: client_ok_mono)

lemma accept_inv:
  assumes I: "server_inv e z t" and fine: "list_all elem_fine (common @ sect)" and c: "conn_mem c 7" "new_addr (src_addr c) (zloop z)" "ctl_ok c"
    and d: "interest (zloop z) (cfd c) = None"
  shows "\<exists>r z'. zebra_accept e common sect c z = Some (r, z') \<and> server_inv e z' t"
proof -
  have I': "idles (zloop z) []" "holds (zloop z) (source z) (zfd z)" using I by (simp_all add: server_inv_def)
  obtain x L where L: "event_source_fd_update (source z) 1 (update_ok c) (zloop z) = Some (x, L)" "idles L []" "closed L = closed (zloop z)"
      "heap L = heap (zloop z)" "interest L (cfd c) = None" "\<forall>q d'. holds (zloop z) q d' \<longrightarrow> holds L q d'"
    using update_holds [OF I', of 1 "update_ok c"] d by blast
  note J = server_inv_loop [OF I L(2,3,6)]
  have new: "new_addr (src_addr c) L" using c(2) L(4) by (simp add: new_addr_def fresh_def)
  show ?thesis
  proof (cases "cfd c = -1")
    case True
    then show ?thesis using J L(1) by (simp add: zebra_accept_def)
  next
    case False
    obtain r L2 where L2: "term_open (conn_mem c) (conn_tree_mem c) (src_addr c) (ctl_ok c) e common sect (cfd c) (Some ''remote'') L = Some (r, L2)"
        "idles L2 []" "closed L2 = closed L" "\<forall>q d'. holds L q d' \<longrightarrow> holds L2 q d'"
        "\<forall>k. r = Some k \<longrightarrow> holds L2 (csource k) (cfd c) \<and> client_fd k = cfd c \<and> term_wf (cterm k) \<and> argv (opts (cterm k)) = [] \<and> env (cterm k) = e"
      using term_open_ok [OF L(2) new L(5) _ fine, of "ctl_ok c" "Some ''remote''" "conn_mem c" "conn_tree_mem c" e] c(1,3)
      by (auto simp: short_def)
    have J2: "server_inv e (z\<lparr>zloop := L2\<rparr>) t" using server_inv_loop [OF J, of L2] L2 by simp
    have closed_inv: "server_inv e (z\<lparr>accepted := accepted z @ [cfd c], zloop := close_fd (cfd c) L'\<rparr>) t"
      if "server_inv e (z\<lparr>zloop := L'\<rparr>) t" for L'
      using that by (auto simp: server_inv_def client_ok_def)
    show ?thesis
    proof (cases "free_slot (clients z)")
      case None
      then show ?thesis using False L(1) closed_inv [OF J] by (simp add: zebra_accept_def)
    next
      case (Some i)
      note i = free_slot_nth [OF Some]
      show ?thesis
      proof (cases r)
        case None
        then show ?thesis using False Some L(1) L2(1) closed_inv [OF J2] by (simp add: zebra_accept_def)
      next
        case k: (Some k)
        obtain as bs where sp: "clients z = as @ clients z ! i # bs" "\<forall>y. (clients z)[i := y] = as @ y # bs"
          using slot_split [of i "clients z"] i by blast
        note cs = sp(1) [unfolded conjunct2 [OF i]] sp(2)
        have ne: "d' \<noteq> cfd c" if "holds (zloop z) q d'" for q d' using that d by (auto simp: holds_def)
        have k': "client_ok e L2 k" "client_fd k = cfd c" using L2(5) k by (auto simp: client_ok_def)
        moreover have "cfd c \<noteq> zfd z" using ne [of "source z" "zfd z"] I by (auto simp: server_inv_def)
        moreover have "client_fd q \<noteq> cfd c" if "q \<in> set (t # live (clients z))" for q
          using ne [of "csource q" "client_fd q"] I that by (auto simp: server_inv_def client_ok_def)
        then have "cfd c \<notin> client_fd ` set (t # live (clients z))" by (metis imageE)
        ultimately have "server_inv e (z\<lparr>accepted := accepted z @ [cfd c], zloop := L2, clients := as @ Some k # bs\<rparr>) t"
          using J2 cs(1) by (auto simp: server_inv_def)
        then show ?thesis using False Some k L(1) L2(1) cs(2) by (simp add: zebra_accept_def)
      qed
    qed
  qed
qed

lemma reap_inv:
  assumes I: "server_inv e z t" and i: "i < MAX_NR_CLIENTS"
  shows "\<exists>z'. reap i z = Some z' \<and> server_inv e z' t"
proof (cases "clients z ! i")
  case None
  with I show ?thesis by (simp add: reap_def)
next
  case (Some c)
  show ?thesis
  proof (cases "term_want_exit (cterm c)")
    case False
    with I Some show ?thesis by (simp add: reap_def)
  next
    case True
    have len: "i < length (clients z)" using I i by (simp add: server_inv_def)
    obtain as bs where sp: "clients z = as @ clients z ! i # bs" "\<forall>y. (clients z)[i := y] = as @ y # bs"
      using slot_split [OF len] by blast
    note cs = sp(1) [unfolded Some] sp(2)
    have c: "client_ok e (zloop z) c" using I cs(1) by (simp add: server_inv_def)
    obtain L where L: "term_close c (zloop z) = Some L" "idles L []" "closed L = closed (zloop z)"
        "\<forall>q d'. d' \<noteq> client_fd c \<longrightarrow> holds (zloop z) q d' \<longrightarrow> holds L q d'"
      using term_close_ok [of "zloop z" c "client_fd c"] c I unfolding client_ok_def server_inv_def by blast
    have ne: "client_fd k \<noteq> client_fd c" if "k \<in> set (t # live as @ live bs)" for k
    proof -
      have "client_fd c \<notin> set (map client_fd (t # live as @ live bs))" using I cs(1) by (auto simp: server_inv_def)
      then show ?thesis using that by (auto simp: image_iff)
    qed
    have "client_ok e (close_fd (client_fd c) L) k" if "k \<in> set (t # live as @ live bs)" for k
    proof -
      have "client_ok e (zloop z) k" using I cs(1) that by (auto simp: server_inv_def)
      then show ?thesis using L(4) ne [OF that] unfolding client_ok_def close_fd_simps by blast
    qed
    moreover have "holds (zloop z) (source z) (zfd z)" "zfd z \<noteq> client_fd c" using I cs(1) by (auto simp: server_inv_def)
    then have "holds (close_fd (client_fd c) L) (source z) (zfd z)" using L(4) by simp
    ultimately have "server_inv e (z\<lparr>zloop := close_fd (client_fd c) L, clients := as @ None # bs\<rparr>) t"
      using I cs(1) L(2,3) by (simp add: server_inv_def)
    then show ?thesis using Some True L(1) cs(2) by (simp add: reap_def)
  qed
qed

lemma reap_all_inv: "server_inv e z t \<Longrightarrow> \<forall>i \<in> set ns. i < MAX_NR_CLIENTS \<Longrightarrow> \<exists>z'. reap_all ns z = Some z' \<and> server_inv e z' t"
proof (induction ns arbitrary: z)
  case (Cons i ns)
  obtain z1 where "reap i z = Some z1" "server_inv e z1 t" using reap_inv [OF Cons.prems(1)] Cons.prems(2) by auto
  with Cons.IH [of z1] Cons.prems(2) show ?case by simp
qed simp

text \<open>An event of a client's descriptor changes its terminal and what the loop watches for.\<close>

fun update_all :: "link \<Rightarrow> (32 word \<times> bool) list \<Rightarrow> loop \<Rightarrow> loop option" where
  "update_all p [] L = Some L"
| "update_all p ((m, ok) # ups) L = (case event_source_fd_update p (unat m) ok L of None \<Rightarrow> None | Some (_, L) \<Rightarrow> update_all p ups L)"

lemma update_all_holds:
  "idles L [] \<Longrightarrow> holds L p d \<Longrightarrow>
     \<exists>L'. update_all p ups L = Some L' \<and> idles L' [] \<and> closed L' = closed L \<and> (\<forall>q d'. holds L q d' \<longrightarrow> holds L' q d')"
proof (induction ups arbitrary: L)
  case (Cons u ups)
  obtain m ok where u: "u = (m, ok)" by (cases u)
  obtain r L1 where L1: "event_source_fd_update p (unat m) ok L = Some (r, L1)" "idles L1 []" "closed L1 = closed L"
      "\<forall>q d'. holds L q d' \<longrightarrow> holds L1 q d'"
    using update_holds [OF Cons.prems, of "unat m" ok] by blast
  with Cons.IH [OF L1(2)] Cons.prems(2) u show ?case by fastforce
qed simp

lemma client_input_ok:
  assumes "client_ok e L c" "idles L []" "line_fits (cterm c)" "world_ok attrs run e"
    and "term_handle_input attrs run (cterm c) bufs m inp = Some (t', bufs', ups)"
  shows "\<exists>L'. update_all (csource c) (zip ups oks) L = Some L' \<and> idles L' [] \<and> closed L' = closed L \<and>
    (\<forall>q d'. holds L q d' \<longrightarrow> holds L' q d') \<and> client_ok e L' (c\<lparr>cterm := t'\<rparr>) \<and> fd t' = client_fd c"
proof -
  have a: "alive (cterm c) t'"
    using handle_input_alive [of "cterm c" attrs run bufs m inp t' bufs' ups] assms by (simp add: client_ok_def)
  obtain L' where "update_all (csource c) (zip ups oks) L = Some L'" "idles L' []" "closed L' = closed L" "\<forall>q d'. holds L q d' \<longrightarrow> holds L' q d'"
    using update_all_holds [OF assms(2), of "csource c" "client_fd c" "zip ups oks"] assms(1) by (auto simp: client_ok_def)
  then show ?thesis using a assms(1) by (auto simp: client_ok_def alive_def)
qed

text \<open>
  The states of the server in its main loop, from the start on: connections, input for the clients
  and the local terminal, the removed sources that the loop frees, and the end of sessions.
  What is assumed of the system: a new descriptor is not watched yet, \<open>malloc\<close> returns unused
  addresses, and \<open>epoll_ctl\<close> adds a descriptor that it can add.
\<close>

inductive serving ::
    "('o \<Rightarrow> 'b cmdoptattr) \<Rightarrow> ('f, 'o, 'b) handler \<Rightarrow> env \<Rightarrow> ('f, 'o) cmd_elem list \<Rightarrow> ('f, 'o) cmd_elem list
       \<Rightarrow> ('f, 'o) zebra_server \<Rightarrow> ('f, 'o) client \<Rightarrow> bool"
  for attrs run e common sect where
  start: "main_start e common sect s = Some (Inr (z, t)) \<Longrightarrow> bound s \<Longrightarrow> listening s \<Longrightarrow> 0 < sock s \<Longrightarrow>
     zsrc s \<notin> heads \<Longrightarrow> zsrc s \<noteq> NULL \<Longrightarrow> zctl s \<Longrightarrow> src_addr (tconn s) \<notin> heads \<Longrightarrow> src_addr (tconn s) \<noteq> zsrc s \<Longrightarrow>
     ctl_ok (tconn s) \<Longrightarrow> conn_mem (tconn s) 7 \<Longrightarrow> serving attrs run e common sect z t"
| accept: "serving attrs run e common sect z t \<Longrightarrow> zebra_accept e common sect c z = Some (r, z') \<Longrightarrow> conn_mem c 7 \<Longrightarrow>
     new_addr (src_addr c) (zloop z) \<Longrightarrow> ctl_ok c \<Longrightarrow> interest (zloop z) (cfd c) = None \<Longrightarrow> serving attrs run e common sect z' t"
| client: "serving attrs run e common sect z t \<Longrightarrow> i < MAX_NR_CLIENTS \<Longrightarrow> clients z ! i = Some c \<Longrightarrow> line_fits (cterm c) \<Longrightarrow>
     term_handle_input attrs run (cterm c) bufs m inp = Some (t', bufs', ups) \<Longrightarrow>
     update_all (csource c) (zip ups oks) (zloop z) = Some L \<Longrightarrow>
     serving attrs run e common sect (z\<lparr>zloop := L, clients := (clients z)[i := Some (c\<lparr>cterm := t'\<rparr>)]\<rparr>) t"
| local: "serving attrs run e common sect z t \<Longrightarrow> line_fits (cterm t) \<Longrightarrow>
     term_handle_input attrs run (cterm t) bufs m inp = Some (t', bufs', ups) \<Longrightarrow>
     update_all (csource t) (zip ups oks) (zloop z) = Some L \<Longrightarrow>
     serving attrs run e common sect (z\<lparr>zloop := L\<rparr>) (t\<lparr>cterm := t'\<rparr>)"
| freed: "serving attrs run e common sect z t \<Longrightarrow> event_loop_process_destroy_list (zloop z) = Some L \<Longrightarrow>
     serving attrs run e common sect (z\<lparr>zloop := L\<rparr>) t"
| reaped: "serving attrs run e common sect z t \<Longrightarrow> reap_all [0..<MAX_NR_CLIENTS] z = Some z' \<Longrightarrow> serving attrs run e common sect z' t"

lemma create_watches_nothing:
  fixes L :: loop
  assumes c: "event_loop_create m ep n = Some (Some L)"
  shows "idles L [] \<and> heap L = [] \<and> interest L = Map.empty \<and> closed L = []"
proof -
  from c have "m" "0 \<le> ep" "closed L = []" by (auto simp: event_loop_create_def bind_eq_Some_conv split: if_splits)
  moreover obtain L' :: loop where "event_loop_create True ep n = Some (Some L')" "idles L' []" "heap L' = []" "interest L' = Map.empty"
    using event_loop_create_idles [OF \<open>0 \<le> ep\<close>, of n] by blast
  ultimately show ?thesis using c by simp
qed

lemma start_opened:
  assumes "loop_mem s" "0 \<le> epfd s" "bound s" "listening s" "0 < sock s" "zsrc s \<notin> heads" "zsrc s \<noteq> NULL" "zctl s"
    and "src_addr (tconn s) \<notin> heads" "src_addr (tconn s) \<noteq> zsrc s" "ctl_ok (tconn s)" "conn_mem (tconn s) 7" "list_all elem_fine (common @ sect)"
  shows "\<exists>L1 r L2. main_start e common sect s = Some (case r of None \<Rightarrow> Inl 1 | Some t \<Rightarrow>
        Inr (\<lparr>source = zsrc s, zloop = L2, zfd = sock s, clients = replicate MAX_NR_CLIENTS None, accepted = []\<rparr>, t)) \<and>
     term_open (conn_mem (tconn s)) (conn_tree_mem (tconn s)) (src_addr (tconn s)) (ctl_ok (tconn s)) e common sect 0 None L1 = Some (r, L2) \<and>
     new_addr (src_addr (tconn s)) L1 \<and> interest L1 0 = None \<and> idles L1 [] \<and> idles L2 [] \<and> closed L2 = [] \<and> holds L2 (zsrc s) (sock s) \<and>
     (\<forall>k. r = Some k \<longrightarrow> client_ok e L2 k \<and> client_fd k = 0)"
proof -
  obtain L :: loop where c: "event_loop_create (loop_mem s) (epfd s) (memory s) = Some (Some L)"
    using event_loop_create_idles [OF assms(2), of "memory s"] assms(1) by auto
  note L = create_watches_nothing [OF c]
  have d: "server_create (sock s) (sock_err s) (bound s) (listening s) = (sock s, [])" using assms(3-5) by (simp add: server_create_def)
  have new: "new_addr (zsrc s) L" using L assms(6,7) by (simp add: new_addr_def fresh_def)
  obtain n where a: "event_loop_add_fd (zsrc s) (sock s) True 1 Zebra_accept 0 (zctl s) L = Some (zsrc s, L\<lparr>node := n,
      heap := [(zsrc s, \<lparr>interface = Fd_source Zebra_accept (sock s), src_fd = sock s\<rparr>)], interest := [sock s \<mapsto> (zsrc s, epoll_mask 1)]\<rparr>)"
      (is "_ = Some (_, ?L1)")
    using add_fd_holds [OF _ new, of "[]" "sock s" "zctl s" 1 Zebra_accept] L assms(5-8)
    by (auto simp: event_loop_add_fd_def add_source_def bind_eq_Some_conv)
  have L1: "idles ?L1 []" "closed ?L1 = []" "holds ?L1 (zsrc s) (sock s)" "interest ?L1 0 = None"
    using add_fd_holds [OF _ new, of "[]" "sock s" "zctl s" 1 Zebra_accept] L assms(5-8) a by (auto simp: holds_def)
  have new': "new_addr (src_addr (tconn s)) ?L1" using assms(9,10) by (simp add: new_addr_def fresh_def)
  obtain r L2 where L2: "term_open (conn_mem (tconn s)) (conn_tree_mem (tconn s)) (src_addr (tconn s)) (ctl_ok (tconn s)) e common sect 0 None ?L1 = Some (r, L2)"
      "idles L2 []" "closed L2 = closed ?L1" "\<forall>q d'. holds ?L1 q d' \<longrightarrow> holds L2 q d'"
      "\<forall>k. r = Some k \<longrightarrow> holds L2 (csource k) 0 \<and> client_fd k = 0 \<and> term_wf (cterm k) \<and> argv (opts (cterm k)) = [] \<and> env (cterm k) = e"
    using term_open_ok [OF L1(1) new' L1(4) _ assms(13), of "ctl_ok (tconn s)" None "conn_mem (tconn s)" "conn_tree_mem (tconn s)" e] assms(11,12) by auto
  have "main_start e common sect s = Some (case r of None \<Rightarrow> Inl 1 | Some t \<Rightarrow>
        Inr (\<lparr>source = zsrc s, zloop = L2, zfd = sock s, clients = replicate MAX_NR_CLIENTS None, accepted = []\<rparr>, t))"
    using assms(5) c d a L2(1) by (simp add: main_start_def split: option.split)
  then show ?thesis using L1 L2 new' by (intro exI [of _ ?L1] exI [of _ r] exI [of _ L2]) (auto simp: client_ok_def)
qed

lemma start_inv:
  assumes "main_start e common sect s = Some (Inr (z, t))" "bound s" "listening s" "0 < sock s" "zsrc s \<notin> heads" "zsrc s \<noteq> NULL" "zctl s"
    and "src_addr (tconn s) \<notin> heads" "src_addr (tconn s) \<noteq> zsrc s" "ctl_ok (tconn s)" "conn_mem (tconn s) 7" "list_all elem_fine (common @ sect)"
  shows "server_inv e z t"
proof -
  have "loop_mem s" "0 \<le> epfd s" using assms(1) by (auto simp: main_start_def event_loop_create_def split: if_splits)
  from start_opened [OF this assms(2-12), of e] obtain r L2 where
    "main_start e common sect s = Some (case r of None \<Rightarrow> Inl 1 | Some t \<Rightarrow>
        Inr (\<lparr>source = zsrc s, zloop = L2, zfd = sock s, clients = replicate MAX_NR_CLIENTS None, accepted = []\<rparr>, t))"
    "idles L2 []" "closed L2 = []" "holds L2 (zsrc s) (sock s)" "\<forall>k. r = Some k \<longrightarrow> client_ok e L2 k \<and> client_fd k = 0" by blast
  with assms(1,4) show ?thesis by (auto simp: server_inv_def split: option.splits)
qed

lemma client_inv:
  assumes I: "server_inv e z t" and i: "i < MAX_NR_CLIENTS" "clients z ! i = Some c" and L: "idles L []" "closed L = closed (zloop z)"
    "\<forall>q d'. holds (zloop z) q d' \<longrightarrow> holds L q d'" and c: "client_ok e L c'" "client_fd c' = client_fd c"
  shows "server_inv e (z\<lparr>zloop := L, clients := (clients z)[i := Some c']\<rparr>) t"
proof -
  obtain as bs where sp: "clients z = as @ clients z ! i # bs" "\<forall>y. (clients z)[i := y] = as @ y # bs"
    using slot_split [of i "clients z"] I i(1) by (auto simp: server_inv_def)
  note cs = sp(1) [unfolded i(2)]
  have "server_inv e (z\<lparr>zloop := L\<rparr>) t" by (rule server_inv_loop [OF I L])
  then show ?thesis using cs c sp(2) by (auto simp: server_inv_def)
qed

lemma serving_inv:
  assumes "serving attrs run e common sect z t" "list_all elem_fine (common @ sect)" "world_ok attrs run e"
  shows "server_inv e z t"
  using assms(1)
proof (induction rule: serving.induct)
  case (start s z t)
  then show ?case using start_inv assms(2) by blast
next
  case (accept z t c r z')
  then show ?case using accept_inv [OF accept.IH assms(2), of c] by auto
next
  case (client z t i c bufs m inp t' bufs' ups oks L)
  have L: "idles (zloop z) []" "client_ok e (zloop z) c"
    using client.IH client.hyps(2,3) live_nth [of i "clients z" c] by (auto simp: server_inv_def)
  from client_input_ok [OF L(2,1) client.hyps(4) assms(3) client.hyps(5), of oks] client.hyps(6)
  show ?case using client_inv [OF client.IH client.hyps(2,3), of L "c\<lparr>cterm := t'\<rparr>"] by auto
next
  case (local z t bufs m inp t' bufs' ups oks L)
  have L: "idles (zloop z) []" "client_ok e (zloop z) t" using local.IH by (simp_all add: server_inv_def)
  obtain L' where L': "L' = L" "idles L []" "closed L = closed (zloop z)" "\<forall>q d'. holds (zloop z) q d' \<longrightarrow> holds L q d'"
      "client_ok e L (t\<lparr>cterm := t'\<rparr>)" "fd t' = client_fd t"
    using client_input_ok [OF L(2,1) local.hyps(2) assms(3) local.hyps(3), of oks] local.hyps(4) by auto
  show ?case using server_inv_loop [OF local.IH L'(2-4)] L'(5,6) by (auto simp: server_inv_def)
next
  case (freed z t L)
  have "idles (zloop z) []" using freed.IH by (simp add: server_inv_def)
  from destroy_list_holds [OF this] show ?case using freed server_inv_loop [OF freed.IH, of L] by auto
next
  case (reaped z t z')
  then show ?case using reap_all_inv [OF reaped.IH, of "[0..<MAX_NR_CLIENTS]"] by auto
qed

subsection \<open>The end\<close>

lemma close_all_ok:
  "idles L [] \<Longrightarrow> \<forall>c \<in> set (live cs). client_ok e L c \<Longrightarrow> distinct (map client_fd (live cs)) \<Longrightarrow>
     \<exists>L'. close_all cs L = Some L' \<and> idles L' [] \<and> closed L' = closed L @ map client_fd (live cs) \<and>
       (\<forall>q d. d \<notin> client_fd ` set (live cs) \<longrightarrow> holds L q d \<longrightarrow> holds L' q d)"
proof (induction cs L rule: close_all.induct)
  case (3 c cs L)
  have c: "client_ok e L c" using 3 by simp
  then obtain L1 where L1: "term_close c L = Some L1" "idles L1 []" "closed L1 = closed L" "\<forall>q d'. d' \<noteq> client_fd c \<longrightarrow> holds L q d' \<longrightarrow> holds L1 q d'"
    using term_close_ok [OF 3(2), of c "client_fd c"] unfolding client_ok_def by blast
  have "client_ok e (close_fd (client_fd c) L1) k" if "k \<in> set (live cs)" for k
  proof -
    have "client_ok e L k" "client_fd k \<noteq> client_fd c" using 3(3,4) that by (auto simp: image_iff)
    then show ?thesis using L1(4) unfolding client_ok_def close_fd_simps by blast
  qed
  then obtain L' where "close_all cs (close_fd (client_fd c) L1) = Some L'" "idles L' []"
      "closed L' = closed (close_fd (client_fd c) L1) @ map client_fd (live cs)"
      "\<forall>q d. d \<notin> client_fd ` set (live cs) \<longrightarrow> holds (close_fd (client_fd c) L1) q d \<longrightarrow> holds L' q d"
    using 3(1) [OF L1(1)] L1(2) 3(4) by auto
  then show ?case using L1 by auto
qed auto

lemma main_end_ok:
  assumes "server_inv e z t"
  shows "\<exists>L. main_end ep z t = Some L \<and> closed L = closed (zloop z) @ map client_fd (live (clients z)) @ [zfd z, ep]"
proof -
  have I: "idles (zloop z) []" "\<forall>c \<in> set (live (clients z)). client_ok e (zloop z) c" "distinct (map client_fd (live (clients z)))"
      "holds (zloop z) (source z) (zfd z)" "client_ok e (zloop z) t" "zfd z \<notin> client_fd ` set (live (clients z))"
      "client_fd t \<notin> client_fd ` set (live (clients z))" "client_fd t \<noteq> zfd z"
    using assms by (auto simp: server_inv_def)
  obtain L1 where L1: "close_all (clients z) (zloop z) = Some L1" "idles L1 []" "closed L1 = closed (zloop z) @ map client_fd (live (clients z))"
      "\<forall>q d. d \<notin> client_fd ` set (live (clients z)) \<longrightarrow> holds (zloop z) q d \<longrightarrow> holds L1 q d"
    using close_all_ok [OF I(1-3)] by blast
  obtain L2 where L2: "event_source_remove (source z) L1 = Some L2" "idles L2 []" "closed L2 = closed L1"
      "\<forall>q d'. d' \<noteq> zfd z \<longrightarrow> holds L1 q d' \<longrightarrow> holds L2 q d'"
    using remove_holds [OF L1(2), of "source z" "zfd z"] L1(4) I(4,6) by auto
  have "holds L1 (csource t) (client_fd t)" "term_wf (cterm t)" using I(5,7) L1(4) by (simp_all add: client_ok_def)
  then have "holds (close_fd (zfd z) L2) (csource t) (client_fd t)" "term_wf (cterm t)" using L2(4) I(8) by simp_all
  then obtain L3 where L3: "term_close t (close_fd (zfd z) L2) = Some L3" "idles L3 []" "closed L3 = closed L2 @ [zfd z]"
    using term_close_ok [of "close_fd (zfd z) L2" t "client_fd t"] L2(2) by auto
  obtain L4 where "event_loop_process_destroy_list L3 = Some L4" "closed L4 = closed L3" using destroy_list_holds [OF L3(2)] by blast
  then show ?thesis using L1 L2 L3 by (simp add: main_end_def zebra_server_destroy_def event_loop_destroy_def)
qed


lemma term_open_some:
  assumes "idles L []" "fresh a L" "interest L d = None" "0 \<le> d" "\<forall>i. mem i" "list_all elem_fine (common @ sect)"
  shows "\<exists>t L'. term_open mem tree_mem a True e common sect d None L = Some (Some t, L') \<and> idles L' []"
proof -
  have a: "a \<noteq> NULL" "new_addr a L" using assms(2) by (simp_all add: fresh_def new_addr_def)
  obtain p L1 where L1: "event_loop_add_fd a d True 2 Term_handle_input 0 True L = Some (p, L1)" "idles L1 []" "p = NULL \<and> L1 = L \<or> p = a \<and> holds L1 a d"
    using add_fd_holds [OF assms(1) a(2), of d True 2 Term_handle_input] assms(3) by blast
  have "p \<noteq> NULL" using L1(1) a(1) assms(3,4) by (auto simp: event_loop_add_fd_def add_source_def bind_eq_Some_conv)
  moreover obtain msgs u where "cmd_tree_build tree_mem True common sect = Some (Some (msgs, u))"
    using cmd_add_elems_ok [OF root_ok assms(6), of tree_mem] by (auto simp: cmd_tree_build_def)
  moreover have "cmdopt_create True True True \<noteq> None" using sample_opts by simp
  ultimately show ?thesis using assms(5) L1(1,2) by (auto simp: term_open_def term_create_def history_create_def)
qed

definition sample_startup :: startup where
  "sample_startup = \<lparr>loop_mem = True, epfd = 3, memory = sample_links, sock = 4, sock_err = 98, bound = True, listening = True, zsrc = 10, zctl = True,
     tconn = \<lparr>cfd = 0, errno = 0, update_ok = True, src_addr = 11, ctl_ok = True, conn_mem = \<lambda>_. True, conn_tree_mem = \<lambda>_. True\<rparr>\<rparr>"

lemma sample_world_ok: "world_ok sample_table sample_run sample_env" "list_all elem_fine ([] @ [sample_elem])"
  by (simp_all add: world_ok_def table_ok_def sample_table_def sample_run_ok shell_ok_def sample_env_def key_mem_def short_def
      elem_fine_def sample_elem_def cstring_def line_start_def)


text \<open>
  C40. When the port is taken, \<open>server_create\<close> returns a negated \<open>errno\<close>, which \<open>main\<close> does not
  recognise unless it is -1: the program runs without a listening source, and at its end
  \<open>zebra_server_destroy\<close> removes the source that was never created and follows the null pointer.
\<close>

theorem port_in_use_crashes_at_exit:
  assumes "loop_mem s" "0 \<le> epfd s" "0 \<le> sock s" "\<not> bound s" "1 < sock_err s" "\<forall>i. conn_mem (tconn s) i" "ctl_ok (tconn s)"
    and "src_addr (tconn s) \<notin> heads" "src_addr (tconn s) \<noteq> NULL" "list_all elem_fine (common @ sect)"
  shows "\<exists>z t. main_start e common sect s = Some (Inr (z, t)) \<and> source z = NULL \<and> main_end ep z t = None"
proof -
  obtain L :: loop where c: "event_loop_create (loop_mem s) (epfd s) (memory s) = Some (Some L)"
    using event_loop_create_idles [OF assms(2), of "memory s"] assms(1) by auto
  note L = create_watches_nothing [OF c]
  have d: "server_create (sock s) (sock_err s) (bound s) (listening s) = (- sock_err s, [sock s])" using assms(3,4) by (simp add: server_create_def)
  have a: "event_loop_add_fd (zsrc s) (- sock_err s) True 1 Zebra_accept 0 (zctl s) L = Some (NULL, L)"
    using assms(5) by (simp add: event_loop_add_fd_def add_source_def)
  have fr: "fresh (src_addr (tconn s)) L" using assms(8,9) L by (simp add: fresh_def)
  obtain t L' where t: "term_open (conn_mem (tconn s)) (conn_tree_mem (tconn s)) (src_addr (tconn s)) True e common sect 0 None L = Some (Some t, L')" "idles L' []"
    using term_open_some [OF _ fr _ _ assms(6,10), of 0 "conn_tree_mem (tconn s)" e] L by auto
  let ?z = "\<lparr>source = NULL, zloop = L', zfd = - sock_err s, clients = replicate MAX_NR_CLIENTS None, accepted = []\<rparr> :: ('a, 'b) zebra_server"
  have "main_start e common sect s = Some (Inr (?z, t))" using c d a t(1) assms(5,7) by (simp add: main_start_def)
  moreover obtain ds ss where ls: "loop_lists L' [] [] ds ss" using t(2) unfolding idles_def by blast
  have "NULL \<notin> fst ` set (heap L')" using loop_lists_places(6) [OF ls] loop_listsD(4) [OF ls] by simp
  then have "map_of (heap L') NULL = None" by (simp add: map_of_eq_None_iff)
  then have "event_source_remove NULL L' = None" by (simp add: event_source_remove_def)
  moreover have "close_all (replicate n (None :: ('a, 'b) client option)) L' = Some L'" for n by (induction n) auto
  ultimately show ?thesis by (intro exI [of _ ?z] exI [of _ t]) (simp add: main_end_def zebra_server_destroy_def)
qed

theorem port_in_use_crashes_at_exit_witness:
  "\<exists>z t. main_start sample_env [] [sample_elem] (sample_startup\<lparr>bound := False\<rparr>) = Some (Inr (z, t)) \<and> main_end 3 z t = None"
proof -
  let ?s = "sample_startup\<lparr>bound := False\<rparr>"
  have h: "loop_mem ?s" "0 \<le> epfd ?s" "0 \<le> sock ?s" "\<not> bound ?s" "1 < sock_err ?s" "\<forall>i. conn_mem (tconn ?s) i" "ctl_ok (tconn ?s)"
    "src_addr (tconn ?s) \<notin> heads" "src_addr (tconn ?s) \<noteq> NULL"
    by (simp_all add: sample_startup_def heads_def NULL_def)
  from port_in_use_crashes_at_exit [OF h sample_world_ok(2), of sample_env 3] show ?thesis by blast
qed

text \<open>A connection that \<open>epoll_ctl\<close> does not add is closed by the event loop and again by the server.\<close>

lemma rejected_connection_closed_twice:
  assumes "holds (zloop z) (source z) (zfd z)" "idles (zloop z) []" "0 \<le> cfd c" "free_slot (clients z) \<noteq> None" "\<not> ctl_ok c"
    and "fresh (src_addr c) (zloop z)" "\<forall>i. conn_mem c i"
  shows "\<exists>z'. zebra_accept e common sect c z = Some (-1, z') \<and> closed (zloop z') = closed (zloop z) @ [cfd c, cfd c]"
proof -
  obtain x L where L: "event_source_fd_update (source z) 1 (update_ok c) (zloop z) = Some (x, L)" "idles L []" "closed L = closed (zloop z)" "heap L = heap (zloop z)"
    using update_holds [OF assms(2,1), of 1 "update_ok c"] by blast
  have fr: "fresh (src_addr c) L" using assms(6) L(4) by (simp add: fresh_def)
  let ?s = "\<lparr>interface = Fd_source Term_handle_input (cfd c), src_fd = cfd c\<rparr>"
  obtain r L' where "add_source (src_addr c) ?s 2 False L = Some (r, L')" using add_source_idles [OF L(2) fr, of ?s 2 False] by (auto simp: is_idle_def)
  then have "event_loop_add_fd (src_addr c) (cfd c) True 2 Term_handle_input 0 False L = Some (NULL, L')" "closed L' = closed L @ [cfd c]"
    using assms(3) fr by (auto simp: event_loop_add_fd_def add_source_def fresh_def bind_eq_Some_conv)
  then show ?thesis using assms(3-5,7) L(1,3) by (auto simp: zebra_accept_def term_open_def)
qed

end
