(* ===== verification/Spec2Isabelle.thy ===== *)
theory Spec2Isabelle
  imports Bin_Heap Str_Kpairs Cpuid_Info Mdio Vec Char_Range Utf8 Rq_Sort Re_Compile Server
begin

text \<open>
  \<^bold>\<open>Chaconne: a terminal server with a command line engine.\<close>

  The program reads keys from a console and from up to eight network clients, edits a command
  line for each of them, looks the line up in a tree of registered commands and runs the
  handler it finds.  This library models its parts as functions on explicit states and proves
  what each of them promises to the others.

  \<^bold>\<open>Conventions.\<close>  A byte is a \<open>char\<close>, a C string a list of characters without \<open>NUL\<close>; sizes
  are naturals where the code cannot wrap around and words where it can.  A memory error of
  the C code (a write behind an array, a null pointer, a second \<open>free\<close>) is the result
  \<open>None\<close> or a field \<open>fault\<close> of the state, never an unspecified value.  What the kernel and the
  allocator answer is an argument: \<open>al n\<close> says whether the \<open>n\<close>-th allocation succeeds.

  \<^bold>\<open>Foundations.\<close>
  \<^item> \<open>Prelude\<close>: types, \<open>errno\<close> values, buffers and the string functions of the C library.
  \<^item> \<open>Numerals\<close>: character classes, \<open>strtoul\<close> and the digits that \<open>printf\<close> writes, with their
    round trip.
  \<^item> \<open>Comparator\<close>, \<open>Prio_Queue\<close>, \<open>Key_Value\<close>: the contracts of a comparison function, of a
    priority queue and of a key-value store, as locales.  They are interpreted on \<open>strcmp\<close> and
    \<open>elem_compare\<close>, on the binary heap, on the hash table and on the flat string store.  The
    locale \<open>byte_queue\<close> (in \<open>Stream_Chain\<close>) is the contract of an output stream.

  \<^bold>\<open>Containers.\<close>
  \<^item> \<open>Stream_Chain\<close>, \<open>Stream_Filter\<close> (stream.c): the chain of 4096 byte nodes is a byte queue; a put
    is all or nothing; a flush writes a prefix and keeps the rest; the regular expression filter
    treats each line by itself, as long as lines are below 8192 bytes.
  \<^item> \<open>Hash_Table\<close> (hashtable.c): every sequence of operations is observed as on a map; clearing
    releases each key and value once.
  \<^item> \<open>Bin_Heap\<close> (heap.c): filling and draining sorts; updating a key restores the order.
  \<^item> \<open>Linked_List\<close> (list.h): the pointer operations on a store refine operations on sequences.
  \<^item> \<open>Str_Kpairs\<close> (str-kpairs.c): the flat buffer of strings refines a map of bounded size.
  \<^item> \<open>Vec\<close> (vector.c): the growing array, and where its growth goes wrong.
  \<^item> \<open>Char_Range\<close> (libunicode.c): sets of code points as sorted interval lists; every sequence of
    set operations keeps the list well-formed and gives the set it should.
  \<^item> \<open>Utf8\<close>, \<open>Rq_Sort\<close> (cutils.c): UTF-8 decoding is exactly the inverse of encoding; the quicksort with
    its own stack sorts arrays of every length and never overflows that stack.
  \<^bold>\<open>Command line engine\<close> (cli-tree.c).
  \<^item> \<open>Cmd_Tree\<close>: tokens, nodes, the parser of command descriptions, adding and deleting;
    \<open>Cmd_Register\<close>: what registering a line of literal words does to the paths of the tree.
  \<^item> \<open>Cmd_Opt\<close>: the arguments and keyword arguments of a command.
  \<^item> \<open>Cmd_Search\<close>, \<open>Search_Spec\<close>: splitting a line and walking down the tree; the walk is safe when
    the line fits the array of arguments, and a registered command is found, whatever is
    registered besides it.
  \<^item> \<open>Cmd_Complete\<close>: completion and help list exactly the matching candidates.
  \<^item> \<open>Cmd_Execute\<close>: from a line to the call of the handler, with the include filter and the pipe to
    a shell command.
  \<^item> \<open>Commands\<close> (cli-command.c, calc\_cmd.c, test.c): the handlers of the built-in commands.

  \<^bold>\<open>Terminal\<close> (cli-term.c).
  \<^item> \<open>Term_History\<close>: the ring of the last lines and the navigation in it.
  \<^item> \<open>Term_Edit\<close>, \<open>Term_Line\<close>, \<open>Term_Screen\<close>: the editing functions, what they do to the line, and
    what they send to the screen.
  \<^item> \<open>Term_Read\<close>: the key dispatcher with its escape and telnet option states.
  \<^item> \<open>Line_Editor\<close>: the keys refine an abstract editor, and the screen shows the line.
  \<^item> \<open>Term_Session\<close>: an invariant of the terminal for everything a session can do.

  \<^bold>\<open>Server\<close> (event-loop.c, main.c).
  \<^item> \<open>Event_Loop\<close>: sources in intrusive lists, deferred destruction, dispatching with callbacks that
    add, change and remove sources themselves; the loop never touches a freed source.
  \<^item> \<open>Server\<close>: accepting clients, closing those that want to exit, start and end of \<open>main\<close>; every
    connection is closed once.

  \<^bold>\<open>Register tools.\<close>
  \<^item> \<open>Range_Parse\<close> (range.c), \<open>Cpuid_Info\<close> (cpuid\_info.c), \<open>Mdio\<close> (mdio.c): the state machines of the
    three small languages, with their round trips, and reading and writing of bit fields.

  \<^bold>\<open>Bounds and termination.\<close>  Loops over data are structural recursions or functions with a
  measure; the driver of \<open>rqsort\<close> is a partial function that is proved to return.  Recursions along
  pointers have fuel: \<open>list_for_each\<close>, where the refinement theorem shows that the number of entries
  is enough, \<open>cmd_tree_delete\<close>, for which the number of nodes is, and \<open>cmd_tree_dump\<close>, which stops at the 32
  levels it has room for.  In \<open>Event_Loop\<close> idle
  callbacks may add idle sources without end, so the dispatch loops have fuel too; running out of
  it is the outcome \<open>Fuel\<close>, distinct from a crash, and \<open>idle_callbacks_run_once\<close> shows how much is
  needed.

  \<^bold>\<open>Not modelled.\<close>  The regular expression engine (libregexp.c) is a parameter of the stream filter: what
  it answers for a line is a function, and the theorems hold for every such function.  The Unicode
  tables are data for that engine.  The calculator is written in the languages of bison and flex.
  The unit tests under t are no part of the program.
\<close>

end
